(* ===== verification/Nsd_Prelude.thy ===== *)
theory Nsd_Prelude
  imports Main "HOL-Library.Word" "HOL-Library.Monad_Syntax"
begin

text \<open>
  Shared vocabulary of the development: the machine types of the C sources, the
  modelling of \<open>assert\<close> and of reads and writes through pointers into a byte array,
  and the generic list and option lemmas that the component theories rely on.

  A C function that may violate an \<open>assert\<close> or touch memory outside an object
  returns an \<^typ>\<open>'a option\<close>; \<^term>\<open>None\<close> is the violated assertion (or the
  undefined access), and every error the C code reports itself is an ordinary value.
  The bind operator of \<open>option\<close> sequences such functions.
\<close>

unbundle bit_operations_syntax

type_synonym byte = "8 word"
type_synonym u16 = "16 word"
type_synonym u32 = "32 word"
type_synonym u64 = "64 word"

named_theorems opt_exec \<open>symbolic execution of option computations\<close>

subsection \<open>Assertions\<close>

definition assert_c :: "bool \<Rightarrow> unit option" where
  "assert_c P = (if P then Some () else None)"

lemma assert_c_bind [opt_exec, simp]: "(assert_c P \<bind> f) = (if P then f () else None)"
  by (simp add: assert_c_def)

lemma assert_c_Some [simp]: "assert_c P = Some u \<longleftrightarrow> P"
  by (simp add: assert_c_def)

declare Option.bind_cong [fundef_cong]

subsection \<open>Characters of the C locale\<close>

definition tolower :: "char \<Rightarrow> char" where
  "tolower c = (if 65 \<le> (of_char c :: nat) \<and> (of_char c :: nat) \<le> 90 then char_of ((of_char c :: nat) + 32) else c)"

text \<open>\<open>strcasecmp\<close> and \<open>strncasecmp\<close> are used only for equality.\<close>

definition strcaseeq :: "string \<Rightarrow> string \<Rightarrow> bool" where
  "strcaseeq s t \<longleftrightarrow> map tolower s = map tolower t"

definition is_digit :: "char \<Rightarrow> bool" where
  "is_digit c \<longleftrightarrow> 48 \<le> (of_char c :: nat) \<and> (of_char c :: nat) \<le> 57"

subsection \<open>Byte arrays: memcpy into and out of an array\<close>

definition mem_read :: "nat \<Rightarrow> nat \<Rightarrow> 'a list \<Rightarrow> 'a list" where
  "mem_read at n xs = take n (drop at xs)"

definition mem_write :: "nat \<Rightarrow> 'a list \<Rightarrow> 'a list \<Rightarrow> 'a list" where
  "mem_write at ys xs = take at xs @ ys @ drop (at + length ys) xs"

lemma length_mem_read [simp]: "at + n \<le> length xs \<Longrightarrow> length (mem_read at n xs) = n"
  by (simp add: mem_read_def)

lemma length_mem_write [simp]: "at + length ys \<le> length xs \<Longrightarrow> length (mem_write at ys xs) = length xs"
  by (simp add: mem_write_def)

lemma mem_write_nil [simp]: "mem_write at [] xs = xs"
  by (simp add: mem_write_def)

lemma take_mem_write:
  "n \<le> at \<Longrightarrow> at \<le> length xs \<Longrightarrow> take n (mem_write at ys xs) = take n xs"
  by (simp add: mem_write_def)

lemma take_mem_write_end:
  "at \<le> length xs \<Longrightarrow> take (at + length ys) (mem_write at ys xs) = take at xs @ ys"
  by (simp add: mem_write_def)

lemma mem_read_write_same [simp]:
  "at \<le> length xs \<Longrightarrow> mem_read at (length ys) (mem_write at ys xs) = ys"
  by (simp add: mem_write_def mem_read_def)

lemma mem_read_write_before:
  "a + n \<le> at \<Longrightarrow> at \<le> length xs \<Longrightarrow> mem_read a n (mem_write at ys xs) = mem_read a n xs"
  by (simp add: mem_write_def mem_read_def take_drop)

lemma mem_read_write_after:
  "at + length ys \<le> a \<Longrightarrow> at \<le> length xs \<Longrightarrow>
    mem_read a n (mem_write at ys xs) = mem_read a n xs"
  by (simp add: mem_write_def mem_read_def)

lemma nth_mem_write:
  "at + length ys \<le> length xs \<Longrightarrow> i < length xs \<Longrightarrow>
    mem_write at ys xs ! i = (if at \<le> i \<and> i < at + length ys then ys ! (i - at) else xs ! i)"
  by (auto simp: mem_write_def nth_append)

lemma mem_write_append:
  "at + length ys + length zs \<le> length xs \<Longrightarrow>
    mem_write (at + length ys) zs (mem_write at ys xs) = mem_write at (ys @ zs) xs"
  by (simp add: mem_write_def ac_simps)

lemma mem_read_nth: "i < n \<Longrightarrow> at + i < length xs \<Longrightarrow> mem_read at n xs ! i = xs ! (at + i)"
  by (simp add: mem_read_def)

lemma mem_read_split: "mem_read at (m + n) xs = mem_read at m xs @ mem_read (at + m) n xs"
  by (simp add: mem_read_def take_add add.commute)

lemma mem_read_take: "at + n \<le> m \<Longrightarrow> mem_read at n (take m xs) = mem_read at n xs"
  by (simp add: mem_read_def take_drop min_def)

lemma drop_mem_write_before:
  "n \<le> at \<Longrightarrow> at \<le> length xs \<Longrightarrow> drop n (mem_write at ys xs) = mem_write (at - n) ys (drop n xs)"
  by (simp add: mem_write_def drop_take add.commute)

text \<open>Reading one byte through a pointer: \<^term>\<open>None\<close> outside the array.\<close>

definition mem_get :: "'a list \<Rightarrow> nat \<Rightarrow> 'a option" where
  "mem_get xs i = (if i < length xs then Some (xs ! i) else None)"

lemma mem_get_Some [simp]: "i < length xs \<Longrightarrow> mem_get xs i = Some (xs ! i)"
  by (simp add: mem_get_def)

lemma mem_get_eq_Some: "mem_get xs i = Some x \<longleftrightarrow> i < length xs \<and> xs ! i = x"
  by (simp add: mem_get_def)

subsection \<open>Words\<close>

lemma unat_u16_less: "unat (w :: u16) < 65536"
  using unsigned_less [of w] by simp

lemma unat_byte_less: "unat (w :: byte) < 256"
  using unsigned_less [of w] by simp

lemma unat_u32_less: "unat (w :: u32) < 4294967296"
  using unsigned_less [of w] by simp

lemma byte_le_255: "unat (w :: byte) \<le> 255"
  using unat_byte_less [of w] by simp

lemma unat_byte_of_nat: "n < 256 \<Longrightarrow> unat (of_nat n :: byte) = n"
  by (simp add: unat_of_nat)

lemma unat_u16_of_nat: "n < 65536 \<Longrightarrow> unat (of_nat n :: u16) = n"
  by (simp add: unat_of_nat)

lemma byte_eqI:
  fixes x y :: byte
  assumes "bit x 0 = bit y 0" "bit x 1 = bit y 1" "bit x 2 = bit y 2" "bit x 3 = bit y 3"
    "bit x 4 = bit y 4" "bit x 5 = bit y 5" "bit x 6 = bit y 6" "bit x 7 = bit y 7"
  shows "x = y"
proof (rule bit_word_eqI)
  fix n assume "n < LENGTH(8)"
  then have "n \<in> {0, 1, 2, 3, 4, 5, 6, 7}" by auto
  then show "bit x n = bit y n" using assms by (elim insertE emptyE) simp_all
qed

text \<open>The two top bits of a label's first byte tell what kind of label it is.\<close>

lemma and_c0_eq: "(c :: byte) AND 0xc0 = push_bit 6 (drop_bit 6 c)"
proof -
  have "(0xc0 :: byte) = NOT (mask 6)" by (simp add: mask_eq_exp_minus_1)
  then have "c AND 0xc0 = c AND NOT (mask 6)" by (rule arg_cong)
  also have "\<dots> = push_bit 6 (drop_bit 6 c)"
    by (rule bit_word_eqI) (auto simp: bit_simps simp del: mask_eq_exp_minus_1)
  finally show ?thesis .
qed

lemma unat_and_c0: "unat ((c :: byte) AND 0xc0) = 64 * (unat c div 64)"
proof -
  have "unat c div 64 < 4" using unat_byte_less [of c] by linarith
  then have "take_bit 8 (64 * (unat c div 64)) = 64 * (unat c div 64)"
    by (simp add: take_bit_nat_eq_self_iff)
  moreover have "unat (c AND 0xc0) = take_bit 8 (push_bit 6 (drop_bit 6 (unat c)))"
  proof -
    have "take_bit 8 (unat c) = unat c"
      using unat_byte_less [of c] by (simp add: take_bit_nat_eq_self_iff)
    then show ?thesis
      unfolding and_c0_eq unsigned_push_bit_eq unsigned_drop_bit_eq by simp
  qed
  ultimately show ?thesis
    by (simp add: push_bit_eq_mult drop_bit_eq_div mult.commute)
qed

lemma and_c0_zero: "(c :: byte) AND 0xc0 = 0 \<longleftrightarrow> unat c < 64"
  unfolding unat_eq_0 [symmetric] unat_and_c0 by auto

lemma and_c0_c0: "(c :: byte) AND 0xc0 = 0xc0 \<longleftrightarrow> 192 \<le> unat c"
proof -
  have "64 * (unat c div 64) = 192 \<longleftrightarrow> 192 \<le> unat c"
  proof
    assume "64 * (unat c div 64) = 192"
    then show "192 \<le> unat c" by linarith
  next
    assume "192 \<le> unat c"
    then have "unat c div 64 = 3"
      using unat_byte_less [of c] by (intro div_nat_eqI) simp_all
    then show "64 * (unat c div 64) = 192" by simp
  qed
  then have "unat (c AND 0xc0) = unat (0xc0 :: byte) \<longleftrightarrow> 192 \<le> unat c"
    by (simp add: unat_and_c0)
  then show ?thesis by (simp add: word_unat_eq_iff)
qed

end
