(* ===== verification/Buffer.thy ===== *)
theory Buffer
  imports Nsd_Prelude
begin

text \<open>
  The packet buffer of \<open>buffer.h\<close> and \<open>buffer.c\<close>, with the network byte order
  accessors of \<open>util.h\<close>. The record \<open>buffer\<close> is \<open>struct buffer\<close>: \<open>_data\<close>
  is the byte array itself, its length is the allocated size. Every \<open>assert\<close> of
  the C code is a guard, and a function whose assertion fails returns \<^term>\<open>None\<close>;
  the lemmas show under which condition no operation fails, and that every operation
  keeps the invariant the code asserts in \<open>buffer_invariant\<close>.
\<close>

subsection \<open>Network byte order (util.h)\<close>

definition write_uint16 :: "u16 \<Rightarrow> byte list" where
  "write_uint16 d = [ucast (drop_bit 8 d AND 0xff), ucast (d AND 0xff)]"

definition write_uint32 :: "u32 \<Rightarrow> byte list" where
  "write_uint32 d =
     [ucast (drop_bit 24 d AND 0xff), ucast (drop_bit 16 d AND 0xff),
      ucast (drop_bit 8 d AND 0xff), ucast (d AND 0xff)]"

definition write_uint64 :: "u64 \<Rightarrow> byte list" where
  "write_uint64 d =
     [ucast (drop_bit 56 d AND 0xff), ucast (drop_bit 48 d AND 0xff),
      ucast (drop_bit 40 d AND 0xff), ucast (drop_bit 32 d AND 0xff),
      ucast (drop_bit 24 d AND 0xff), ucast (drop_bit 16 d AND 0xff),
      ucast (drop_bit 8 d AND 0xff), ucast (d AND 0xff)]"

definition read_uint16 :: "byte list \<Rightarrow> u16" where
  "read_uint16 p = push_bit 8 (ucast (p ! 0)) OR ucast (p ! 1)"

definition read_uint32 :: "byte list \<Rightarrow> u32" where
  "read_uint32 p = push_bit 24 (ucast (p ! 0)) OR push_bit 16 (ucast (p ! 1))
     OR push_bit 8 (ucast (p ! 2)) OR ucast (p ! 3)"

definition read_uint64 :: "byte list \<Rightarrow> u64" where
  "read_uint64 p =
     push_bit 56 (ucast (p ! 0)) OR push_bit 48 (ucast (p ! 1)) OR
     push_bit 40 (ucast (p ! 2)) OR push_bit 32 (ucast (p ! 3)) OR
     push_bit 24 (ucast (p ! 4)) OR push_bit 16 (ucast (p ! 5)) OR
     push_bit 8 (ucast (p ! 6)) OR ucast (p ! 7)"

lemma length_write_uint [simp]:
  "length (write_uint16 d2) = 2" "length (write_uint32 d4) = 4" "length (write_uint64 d8) = 8"
  by (simp_all add: write_uint16_def write_uint32_def write_uint64_def)

lemma ucast_and_ff [simp]: "(ucast (x AND 0xff) :: byte) = ucast (x :: 'a::len word)"
proof -
  have "(0xff :: 'a word) = mask 8"
    by (simp add: mask_eq_exp_minus_1)
  then have "x AND 0xff = take_bit 8 x"
    by (simp add: take_bit_eq_mask)
  then show ?thesis
    by (simp add: unsigned_take_bit_eq) (simp add: bit_eq_iff bit_simps)
qed

lemma bit_byte_of:
  fixes d :: "'a::len word"
  assumes "n < LENGTH('a)"
  shows "bit (push_bit k (ucast (ucast (drop_bit k d) :: byte)) :: 'a word) n
           \<longleftrightarrow> k \<le> n \<and> n < k + 8 \<and> bit d n"
  using assms by (auto simp: bit_simps)

lemma bit_low_byte_of:
  fixes d :: "'a::len word"
  assumes "n < LENGTH('a)"
  shows "bit (ucast (ucast d :: byte) :: 'a word) n \<longleftrightarrow> n < 8 \<and> bit d n"
  using assms by (auto simp: bit_simps)

lemmas byte_bits = bit_byte_of bit_low_byte_of bit_or_iff

lemma read_write_uint16 [simp]: "read_uint16 (write_uint16 d) = d"
proof (rule bit_word_eqI)
  fix n assume "n < LENGTH(16)"
  then show "bit (read_uint16 (write_uint16 d)) n = bit d n"
    by (simp add: read_uint16_def write_uint16_def byte_bits) linarith
qed

lemma read_write_uint32 [simp]: "read_uint32 (write_uint32 d) = d"
proof (rule bit_word_eqI)
  fix n assume "n < LENGTH(32)"
  then show "bit (read_uint32 (write_uint32 d)) n = bit d n"
    by (simp add: read_uint32_def write_uint32_def byte_bits) linarith
qed

lemma read_write_uint64 [simp]: "read_uint64 (write_uint64 d) = d"
proof (rule bit_word_eqI)
  fix n assume "n < LENGTH(64)"
  then show "bit (read_uint64 (write_uint64 d)) n = bit d n"
    by (simp add: read_uint64_def write_uint64_def byte_bits) linarith
qed

subsection \<open>The buffer\<close>

record buffer =
  buf_position :: nat
  buf_limit :: nat
  buf_capacity :: nat
  buf_data :: "byte list"
  buf_fixed :: bool

definition buffer_invariant :: "buffer \<Rightarrow> bool" where
  "buffer_invariant b \<longleftrightarrow> buf_position b \<le> buf_limit b \<and> buf_limit b \<le> buf_capacity b"

text \<open>The allocation behind \<open>_data\<close> has \<open>_capacity\<close> bytes, a \<open>size_t\<close>.\<close>

definition buffer_wf :: "buffer \<Rightarrow> bool" where
  "buffer_wf b \<longleftrightarrow> buffer_invariant b \<and> length (buf_data b) = buf_capacity b \<and>
     buf_capacity b < 2 ^ 64"

text \<open>Bytes that \<open>malloc\<close> and \<open>realloc\<close> leave indeterminate are the parameter \<open>u\<close>.\<close>

definition buffer_create :: "(nat \<Rightarrow> byte) \<Rightarrow> nat \<Rightarrow> buffer" where
  "buffer_create u capacity =
     \<lparr>buf_position = 0, buf_limit = capacity, buf_capacity = capacity,
      buf_data = map u [0..<capacity], buf_fixed = False\<rparr>"

definition buffer_create_from :: "byte list \<Rightarrow> nat \<Rightarrow> buffer" where
  "buffer_create_from dat sz =
     \<lparr>buf_position = 0, buf_limit = sz, buf_capacity = sz, buf_data = dat, buf_fixed = True\<rparr>"

definition buffer_clear :: "buffer \<Rightarrow> buffer option" where
  "buffer_clear b = do {
     assert_c (buffer_invariant b);
     Some (b\<lparr>buf_position := 0, buf_limit := buf_capacity b\<rparr>) }"

definition buffer_flip :: "buffer \<Rightarrow> buffer option" where
  "buffer_flip b = do {
     assert_c (buffer_invariant b);
     Some (b\<lparr>buf_limit := buf_position b, buf_position := 0\<rparr>) }"

definition buffer_rewind :: "buffer \<Rightarrow> buffer option" where
  "buffer_rewind b = do {
     assert_c (buffer_invariant b);
     Some (b\<lparr>buf_position := 0\<rparr>) }"

definition buffer_set_position :: "buffer \<Rightarrow> nat \<Rightarrow> buffer option" where
  "buffer_set_position b mark = do {
     assert_c (mark \<le> buf_limit b);
     Some (b\<lparr>buf_position := mark\<rparr>) }"

text \<open>
  \<open>buffer_skip\<close> takes a \<open>ssize_t\<close>; the sum with the \<open>size_t\<close> position is
  computed modulo \<open>2 ^ 64\<close>.
\<close>

definition buffer_skip :: "buffer \<Rightarrow> int \<Rightarrow> buffer option" where
  "buffer_skip b cnt = (let p = nat ((int (buf_position b) + cnt) mod 2 ^ 64) in do {
     assert_c (p \<le> buf_limit b);
     Some (b\<lparr>buf_position := p\<rparr>) })"

definition buffer_set_limit :: "buffer \<Rightarrow> nat \<Rightarrow> buffer option" where
  "buffer_set_limit b lim = do {
     assert_c (lim \<le> buf_capacity b);
     Some (if buf_position b > lim then b\<lparr>buf_limit := lim, buf_position := lim\<rparr>
           else b\<lparr>buf_limit := lim\<rparr>) }"

definition buffer_set_capacity :: "(nat \<Rightarrow> byte) \<Rightarrow> buffer \<Rightarrow> nat \<Rightarrow> buffer option" where
  "buffer_set_capacity u b capacity = do {
     assert_c (buffer_invariant b);
     assert_c (buf_position b \<le> capacity);
     Some (b\<lparr>buf_data := take capacity (buf_data b) @ map u [0..<capacity - length (buf_data b)],
             buf_limit := capacity, buf_capacity := capacity\<rparr>) }"

definition buffer_reserve :: "(nat \<Rightarrow> byte) \<Rightarrow> buffer \<Rightarrow> nat \<Rightarrow> buffer option" where
  "buffer_reserve u b amount = do {
     assert_c (buffer_invariant b);
     assert_c (\<not> buf_fixed b);
     b \<leftarrow> (if buf_capacity b < buf_position b + amount
           then let n = buf_capacity b * 3 div 2;
                    new_capacity = (if n < buf_position b + amount then buf_position b + amount else n)
                in buffer_set_capacity u b new_capacity
           else Some b);
     Some (b\<lparr>buf_limit := buf_capacity b\<rparr>) }"

text \<open>Dereferencing the pointer that \<open>buffer_at\<close> returns.\<close>

definition buffer_at :: "buffer \<Rightarrow> nat \<Rightarrow> byte option" where
  "buffer_at b at = do { assert_c (at \<le> buf_limit b); mem_get (buf_data b) at }"

definition buffer_set_at :: "buffer \<Rightarrow> nat \<Rightarrow> byte \<Rightarrow> buffer option" where
  "buffer_set_at b at v = do {
     assert_c (at \<le> buf_limit b \<and> at < length (buf_data b));
     Some (b\<lparr>buf_data := (buf_data b)[at := v]\<rparr>) }"

definition buffer_remaining_at :: "buffer \<Rightarrow> nat \<Rightarrow> nat option" where
  "buffer_remaining_at b at = do {
     assert_c (buffer_invariant b);
     assert_c (at \<le> buf_limit b);
     Some (buf_limit b - at) }"

definition buffer_remaining :: "buffer \<Rightarrow> nat option" where
  "buffer_remaining b = buffer_remaining_at b (buf_position b)"

definition buffer_available_at :: "buffer \<Rightarrow> nat \<Rightarrow> nat \<Rightarrow> bool option" where
  "buffer_available_at b at cnt = do { r \<leftarrow> buffer_remaining_at b at; Some (cnt \<le> r) }"

definition buffer_available :: "buffer \<Rightarrow> nat \<Rightarrow> bool option" where
  "buffer_available b cnt = buffer_available_at b (buf_position b) cnt"

definition buffer_write_at :: "buffer \<Rightarrow> nat \<Rightarrow> byte list \<Rightarrow> buffer option" where
  "buffer_write_at b at dat = do {
     ok \<leftarrow> buffer_available_at b at (length dat);
     assert_c ok;
     Some (b\<lparr>buf_data := mem_write at dat (buf_data b)\<rparr>) }"

definition buffer_write :: "buffer \<Rightarrow> byte list \<Rightarrow> buffer option" where
  "buffer_write b dat = do {
     b' \<leftarrow> buffer_write_at b (buf_position b) dat;
     Some (b'\<lparr>buf_position := buf_position b' + length dat\<rparr>) }"

definition buffer_write_u8 :: "buffer \<Rightarrow> byte \<Rightarrow> buffer option" where
  "buffer_write_u8 b d = buffer_write b [d]"

definition buffer_write_u16_at :: "buffer \<Rightarrow> nat \<Rightarrow> u16 \<Rightarrow> buffer option" where
  "buffer_write_u16_at b at d = buffer_write_at b at (write_uint16 d)"

definition buffer_write_u16 :: "buffer \<Rightarrow> u16 \<Rightarrow> buffer option" where
  "buffer_write_u16 b d = buffer_write b (write_uint16 d)"

definition buffer_write_u32 :: "buffer \<Rightarrow> u32 \<Rightarrow> buffer option" where
  "buffer_write_u32 b d = buffer_write b (write_uint32 d)"

definition buffer_write_u64 :: "buffer \<Rightarrow> u64 \<Rightarrow> buffer option" where
  "buffer_write_u64 b d = buffer_write b (write_uint64 d)"

definition buffer_read_at :: "buffer \<Rightarrow> nat \<Rightarrow> nat \<Rightarrow> byte list option" where
  "buffer_read_at b at cnt = do {
     ok \<leftarrow> buffer_available_at b at cnt;
     assert_c ok;
     Some (mem_read at cnt (buf_data b)) }"

definition buffer_read :: "buffer \<Rightarrow> nat \<Rightarrow> (byte list \<times> buffer) option" where
  "buffer_read b cnt = do {
     dat \<leftarrow> buffer_read_at b (buf_position b) cnt;
     Some (dat, b\<lparr>buf_position := buf_position b + cnt\<rparr>) }"

definition buffer_read_u8 :: "buffer \<Rightarrow> (byte \<times> buffer) option" where
  "buffer_read_u8 b = do { (d, b) \<leftarrow> buffer_read b 1; Some (d ! 0, b) }"

definition buffer_read_u16_at :: "buffer \<Rightarrow> nat \<Rightarrow> u16 option" where
  "buffer_read_u16_at b at = do { d \<leftarrow> buffer_read_at b at 2; Some (read_uint16 d) }"

definition buffer_read_u16 :: "buffer \<Rightarrow> (u16 \<times> buffer) option" where
  "buffer_read_u16 b = do { (d, b) \<leftarrow> buffer_read b 2; Some (read_uint16 d, b) }"

definition buffer_read_u32 :: "buffer \<Rightarrow> (u32 \<times> buffer) option" where
  "buffer_read_u32 b = do { (d, b) \<leftarrow> buffer_read b 4; Some (read_uint32 d, b) }"

definition buffer_read_u64 :: "buffer \<Rightarrow> (u64 \<times> buffer) option" where
  "buffer_read_u64 b = do { (d, b) \<leftarrow> buffer_read b 8; Some (read_uint64 d, b) }"

subsection \<open>Execution on a well-formed buffer\<close>

lemma buffer_wf_unfold:
  "buffer_wf b \<longleftrightarrow> buf_position b \<le> buf_limit b \<and> buf_limit b \<le> buf_capacity b \<and>
     length (buf_data b) = buf_capacity b \<and> buf_capacity b < 2 ^ 64"
  by (auto simp: buffer_wf_def buffer_invariant_def)

lemma buffer_wf_position [simp]:
  "buffer_wf b \<Longrightarrow> buffer_wf (b\<lparr>buf_position := q\<rparr>) \<longleftrightarrow> q \<le> buf_limit b"
  by (auto simp: buffer_wf_unfold)

lemma buffer_wfD:
  assumes "buffer_wf b"
  shows "buffer_invariant b" "buf_position b \<le> buf_limit b" "buf_limit b \<le> buf_capacity b"
    "length (buf_data b) = buf_capacity b" "buf_limit b \<le> length (buf_data b)"
    "buf_limit b < 2 ^ 64" "buf_capacity b < 2 ^ 64"
  using assms by (auto simp: buffer_wf_unfold buffer_invariant_def)

lemma position_self [simp]: "b\<lparr>buf_position := buf_position b\<rparr> = b"
  by simp

lemma buffer_available_at_wf [opt_exec]:
  "buffer_wf b \<Longrightarrow> at \<le> buf_limit b \<Longrightarrow> buffer_available_at b at n = Some (at + n \<le> buf_limit b)"
  by (auto simp: buffer_available_at_def buffer_remaining_at_def buffer_wfD)

lemma buffer_available_wf [opt_exec]:
  "buffer_wf b \<Longrightarrow> buffer_available b n = Some (buf_position b + n \<le> buf_limit b)"
  by (simp add: buffer_available_def buffer_available_at_wf buffer_wfD)

lemma buffer_read_at_wf [opt_exec]:
  "buffer_wf b \<Longrightarrow> at + n \<le> buf_limit b \<Longrightarrow>
    buffer_read_at b at n = Some (mem_read at n (buf_data b))"
  by (simp add: buffer_read_at_def buffer_available_at_wf)

lemma buffer_read_wf [opt_exec]:
  "buffer_wf b \<Longrightarrow> buf_position b + n \<le> buf_limit b \<Longrightarrow>
    buffer_read b n = Some (mem_read (buf_position b) n (buf_data b),
                            b\<lparr>buf_position := buf_position b + n\<rparr>)"
  by (simp add: buffer_read_def buffer_read_at_wf)

lemma buffer_read_u8_wf [opt_exec]:
  "buffer_wf b \<Longrightarrow> buf_position b + 1 \<le> buf_limit b \<Longrightarrow>
    buffer_read_u8 b = Some (buf_data b ! buf_position b, b\<lparr>buf_position := buf_position b + 1\<rparr>)"
  using buffer_wfD(5) [of b]
  by (simp add: buffer_read_u8_def buffer_read_wf mem_read_nth)

lemma buffer_read_u16_at_wf [opt_exec]:
  "buffer_wf b \<Longrightarrow> at + 2 \<le> buf_limit b \<Longrightarrow>
    buffer_read_u16_at b at = Some (read_uint16 (mem_read at 2 (buf_data b)))"
  by (simp add: buffer_read_u16_at_def buffer_read_at_wf)

lemma buffer_read_u16_wf [opt_exec]:
  "buffer_wf b \<Longrightarrow> buf_position b + 2 \<le> buf_limit b \<Longrightarrow>
    buffer_read_u16 b = Some (read_uint16 (mem_read (buf_position b) 2 (buf_data b)),
                              b\<lparr>buf_position := buf_position b + 2\<rparr>)"
  by (simp add: buffer_read_u16_def buffer_read_wf)

lemma buffer_read_u32_wf [opt_exec]:
  "buffer_wf b \<Longrightarrow> buf_position b + 4 \<le> buf_limit b \<Longrightarrow>
    buffer_read_u32 b = Some (read_uint32 (mem_read (buf_position b) 4 (buf_data b)),
                              b\<lparr>buf_position := buf_position b + 4\<rparr>)"
  by (simp add: buffer_read_u32_def buffer_read_wf)

lemma buffer_read_u64_wf [opt_exec]:
  "buffer_wf b \<Longrightarrow> buf_position b + 8 \<le> buf_limit b \<Longrightarrow>
    buffer_read_u64 b = Some (read_uint64 (mem_read (buf_position b) 8 (buf_data b)),
                              b\<lparr>buf_position := buf_position b + 8\<rparr>)"
  by (simp add: buffer_read_u64_def buffer_read_wf)

lemma buffer_skip_wf [opt_exec]:
  assumes "buffer_wf b" "0 \<le> n" "int (buf_position b) + n \<le> int (buf_limit b)"
  shows "buffer_skip b n = Some (b\<lparr>buf_position := buf_position b + nat n\<rparr>)"
proof -
  have "int (buf_position b) + n < 2 ^ 64"
    using assms buffer_wfD(6) [OF assms(1)] by simp
  then have "nat ((int (buf_position b) + n) mod 2 ^ 64) = buf_position b + nat n"
    using assms by (simp add: nat_add_distrib)
  moreover have "buf_position b + nat n \<le> buf_limit b"
    using assms by linarith
  ultimately show ?thesis unfolding buffer_skip_def Let_def by simp
qed

lemma buffer_set_position_wf [opt_exec]:
  "q \<le> buf_limit b \<Longrightarrow> buffer_set_position b q = Some (b\<lparr>buf_position := q\<rparr>)"
  by (simp add: buffer_set_position_def)

lemma buffer_at_wf [opt_exec]:
  "buffer_wf b \<Longrightarrow> at < buf_limit b \<Longrightarrow> buffer_at b at = Some (buf_data b ! at)"
  using buffer_wfD(5) [of b] by (simp add: buffer_at_def)

lemma buffer_write_at_wf [opt_exec]:
  "buffer_wf b \<Longrightarrow> at + length d \<le> buf_limit b \<Longrightarrow>
    buffer_write_at b at d = Some (b\<lparr>buf_data := mem_write at d (buf_data b)\<rparr>)"
  by (simp add: buffer_write_at_def buffer_available_at_wf)

lemma buffer_write_wf [opt_exec]:
  "buffer_wf b \<Longrightarrow> buf_position b + length d \<le> buf_limit b \<Longrightarrow>
    buffer_write b d = Some (b\<lparr>buf_data := mem_write (buf_position b) d (buf_data b),
                               buf_position := buf_position b + length d\<rparr>)"
  by (simp add: buffer_write_def buffer_write_at_wf)

lemma buffer_wf_write:
  "buffer_wf b \<Longrightarrow> at + length d \<le> buf_limit b \<Longrightarrow> q \<le> buf_limit b \<Longrightarrow>
    buffer_wf (b\<lparr>buf_data := mem_write at d (buf_data b), buf_position := q\<rparr>)"
  by (auto simp: buffer_wf_unfold)

lemma buffer_wf_write_at:
  "buffer_wf b \<Longrightarrow> at + length d \<le> buf_limit b \<Longrightarrow>
    buffer_wf (b\<lparr>buf_data := mem_write at d (buf_data b)\<rparr>)"
  by (auto simp: buffer_wf_unfold)

subsection \<open>Sequences of writes and reads\<close>

text \<open>The buffer after \<open>bs\<close> has been written at its position.\<close>

definition written :: "buffer \<Rightarrow> byte list \<Rightarrow> buffer" where
  "written b bs = b\<lparr>buf_data := mem_write (buf_position b) bs (buf_data b),
                    buf_position := buf_position b + length bs\<rparr>"

lemma written_nil [simp]: "written b [] = b"
  by (simp add: written_def)

lemma written_sel [simp]:
  "buf_position (written b bs) = buf_position b + length bs" "buf_limit (written b bs) = buf_limit b"
  "buf_capacity (written b bs) = buf_capacity b" "buf_fixed (written b bs) = buf_fixed b"
  "buf_data (written b bs) = mem_write (buf_position b) bs (buf_data b)"
  by (simp_all add: written_def)

lemma written_wf [simp]:
  "buffer_wf b \<Longrightarrow> buf_position b + length bs \<le> buf_limit b \<Longrightarrow> buffer_wf (written b bs)"
  by (simp add: written_def buffer_wf_write)

lemma buffer_write_written:
  assumes "buffer_wf b" "buf_position b + length bs + length d \<le> buf_limit b"
  shows "buffer_write (written b bs) d = Some (written b (bs @ d))"
proof -
  have "mem_write (buf_position b + length bs) d (mem_write (buf_position b) bs (buf_data b)) =
      mem_write (buf_position b) (bs @ d) (buf_data b)"
    using assms buffer_wfD(5) [OF assms(1)] by (intro mem_write_append) simp
  moreover have "buffer_write (written b bs) d =
      Some (written b bs\<lparr>buf_data := mem_write (buf_position (written b bs)) d (buf_data (written b bs)),
                         buf_position := buf_position (written b bs) + length d\<rparr>)"
    using assms by (intro buffer_write_wf) simp_all
  ultimately show ?thesis by (simp add: written_def add.assoc)
qed

lemma mem_write_mem_read: "at + n \<le> length xs \<Longrightarrow> mem_write at (mem_read at n xs) xs = xs"
  by (metis append_take_drop_id drop_drop length_mem_read mem_read_def mem_write_def add.commute)

lemma buffer_skip_written:
  assumes "buffer_wf b" "buf_position b + length bs + 2 \<le> buf_limit b"
  shows "buffer_skip (written b bs) 2 =
    Some (written b (bs @ mem_read (buf_position b + length bs) 2 (buf_data b)))"
proof -
  let ?q = "buf_position b + length bs"
  have l: "?q + 2 \<le> length (buf_data b)" using assms buffer_wfD(5) [OF assms(1)] by simp
  let ?w = "mem_write (buf_position b) bs (buf_data b)"
  have rd: "mem_read ?q 2 (buf_data b) = mem_read ?q 2 ?w"
    using l by (intro mem_read_write_after [symmetric]) simp_all
  have "mem_write (buf_position b) (bs @ mem_read ?q 2 (buf_data b)) (buf_data b) =
      mem_write ?q (mem_read ?q 2 (buf_data b)) ?w"
    using l by (intro mem_write_append [symmetric]) simp
  also have "\<dots> = ?w"
    unfolding rd using l by (intro mem_write_mem_read) simp
  finally have "mem_write (buf_position b) (bs @ mem_read ?q 2 (buf_data b)) (buf_data b) = ?w" .
  moreover have "buffer_skip (written b bs) 2 =
      Some (written b bs\<lparr>buf_position := buf_position (written b bs) + nat 2\<rparr>)"
    using assms by (intro buffer_skip_wf) simp_all
  ultimately show ?thesis using l by (simp add: written_def)
qed

lemma mem_write_inner:
  assumes "length c' = length c" "at + length (a @ c @ d) \<le> length xs"
  shows "mem_write (at + length a) c' (mem_write at (a @ c @ d) xs) = mem_write at (a @ c' @ d) xs"
  using assms by (simp add: mem_write_def)

lemma buffer_write_u16_at_written:
  assumes "buffer_wf b" "buf_position b + length (a @ c @ d) \<le> buf_limit b" "length c = 2"
  shows "buffer_write_u16_at (written b (a @ c @ d)) (buf_position b + length a) v =
    Some (written b (a @ write_uint16 v @ d))"
proof -
  have "mem_write (buf_position b + length a) (write_uint16 v) (mem_write (buf_position b) (a @ c @ d) (buf_data b)) =
      mem_write (buf_position b) (a @ write_uint16 v @ d) (buf_data b)"
    using assms buffer_wfD(5) [OF assms(1)] by (intro mem_write_inner) simp_all
  moreover have "buffer_write_at (written b (a @ c @ d)) (buf_position b + length a) (write_uint16 v) =
      Some (written b (a @ c @ d)\<lparr>buf_data := mem_write (buf_position b + length a) (write_uint16 v)
        (buf_data (written b (a @ c @ d)))\<rparr>)"
    using assms by (intro buffer_write_at_wf) simp_all
  ultimately show ?thesis using assms(3) by (simp add: buffer_write_u16_at_def written_def)
qed

lemmas buffer_write_int_defs = buffer_write_u8_def buffer_write_u16_def buffer_write_u32_def buffer_write_u64_def

text \<open>The bytes \<open>bs\<close> lie at offset \<open>q\<close> of \<open>xs\<close>.\<close>

definition bytes_at :: "nat \<Rightarrow> byte list \<Rightarrow> byte list \<Rightarrow> bool" where
  "bytes_at q bs xs \<longleftrightarrow> q + length bs \<le> length xs \<and> mem_read q (length bs) xs = bs"

lemma bytes_at_append: "bytes_at q (a @ b) xs \<longleftrightarrow> bytes_at q a xs \<and> bytes_at (q + length a) b xs"
  by (auto simp: bytes_at_def mem_read_split append_eq_append_conv)

lemma bytes_at_decomp: "bytes_at q bs xs \<longleftrightarrow> (\<exists>pre post. xs = pre @ bs @ post \<and> length pre = q)"
proof
  assume "bytes_at q bs xs"
  then have "xs = take q xs @ bs @ drop (q + length bs) xs" "length (take q xs) = q"
    by (auto simp: bytes_at_def mem_read_def) (metis append_take_drop_id drop_drop add.commute)
  then show "\<exists>pre post. xs = pre @ bs @ post \<and> length pre = q" by blast
qed (auto simp: bytes_at_def mem_read_def)

lemma bytes_at_written:
  "buffer_wf b \<Longrightarrow> buf_position b + length bs \<le> buf_limit b \<Longrightarrow>
    bytes_at (buf_position b) bs (buf_data (written b bs))"
  by (auto simp: bytes_at_def buffer_wf_unfold)

lemma bytes_at_take: "q + length bs \<le> m \<Longrightarrow> bytes_at q bs xs \<Longrightarrow> bytes_at q bs (take m xs)"
  by (auto simp: bytes_at_def mem_read_take)

lemma read_at_bytes:
  assumes "buffer_wf b" "q + length bs \<le> buf_limit b" "bytes_at q bs (buf_data b)"
  shows "buffer_read (b\<lparr>buf_position := q\<rparr>) (length bs) = Some (bs, b\<lparr>buf_position := q + length bs\<rparr>)"
  using assms by (subst buffer_read_wf) (simp_all add: bytes_at_def)

lemma read_u16_bytes:
  assumes "buffer_wf b" "q + 2 \<le> buf_limit b" "bytes_at q (write_uint16 v) (buf_data b)"
  shows "buffer_read_u16 (b\<lparr>buf_position := q\<rparr>) = Some (v, b\<lparr>buf_position := q + 2\<rparr>)"
  using read_at_bytes [of b q "write_uint16 v"] assms by (simp add: buffer_read_u16_def)

lemma read_u32_bytes:
  assumes "buffer_wf b" "q + 4 \<le> buf_limit b" "bytes_at q (write_uint32 v) (buf_data b)"
  shows "buffer_read_u32 (b\<lparr>buf_position := q\<rparr>) = Some (v, b\<lparr>buf_position := q + 4\<rparr>)"
  using read_at_bytes [of b q "write_uint32 v"] assms by (simp add: buffer_read_u32_def)

subsection \<open>Every operation keeps the invariant\<close>

text \<open>
  One rule per operation of \<open>buffer.h\<close> and \<open>buffer.c\<close> that changes a buffer and
  whose assertions hold.
\<close>

inductive buffer_step :: "buffer \<Rightarrow> buffer \<Rightarrow> bool" where
  st_clear: "buffer_clear b = Some b' \<Longrightarrow> buffer_step b b'"
| st_flip: "buffer_flip b = Some b' \<Longrightarrow> buffer_step b b'"
| st_rewind: "buffer_rewind b = Some b' \<Longrightarrow> buffer_step b b'"
| st_set_position: "buffer_set_position b q = Some b' \<Longrightarrow> buffer_step b b'"
| st_skip: "buffer_skip b n = Some b' \<Longrightarrow> buffer_step b b'"
| st_set_limit: "buffer_set_limit b l = Some b' \<Longrightarrow> buffer_step b b'"
| st_set_capacity: "buffer_set_capacity u b c = Some b' \<Longrightarrow> c < 2 ^ 64 \<Longrightarrow> buffer_step b b'"
| st_reserve: "buffer_reserve u b a = Some b' \<Longrightarrow> buf_position b + a < 2 ^ 63 \<Longrightarrow>
    buf_capacity b < 2 ^ 63 \<Longrightarrow> buffer_step b b'"
| st_set_at: "buffer_set_at b at v = Some b' \<Longrightarrow> buffer_step b b'"
| st_write_at: "buffer_write_at b at d = Some b' \<Longrightarrow> buffer_step b b'"
| st_write: "buffer_write b d = Some b' \<Longrightarrow> buffer_step b b'"
| st_read: "buffer_read b n = Some (d, b') \<Longrightarrow> buffer_step b b'"

inductive buffer_reachable :: "buffer \<Rightarrow> bool" where
  create: "n < 2 ^ 64 \<Longrightarrow> buffer_reachable (buffer_create u n)"
| create_from: "length d = n \<Longrightarrow> n < 2 ^ 64 \<Longrightarrow> buffer_reachable (buffer_create_from d n)"
| step: "buffer_reachable b \<Longrightarrow> buffer_step b b' \<Longrightarrow> buffer_reachable b'"

lemmas buffer_op_defs =
  buffer_clear_def buffer_flip_def buffer_rewind_def buffer_set_position_def buffer_skip_def
  buffer_set_limit_def buffer_set_capacity_def buffer_reserve_def buffer_set_at_def
  buffer_write_at_def buffer_write_def buffer_read_def buffer_read_at_def
  buffer_available_at_def buffer_remaining_at_def

lemma buffer_step_wf: "buffer_step b b' \<Longrightarrow> buffer_wf b \<Longrightarrow> buffer_wf b'"
  by (induction rule: buffer_step.induct)
    (auto simp: buffer_op_defs buffer_wf_unfold Let_def bind_eq_Some_conv split: if_splits)

lemma buffer_reachable_wf: "buffer_reachable b \<Longrightarrow> buffer_wf b"
  by (induction rule: buffer_reachable.induct)
    (auto simp: buffer_create_def buffer_create_from_def buffer_wf_unfold dest: buffer_step_wf)

end
