(* ===== verification/Dname.thy ===== *)
theory Dname
  imports Buffer "HOL-Library.List_Lexorder" "HOL-Library.Sublist"
begin

text \<open>
  Domain names: \<open>dname.h\<close> and the binary part of \<open>dname.c\<close>, with the bit array of
  \<open>util.c\<close>. The record \<open>dname\<close> is \<open>struct dname\<close> with the two arrays that follow it
  in memory. A pointer into an array of bytes is the suffix of the array that starts
  there, so \<open>label[0]\<close> is the head of the list and reading through a pointer at the
  end of the array is \<^term>\<open>None\<close>.

  The specification view of a name is its list of labels, least significant first:
  \<open>wire\<close> is its wire format and \<open>dname_of\<close> the structure \<open>dname_make\<close> builds for
  it. The operations are characterised by what they do to label lists.
\<close>

definition MAXLABELLEN :: nat where "MAXLABELLEN = 63"
definition MAXDOMAINLEN :: nat where "MAXDOMAINLEN = 255"

record dname =
  name_size :: nat
  label_count :: nat
  label_offsets :: "byte list"
  dname_name :: "byte list"

subsection \<open>Labels (dname.h)\<close>

definition label_is_normal :: "byte list \<Rightarrow> bool option" where
  "label_is_normal l = do { c \<leftarrow> mem_get l 0; Some (c AND 0xc0 = 0) }"

definition label_is_pointer :: "byte list \<Rightarrow> bool option" where
  "label_is_pointer l = do { c \<leftarrow> mem_get l 0; Some (c AND 0xc0 = 0xc0) }"

definition label_pointer_location :: "byte list \<Rightarrow> u16 option" where
  "label_pointer_location l = do {
     p \<leftarrow> label_is_pointer l; assert_c p;
     c0 \<leftarrow> mem_get l 0; c1 \<leftarrow> mem_get l 1;
     Some (push_bit 8 (ucast (c0 AND NOT 0xc0)) OR ucast c1) }"

definition label_length :: "byte list \<Rightarrow> nat option" where
  "label_length l = do {
     n \<leftarrow> label_is_normal l; assert_c n;
     c \<leftarrow> mem_get l 0; Some (unat c) }"

definition label_data :: "byte list \<Rightarrow> byte list option" where
  "label_data l = do { n \<leftarrow> label_is_normal l; assert_c n; Some (drop 1 l) }"

definition label_is_root :: "byte list \<Rightarrow> bool option" where
  "label_is_root l = do { c \<leftarrow> mem_get l 0; Some (c = 0) }"

definition label_is_wildcard :: "byte list \<Rightarrow> bool option" where
  "label_is_wildcard l = do {
     c \<leftarrow> mem_get l 0;
     if c = 1 then do { c1 \<leftarrow> mem_get l 1; Some (c1 = 0x2a) } else Some False }"

definition label_next :: "byte list \<Rightarrow> byte list option" where
  "label_next l = do {
     n \<leftarrow> label_is_normal l; assert_c n;
     r \<leftarrow> label_is_root l; assert_c (\<not> r);
     len \<leftarrow> label_length l; Some (drop (len + 1) l) }"

definition dname_label :: "dname \<Rightarrow> nat \<Rightarrow> byte list option" where
  "dname_label d label = do {
     assert_c (label < label_count d);
     idx \<leftarrow> mem_get (label_offsets d) label;
     assert_c (unat idx < name_size d);
     Some (drop (unat idx) (dname_name d)) }"

definition dname_total_size :: "dname \<Rightarrow> nat" where
  "dname_total_size d = 2 + (label_count d + name_size d) * 1"

subsection \<open>Building a name (dname.c)\<close>

text \<open>\<open>DNAME_NORMALIZE\<close> is \<open>tolower\<close> in the default configuration (C locale).\<close>

definition DNAME_NORMALIZE :: "byte \<Rightarrow> byte" where
  "DNAME_NORMALIZE c = (if 0x41 \<le> c \<and> c \<le> 0x5a then c + 0x20 else c)"

text \<open>
  The first loop of \<open>dname_make\<close>; the outer \<^term>\<open>None\<close> is undefined behaviour, the
  inner one is the \<open>NULL\<close> that the function returns.
\<close>

lemma label_next_shorter:
  "label_next l = Some l' \<Longrightarrow> length l' < length l"
  by (auto simp: label_next_def label_is_normal_def label_is_root_def label_length_def
      bind_eq_Some_conv mem_get_eq_Some split: if_splits)

function dname_make_scan ::
  "byte list \<Rightarrow> nat \<Rightarrow> byte list \<Rightarrow> nat \<Rightarrow> (byte list \<times> nat) option option" where
  "dname_make_scan label off offs sz = do {
     p \<leftarrow> label_is_pointer label;
     if p then Some None else do {
       assert_c (length offs < MAXDOMAINLEN);
       len \<leftarrow> label_length label;
       root \<leftarrow> label_is_root label;
       if root then Some (Some (offs @ [of_nat off], sz + (len + 1)))
       else do {
         next \<leftarrow> label_next label;
         dname_make_scan next (off + (len + 1)) (offs @ [of_nat off]) (sz + (len + 1)) } } }"
  by pat_completeness auto
termination
  by (relation "measure (\<lambda>(label, off, offs, sz). length label)")
    (auto dest: label_next_shorter)

declare dname_make_scan.simps [simp del]

text \<open>The loop that reverses the offsets in place.\<close>

fun reverse_offsets :: "nat \<Rightarrow> nat \<Rightarrow> 'a list \<Rightarrow> 'a list" where
  "reverse_offsets 0 i xs = xs"
| "reverse_offsets (Suc k) i xs =
     (let n = length xs; tmp = xs ! i; ys = xs[i := xs ! (n - i - 1)]
      in reverse_offsets k (Suc i) (ys[n - i - 1 := tmp]))"

text \<open>The copying loop with lower-casing.\<close>

function dname_normalize :: "byte list \<Rightarrow> byte list \<Rightarrow> byte list option" where
  "dname_normalize src dst = do {
     root \<leftarrow> label_is_root src;
     if root then do { c \<leftarrow> mem_get src 0; Some (dst @ [c]) }
     else do {
       len \<leftarrow> label_length src;
       assert_c (len < length src);
       c \<leftarrow> mem_get src 0;
       dname_normalize (drop (len + 1) src)
         (dst @ c # map DNAME_NORMALIZE (mem_read 1 len src)) } }"
  by pat_completeness auto
termination
  by (relation "measure (\<lambda>(src, dst). length src)") auto

declare dname_normalize.simps [simp del]

definition dname_make :: "byte list \<Rightarrow> bool \<Rightarrow> dname option option" where
  "dname_make name norm = do {
     r \<leftarrow> dname_make_scan name 0 [] 0;
     case r of None \<Rightarrow> Some None
     | Some (offs, sz) \<Rightarrow>
         if sz > MAXDOMAINLEN then Some None
         else do {
           assert_c (length offs \<le> MAXDOMAINLEN div 2 + 1);
           nm \<leftarrow> (if norm then dname_normalize name []
                  else do { assert_c (sz \<le> length name); Some (take sz name) });
           Some (Some \<lparr>name_size = sz, label_count = length offs,
             label_offsets = reverse_offsets (length offs div 2) 0 offs, dname_name = nm\<rparr>) } }"

subsection \<open>Comparing names (dname.c)\<close>

text \<open>\<open>memcmp\<close> is used for its sign only; the model returns -1, 0 or 1.\<close>

fun bytes_cmp :: "byte list \<Rightarrow> byte list \<Rightarrow> int" where
  "bytes_cmp (x # xs) (y # ys) =
     (if x < y then -1 else if y < x then 1 else bytes_cmp xs ys)"
| "bytes_cmp _ _ = 0"

definition memcmp :: "byte list \<Rightarrow> byte list \<Rightarrow> nat \<Rightarrow> int option" where
  "memcmp a b n = do {
     assert_c (n \<le> length a \<and> n \<le> length b);
     Some (bytes_cmp (take n a) (take n b)) }"

definition label_compare :: "byte list \<Rightarrow> byte list \<Rightarrow> int option" where
  "label_compare left right = do {
     ll \<leftarrow> label_length left;
     rl \<leftarrow> label_length right;
     ld \<leftarrow> label_data left;
     rd \<leftarrow> label_data right;
     r \<leftarrow> memcmp ld rd (if ll < rl then ll else rl);
     if r \<noteq> 0 then Some r else Some (int ll - int rl) }"

text \<open>The loops run the index \<open>i\<close> upwards; \<open>k\<close> iterations are left.\<close>

fun dname_compare_loop :: "dname \<Rightarrow> dname \<Rightarrow> nat \<Rightarrow> nat \<Rightarrow> int option" where
  "dname_compare_loop left right 0 i = Some (int (label_count left) - int (label_count right))"
| "dname_compare_loop left right (Suc k) i = do {
     l \<leftarrow> dname_label left i;
     r \<leftarrow> dname_label right i;
     c \<leftarrow> label_compare l r;
     if c \<noteq> 0 then Some c else dname_compare_loop left right k (Suc i) }"

definition dname_compare :: "dname \<Rightarrow> dname \<Rightarrow> int option" where
  "dname_compare left right =
     (if left = right then Some 0
      else dname_compare_loop left right
        ((if label_count left \<le> label_count right then label_count left else label_count right) - 1) 1)"

fun dname_is_subdomain_loop :: "dname \<Rightarrow> dname \<Rightarrow> nat \<Rightarrow> nat \<Rightarrow> bool option" where
  "dname_is_subdomain_loop left right 0 i = Some True"
| "dname_is_subdomain_loop left right (Suc k) i = do {
     l \<leftarrow> dname_label left i;
     r \<leftarrow> dname_label right i;
     c \<leftarrow> label_compare l r;
     if c \<noteq> 0 then Some False else dname_is_subdomain_loop left right k (Suc i) }"

definition dname_is_subdomain :: "dname \<Rightarrow> dname \<Rightarrow> bool option" where
  "dname_is_subdomain left right =
     (if label_count left < label_count right then Some False
      else dname_is_subdomain_loop left right (label_count right - 1) 1)"

fun dname_label_match_loop :: "dname \<Rightarrow> dname \<Rightarrow> nat \<Rightarrow> nat \<Rightarrow> nat option" where
  "dname_label_match_loop left right 0 i = Some i"
| "dname_label_match_loop left right (Suc k) i = do {
     l \<leftarrow> dname_label left i;
     r \<leftarrow> dname_label right i;
     c \<leftarrow> label_compare l r;
     if c \<noteq> 0 then Some i else dname_label_match_loop left right k (Suc i) }"

definition dname_label_match_count :: "dname \<Rightarrow> dname \<Rightarrow> nat option" where
  "dname_label_match_count left right =
     dname_label_match_loop left right (min (label_count left) (label_count right) - 1) 1"

subsection \<open>Deriving names (dname.c)\<close>

definition dname_copy :: "dname \<Rightarrow> dname" where
  "dname_copy d = d"

text \<open>A \<open>NULL\<close> argument gives \<open>NULL\<close>.\<close>

definition dname_partial_copy :: "dname option \<Rightarrow> nat \<Rightarrow> dname option option" where
  "dname_partial_copy dn lcount = (case dn of None \<Rightarrow> Some None | Some d \<Rightarrow>
     let n = (if lcount = 0 then 1 else lcount) in do {
       assert_c (n \<le> label_count d);
       l \<leftarrow> dname_label d (n - 1);
       dname_make l False })"

definition dname_origin :: "dname \<Rightarrow> dname option option" where
  "dname_origin d = dname_partial_copy (Some d) (label_count d - 1)"

definition dname_make_from_label :: "byte list \<Rightarrow> dname option option" where
  "dname_make_from_label label = do {
     assert_c (0 < length label \<and> length label \<le> MAXLABELLEN);
     dname_make (of_nat (length label) # label @ [0]) True }"

definition dname_concatenate :: "dname \<Rightarrow> dname \<Rightarrow> dname option option" where
  "dname_concatenate left right = do {
     assert_c (name_size left + name_size right - 1 \<le> MAXDOMAINLEN);
     assert_c (name_size left \<le> length (dname_name left) \<and> name_size right \<le> length (dname_name right));
     dname_make (take (name_size left - 1) (dname_name left) @ take (name_size right) (dname_name right))
       False }"

text \<open>The structure \<open>dname_replace\<close> fills in, for \<open>name\<close> of the form \<open>x.src\<close>.\<close>

definition dname_replace_res :: "dname \<Rightarrow> dname \<Rightarrow> dname \<Rightarrow> dname" where
  "dname_replace_res name src dest =
     (let x_labels = label_count name - label_count src;
          x_len = name_size name - name_size src
      in \<lparr>name_size = x_len + name_size dest,
          label_count = x_labels + label_count dest,
          label_offsets = map (\<lambda>o1. o1 + of_nat x_len) (label_offsets dest) @
            map (\<lambda>i. label_offsets name ! (i - label_count dest + label_count src))
              [label_count dest ..< x_labels + label_count dest],
          dname_name = take x_len (dname_name name) @ take (name_size dest) (dname_name dest)\<rparr>)"

definition dname_replace :: "dname \<Rightarrow> dname \<Rightarrow> dname \<Rightarrow> dname option option" where
  "dname_replace name src dest = do {
     sub \<leftarrow> dname_is_subdomain name src; assert_c sub;
     if name_size name - name_size src + name_size dest > MAXDOMAINLEN then Some None
     else do {
       let res = dname_replace_res name src dest;
       sub' \<leftarrow> dname_is_subdomain res dest; assert_c sub';
       Some (Some res) } }"

subsection \<open>Names as label lists\<close>

definition wire :: "byte list list \<Rightarrow> byte list" where
  "wire ls = concat (map (\<lambda>l. of_nat (length l) # l) ls) @ [0]"

definition valid_label :: "byte list \<Rightarrow> bool" where
  "valid_label l \<longleftrightarrow> 0 < length l \<and> length l \<le> MAXLABELLEN"

definition valid_labels :: "byte list list \<Rightarrow> bool" where
  "valid_labels ls \<longleftrightarrow> (\<forall>l \<in> set ls. valid_label l) \<and> length (wire ls) \<le> MAXDOMAINLEN"

fun wire_offsets :: "nat \<Rightarrow> byte list list \<Rightarrow> nat list" where
  "wire_offsets off [] = [off]"
| "wire_offsets off (l # ls) = off # wire_offsets (off + (length l + 1)) ls"

definition dname_of :: "byte list list \<Rightarrow> dname" where
  "dname_of ls = \<lparr>name_size = length (wire ls), label_count = length ls + 1,
     label_offsets = rev (map of_nat (wire_offsets 0 ls)), dname_name = wire ls\<rparr>"

lemma wire_Nil [simp]: "wire [] = [0]"
  by (simp add: wire_def)

lemma wire_Cons [simp]: "wire (l # ls) = of_nat (length l) # l @ wire ls"
  by (simp add: wire_def)

lemma wire_nonempty [simp]: "wire ls \<noteq> []"
  by (simp add: wire_def)

lemma length_wire_offsets [simp]: "length (wire_offsets off ls) = length ls + 1"
  by (induction ls arbitrary: off) auto

lemma length_wire_pos: "0 < length (wire ls)"
  by simp

lemma length_wire_ge: "length ls < length (wire ls)"
  by (induction ls) auto

lemma length_wire_ge2: "\<forall>l \<in> set ls. valid_label l \<Longrightarrow> 2 * length ls < length (wire ls)"
proof (induction ls)
  case (Cons l ls)
  then have "1 \<le> length l" by (auto simp: valid_label_def Suc_le_eq)
  with Cons show ?case by simp
qed simp

lemma valid_labels_Nil [simp]: "valid_labels []"
  by (simp add: valid_labels_def MAXDOMAINLEN_def)

lemma valid_labels_tl: "valid_labels (l # ls) \<Longrightarrow> valid_labels ls"
  by (auto simp: valid_labels_def)

lemma valid_labels_hd: "valid_labels (l # ls) \<Longrightarrow> valid_label l"
  by (auto simp: valid_labels_def)

subsection \<open>Label lemmas\<close>

lemma label_is_normal_Cons [simp]: "label_is_normal (c # l) = Some (unat c < 64)"
  by (simp add: label_is_normal_def and_c0_zero)

lemma label_is_pointer_Cons [simp]: "label_is_pointer (c # l) = Some (192 \<le> unat c)"
  by (simp add: label_is_pointer_def and_c0_c0)

lemma label_is_root_Cons [simp]: "label_is_root (c # l) = Some (c = 0)"
  by (simp add: label_is_root_def)

lemma label_length_Cons [simp]:
  "label_length (c # l) = (if unat c < 64 then Some (unat c) else None)"
  by (simp add: label_length_def)

lemma label_data_Cons [simp]:
  "label_data (c # l) = (if unat c < 64 then Some l else None)"
  by (simp add: label_data_def)

lemma label_next_Cons [simp]:
  "unat c < 64 \<Longrightarrow> c \<noteq> 0 \<Longrightarrow> label_next (c # l) = Some (drop (unat c) l)"
  by (simp add: label_next_def)

lemma valid_label_byte:
  assumes "valid_label l"
  shows "unat (of_nat (length l) :: byte) = length l" and "(of_nat (length l) :: byte) \<noteq> 0"
    and "length l < 64"
proof -
  have l: "0 < length l" "length l < 64" using assms by (auto simp: valid_label_def MAXLABELLEN_def)
  then show u: "unat (of_nat (length l) :: byte) = length l"
    by (simp add: unat_byte_of_nat)
  then show "(of_nat (length l) :: byte) \<noteq> 0"
    using l by (metis unat_0 less_not_refl)
  show "length l < 64" by fact
qed

lemma label_of_wire:
  assumes "valid_label l"
  shows "label_is_pointer (of_nat (length l) # r) = Some False"
    "label_is_root (of_nat (length l) # r) = Some False"
    "label_length (of_nat (length l) # r) = Some (length l)"
    "label_next (of_nat (length l) # l @ r) = Some r"
  using valid_label_byte [OF assms] by simp_all

declare valid_label_byte(1,2) [simp]

lemma label_of_root:
  "label_is_pointer (0 # r) = Some False" "label_is_root (0 # r) = Some True"
  "label_length (0 # r) = Some 0"
  by simp_all

subsection \<open>What dname_make builds\<close>

lemma reverse_offsets_length [simp]: "length (reverse_offsets k i xs) = length xs"
  by (induction k i xs rule: reverse_offsets.induct) (auto simp: Let_def)

lemma reverse_offsets_nth:
  assumes "i + k \<le> length xs div 2" and "j < length xs"
  shows "reverse_offsets k i xs ! j =
    (if i \<le> j \<and> j < i + k \<or> length xs - (i + k) \<le> j \<and> j < length xs - i
     then xs ! (length xs - 1 - j) else xs ! j)"
  using assms
proof (induction k i xs rule: reverse_offsets.induct)
  case (2 k i xs)
  define n where "n = length xs"
  let ?ys = "xs[i := xs ! (n - i - 1), n - i - 1 := xs ! i]"
  have le: "i + Suc k \<le> n div 2" and j: "j < n" using "2.prems" by (auto simp: n_def)
  have IH: "reverse_offsets k (Suc i) ?ys ! j =
    (if Suc i \<le> j \<and> j < Suc i + k \<or> n - (Suc i + k) \<le> j \<and> j < n - Suc i
     then ?ys ! (n - 1 - j) else ?ys ! j)"
    using "2.IH" [of n "xs ! i" "xs[i := xs ! (n - i - 1)]"] le j by (simp add: n_def)
  have swap: "?ys ! m = (if m = i then xs ! (n - i - 1) else if m = n - i - 1 then xs ! i else xs ! m)"
    if "m < n" for m using that le by (auto simp: nth_list_update n_def)
  have "reverse_offsets (Suc k) i xs ! j = reverse_offsets k (Suc i) ?ys ! j"
    by (simp add: Let_def n_def)
  also have "\<dots> = (if i \<le> j \<and> j < i + Suc k \<or> n - (i + Suc k) \<le> j \<and> j < n - i
     then xs ! (n - 1 - j) else xs ! j)"
  proof -
    have "n - 1 - j < n" using j by simp
    then show ?thesis
      unfolding IH swap [OF j] swap [of "n - 1 - j"]
      using le j by (auto intro!: arg_cong [where f = "nth xs"])
  qed
  finally show ?case by (simp add: n_def)
qed auto

lemma reverse_offsets_rev: "reverse_offsets (length xs div 2) 0 xs = rev xs"
proof (rule nth_equalityI)
  fix j assume "j < length (reverse_offsets (length xs div 2) 0 xs)"
  then have j: "j < length xs" by simp
  show "reverse_offsets (length xs div 2) 0 xs ! j = rev xs ! j"
  proof (cases "j < length xs div 2 \<or> length xs - length xs div 2 \<le> j")
    case True
    then show ?thesis using j reverse_offsets_nth [of 0 "length xs div 2" xs j]
      by (auto simp: rev_nth)
  next
    case False
    then have "j = length xs - 1 - j" using j by linarith
    then show ?thesis using j False reverse_offsets_nth [of 0 "length xs div 2" xs j]
      by (simp add: rev_nth)
  qed
qed simp

lemma dname_make_scan_wire:
  assumes "\<forall>l \<in> set ls. valid_label l" and "length offs + length ls < MAXDOMAINLEN"
  shows "dname_make_scan (wire ls @ r) off offs sz =
    Some (Some (offs @ map of_nat (wire_offsets off ls), sz + length (wire ls)))"
  using assms
proof (induction ls arbitrary: off offs sz)
  case Nil
  then show ?case by (subst dname_make_scan.simps) simp
next
  case (Cons l ls)
  then have "valid_label l" by simp
  note step = label_of_wire [OF this]
  have "dname_make_scan (wire ls @ r) (off + (length l + 1)) (offs @ [of_nat off])
      (sz + (length l + 1)) = Some (Some ((offs @ [of_nat off]) @
        map of_nat (wire_offsets (off + (length l + 1)) ls), sz + (length l + 1) + length (wire ls)))"
    using Cons.prems by (intro Cons.IH) auto
  then show ?case
    using Cons.prems valid_label_byte [OF \<open>valid_label l\<close>]
    by (subst dname_make_scan.simps) (simp add: step del: of_nat_add)
qed

lemma dname_normalize_wire:
  assumes "\<forall>l \<in> set ls. valid_label l"
  shows "dname_normalize (wire ls @ r) dst =
    Some (dst @ wire (map (map DNAME_NORMALIZE) ls))"
  using assms
proof (induction ls arbitrary: dst)
  case Nil
  then show ?case by (subst dname_normalize.simps) simp
next
  case (Cons l ls)
  then have "valid_label l" by simp
  note step = label_of_wire [OF this]
  show ?case
    using Cons valid_label_byte [OF \<open>valid_label l\<close>]
    by (subst dname_normalize.simps) (simp add: step mem_read_def)
qed

lemma wire_map_length [simp]:
  "(\<And>l. length (f l) = length l) \<Longrightarrow> length (wire (map f ls)) = length (wire ls)"
  by (induction ls) auto

lemma wire_offsets_map [simp]:
  "(\<And>l. length (f l) = length l) \<Longrightarrow> wire_offsets off (map f ls) = wire_offsets off ls"
  by (induction ls arbitrary: off) auto

definition norm_labels :: "bool \<Rightarrow> byte list list \<Rightarrow> byte list list" where
  "norm_labels norm ls = (if norm then map (map DNAME_NORMALIZE) ls else ls)"

lemma dname_make_of_wire:
  assumes "valid_labels ls"
  shows "dname_make (wire ls @ r) norm = Some (Some (dname_of (norm_labels norm ls)))"
proof -
  have v: "\<forall>l \<in> set ls. valid_label l" and sz: "length (wire ls) \<le> MAXDOMAINLEN"
    using assms by (auto simp: valid_labels_def)
  have n: "2 * length ls < MAXDOMAINLEN" "length ls < MAXDOMAINLEN"
    using length_wire_ge2 [OF v] sz by auto
  have scan: "dname_make_scan (wire ls @ r) 0 [] 0 =
      Some (Some (map of_nat (wire_offsets 0 ls), length (wire ls)))"
    using dname_make_scan_wire [OF v, of "[]" r 0 0] n by simp
  show ?thesis
    using n sz v reverse_offsets_rev [of "map of_nat (wire_offsets 0 ls) :: byte list"]
    by (simp add: dname_make_def scan dname_normalize_wire norm_labels_def dname_of_def
        flip: length_map [of of_nat "wire_offsets 0 ls"])
qed

lemma label_cases:
  assumes "label_length label = Some len" and "label_is_root label = Some False"
    and "label_next label = Some nxt" and "nxt \<noteq> []"
  obtains l where "valid_label l" "len = length l" "label = of_nat (length l) # l @ nxt"
proof -
  obtain c r where label: "label = c # r"
    using assms(1) by (cases label) (simp_all add: label_length_def label_is_normal_def mem_get_def)
  have c: "unat c < 64" "len = unat c" "c \<noteq> 0"
    using assms(1,2) unfolding label by (simp_all split: if_splits)
  have nxt: "nxt = drop len r" using assms(3) c label by simp
  have len: "len < length r" using nxt assms(4) by auto
  have "0 < len" using c by (simp add: unat_gt_0)
  with c len have "valid_label (take len r)" by (simp add: valid_label_def MAXLABELLEN_def)
  moreover have "length (take len r) = len" using len by simp
  moreover have "of_nat len = c" using c(2) by (simp add: c)
  then have "label = of_nat len # take len r @ nxt" unfolding label nxt by simp
  ultimately show ?thesis using that [of "take len r"] by metis
qed

lemma dname_make_scan_None [simp]: "dname_make_scan [] off offs sz = None"
  by (subst dname_make_scan.simps) (simp add: label_is_pointer_def mem_get_def)

lemma dname_make_scan_inv:
  "dname_make_scan label off offs sz = Some (Some res) \<Longrightarrow>
   \<exists>ls r. label = wire ls @ r \<and> (\<forall>l \<in> set ls. valid_label l) \<and> length offs + length ls < MAXDOMAINLEN"
proof (induction label off offs sz rule: dname_make_scan.induct)
  case (1 label off offs sz)
  obtain len root where st: "label_is_pointer label = Some False" "length offs < MAXDOMAINLEN"
    "label_length label = Some len" "label_is_root label = Some root"
    using "1.prems" by (subst (asm) dname_make_scan.simps)
      (auto simp: bind_eq_Some_conv split: if_splits)
  show ?case
  proof (cases root)
    case True
    with st obtain r where "label = 0 # r"
      by (cases label) (auto simp: label_is_root_def mem_get_def)
    then show ?thesis using st(2) by (intro exI [of _ "[]"] exI [of _ r]) auto
  next
    case False
    with "1.prems" st obtain nxt where nxt: "label_next label = Some nxt"
      and rec: "dname_make_scan nxt (off + (len + 1)) (offs @ [of_nat off]) (sz + (len + 1)) = Some (Some res)"
      by (subst (asm) dname_make_scan.simps) (auto simp: bind_eq_Some_conv)
    then have "nxt \<noteq> []" by auto
    then obtain l where l: "valid_label l" "label = of_nat (length l) # l @ nxt"
      using label_cases [OF st(3) _ nxt] st(4) False by auto
    obtain ls r where ls: "nxt = wire ls @ r" "\<forall>l \<in> set ls. valid_label l"
      "length (offs @ [of_nat off]) + length ls < MAXDOMAINLEN"
      using "1.IH" [OF st(1) _ _ st(3) st(4) _ nxt rec] st(2) False by auto
    then show ?thesis using l by (intro exI [of _ "l # ls"] exI [of _ r]) auto
  qed
qed

text \<open>
  \<open>dname_make\<close> builds exactly the well-formed names: whatever it returns is the
  structure of a valid label list that its argument starts with.
\<close>

lemma dname_make_inv:
  assumes "dname_make name norm = Some (Some d)"
  shows "\<exists>ls r. name = wire ls @ r \<and> valid_labels ls \<and> d = dname_of (norm_labels norm ls)"
proof -
  obtain res where res: "dname_make_scan name 0 [] 0 = Some res"
    using assms by (cases "dname_make_scan name 0 [] 0") (auto simp: dname_make_def)
  moreover obtain offs sz where "res = Some (offs, sz)"
    using assms res by (cases res) (auto simp: dname_make_def)
  ultimately have scan: "dname_make_scan name 0 [] 0 = Some (Some (offs, sz))" by simp
  have sz: "sz \<le> MAXDOMAINLEN"
    using assms by (auto simp: dname_make_def scan split: if_splits)
  from dname_make_scan_inv [OF scan] obtain ls r where ls: "name = wire ls @ r"
    "\<forall>l \<in> set ls. valid_label l" "length ([] :: byte list) + length ls < MAXDOMAINLEN"
    by auto
  have "sz = length (wire ls)"
    using scan dname_make_scan_wire [OF ls(2,3), of r 0 0] ls(1) by simp
  then have "valid_labels ls" using sz ls(2) by (simp add: valid_labels_def)
  then show ?thesis using assms dname_make_of_wire [of ls r norm] ls(1) by auto
qed

definition wf_dname :: "dname \<Rightarrow> bool" where
  "wf_dname d \<longleftrightarrow> (\<exists>ls. valid_labels ls \<and> d = dname_of ls)"

lemma valid_label_norm [simp]: "valid_label (map f l) = valid_label l"
  by (simp add: valid_label_def)

lemma valid_labels_norm [simp]: "valid_labels (norm_labels norm ls) = valid_labels ls"
  by (simp add: valid_labels_def norm_labels_def)

lemma wf_dname_of [simp]: "valid_labels ls \<Longrightarrow> wf_dname (dname_of ls)"
  by (auto simp: wf_dname_def)

lemma dname_make_wf: "dname_make name norm = Some (Some d) \<Longrightarrow> wf_dname d"
  using dname_make_inv by fastforce

subsection \<open>Indexing labels\<close>

lemma dname_of_sel [simp]:
  "name_size (dname_of ls) = length (wire ls)" "label_count (dname_of ls) = Suc (length ls)"
  "dname_name (dname_of ls) = wire ls"
  by (simp_all add: dname_of_def)

lemma wire_offsets_drop:
  "j \<le> length ls \<Longrightarrow> drop (wire_offsets off ls ! j - off) (wire ls) = wire (drop j ls) \<and>
     off \<le> wire_offsets off ls ! j \<and> wire_offsets off ls ! j - off < length (wire ls)"
proof (induction ls arbitrary: off j)
  case (Cons l ls)
  show ?case
  proof (cases j)
    case (Suc k)
    then have k: "k \<le> length ls" using Cons.prems by simp
    note IH = Cons.IH [OF k, of "off + (length l + 1)"]
    let ?o = "wire_offsets (off + (length l + 1)) ls ! k"
    have "?o - off = (length l + 1) + (?o - (off + (length l + 1)))" using IH by linarith
    with IH show ?thesis unfolding Suc by (simp, linarith)
  qed simp
qed simp

lemma dname_label_dname_of:
  assumes v: "valid_labels ls" and i: "i \<le> length ls"
  shows "dname_label (dname_of ls) i = Some (wire (drop (length ls - i) ls))"
proof -
  let ?o = "wire_offsets 0 ls ! (length ls - i)"
  have off: "drop ?o (wire ls) = wire (drop (length ls - i) ls)" "?o < length (wire ls)"
    using wire_offsets_drop [of "length ls - i" ls 0] by auto
  have "?o < 256" using off(2) v by (simp add: valid_labels_def MAXDOMAINLEN_def)
  then have "unat (of_nat ?o :: byte) = ?o" by (rule unat_byte_of_nat)
  moreover have "rev (map of_nat (wire_offsets 0 ls)) ! i = (of_nat ?o :: byte)"
    using i by (simp add: rev_nth)
  ultimately show ?thesis using i off by (simp add: dname_label_def dname_of_def)
qed

subsection \<open>Comparison is the canonical order\<close>

definition ocmp :: "'a::linorder \<Rightarrow> 'a \<Rightarrow> int" where
  "ocmp x y = (if x < y then -1 else if x = y then 0 else 1)"

lemma ocmp_refl [simp]: "ocmp x x = 0" by (simp add: ocmp_def)

lemma ocmp_eq_0 [simp]: "ocmp x y = 0 \<longleftrightarrow> x = y" by (auto simp: ocmp_def)

lemma ocmp_Cons:
  "ocmp (x # xs) (y # ys) = (if ocmp x y \<noteq> 0 then ocmp x y else ocmp xs ys)"
  by (auto simp: ocmp_def)

lemma sgn_eq_ocmp:
  assumes "sgn c = ocmp x y"
  shows "c < 0 \<longleftrightarrow> x < y" "c = 0 \<longleftrightarrow> x = y" "c > 0 \<longleftrightarrow> y < x"
  using assms by (auto simp: ocmp_def sgn_if split: if_splits)

lemma bytes_cmp_take:
  "sgn (if bytes_cmp (take n l) (take n m) \<noteq> 0 then bytes_cmp (take n l) (take n m)
        else int (length l) - int (length m)) = ocmp l m"
  if "n = (if length l < length m then length l else length m)"
  using that
proof (induction l m arbitrary: n rule: bytes_cmp.induct [case_names both left right])
  case (both x xs y ys)
  then obtain k where n: "n = Suc k" by (cases n) (auto split: if_splits)
  with both.prems have "k = (if length xs < length ys then length xs else length ys)"
    by (auto split: if_splits)
  then show ?case using both.IH [of k] n
    by (cases "x < y"; cases "y < x") (auto simp: ocmp_Cons ocmp_def [of x y] not_less)
next
  case (left m)
  then show ?case by (cases m) (auto simp: ocmp_def)
next
  case (right l)
  then show ?case by (cases l) (auto simp: ocmp_def)
qed

lemma label_compare_wire:
  assumes "valid_label l" and "valid_label m"
  shows "\<exists>c. label_compare (of_nat (length l) # l @ r) (of_nat (length m) # m @ s) = Some c \<and>
    sgn c = ocmp l m"
proof -
  let ?n = "if length l < length m then length l else length m"
  have take: "take ?n (l @ r) = take ?n l" "take ?n (m @ s) = take ?n m" by auto
  show ?thesis
    using assms valid_label_byte(3) [OF assms(1)] valid_label_byte(3) [OF assms(2)]
      bytes_cmp_take [of ?n l m]
    by (auto simp: label_compare_def memcmp_def take)
qed

lemma drop_nth_rev:
  assumes "1 \<le> i" "i \<le> length a"
  shows "drop (length a - i) a = rev a ! (i - 1) # drop (length a - i + 1) a"
proof -
  have "drop (length a - i) a = a ! (length a - i) # drop (Suc (length a - i)) a"
    using assms by (intro Cons_nth_drop_Suc [symmetric]) simp
  then show ?thesis using assms by (simp add: rev_nth)
qed

lemma compare_labels_at:
  assumes a: "valid_labels a" "i < length a" and b: "valid_labels b" "i < length b"
  obtains l r c where "dname_label (dname_of a) (Suc i) = Some l"
    "dname_label (dname_of b) (Suc i) = Some r" "label_compare l r = Some c"
    "sgn c = ocmp (rev a ! i) (rev b ! i)"
proof -
  have va: "valid_label (rev a ! i)" and vb: "valid_label (rev b ! i)"
    using a b by (simp_all add: valid_labels_def rev_nth)
  have la: "dname_label (dname_of a) (Suc i) =
      Some (of_nat (length (rev a ! i)) # rev a ! i @ wire (drop (length a - Suc i + 1) a))"
    using dname_label_dname_of [OF a(1), of "Suc i"] drop_nth_rev [of "Suc i" a] a by simp
  have lb: "dname_label (dname_of b) (Suc i) =
      Some (of_nat (length (rev b ! i)) # rev b ! i @ wire (drop (length b - Suc i + 1) b))"
    using dname_label_dname_of [OF b(1), of "Suc i"] drop_nth_rev [of "Suc i" b] b by simp
  show ?thesis
    using that la lb label_compare_wire [OF va vb] by blast
qed

lemma dname_compare_loop_ocmp:
  assumes v: "valid_labels a" "valid_labels b" and "i + k = min (length a) (length b)"
  shows "\<exists>c. dname_compare_loop (dname_of a) (dname_of b) k (Suc i) = Some c \<and>
    sgn c = ocmp (drop i (rev a)) (drop i (rev b))"
  using assms(3)
proof (induction k arbitrary: i)
  case 0
  then have i: "i = min (length a) (length b)" by simp
  have nonempty: "(xs < ys \<longleftrightarrow> ys \<noteq> []) \<and> (ys < xs \<longleftrightarrow> False)" if "xs = []"
    for xs ys :: "byte list list" using that by (cases ys) auto
  have "ocmp (drop i (rev a)) (drop i (rev b)) = sgn (int (length a) - int (length b))"
    using nonempty [of "drop i (rev a)" "drop i (rev b)"]
      nonempty [of "drop i (rev b)" "drop i (rev a)"] i
    by (cases "length a" "length b" rule: linorder_cases) (auto simp: ocmp_def)
  then show ?case by simp
next
  case (Suc k)
  then have i: "i < length a" "i < length b" by auto
  obtain l r c where lr: "dname_label (dname_of a) (Suc i) = Some l"
    "dname_label (dname_of b) (Suc i) = Some r" "label_compare l r = Some c"
    "sgn c = ocmp (rev a ! i) (rev b ! i)"
    using compare_labels_at [OF v(1) i(1) v(2) i(2)] by blast
  have d: "drop i (rev a) = rev a ! i # drop (Suc i) (rev a)"
    "drop i (rev b) = rev b ! i # drop (Suc i) (rev b)"
    using i by (simp_all add: Cons_nth_drop_Suc)
  show ?case
  proof (cases "c = 0")
    case True
    with lr(4) have "ocmp (rev a ! i) (rev b ! i) = 0" by simp
    with True Suc.IH [of "Suc i"] Suc.prems show ?thesis by (simp add: lr d ocmp_Cons)
  next
    case False
    then have "ocmp (rev a ! i) (rev b ! i) \<noteq> 0" using lr(4) by (metis sgn_eq_0_iff)
    with False show ?thesis by (simp add: lr d ocmp_Cons)
  qed
qed

lemma dname_of_inject [simp]:
  assumes "valid_labels a" "valid_labels b"
  shows "dname_of a = dname_of b \<longleftrightarrow> a = b"
proof
  assume eq: "dname_of a = dname_of b"
  then have "length a = length b" by (auto simp: dname_of_def)
  then obtain c where "dname_compare_loop (dname_of a) (dname_of b) (length a) (Suc 0) = Some c"
    "sgn c = ocmp (rev a) (rev b)"
    "dname_compare_loop (dname_of a) (dname_of a) (length a) (Suc 0) = Some 0"
    using dname_compare_loop_ocmp [OF assms, of 0 "length a"]
      dname_compare_loop_ocmp [OF assms(1,1), of 0 "length a"] by (auto simp: sgn_0_0)
  then show "a = b" using eq by simp
qed simp

lemma dname_compare_ocmp:
  assumes "valid_labels a" "valid_labels b"
  shows "\<exists>c. dname_compare (dname_of a) (dname_of b) = Some c \<and> sgn c = ocmp (rev a) (rev b)"
  using dname_compare_loop_ocmp [OF assms, of 0 "min (length a) (length b)"] assms
  by (auto simp: dname_compare_def min_def)

lemma dname_is_subdomain_loop_take:
  assumes v: "valid_labels a" "valid_labels b" and "i + k = length b" "length b \<le> length a"
  shows "dname_is_subdomain_loop (dname_of a) (dname_of b) k (Suc i) =
    Some (take k (drop i (rev a)) = drop i (rev b))"
  using assms(3)
proof (induction k arbitrary: i)
  case (Suc k)
  then have i: "i < length a" "i < length b" using assms(4) by auto
  obtain l r c where lr: "dname_label (dname_of a) (Suc i) = Some l"
    "dname_label (dname_of b) (Suc i) = Some r" "label_compare l r = Some c"
    "sgn c = ocmp (rev a ! i) (rev b ! i)"
    using compare_labels_at [OF v(1) i(1) v(2) i(2)] by blast
  have d: "drop i (rev a) = rev a ! i # drop (Suc i) (rev a)"
    "drop i (rev b) = rev b ! i # drop (Suc i) (rev b)"
    using i by (simp_all add: Cons_nth_drop_Suc)
  show ?case using Suc.IH [of "Suc i"] Suc.prems sgn_eq_ocmp(2) [OF lr(4)] by (simp add: lr d)
qed auto

lemma dname_is_subdomain_suffix:
  assumes "valid_labels a" "valid_labels b"
  shows "dname_is_subdomain (dname_of a) (dname_of b) = Some (suffix b a)"
proof (cases "length a < length b")
  case True
  then show ?thesis by (auto simp: dname_is_subdomain_def suffix_def)
next
  case False
  then have "dname_is_subdomain (dname_of a) (dname_of b) = Some (take (length b) (rev a) = rev b)"
    using dname_is_subdomain_loop_take [OF assms, of 0 "length b"]
    by (simp add: dname_is_subdomain_def)
  also have "take (length b) (rev a) = rev b \<longleftrightarrow> suffix b a"
    using False by (metis append_eq_conv_conj append_take_drop_id length_rev prefix_def
        suffix_to_prefix)
  finally show ?thesis .
qed

lemma dname_label_match_loop_lcp:
  assumes v: "valid_labels a" "valid_labels b" and "i + k = min (length a) (length b)"
  shows "dname_label_match_loop (dname_of a) (dname_of b) k (Suc i) =
    Some (Suc i + length (longest_common_prefix (drop i (rev a)) (drop i (rev b))))"
  using assms(3)
proof (induction k arbitrary: i)
  case 0
  then have "drop i (rev a) = [] \<or> drop i (rev b) = []" by auto
  then show ?case by (cases "drop i (rev a)") auto
next
  case (Suc k)
  then have i: "i < length a" "i < length b" by auto
  obtain l r c where lr: "dname_label (dname_of a) (Suc i) = Some l"
    "dname_label (dname_of b) (Suc i) = Some r" "label_compare l r = Some c"
    "sgn c = ocmp (rev a ! i) (rev b ! i)"
    using compare_labels_at [OF v(1) i(1) v(2) i(2)] by blast
  have d: "drop i (rev a) = rev a ! i # drop (Suc i) (rev a)"
    "drop i (rev b) = rev b ! i # drop (Suc i) (rev b)"
    using i by (simp_all add: Cons_nth_drop_Suc)
  show ?case using Suc.IH [of "Suc i"] Suc.prems sgn_eq_ocmp(2) [OF lr(4)] by (simp add: lr d)
qed

lemma dname_label_match_count_lcp:
  assumes "valid_labels a" "valid_labels b"
  shows "dname_label_match_count (dname_of a) (dname_of b) =
    Some (1 + length (longest_common_prefix (rev a) (rev b)))"
  using dname_label_match_loop_lcp [OF assms, of 0 "min (length a) (length b)"]
  by (simp add: dname_label_match_count_def)

subsection \<open>Derived names as label lists\<close>

lemma valid_labels_drop: "valid_labels ls \<Longrightarrow> valid_labels (drop n ls)"
proof (induction n arbitrary: ls)
  case (Suc n)
  then show ?case by (cases ls) (auto dest: valid_labels_tl)
qed simp

lemma wire_append: "wire (a @ b) = butlast (wire a) @ wire b"
  by (simp add: wire_def butlast_append)

lemma length_wire_append: "length (wire (a @ b)) = length (wire a) - 1 + length (wire b)"
  by (simp add: wire_append)

lemma dname_partial_copy_labels:
  assumes v: "valid_labels ls" and n: "n \<le> Suc (length ls)"
  shows "dname_partial_copy (Some (dname_of ls)) n =
    Some (Some (dname_of (drop (length ls - (n - 1)) ls)))"
  using dname_label_dname_of [OF v, of "n - 1"] dname_label_dname_of [OF v, of 0] n
    dname_make_of_wire [OF valid_labels_drop [OF v], of "length ls - (n - 1)" "[]" False]
    dname_make_of_wire [OF valid_labels_drop [OF v], of "length ls" "[]" False]
  by (auto simp: dname_partial_copy_def Let_def norm_labels_def)

lemma dname_origin_labels:
  assumes "valid_labels (l # ls)"
  shows "dname_origin (dname_of (l # ls)) = Some (Some (dname_of ls))"
proof -
  have "length (l # ls) - (Suc (length ls) - 1) = 1" by simp
  then show ?thesis
    using dname_partial_copy_labels [OF assms, of "Suc (length ls)"]
    unfolding dname_origin_def by simp
qed

lemma dname_make_from_label_labels:
  assumes "valid_label l"
  shows "dname_make_from_label l = Some (Some (dname_of [map DNAME_NORMALIZE l]))"
proof -
  have "valid_labels [l]" using assms by (simp add: valid_labels_def valid_label_def
        MAXLABELLEN_def MAXDOMAINLEN_def)
  from dname_make_of_wire [OF this, of "[]" True] show ?thesis
    using assms by (simp add: dname_make_from_label_def norm_labels_def valid_label_def)
qed

lemma dname_concatenate_labels:
  assumes "valid_labels a" "valid_labels b" "length (wire (a @ b)) \<le> MAXDOMAINLEN"
  shows "dname_concatenate (dname_of a) (dname_of b) = Some (Some (dname_of (a @ b)))"
proof -
  have v: "valid_labels (a @ b)" using assms by (auto simp: valid_labels_def)
  have "length (wire a) + length (wire b) - 1 \<le> MAXDOMAINLEN"
    using assms(3) length_wire_pos [of a] by (simp add: length_wire_append)
  then show ?thesis
    using dname_make_of_wire [OF v, of "[]" False]
    by (simp add: dname_concatenate_def norm_labels_def wire_append butlast_conv_take)
qed

lemma wire_offsets_add: "wire_offsets (off + k) ls = map (\<lambda>o1. o1 + k) (wire_offsets off ls)"
  by (induction ls arbitrary: off) (simp_all add: ac_simps flip: add_Suc_right,
      metis add.assoc add.commute add_Suc_right)

lemma wire_offsets_append:
  "wire_offsets off (x @ y) =
     take (length x) (wire_offsets off x) @ wire_offsets (off + (length (wire x) - 1)) y"
proof (induction x arbitrary: off)
  case (Cons l x)
  have eq: "off + (length l + 1) + (length (wire x) - 1) = off + (length (wire (l # x)) - 1)"
    using length_wire_pos [of x] by (simp del: length_greater_0_conv)
  have "wire_offsets off ((l # x) @ y) = off # take (length x) (wire_offsets (off + (length l + 1)) x) @
      wire_offsets (off + (length l + 1) + (length (wire x) - 1)) y"
    using Cons by (simp only: append_Cons wire_offsets.simps)
  then show ?case unfolding eq by simp
qed simp

lemma dname_replace_labels:
  assumes v: "valid_labels (x @ src)" "valid_labels src" "valid_labels dest"
  shows "dname_replace (dname_of (x @ src)) (dname_of src) (dname_of dest) =
    (if length (wire (x @ dest)) \<le> MAXDOMAINLEN then Some (Some (dname_of (x @ dest))) else Some None)"
proof -
  let ?xl = "length (wire x) - 1"
  have sub: "dname_is_subdomain (dname_of (x @ src)) (dname_of src) = Some True"
    using dname_is_subdomain_suffix [OF v(1,2)] by (simp add: suffix_def)
  have xl: "length (wire (x @ src)) - length (wire src) = ?xl"
    "length (wire (x @ dest)) = ?xl + length (wire dest)"
    by (simp_all add: length_wire_append)
  have nm: "take ?xl (wire (x @ src)) @ wire dest = wire (x @ dest)"
    by (simp add: wire_append butlast_conv_take)
  have hi: "map (\<lambda>i. label_offsets (dname_of (x @ src)) ! (i - Suc (length dest) + Suc (length src)))
      [Suc (length dest) ..< length x + Suc (length dest)] =
      rev (map of_nat (take (length x) (wire_offsets 0 x)))"
    by (rule nth_equalityI)
      (auto simp: dname_of_def wire_offsets_append rev_map nth_append simp del: upt_Suc)
  have lo: "map (\<lambda>o1. o1 + of_nat ?xl) (label_offsets (dname_of dest)) =
      rev (map of_nat (wire_offsets ?xl dest))"
    using wire_offsets_add [of 0 ?xl dest] by (simp add: dname_of_def rev_map comp_def)
  have offs: "label_offsets (dname_of (x @ dest)) =
      rev (map of_nat (wire_offsets ?xl dest)) @ rev (map of_nat (take (length x) (wire_offsets 0 x)))"
    by (simp add: dname_of_def wire_offsets_append)
  have res: "dname_replace_res (dname_of (x @ src)) (dname_of src) (dname_of dest) = dname_of (x @ dest)"
    using hi lo offs nm unfolding dname_replace_res_def Let_def dname_of_sel xl
    by (simp add: dname_of_def length_wire_append del: upt_Suc)
  show ?thesis
  proof (cases "length (wire (x @ dest)) \<le> MAXDOMAINLEN")
    case True
    then have vd: "valid_labels (x @ dest)" using v by (auto simp: valid_labels_def)
    have "dname_is_subdomain (dname_of (x @ dest)) (dname_of dest) = Some True"
      using dname_is_subdomain_suffix [OF vd v(3)] by (simp add: suffix_def)
    then show ?thesis
      using True xl by (simp add: dname_replace_def sub res Let_def)
  next
    case False
    then show ?thesis using xl by (simp add: dname_replace_def sub)
  qed
qed

end
