(* ===== verification/Dname_Wire.thy ===== *)
theory Dname_Wire
  imports Dname
begin

text \<open>
  Reading a possibly compressed domain name from a packet:
  \<open>dname_make_wire_from_packet\<close> and \<open>dname_make_from_packet\<close> of \<open>dname.c\<close>, with the
  bit array of \<open>util.c\<close> that stops pointer loops. The specification is the inductive
  predicate \<open>name_at\<close>, which reads a name off the packet as RFC 1035 describes it; the
  decoder is sound and complete with respect to it, always returns, and never reads
  outside the packet.
\<close>

subsection \<open>Bit arrays (util.c)\<close>

definition set_bit_c :: "byte list \<Rightarrow> nat \<Rightarrow> byte list option" where
  "set_bit_c bits index = do {
     v \<leftarrow> mem_get bits (index div 8);
     Some (bits[index div 8 := v OR push_bit (7 - index mod 8) 1]) }"

definition clear_bit_c :: "byte list \<Rightarrow> nat \<Rightarrow> byte list option" where
  "clear_bit_c bits index = do {
     v \<leftarrow> mem_get bits (index div 8);
     Some (bits[index div 8 := v AND NOT (push_bit (7 - index mod 8) 1)]) }"

definition get_bit :: "byte list \<Rightarrow> nat \<Rightarrow> bool option" where
  "get_bit bits index = do {
     v \<leftarrow> mem_get bits (index div 8);
     Some (v AND push_bit (7 - index mod 8) 1 \<noteq> 0) }"

lemma byte_and_bit_test: "(v :: byte) AND push_bit k 1 = 0 \<longleftrightarrow> \<not> bit v k"
  by (simp add: and_exp_eq_0_iff_not_bit)

lemma get_bit_eq: "get_bit bits i = (if i div 8 < length bits then Some (bit (bits ! (i div 8)) (7 - i mod 8)) else None)"
  by (auto simp: get_bit_def mem_get_def and_exp_eq_0_iff_not_bit)

lemma bit_index_eq: "i div 8 = j div 8 \<and> 7 - i mod 8 = 7 - j mod 8 \<longleftrightarrow> i = (j :: nat)"
proof
  assume "i div 8 = j div 8 \<and> 7 - i mod 8 = 7 - j mod 8"
  moreover have "i mod 8 < 8" "j mod 8 < 8" by simp_all
  ultimately have "i div 8 = j div 8" "i mod 8 = j mod 8" by linarith+
  then show "i = j" by (metis div_mult_mod_eq)
qed simp

lemma get_set_bit:
  assumes "set_bit_c bits i = Some bits'"
  shows "get_bit bits' j = (if j = i then Some True else get_bit bits j)"
proof -
  have b: "i div 8 < length bits" "bits' = bits[i div 8 := bits ! (i div 8) OR push_bit (7 - i mod 8) 1]"
    using assms by (auto simp: set_bit_c_def bind_eq_Some_conv mem_get_eq_Some)
  have bit1: "bit (2 ^ a :: byte) c \<longleftrightarrow> c = a" if "a < 8" for a c
    using that by (auto simp: bit_exp_iff)
  show ?thesis
  proof (cases "j div 8 = i div 8")
    case True
    then show ?thesis using b bit_index_eq [of j i]
      by (auto simp: get_bit_eq bit_or_iff bit1)
  next
    case False
    then show ?thesis using b by (auto simp: get_bit_eq)
  qed
qed

lemma set_bit_Some: "i div 8 < length bits \<Longrightarrow> \<exists>bits'. set_bit_c bits i = Some bits' \<and> length bits' = length bits"
  by (simp add: set_bit_c_def)

lemma get_bit_zero: "i div 8 < n \<Longrightarrow> get_bit (replicate n 0) i = Some False"
  by (simp add: get_bit_eq)

subsection \<open>The decoder\<close>

definition MAX_PACKET_SIZE :: nat where "MAX_PACKET_SIZE = 65535"

lemma buffer_op_limit:
  "buffer_skip b n = Some b' \<Longrightarrow> buf_limit b' = buf_limit b"
  "buffer_set_position b q = Some b' \<Longrightarrow> buf_limit b' = buf_limit b"
  "buffer_read b m = Some (d, b') \<Longrightarrow> buf_limit b' = buf_limit b"
  by (auto simp: buffer_skip_def Let_def buffer_set_position_def buffer_read_def
      bind_eq_Some_conv split: if_splits)

definition unvisited :: "byte list \<Rightarrow> nat \<Rightarrow> nat" where
  "unvisited visited lim = card {i. i < lim \<and> get_bit visited i \<noteq> Some True}"

lemma unvisited_less:
  assumes "buffer_available packet (Suc 0) = Some True" "get_bit visited (buf_position packet) = Some False"
    "set_bit_c visited (buf_position packet) = Some visited'"
  shows "unvisited visited' (buf_limit packet) < unvisited visited (buf_limit packet)"
proof -
  have p: "buf_position packet < buf_limit packet"
    using assms(1) by (auto simp: buffer_available_def buffer_available_at_def
        buffer_remaining_at_def bind_eq_Some_conv split: if_splits)
  show ?thesis unfolding unvisited_def
    using p assms(2) get_set_bit [OF assms(3)]
    by (intro psubset_card_mono) (auto split: if_splits)
qed

text \<open>
  The result is the returned length (0 on error), the bytes written to the caller's
  array, and the packet with its new position.
\<close>

function dname_wire_loop ::
  "bool \<Rightarrow> byte list \<Rightarrow> buffer \<Rightarrow> byte list \<Rightarrow> nat option \<Rightarrow> (nat \<times> byte list \<times> buffer) option" where
  "dname_wire_loop allow_pointers visited packet buf mark = do {
     av \<leftarrow> buffer_available packet 1;
     if \<not> av then Some (0, buf, packet) else do {
     seen \<leftarrow> get_bit visited (buf_position packet);
     if seen then Some (0, buf, packet) else do {
     visited' \<leftarrow> set_bit_c visited (buf_position packet);
     let label = drop (buf_position packet) (buf_data packet);
     ptr \<leftarrow> label_is_pointer label;
     if ptr then
       (if \<not> allow_pointers then Some (0, buf, packet) else do {
          av2 \<leftarrow> buffer_available packet 2;
          if \<not> av2 then Some (0, buf, packet) else do {
          loc \<leftarrow> label_pointer_location label;
          if unat loc \<ge> buf_limit packet then Some (0, buf, packet) else do {
          p1 \<leftarrow> buffer_skip packet 2;
          p2 \<leftarrow> buffer_set_position p1 (unat loc);
          dname_wire_loop allow_pointers visited' p2 buf
            (case mark of None \<Rightarrow> Some (buf_position p1) | Some m \<Rightarrow> Some m) } } })
     else do {
       normal \<leftarrow> label_is_normal label;
       if \<not> normal then Some (0, buf, packet) else do {
       len \<leftarrow> label_length label;
       done \<leftarrow> label_is_root label;
       av3 \<leftarrow> buffer_available packet (len + 1);
       if \<not> av3 then Some (0, buf, packet)
       else if length buf + (len + 1) \<ge> MAXDOMAINLEN + 1 then Some (0, buf, packet)
       else do {
       (dat, p1) \<leftarrow> buffer_read packet (len + 1);
       if done then do {
         p2 \<leftarrow> (case mark of None \<Rightarrow> Some p1 | Some m \<Rightarrow> buffer_set_position p1 m);
         Some (length (buf @ dat), buf @ dat, p2) }
       else dname_wire_loop allow_pointers visited' p1 (buf @ dat) mark } } } } } }"
  by pat_completeness auto
termination
  by (relation "measure (\<lambda>(a, visited, packet, buf, mark). unvisited visited (buf_limit packet))")
    (auto simp: buffer_op_limit unvisited_less)

declare dname_wire_loop.simps [simp del]

definition dname_make_wire_from_packet ::
  "buffer \<Rightarrow> bool \<Rightarrow> (nat \<times> byte list \<times> buffer) option" where
  "dname_make_wire_from_packet packet allow_pointers = do {
     assert_c ((buf_limit packet + 7) div 8 \<le> (MAX_PACKET_SIZE + 7) div 8);
     dname_wire_loop allow_pointers (replicate ((buf_limit packet + 7) div 8) 0) packet [] None }"

definition dname_make_from_packet ::
  "buffer \<Rightarrow> bool \<Rightarrow> bool \<Rightarrow> (dname option \<times> buffer) option" where
  "dname_make_from_packet packet allow_pointers norm = do {
     (n, buf, packet') \<leftarrow> dname_make_wire_from_packet packet allow_pointers;
     if n = 0 then Some (None, packet')
     else do { d \<leftarrow> dname_make buf norm; Some (d, packet') } }"

subsection \<open>Specification: reading a name off the packet\<close>

text \<open>
  \<open>name_at ap p pos k ls e\<close>: in the packet \<open>p\<close> the name with labels \<open>ls\<close> starts at
  \<open>pos\<close>, is read in \<open>k\<close> steps (following pointers when \<open>ap\<close> allows them), and its
  encoding at \<open>pos\<close> ends just before \<open>e\<close>.
\<close>

definition pointer_target :: "byte list \<Rightarrow> nat \<Rightarrow> nat" where
  "pointer_target p pos = (unat (p ! pos) - 192) * 256 + unat (p ! (pos + 1))"

inductive name_at :: "bool \<Rightarrow> byte list \<Rightarrow> nat \<Rightarrow> nat \<Rightarrow> byte list list \<Rightarrow> nat \<Rightarrow> bool"
  for ap :: bool and p :: "byte list" where
  na_root: "pos < length p \<Longrightarrow> p ! pos = 0 \<Longrightarrow> name_at ap p pos 0 [] (pos + 1)"
| na_label: "pos + n + 1 \<le> length p \<Longrightarrow> n = unat (p ! pos) \<Longrightarrow> 0 < n \<Longrightarrow> n < 64 \<Longrightarrow>
    name_at ap p (pos + n + 1) k ls e \<Longrightarrow>
    name_at ap p pos (Suc k) (mem_read (pos + 1) n p # ls) e"
| na_pointer: "ap \<Longrightarrow> pos + 2 \<le> length p \<Longrightarrow> 192 \<le> unat (p ! pos) \<Longrightarrow>
    name_at ap p (pointer_target p pos) k ls e \<Longrightarrow>
    name_at ap p pos (Suc k) ls (pos + 2)"

inductive_cases name_atE: "name_at ap p pos k ls e"

lemma name_at_pos: "name_at ap p pos k ls e \<Longrightarrow> pos < length p"
  by (erule name_atE) auto

lemma name_at_det:
  "name_at ap p pos k ls e \<Longrightarrow> name_at ap p pos k' ls' e' \<Longrightarrow> k' = k \<and> ls' = ls \<and> e' = e"
proof (induction arbitrary: k' ls' e' rule: name_at.induct)
  case (na_root pos)
  from na_root(3) show ?case by (rule name_atE) (simp_all add: na_root(2))
next
  case (na_label pos n k ls e)
  note h = na_label(2-4) and IH = na_label(6)
  from na_label(7) show ?case
  proof (cases rule: name_at.cases)
    case (na_label m k2 ls2)
    moreover have "m = n" using na_label(4) h(1) by simp
    ultimately show ?thesis using IH [of k2 ls2 e'] by simp
  qed (use h in simp_all)
next
  case (na_pointer pos k ls e)
  note IH = na_pointer(5)
  from na_pointer(6) show ?case
    by (cases rule: name_at.cases) (use IH na_pointer(3) in simp_all)
qed

subsection \<open>One iteration on a well-formed packet\<close>

lemma label_pointer_location_Cons:
  assumes "192 \<le> unat c0"
  shows "label_pointer_location (c0 # c1 # l) =
    Some (push_bit 8 (ucast (c0 AND NOT 0xc0)) OR ucast c1)"
  using assms by (simp add: label_pointer_location_def)

lemma and_not_c0: "192 \<le> unat (c :: byte) \<Longrightarrow> unat (c AND NOT 0xc0) = unat c - 192"
proof -
  assume a: "192 \<le> unat c"
  have "c = (c AND NOT 0xc0) + (c AND 0xc0)"
    by (subst disjunctive_add_eq_or) (rule bit_word_eqI; auto simp: bit_simps)+
  moreover have "c AND 0xc0 = 0xc0" using a by (simp add: and_c0_c0)
  ultimately have "c AND NOT 0xc0 = c - 0xc0" by (metis add_diff_cancel_right')
  then show ?thesis using a by (simp add: unat_sub word_le_nat_alt)
qed

lemma pointer_value:
  assumes "192 \<le> unat (c0 :: byte)"
  shows "unat (push_bit 8 (ucast (c0 AND NOT 0xc0)) OR ucast (c1 :: byte) :: u16) =
    (unat c0 - 192) * 256 + unat c1"
proof -
  have "(push_bit 8 (ucast (c0 AND NOT 0xc0)) OR ucast c1 :: u16) =
        push_bit 8 (ucast (c0 AND NOT 0xc0)) + ucast c1"
    by (rule disjunctive_add_eq_or [symmetric])
      (rule bit_word_eqI; auto simp: bit_simps dest: bit_imp_le_length)
  also have "unat \<dots> = (unat c0 - 192) * 256 + unat c1"
  proof -
    have b: "unat c0 - 192 < 64" "unat c1 < 256" using unat_byte_less [of c0] unat_byte_less [of c1] by auto
    define x where "x = (ucast (c0 AND NOT 0xc0) :: u16)"
    have "unat x = unat c0 - 192"
      using b and_not_c0 [OF assms] unfolding x_def unsigned_ucast_eq
      by (simp only: take_bit_nat_eq_self_iff) simp
    then have "unat (push_bit 8 (ucast (c0 AND NOT 0xc0)) :: u16) = (unat c0 - 192) * 256"
      using b unfolding x_def [symmetric] by (simp add: push_bit_eq_mult unat_word_ariths)
    moreover have "unat (ucast c1 :: u16) = unat c1"
      using b by (simp add: unsigned_ucast_eq take_bit_nat_eq_self_iff)
    ultimately show ?thesis using b by (simp add: unat_word_ariths)
  qed
  finally show ?thesis .
qed

text \<open>
  On a well-formed packet no assertion fails and every access is inside the packet, so an
  iteration is the following case distinction.
\<close>

definition loop_pre :: "byte list \<Rightarrow> buffer \<Rightarrow> nat option \<Rightarrow> bool" where
  "loop_pre visited packet mark \<longleftrightarrow> buffer_wf packet \<and> buf_limit packet \<le> 8 * length visited \<and>
     (\<forall>m. mark = Some m \<longrightarrow> m \<le> buf_limit packet)"

definition seen :: "byte list \<Rightarrow> nat \<Rightarrow> bool" where
  "seen visited i \<longleftrightarrow> get_bit visited i = Some True"

definition visit :: "byte list \<Rightarrow> nat \<Rightarrow> byte list" where
  "visit visited i = the (set_bit_c visited i)"

definition ret_position :: "nat option \<Rightarrow> nat \<Rightarrow> nat" where
  "ret_position mark q = (case mark of None \<Rightarrow> q | Some m \<Rightarrow> m)"

lemma ret_position_simps [simp]: "ret_position None q = q" "ret_position (Some m) q = m"
  by (simp_all add: ret_position_def)

lemma seen_visit: "i div 8 < length v \<Longrightarrow> seen (visit v i) j \<longleftrightarrow> j = i \<or> seen v j"
proof -
  assume "i div 8 < length v"
  then obtain v' where "set_bit_c v i = Some v'" using set_bit_Some by blast
  then show ?thesis using get_set_bit by (auto simp: seen_def visit_def)
qed

lemma length_visit: "i div 8 < length v \<Longrightarrow> length (visit v i) = length v"
  using set_bit_Some [of i v] by (auto simp: visit_def)

lemma dname_wire_loop_wf:
  assumes pre: "loop_pre visited packet mark"
  shows "dname_wire_loop ap visited packet buf mark =
    (let pos = buf_position packet; lim = buf_limit packet; dat = buf_data packet;
         n = unat (dat ! pos); fail = Some (0, buf, packet) in
     if lim \<le> pos \<or> seen visited pos then fail
     else if 192 \<le> n then
       if \<not> ap \<or> lim < pos + 2 \<or> lim \<le> pointer_target dat pos then fail
       else dname_wire_loop ap (visit visited pos) (packet\<lparr>buf_position := pointer_target dat pos\<rparr>)
              buf (Some (ret_position mark (pos + 2)))
     else if 64 \<le> n \<or> lim < pos + n + 1 \<or> 255 < length buf + (n + 1) then fail
     else if n = 0 then
       Some (length buf + 1, buf @ [0], packet\<lparr>buf_position := ret_position mark (pos + 1)\<rparr>)
     else dname_wire_loop ap (visit visited pos) (packet\<lparr>buf_position := pos + n + 1\<rparr>)
            (buf @ mem_read pos (n + 1) dat) mark)"
proof -
  define pos where "pos = buf_position packet"
  define lim where "lim = buf_limit packet"
  define dat where "dat = buf_data packet"
  have wf: "buffer_wf packet" and vis: "lim \<le> 8 * length visited"
    and mk: "\<And>m. mark = Some m \<Longrightarrow> m \<le> lim"
    using pre by (auto simp: loop_pre_def lim_def)
  note bw = buffer_wfD [OF wf, folded pos_def lim_def dat_def]
  note defs = pos_def [symmetric] lim_def [symmetric] dat_def [symmetric]
  show ?thesis
  proof (cases "pos < lim \<and> \<not> seen visited pos")
    case False
    moreover have "pos < lim \<Longrightarrow> pos div 8 < length visited" using vis by linarith
    ultimately show ?thesis using bw
      by (subst dname_wire_loop.simps)
        (auto simp: Let_def defs buffer_available_wf [OF wf] seen_def get_bit_eq split: if_splits)
  next
    case True
    then have "pos div 8 < length visited" using vis by linarith
    then obtain v' where v': "set_bit_c visited pos = Some v'" "visit visited pos = v'"
      "get_bit visited pos = Some False"
      using set_bit_Some True by (fastforce simp: visit_def seen_def get_bit_eq)
    have dr: "drop pos dat = dat ! pos # drop (Suc pos) dat"
      using True bw by (simp add: Cons_nth_drop_Suc)
    have dr2: "drop pos dat = dat ! pos # dat ! (Suc pos) # drop (Suc (Suc pos)) dat" if "pos + 2 \<le> lim"
      using that bw by (simp add: Cons_nth_drop_Suc)
    note ex = buffer_available_wf [OF wf, unfolded defs]
    show ?thesis
    proof (cases "192 \<le> unat (dat ! pos)")
      case ptr: True
      show ?thesis
      proof (cases "ap \<and> pos + 2 \<le> lim")
        case False
        then show ?thesis using True ptr
          by (subst dname_wire_loop.simps) (auto simp: Let_def defs ex v' dr)
      next
        case ok: True
        obtain loc where loc: "label_pointer_location (dat ! pos # dat ! Suc pos # drop (Suc (Suc pos)) dat) = Some loc"
          "unat loc = pointer_target dat pos"
          using label_pointer_location_Cons [OF ptr] pointer_value [OF ptr]
          unfolding pointer_target_def by (metis Suc_eq_plus1)
        show ?thesis using True ptr wf mk ok
          by (subst dname_wire_loop.simps)
            (auto simp: Let_def defs ex v' dr2 loc
              buffer_skip_wf buffer_set_position_wf not_le ret_position_def split: option.splits)
      qed
    next
      case lab: False
      have rd: "mem_read pos (Suc 0) dat = [dat ! pos]"
        using dr by (simp add: mem_read_def)
      show ?thesis using True lab wf mk bw
          by (subst dname_wire_loop.simps)
            (auto simp: Let_def defs ex v' dr MAXDOMAINLEN_def not_le rd
              buffer_read_wf buffer_set_position_wf ret_position_def unat_eq_0 split: option.splits)
    qed
  qed
qed

subsection \<open>The decoder always returns, and stays inside the packet\<close>

lemma unvisited_visit:
  assumes "i < lim" "\<not> seen v i" "lim \<le> 8 * length v"
  shows "unvisited (visit v i) lim < unvisited v lim"
proof -
  have "i div 8 < length v" using assms by linarith
  note sv = seen_visit [OF this]
  show ?thesis unfolding unvisited_def
    using assms sv by (intro psubset_card_mono) (auto simp: seen_def)
qed

lemma dname_wire_loop_induct [consumes 1]:
  assumes "loop_pre v packet mark"
    and step: "\<And>v packet buf mark. loop_pre v packet mark \<Longrightarrow>
      (\<And>q buf' mark'. buf_position packet < buf_limit packet \<Longrightarrow> \<not> seen v (buf_position packet) \<Longrightarrow>
         loop_pre (visit v (buf_position packet)) (packet\<lparr>buf_position := q\<rparr>) mark' \<Longrightarrow>
         P (visit v (buf_position packet)) (packet\<lparr>buf_position := q\<rparr>) buf' mark') \<Longrightarrow>
      P v packet buf mark"
  shows "P v packet buf mark"
  using assms(1)
proof (induction "unvisited v (buf_limit packet)" arbitrary: v packet buf mark rule: less_induct)
  case less
  note vs = unvisited_visit [of "buf_position packet" "buf_limit packet" v]
  show ?case
    by (rule step [OF less.prems]) (rule less.hyps; use vs less.prems in \<open>simp add: loop_pre_def\<close>)
qed

lemma loop_pre_step:
  assumes "loop_pre v packet mark" "buf_position packet < buf_limit packet" "q \<le> buf_limit packet"
    "\<And>m. mark' = Some m \<Longrightarrow> m \<le> buf_limit packet"
  shows "loop_pre (visit v (buf_position packet)) (packet\<lparr>buf_position := q\<rparr>) mark'"
proof -
  have "buf_position packet div 8 < length v" using assms(1,2) unfolding loop_pre_def by linarith
  then show ?thesis using assms by (simp add: loop_pre_def length_visit)
qed

lemma ret_position_le:
  "loop_pre v packet mark \<Longrightarrow> q \<le> buf_limit packet \<Longrightarrow> ret_position mark q \<le> buf_limit packet"
  by (auto simp: loop_pre_def ret_position_def split: option.splits)

lemma wire_loop_cases [consumes 1, case_names stop pointer root label]:
  fixes v packet mark ap buf
  defines "pos \<equiv> buf_position packet" and "lim \<equiv> buf_limit packet" and "dat \<equiv> buf_data packet"
  defines "n \<equiv> unat (dat ! pos)"
  assumes pre: "loop_pre v packet mark"
  obtains (stop) "dname_wire_loop ap v packet buf mark = Some (0, buf, packet)"
  | (pointer) "pos < lim" "\<not> seen v pos" "192 \<le> n" "ap" "pos + 2 \<le> lim" "pointer_target dat pos < lim"
      "loop_pre (visit v pos) (packet\<lparr>buf_position := pointer_target dat pos\<rparr>)
         (Some (ret_position mark (pos + 2)))"
      "dname_wire_loop ap v packet buf mark =
         dname_wire_loop ap (visit v pos) (packet\<lparr>buf_position := pointer_target dat pos\<rparr>)
           buf (Some (ret_position mark (pos + 2)))"
  | (root) "pos < lim" "\<not> seen v pos" "n = 0" "length buf + 1 \<le> 255"
      "ret_position mark (pos + 1) \<le> lim"
      "dname_wire_loop ap v packet buf mark =
         Some (length buf + 1, buf @ [0], packet\<lparr>buf_position := ret_position mark (pos + 1)\<rparr>)"
  | (label) "pos < lim" "\<not> seen v pos" "0 < n" "n < 64" "pos + n + 1 \<le> lim" "length buf + (n + 1) \<le> 255"
      "length (mem_read pos (n + 1) dat) = n + 1"
      "loop_pre (visit v pos) (packet\<lparr>buf_position := pos + n + 1\<rparr>) mark"
      "dname_wire_loop ap v packet buf mark =
         dname_wire_loop ap (visit v pos) (packet\<lparr>buf_position := pos + n + 1\<rparr>)
            (buf @ mem_read pos (n + 1) dat) mark"
proof -
  note eq = dname_wire_loop_wf [OF pre, of ap buf, folded pos_def lim_def dat_def,
      unfolded Let_def, folded n_def]
  note st = loop_pre_step [OF pre, folded pos_def lim_def]
    and ret = ret_position_le [OF pre, folded lim_def]
  have mk: "m \<le> lim" if "mark = Some m" for m using pre that by (simp add: loop_pre_def lim_def)
  have rd: "length (mem_read pos (n + 1) dat) = n + 1" if "pos + n + 1 \<le> lim"
    using that pre by (simp add: loop_pre_def buffer_wf_unfold lim_def dat_def)
  consider "lim \<le> pos \<or> seen v pos" | "pos < lim" "\<not> seen v pos" "192 \<le> n"
    | "pos < lim" "\<not> seen v pos" "n < 192" by linarith
  then show thesis
  proof cases
    case 1
    then show thesis using eq by (intro stop) auto
  next
    case 2
    show thesis
    proof (cases "ap \<and> pos + 2 \<le> lim \<and> pointer_target dat pos < lim")
      case True
      then show thesis using 2 ret eq by (intro pointer st) auto
    next
      case False
      then show thesis using 2 eq by (intro stop) auto
    qed
  next
    case 3
    show thesis
    proof (cases "n < 64 \<and> pos + n + 1 \<le> lim \<and> length buf + (n + 1) \<le> 255")
      case True
      show thesis
      proof (cases "n = 0")
        case True
        then show thesis using 3 ret [of "pos + 1"] eq \<open>n < 64 \<and> _\<close> by (intro root) auto
      next
        case False
        then show thesis using 3 eq rd mk \<open>n < 64 \<and> _\<close> by (intro label st) auto
      qed
    next
      case False
      then show thesis using 3 eq by (intro stop) (auto simp: not_le)
    qed
  qed
qed

lemma dname_wire_loop_total:
  "loop_pre v packet mark \<Longrightarrow>
    \<exists>n out q. dname_wire_loop ap v packet buf mark = Some (n, out, packet\<lparr>buf_position := q\<rparr>) \<and>
      q \<le> buf_limit packet \<and> length out \<le> max 255 (length buf)"
proof (induction v packet buf mark rule: dname_wire_loop_induct)
  case (1 v packet buf mark)
  note IH = 1(2)
  from 1(1) show ?case
  proof (cases rule: wire_loop_cases [where ap = ap and buf = buf])
    case stop
    then show ?thesis using 1(1)
      by (intro exI [of _ 0] exI [of _ buf] exI [of _ "buf_position packet"])
        (auto simp: loop_pre_def buffer_wfD)
  next
    case pointer
    then show ?thesis using IH [OF pointer(1,2,7), of buf] by simp
  next
    case root
    then show ?thesis by fastforce
  next
    case label
    then show ?thesis using IH [OF label(1,2,8)] by force
  qed
qed

subsection \<open>Soundness and completeness\<close>

lemma pointer_target_take [simp]:
  "pos + 2 \<le> lim \<Longrightarrow> pointer_target (take lim p) pos = pointer_target p pos"
  by (simp add: pointer_target_def)

lemma mem_read_label:
  "pos + n + 1 \<le> length p \<Longrightarrow> mem_read pos (n + 1) p = p ! pos # mem_read (pos + 1) n p"
  by (simp add: mem_read_def Cons_nth_drop_Suc [symmetric])

lemma dname_wire_loop_sound:
  "loop_pre v packet mark \<Longrightarrow> dname_wire_loop ap v packet buf mark = Some (n, out, packet') \<Longrightarrow> n \<noteq> 0 \<Longrightarrow>
    \<exists>k ls e. name_at ap (take (buf_limit packet) (buf_data packet)) (buf_position packet) k ls e \<and>
      out = buf @ wire ls \<and> n = length out \<and> n \<le> 255 \<and>
      packet' = packet\<lparr>buf_position := ret_position mark e\<rparr>"
proof (induction v packet buf mark arbitrary: rule: dname_wire_loop_induct)
  case (1 v packet buf mark)
  note IH = 1(2)
  have len: "buf_limit packet \<le> length (buf_data packet)"
    using 1(1) by (auto simp: loop_pre_def buffer_wfD)
  from 1(1) show ?case
  proof (cases rule: wire_loop_cases [where ap = ap and buf = buf])
    case stop
    then show ?thesis using 1(3,4) by simp
  next
    case pointer
    obtain k ls e where h: "name_at ap (take (buf_limit packet) (buf_data packet))
         (pointer_target (buf_data packet) (buf_position packet)) k ls e"
      "out = buf @ wire ls" "n = length out" "n \<le> 255"
      "packet' = packet\<lparr>buf_position := ret_position mark (buf_position packet + 2)\<rparr>"
      using IH [OF pointer(1,2,7) 1(3) [unfolded pointer(8)] 1(4)] by auto
    have "name_at ap (take (buf_limit packet) (buf_data packet)) (buf_position packet) (Suc k) ls
        (buf_position packet + 2)"
      using h(1) pointer len by (intro na_pointer) simp_all
    then show ?thesis using h by blast
  next
    case root
    have "name_at ap (take (buf_limit packet) (buf_data packet)) (buf_position packet) 0 []
        (buf_position packet + 1)"
      using root len by (intro na_root) (simp_all add: unat_eq_0)
    moreover have "out = buf @ wire []" "n = length out" "n \<le> 255"
      "packet' = packet\<lparr>buf_position := ret_position mark (buf_position packet + 1)\<rparr>"
      using root 1(3) by auto
    ultimately show ?thesis by blast
  next
    case label
    let ?pos = "buf_position packet"
    obtain k ls e where h: "name_at ap (take (buf_limit packet) (buf_data packet))
         (?pos + unat (buf_data packet ! ?pos) + 1) k ls e"
      "out = buf @ mem_read ?pos (unat (buf_data packet ! ?pos) + 1) (buf_data packet) @ wire ls"
      "n = length out" "n \<le> 255" "packet' = packet\<lparr>buf_position := ret_position mark e\<rparr>"
      using IH [OF label(1,2,8) 1(3) [unfolded label(9)] 1(4)] by auto
    have "name_at ap (take (buf_limit packet) (buf_data packet)) ?pos (Suc k)
        (mem_read (?pos + 1) (unat (buf_data packet ! ?pos)) (take (buf_limit packet) (buf_data packet)) # ls) e"
      using h(1) label len by (intro na_label) simp_all
    moreover have "mem_read (?pos + 1) (unat (buf_data packet ! ?pos)) (take (buf_limit packet) (buf_data packet)) =
        mem_read (?pos + 1) (unat (buf_data packet ! ?pos)) (buf_data packet)"
      using label by (intro mem_read_take) simp
    moreover have "out = buf @ wire (mem_read (?pos + 1) (unat (buf_data packet ! ?pos)) (buf_data packet) # ls)"
      using h(2) label len
        mem_read_label [of ?pos "unat (buf_data packet ! ?pos)" "buf_data packet"] by simp
    ultimately show ?thesis using h(3-5) by metis
  qed
qed

text \<open>
  A name that can be read in finitely many steps never returns to a position: the step
  count of every position already visited is larger than that of the current one.
\<close>

definition visited_deeper :: "bool \<Rightarrow> byte list \<Rightarrow> byte list \<Rightarrow> nat \<Rightarrow> bool" where
  "visited_deeper ap p v k \<longleftrightarrow> (\<forall>q k' ls' e'. seen v q \<longrightarrow> name_at ap p q k' ls' e' \<longrightarrow> k < k')"

lemma visited_deeper_fresh: "visited_deeper ap p v k \<Longrightarrow> name_at ap p pos k ls e \<Longrightarrow> \<not> seen v pos"
  by (auto simp: visited_deeper_def)

lemma visited_deeper_visit:
  assumes "visited_deeper ap p v (Suc k)" "name_at ap p pos (Suc k) ls e" "pos div 8 < length v"
  shows "visited_deeper ap p (visit v pos) k"
  unfolding visited_deeper_def seen_visit [OF assms(3)]
proof (intro allI impI)
  fix q k' ls' e' assume q: "q = pos \<or> seen v q" and der: "name_at ap p q k' ls' e'"
  from q show "k < k'"
  proof
    assume "q = pos"
    then show ?thesis using name_at_det [OF assms(2)] der by blast
  next
    assume "seen v q"
    then have "Suc k < k'" using assms(1) der unfolding visited_deeper_def by blast
    then show ?thesis by simp
  qed
qed

lemma dname_wire_loop_complete:
  assumes "name_at ap p pos k ls e" "p = take (buf_limit packet) (buf_data packet)"
    "pos = buf_position packet" "loop_pre v packet mark" "visited_deeper ap p v k"
    "length buf + length (wire ls) \<le> 255"
  shows "dname_wire_loop ap v packet buf mark =
    Some (length buf + length (wire ls), buf @ wire ls, packet\<lparr>buf_position := ret_position mark e\<rparr>)"
  using assms
proof (induction arbitrary: packet v mark buf rule: name_at.induct)
  case (na_root pos)
  have "\<not> seen v pos" by (rule visited_deeper_fresh [OF na_root(6)]) (rule name_at.na_root [OF na_root(1,2)])
  then show ?case using na_root(1,2,4,7) unfolding na_root(3)
    by (subst dname_wire_loop_wf [OF na_root(5)]) (simp add: Let_def)
next
  case (na_label pos n k ls e)
  have der: "name_at ap p pos (Suc k) (mem_read (pos + 1) n p # ls) e"
    using na_label(1-5) by (rule name_at.na_label)
  have lt: "pos < buf_limit packet" "buf_limit packet \<le> length (buf_data packet)"
    using na_label(1,7,9) by (auto simp: loop_pre_def buffer_wf_unfold)
  have n: "n = unat (buf_data packet ! pos)" "pos + n + 1 \<le> buf_limit packet"
    using na_label(1,2,7) lt by auto
  have vis: "pos div 8 < length v" using lt na_label(9) unfolding loop_pre_def by linarith
  let ?p = "packet\<lparr>buf_position := pos + n + 1\<rparr>"
  have rd: "mem_read pos (n + 1) (buf_data packet) = of_nat n # mem_read (pos + 1) n p"
    unfolding na_label(7) using n lt mem_read_label [of pos n "buf_data packet"]
    by (simp add: mem_read_take)
  have pre: "loop_pre (visit v pos) ?p mark"
    using na_label(8,9) lt n loop_pre_step [OF na_label(9), of "pos + n + 1" mark]
    by (simp add: loop_pre_def)
  have len: "length (mem_read (pos + 1) n p) = n" using na_label(1) by simp
  have sz: "length (buf @ of_nat n # mem_read (pos + 1) n p) + length (wire ls) \<le> 255"
    using na_label(11) len by simp
  have "dname_wire_loop ap v packet buf mark =
      dname_wire_loop ap (visit v pos) ?p (buf @ of_nat n # mem_read (pos + 1) n p) mark"
    using visited_deeper_fresh [OF na_label(10) der] lt n na_label(3,4,8,11) rd len
    by (subst dname_wire_loop_wf [OF na_label(9)]) (simp add: Let_def)
  also have "\<dots> = Some (length (buf @ of_nat n # mem_read (pos + 1) n p) + length (wire ls),
      (buf @ of_nat n # mem_read (pos + 1) n p) @ wire ls, ?p\<lparr>buf_position := ret_position mark e\<rparr>)"
    by (rule na_label.IH) (use na_label(7) pre sz visited_deeper_visit [OF na_label(10) der vis] in simp_all)
  finally show ?case using len by simp
next
  case (na_pointer pos k ls e)
  have der: "name_at ap p pos (Suc k) ls (pos + 2)"
    using na_pointer(1-4) by (rule name_at.na_pointer)
  have lt: "pos + 2 \<le> buf_limit packet" "buf_limit packet \<le> length (buf_data packet)"
    using na_pointer(2,6,8) by (auto simp: loop_pre_def buffer_wf_unfold)
  have vis: "pos div 8 < length v" using lt na_pointer(8) unfolding loop_pre_def by linarith
  have tgt: "pointer_target p pos = pointer_target (buf_data packet) pos"
    "pointer_target p pos < buf_limit packet"
    using name_at_pos [OF na_pointer(4)] na_pointer(6) lt by simp_all
  let ?p = "packet\<lparr>buf_position := pointer_target p pos\<rparr>" and ?m = "Some (ret_position mark (pos + 2))"
  have pre: "loop_pre (visit v pos) ?p ?m"
    using na_pointer(7,8) lt tgt loop_pre_step [OF na_pointer(8), of "pointer_target p pos" ?m]
      ret_position_le [OF na_pointer(8) lt(1)] by simp
  have "dname_wire_loop ap v packet buf mark = dname_wire_loop ap (visit v pos) ?p buf ?m"
    using visited_deeper_fresh [OF na_pointer(9) der] lt tgt na_pointer(1,3,6,7)
    by (subst dname_wire_loop_wf [OF na_pointer(8)]) (simp add: Let_def)
  also have "\<dots> = Some (length buf + length (wire ls), buf @ wire ls,
      ?p\<lparr>buf_position := ret_position ?m e\<rparr>)"
    by (rule na_pointer.IH)
      (use na_pointer(6,10) pre visited_deeper_visit [OF na_pointer(9) der vis] in simp_all)
  finally show ?case by simp
qed

subsection \<open>The two entry points\<close>

lemma name_at_valid: "name_at ap p pos k ls e \<Longrightarrow> \<forall>l \<in> set ls. valid_label l"
proof (induction rule: name_at.induct)
  case (na_label pos n k ls e)
  have "length (mem_read (pos + 1) n p) = n" using na_label(1) by simp
  then have "valid_label (mem_read (pos + 1) n p)"
    unfolding valid_label_def MAXLABELLEN_def using na_label(3,4) by linarith
  then show ?case using na_label(6) by simp
qed simp_all

lemma name_at_end: "name_at ap p pos k ls e \<Longrightarrow> pos < e \<and> e \<le> length p"
  by (induction rule: name_at.induct) auto

lemma loop_pre_init:
  assumes "buffer_wf packet"
  shows "loop_pre (replicate ((buf_limit packet + 7) div 8) 0) packet None"
proof -
  have "buf_limit packet \<le> 8 * ((buf_limit packet + 7) div 8)" by linarith
  then show ?thesis using assms by (simp add: loop_pre_def)
qed

lemma seen_init: "\<not> seen (replicate n 0) i"
  by (simp add: seen_def get_bit_eq)

lemma make_wire_limit: "buf_limit packet \<le> MAX_PACKET_SIZE \<Longrightarrow>
    (buf_limit packet + 7) div 8 \<le> (MAX_PACKET_SIZE + 7) div 8"
  by (intro div_le_mono) simp

lemma dname_make_wire_from_packet_cases:
  assumes wf: "buffer_wf packet" and lim: "buf_limit packet \<le> MAX_PACKET_SIZE"
  obtains (ok) k ls e where
    "name_at ap (take (buf_limit packet) (buf_data packet)) (buf_position packet) k ls e"
    "valid_labels ls" "e \<le> buf_limit packet"
    "dname_make_wire_from_packet packet ap =
       Some (length (wire ls), wire ls, packet\<lparr>buf_position := e\<rparr>)"
  | (bad) out q where
    "\<nexists>k ls e. name_at ap (take (buf_limit packet) (buf_data packet)) (buf_position packet) k ls e \<and>
       length (wire ls) \<le> MAXDOMAINLEN"
    "q \<le> buf_limit packet"
    "dname_make_wire_from_packet packet ap = Some (0, out, packet\<lparr>buf_position := q\<rparr>)"
proof -
  note pre = loop_pre_init [OF wf]
  have eq: "dname_make_wire_from_packet packet ap =
      dname_wire_loop ap (replicate ((buf_limit packet + 7) div 8) 0) packet [] None"
    using make_wire_limit [OF lim] by (simp add: dname_make_wire_from_packet_def)
  obtain n out q where r: "dname_make_wire_from_packet packet ap = Some (n, out, packet\<lparr>buf_position := q\<rparr>)"
    "q \<le> buf_limit packet"
    unfolding eq using dname_wire_loop_total [OF pre] by blast
  let ?p = "take (buf_limit packet) (buf_data packet)"
  show thesis
  proof (cases "n = 0")
    case True
    have False if na: "name_at ap ?p (buf_position packet) k ls e" "length (wire ls) \<le> MAXDOMAINLEN" for k ls e
    proof -
      have "visited_deeper ap ?p (replicate ((buf_limit packet + 7) div 8) 0) k"
        by (simp add: visited_deeper_def seen_init)
      then show False
        using dname_wire_loop_complete [OF na(1) refl refl pre] r(1)[unfolded eq] na(2) True
        by (simp add: MAXDOMAINLEN_def)
    qed
    then show thesis using r True by (intro bad) blast+
  next
    case False
    from dname_wire_loop_sound [OF pre r(1)[unfolded eq] False]
    obtain k ls e where na: "name_at ap ?p (buf_position packet) k ls e"
      and h: "out = wire ls" "n = length out" "n \<le> 255"
        "packet\<lparr>buf_position := q\<rparr> = packet\<lparr>buf_position := e\<rparr>" by auto
    have "valid_labels ls"
      using name_at_valid [OF na] h by (simp add: valid_labels_def MAXDOMAINLEN_def)
    moreover have "e \<le> buf_limit packet" using name_at_end [OF na] by simp
    ultimately show thesis using na h r by (intro ok) simp_all
  qed
qed

lemma dname_make_from_packet_cases:
  assumes wf: "buffer_wf packet" and lim: "buf_limit packet \<le> MAX_PACKET_SIZE"
  obtains (ok) k ls e where
    "name_at ap (take (buf_limit packet) (buf_data packet)) (buf_position packet) k ls e"
    "valid_labels ls" "e \<le> buf_limit packet"
    "dname_make_from_packet packet ap norm =
       Some (Some (dname_of (norm_labels norm ls)), packet\<lparr>buf_position := e\<rparr>)"
  | (bad) q where
    "\<nexists>k ls e. name_at ap (take (buf_limit packet) (buf_data packet)) (buf_position packet) k ls e \<and>
       length (wire ls) \<le> MAXDOMAINLEN"
    "q \<le> buf_limit packet"
    "dname_make_from_packet packet ap norm = Some (None, packet\<lparr>buf_position := q\<rparr>)"
proof (rule dname_make_wire_from_packet_cases [OF wf lim, of ap])
  fix k ls e
  assume a: "name_at ap (take (buf_limit packet) (buf_data packet)) (buf_position packet) k ls e"
    "valid_labels ls" "e \<le> buf_limit packet"
    "dname_make_wire_from_packet packet ap = Some (length (wire ls), wire ls, packet\<lparr>buf_position := e\<rparr>)"
  show thesis
    using a dname_make_of_wire [OF a(2), of "[]" norm] by (intro ok [OF a(1-3)]) (simp add: dname_make_from_packet_def)
next
  fix out q
  assume "\<nexists>k ls e. name_at ap (take (buf_limit packet) (buf_data packet)) (buf_position packet) k ls e \<and>
       length (wire ls) \<le> MAXDOMAINLEN" "q \<le> buf_limit packet"
    "dname_make_wire_from_packet packet ap = Some (0, out, packet\<lparr>buf_position := q\<rparr>)"
  then show thesis by (intro bad) (simp_all add: dname_make_from_packet_def)
qed

text \<open>An uncompressed name in the packet is read back as it was written.\<close>

lemma name_at_wire:
  assumes "\<forall>l \<in> set ls. valid_label l"
  shows "name_at ap (pre @ wire ls @ post) (length pre) (length ls) ls (length pre + length (wire ls))"
  using assms
proof (induction ls arbitrary: pre)
  case Nil
  then show ?case using na_root [of "length pre" "pre @ wire [] @ post" ap] by (simp add: nth_append)
next
  case (Cons l ls)
  then have l: "valid_label l" and v: "\<forall>l \<in> set ls. valid_label l" by auto
  let ?p = "pre @ wire (l # ls) @ post" and ?pre = "pre @ of_nat (length l) # l"
  have IH: "name_at ap ?p (length pre + length l + 1) (length ls) ls (length pre + length (wire (l # ls)))"
    using Cons.IH [OF v, of ?pre] by (simp add: add.assoc)
  have n: "?p ! length pre = of_nat (length l)" by (simp add: nth_append)
  have rd: "mem_read (length pre + 1) (length l) ?p = l" by (simp add: mem_read_def)
  have "name_at ap ?p (length pre) (Suc (length ls)) (mem_read (length pre + 1) (length l) ?p # ls)
      (length pre + length (wire (l # ls)))"
    using IH n valid_label_byte [OF l] l by (intro na_label) (auto simp: valid_label_def)
  then show ?case unfolding rd by simp
qed

lemma name_at_bytes:
  assumes "bytes_at q (wire ls) p" "\<forall>l \<in> set ls. valid_label l"
  shows "name_at ap p q (length ls) ls (q + length (wire ls))"
  using assms name_at_wire by (auto simp: bytes_at_decomp)

lemma dname_make_from_packet_name_at:
  assumes "buffer_wf packet" "buf_limit packet \<le> MAX_PACKET_SIZE"
    "name_at ap (take (buf_limit packet) (buf_data packet)) (buf_position packet) k ls e"
    "length (wire ls) \<le> MAXDOMAINLEN"
  shows "dname_make_from_packet packet ap norm =
    Some (Some (dname_of (norm_labels norm ls)), packet\<lparr>buf_position := e\<rparr>)"
  using assms(1,2)
proof (cases rule: dname_make_from_packet_cases [of packet ap norm])
  case (ok k' ls' e')
  then show ?thesis using name_at_det [OF assms(3) ok(1)] by simp
next
  case (bad q)
  then show ?thesis using assms(3,4) by blast
qed

end
