(* ===== verification/Packet_Parse.thy ===== *)
theory Packet_Parse
  imports Dname_Wire
begin

text \<open>
  The DNS message header (\<open>packet.h\<close>) and the parsing half of \<open>packet.c\<close>:
  skipping names and records, the question section, and the serial of a NOTIFY.

  Every parser here and in the theories on EDNS and TSIG is an instance of the locale
  \<open>packet_reader\<close>: on a well-formed packet it returns, moves only the position of the
  packet, and leaves it inside the limit. The loops over the records of a section are
  verified once, in that locale.
\<close>

subsection \<open>Constants of dns.h and packet.h\<close>

definition QHEADERSZ :: nat where "QHEADERSZ = 12"

definition CLASS_IN :: u16 where "CLASS_IN = 1"
definition CLASS_CS :: u16 where "CLASS_CS = 2"
definition CLASS_CH :: u16 where "CLASS_CH = 3"
definition CLASS_HS :: u16 where "CLASS_HS = 4"
definition CLASS_NONE :: u16 where "CLASS_NONE = 254"
definition CLASS_ANY :: u16 where "CLASS_ANY = 255"

definition TYPE_A :: u16 where "TYPE_A = 1"
definition TYPE_NS :: u16 where "TYPE_NS = 2"
definition TYPE_MD :: u16 where "TYPE_MD = 3"
definition TYPE_MF :: u16 where "TYPE_MF = 4"
definition TYPE_CNAME :: u16 where "TYPE_CNAME = 5"
definition TYPE_SOA :: u16 where "TYPE_SOA = 6"
definition TYPE_MB :: u16 where "TYPE_MB = 7"
definition TYPE_MG :: u16 where "TYPE_MG = 8"
definition TYPE_MR :: u16 where "TYPE_MR = 9"
definition TYPE_PTR :: u16 where "TYPE_PTR = 12"
definition TYPE_MX :: u16 where "TYPE_MX = 15"
definition TYPE_TXT :: u16 where "TYPE_TXT = 16"
definition TYPE_AFSDB :: u16 where "TYPE_AFSDB = 18"
definition TYPE_RT :: u16 where "TYPE_RT = 21"
definition TYPE_AAAA :: u16 where "TYPE_AAAA = 28"
definition TYPE_DNAME :: u16 where "TYPE_DNAME = 39"
definition TYPE_OPT :: u16 where "TYPE_OPT = 41"
definition TYPE_DS :: u16 where "TYPE_DS = 43"
definition TYPE_RRSIG :: u16 where "TYPE_RRSIG = 46"
definition TYPE_NSEC :: u16 where "TYPE_NSEC = 47"
definition TYPE_DNSKEY :: u16 where "TYPE_DNSKEY = 48"
definition TYPE_NSEC3 :: u16 where "TYPE_NSEC3 = 50"
definition TYPE_TSIG :: u16 where "TYPE_TSIG = 250"
definition TYPE_IXFR :: u16 where "TYPE_IXFR = 251"
definition TYPE_AXFR :: u16 where "TYPE_AXFR = 252"
definition TYPE_MAILB :: u16 where "TYPE_MAILB = 253"
definition TYPE_MAILA :: u16 where "TYPE_MAILA = 254"
definition TYPE_ANY :: u16 where "TYPE_ANY = 255"

subsection \<open>Header fields (packet.h)\<close>

definition hdr_get :: "nat \<Rightarrow> byte \<Rightarrow> buffer \<Rightarrow> byte option" where
  "hdr_get at mask_v packet = do { v \<leftarrow> buffer_at packet at; Some (v AND mask_v) }"

definition hdr_update :: "nat \<Rightarrow> (byte \<Rightarrow> byte) \<Rightarrow> buffer \<Rightarrow> buffer option" where
  "hdr_update at f packet = do { v \<leftarrow> buffer_at packet at; buffer_set_at packet at (f v) }"

definition RD :: "buffer \<Rightarrow> byte option" where "RD = hdr_get 2 0x01"
definition TC :: "buffer \<Rightarrow> byte option" where "TC = hdr_get 2 0x02"
definition AA :: "buffer \<Rightarrow> byte option" where "AA = hdr_get 2 0x04"
definition QR :: "buffer \<Rightarrow> byte option" where "QR = hdr_get 2 0x80"
definition OPCODE :: "buffer \<Rightarrow> byte option" where
  "OPCODE packet = do { v \<leftarrow> hdr_get 2 0x78 packet; Some (drop_bit 3 v) }"
definition RCODE :: "buffer \<Rightarrow> byte option" where "RCODE = hdr_get 3 0x0f"
definition AD :: "buffer \<Rightarrow> byte option" where "AD = hdr_get 3 0x20"

definition TC_SET :: "buffer \<Rightarrow> buffer option" where "TC_SET = hdr_update 2 (\<lambda>v. v OR 0x02)"
definition AA_SET :: "buffer \<Rightarrow> buffer option" where "AA_SET = hdr_update 2 (\<lambda>v. v OR 0x04)"
definition AA_CLR :: "buffer \<Rightarrow> buffer option" where "AA_CLR = hdr_update 2 (\<lambda>v. v AND NOT 0x04)"
definition QR_SET :: "buffer \<Rightarrow> buffer option" where "QR_SET = hdr_update 2 (\<lambda>v. v OR 0x80)"
definition AD_SET :: "buffer \<Rightarrow> buffer option" where "AD_SET = hdr_update 3 (\<lambda>v. v OR 0x20)"
definition RCODE_SET :: "buffer \<Rightarrow> byte \<Rightarrow> buffer option" where
  "RCODE_SET packet rcode = hdr_update 3 (\<lambda>v. (v AND NOT 0x0f) OR rcode) packet"
definition OPCODE_SET :: "buffer \<Rightarrow> byte \<Rightarrow> buffer option" where
  "OPCODE_SET packet opcode = hdr_update 2 (\<lambda>v. (v AND NOT 0x78) OR push_bit 3 opcode) packet"

definition ID :: "buffer \<Rightarrow> u16 option" where "ID packet = buffer_read_u16_at packet 0"
definition FLAGS :: "buffer \<Rightarrow> u16 option" where "FLAGS packet = buffer_read_u16_at packet 2"
definition QDCOUNT :: "buffer \<Rightarrow> u16 option" where "QDCOUNT packet = buffer_read_u16_at packet 4"
definition ANCOUNT :: "buffer \<Rightarrow> u16 option" where "ANCOUNT packet = buffer_read_u16_at packet 6"
definition NSCOUNT :: "buffer \<Rightarrow> u16 option" where "NSCOUNT packet = buffer_read_u16_at packet 8"
definition ARCOUNT :: "buffer \<Rightarrow> u16 option" where "ARCOUNT packet = buffer_read_u16_at packet 10"
definition ID_SET :: "buffer \<Rightarrow> u16 \<Rightarrow> buffer option" where "ID_SET packet v = buffer_write_u16_at packet 0 v"
definition FLAGS_SET :: "buffer \<Rightarrow> u16 \<Rightarrow> buffer option" where "FLAGS_SET packet v = buffer_write_u16_at packet 2 v"
definition QDCOUNT_SET :: "buffer \<Rightarrow> u16 \<Rightarrow> buffer option" where "QDCOUNT_SET packet v = buffer_write_u16_at packet 4 v"
definition ANCOUNT_SET :: "buffer \<Rightarrow> u16 \<Rightarrow> buffer option" where "ANCOUNT_SET packet v = buffer_write_u16_at packet 6 v"
definition NSCOUNT_SET :: "buffer \<Rightarrow> u16 \<Rightarrow> buffer option" where "NSCOUNT_SET packet v = buffer_write_u16_at packet 8 v"
definition ARCOUNT_SET :: "buffer \<Rightarrow> u16 \<Rightarrow> buffer option" where "ARCOUNT_SET packet v = buffer_write_u16_at packet 10 v"

lemmas hdr_count_defs = ID_def FLAGS_def QDCOUNT_def ANCOUNT_def NSCOUNT_def ARCOUNT_def

lemma hdr_counts_position [simp]:
  "buf_limit b = buf_limit p \<Longrightarrow> buf_data b = buf_data p \<Longrightarrow> buffer_wf b \<Longrightarrow> buffer_wf p \<Longrightarrow>
    QHEADERSZ \<le> buf_limit p \<Longrightarrow>
    QDCOUNT b = QDCOUNT p \<and> ANCOUNT b = ANCOUNT p \<and> NSCOUNT b = NSCOUNT p \<and> ARCOUNT b = ARCOUNT p"
  by (simp add: hdr_count_defs buffer_read_u16_at_wf QHEADERSZ_def)

subsection \<open>Skipping names and records\<close>

partial_function (option) packet_skip_dname :: "buffer \<Rightarrow> (bool \<times> buffer) option" where
  "packet_skip_dname packet = do {
     av \<leftarrow> buffer_available packet 1;
     if \<not> av then Some (False, packet) else do {
     (label_size, packet) \<leftarrow> buffer_read_u8 packet;
     if label_size = 0 then Some (True, packet)
     else if label_size AND 0xc0 \<noteq> 0 then do {
       av \<leftarrow> buffer_available packet 1;
       if \<not> av then Some (False, packet) else do {
       packet \<leftarrow> buffer_skip packet 1;
       Some (True, packet) } }
     else do {
       av \<leftarrow> buffer_available packet (unat label_size);
       if \<not> av then Some (False, packet) else do {
       packet \<leftarrow> buffer_skip packet (int (unat label_size));
       packet_skip_dname packet } } } }"

definition packet_skip_rr :: "bool \<Rightarrow> buffer \<Rightarrow> (bool \<times> buffer) option" where
  "packet_skip_rr question_section packet = do {
     (ok, packet) \<leftarrow> packet_skip_dname packet;
     if \<not> ok then Some (False, packet)
     else if question_section then do {
       av \<leftarrow> buffer_available packet 4;
       if \<not> av then Some (False, packet) else do {
       packet \<leftarrow> buffer_skip packet 4;
       Some (True, packet) } }
     else do {
       av \<leftarrow> buffer_available packet 10;
       if \<not> av then Some (False, packet) else do {
       packet \<leftarrow> buffer_skip packet 8;
       (rdata_size, packet) \<leftarrow> buffer_read_u16 packet;
       av \<leftarrow> buffer_available packet (unat rdata_size);
       if \<not> av then Some (False, packet) else do {
       packet \<leftarrow> buffer_skip packet (int (unat rdata_size));
       Some (True, packet) } } } }"

subsection \<open>The question section\<close>

text \<open>
  The loop of \<open>packet_read_query_section\<close>: \<open>src\<close> is an offset into the data, \<open>start\<close>
  the offset of the name. The outer \<^term>\<open>None\<close> is a read outside the data array.
\<close>

function read_qname_loop ::
  "buffer \<Rightarrow> nat \<Rightarrow> nat \<Rightarrow> byte list \<Rightarrow> (nat \<times> byte list) option option" where
  "read_qname_loop packet start src dst = do {
     c \<leftarrow> mem_get (buf_data packet) src;
     if c = 0 then Some (Some (src, dst))
     else if c AND 0xc0 \<noteq> 0 \<or> src + unat c + 2 > buf_limit packet \<or>
             src + unat c + 2 > start + MAXDOMAINLEN then Some None
     else read_qname_loop packet start (src + unat c + 1)
            (dst @ mem_read src (unat c + 1) (buf_data packet)) }"
  by pat_completeness auto
termination
  by (relation "measure (\<lambda>(packet, start, src, dst). length (buf_data packet) - src)")
    (auto simp: mem_get_eq_Some)

declare read_qname_loop.simps [simp del]

definition packet_read_query_section ::
  "buffer \<Rightarrow> ((byte list \<times> u16 \<times> u16) option \<times> buffer) option" where
  "packet_read_query_section packet = (let query_name = buf_position packet in do {
     r \<leftarrow> read_qname_loop packet query_name query_name [];
     case r of None \<Rightarrow> Some (None, packet)
     | Some (src, dst) \<Rightarrow> do {
         c \<leftarrow> mem_get (buf_data packet) src;
         let len = src + 1 - query_name;
         if len > MAXDOMAINLEN \<or> src + 1 + 4 > buf_limit packet then Some (None, packet)
         else do {
           packet \<leftarrow> buffer_set_position packet (src + 1);
           (qtype, packet) \<leftarrow> buffer_read_u16 packet;
           (qclass, packet) \<leftarrow> buffer_read_u16 packet;
           Some (Some (dst @ [c], qtype, qclass), packet) } } })"

subsection \<open>Loops over records\<close>

text \<open>The loop \<open>for (i = 0; i < n; ++i) if (!p(packet)) fail\<close>.\<close>

fun repeat_read :: "(buffer \<Rightarrow> (bool \<times> buffer) option) \<Rightarrow> nat \<Rightarrow> buffer \<Rightarrow> (bool \<times> buffer) option" where
  "repeat_read p 0 packet = Some (True, packet)"
| "repeat_read p (Suc n) packet = do {
     (ok, packet) \<leftarrow> p packet;
     if \<not> ok then Some (False, packet) else repeat_read p n packet }"

text \<open>
  The loop of \<open>packet_find_notify_serial\<close>. The flag says whether a serial was found; the
  caller restores the position.
\<close>

definition notify_soa_rdata :: "buffer \<Rightarrow> (u32 option \<times> buffer) option" where
  "notify_soa_rdata packet = do {
     (klass, packet) \<leftarrow> buffer_read_u16 packet;
     if klass \<noteq> CLASS_IN then Some (None, packet) else do {
     packet \<leftarrow> buffer_skip packet 4;
     (rdata_size, packet) \<leftarrow> buffer_read_u16 packet;
     av \<leftarrow> buffer_available packet (unat rdata_size);
     if \<not> av then Some (None, packet) else do {
     (ok, packet) \<leftarrow> packet_skip_dname packet;
     if \<not> ok then Some (None, packet) else do {
     (ok, packet) \<leftarrow> packet_skip_dname packet;
     if \<not> ok then Some (None, packet) else do {
     av \<leftarrow> buffer_available packet 4;
     if \<not> av then Some (None, packet) else do {
     (serial, packet) \<leftarrow> buffer_read_u32 packet;
     Some (Some serial, packet) } } } } } }"

fun notify_serial_loop :: "nat \<Rightarrow> buffer \<Rightarrow> (u32 option \<times> buffer) option" where
  "notify_serial_loop 0 packet = Some (None, packet)"
| "notify_serial_loop (Suc n) packet = do {
     (ok, packet) \<leftarrow> packet_skip_dname packet;
     if \<not> ok then Some (None, packet) else do {
     av \<leftarrow> buffer_available packet 10;
     if \<not> av then Some (None, packet) else do {
     (ty, packet) \<leftarrow> buffer_read_u16 packet;
     if ty = TYPE_SOA then notify_soa_rdata packet
     else do {
       packet \<leftarrow> buffer_skip packet 6;
       (rdata_size, packet) \<leftarrow> buffer_read_u16 packet;
       av \<leftarrow> buffer_available packet (unat rdata_size);
       if \<not> av then Some (None, packet) else do {
       packet \<leftarrow> buffer_skip packet (int (unat rdata_size));
       notify_serial_loop n packet } } } } }"

definition packet_find_notify_serial :: "buffer \<Rightarrow> (u32 option \<times> buffer) option" where
  "packet_find_notify_serial packet = (let saved_position = buf_position packet in do {
     an \<leftarrow> ANCOUNT packet; ns \<leftarrow> NSCOUNT packet; ar \<leftarrow> ARCOUNT packet;
     let rrcount = unat an + unat ns + unat ar;
     packet \<leftarrow> buffer_set_position packet QHEADERSZ;
     qd \<leftarrow> QDCOUNT packet;
     (ok, packet) \<leftarrow> repeat_read (packet_skip_rr True) (unat qd) packet;
     if \<not> ok then do { packet \<leftarrow> buffer_set_position packet saved_position; Some (None, packet) }
     else do {
       (serial, packet) \<leftarrow> notify_serial_loop rrcount packet;
       packet \<leftarrow> buffer_set_position packet saved_position;
       Some (serial, packet) } })"

subsection \<open>The contract of a parser\<close>

definition packet_ok :: "buffer \<Rightarrow> bool" where
  "packet_ok b \<longleftrightarrow> buffer_wf b \<and> buf_limit b \<le> MAX_PACKET_SIZE"

definition reads :: "buffer \<Rightarrow> ('r \<times> buffer) option \<Rightarrow> bool" where
  "reads b r \<longleftrightarrow> (\<exists>x q. r = Some (x, b\<lparr>buf_position := q\<rparr>) \<and> q \<le> buf_limit b)"

lemma packet_ok_wf [simp]: "packet_ok b \<Longrightarrow> buffer_wf b"
  by (simp add: packet_ok_def)

lemma packet_ok_position [simp]:
  "packet_ok b \<Longrightarrow> packet_ok (b\<lparr>buf_position := q\<rparr>) \<longleftrightarrow> q \<le> buf_limit b"
  by (auto simp: packet_ok_def)

lemma packet_ok_bounds:
  "packet_ok b \<Longrightarrow> buf_position b \<le> buf_limit b" "packet_ok b \<Longrightarrow> buf_limit b \<le> length (buf_data b)"
  "packet_ok b \<Longrightarrow> buf_limit b \<le> MAX_PACKET_SIZE"
  by (auto simp: packet_ok_def buffer_wf_unfold)

lemma reads_Some [simp]: "reads b (Some (x, b\<lparr>buf_position := q\<rparr>)) \<longleftrightarrow> q \<le> buf_limit b"
proof
  assume "reads b (Some (x, b\<lparr>buf_position := q\<rparr>))"
  then obtain q' where "b\<lparr>buf_position := q\<rparr> = b\<lparr>buf_position := q'\<rparr>" "q' \<le> buf_limit b"
    by (auto simp: reads_def)
  then show "q \<le> buf_limit b" by (metis buffer.select_convs(1) buffer.surjective buffer.update_convs(1))
qed (auto simp: reads_def)

lemma reads_same: "packet_ok b \<Longrightarrow> reads b (Some (x, b))"
  using reads_Some [of b x "buf_position b"] by (simp add: packet_ok_bounds)

lemma reads_position [simp]: "reads (b\<lparr>buf_position := q\<rparr>) r = reads b r"
  by (simp add: reads_def)

lemma readsE:
  assumes "reads b r"
  obtains x q where "r = Some (x, b\<lparr>buf_position := q\<rparr>)" "q \<le> buf_limit b"
  using assms by (auto simp: reads_def)

lemma reads_bind:
  assumes "reads b m" "\<And>x q. q \<le> buf_limit b \<Longrightarrow> reads b (f (x, b\<lparr>buf_position := q\<rparr>))"
  shows "reads b (m \<bind> f)"
  using assms(1) by (rule readsE) (simp add: assms(2))

locale packet_reader =
  fixes parse :: "buffer \<Rightarrow> ('r \<times> buffer) option"
  assumes parse_reads: "packet_ok b \<Longrightarrow> reads b (parse b)"
begin

lemma parse_total:
  assumes "packet_ok b"
  obtains r q where "parse b = Some (r, b\<lparr>buf_position := q\<rparr>)" "q \<le> buf_limit b"
  using parse_reads [OF assms] by (rule readsE)

lemma parse_keeps:
  assumes "packet_ok b" "parse b = Some (r, b')"
  shows "packet_ok b'" "buf_data b' = buf_data b" "buf_limit b' = buf_limit b"
    "buf_capacity b' = buf_capacity b"
  using parse_reads [OF assms(1)] assms by (auto simp: reads_def)

lemma parse_bind:
  assumes "packet_ok b" "\<And>x q. q \<le> buf_limit b \<Longrightarrow> reads b (f (x, b\<lparr>buf_position := q\<rparr>))"
  shows "reads b (parse b \<bind> f)"
  using parse_reads [OF assms(1)] assms(2) by (rule reads_bind)

lemma parse_bind_at:
  assumes "packet_ok b" "q \<le> buf_limit b"
    "\<And>x q. q \<le> buf_limit b \<Longrightarrow> reads b (f (x, b\<lparr>buf_position := q\<rparr>))"
  shows "reads b (parse (b\<lparr>buf_position := q\<rparr>) \<bind> f)"
  using parse_bind [of "b\<lparr>buf_position := q\<rparr>" f] assms by simp

end

locale record_reader = packet_reader parse for parse :: "buffer \<Rightarrow> (bool \<times> buffer) option"
begin

lemma repeat_read_reads: "packet_ok b \<Longrightarrow> reads b (repeat_read parse n b)"
proof (induction n arbitrary: b)
  case 0
  then show ?case by (simp add: reads_same)
next
  case (Suc n)
  have "reads b (if \<not> ok then Some (False, b\<lparr>buf_position := q\<rparr>)
      else repeat_read parse n (b\<lparr>buf_position := q\<rparr>))" if "q \<le> buf_limit b" for ok q
    using Suc.IH [of "b\<lparr>buf_position := q\<rparr>"] Suc.prems that by simp
  then show ?case unfolding repeat_read.simps
    by (intro parse_bind [OF Suc.prems]) (simp only: prod.case)
qed

end

lemma buffer_skip_uint:
  "buffer_wf b \<Longrightarrow> buf_position b + unat w \<le> buf_limit b \<Longrightarrow>
    buffer_skip b (uint w) = Some (b\<lparr>buf_position := buf_position b + unat w\<rparr>)"
  using buffer_skip_wf [of b "uint w"] by (simp add: of_nat_le_iff [symmetric, where 'a = int])

lemmas packet_exec = buffer_skip_uint buffer_available_wf buffer_read_u8_wf buffer_read_u16_wf buffer_read_u32_wf
  buffer_skip_wf buffer_set_position_wf

lemma packet_skip_dname_wf:
  assumes "buffer_wf b"
  shows "packet_skip_dname b =
    (let pos = buf_position b; lim = buf_limit b; n = unat (buf_data b ! pos) in
     if lim \<le> pos then Some (False, b)
     else if n = 0 then Some (True, b\<lparr>buf_position := pos + 1\<rparr>)
     else if 64 \<le> n then
       if lim < pos + 2 then Some (False, b\<lparr>buf_position := pos + 1\<rparr>)
       else Some (True, b\<lparr>buf_position := pos + 2\<rparr>)
     else if lim < pos + n + 1 then Some (False, b\<lparr>buf_position := pos + 1\<rparr>)
     else packet_skip_dname (b\<lparr>buf_position := pos + n + 1\<rparr>))"
  using assms buffer_wfD(2) [OF assms]
  by (subst packet_skip_dname.simps)
    (auto simp: packet_exec Let_def and_c0_zero unat_eq_0 not_le not_less Suc_le_eq)

lemma packet_skip_dname_reads: "packet_ok b \<Longrightarrow> reads b (packet_skip_dname b)"
proof (induction "buf_limit b - buf_position b" arbitrary: b rule: less_induct)
  case less
  let ?n = "unat (buf_data b ! buf_position b)"
  have "reads b (packet_skip_dname (b\<lparr>buf_position := buf_position b + ?n + 1\<rparr>))"
    if "buf_position b + ?n + 1 \<le> buf_limit b"
    using less.hyps [of "b\<lparr>buf_position := buf_position b + ?n + 1\<rparr>"] less.prems that by simp
  then show ?case
    using less.prems by (subst packet_skip_dname_wf) (auto simp: Let_def not_le Suc_le_eq reads_same)
qed

lemma dname_make_from_packet_reads: "packet_ok b \<Longrightarrow> reads b (dname_make_from_packet b ap norm)"
  by (cases rule: dname_make_from_packet_cases [of b ap norm]) (auto simp: packet_ok_def)

interpretation name_reader: packet_reader "\<lambda>b. dname_make_from_packet b ap norm" for ap norm
  by unfold_locales (rule dname_make_from_packet_reads)

interpretation skip_dname: record_reader packet_skip_dname
  by unfold_locales (rule packet_skip_dname_reads)

lemma packet_skip_rr_reads: "packet_ok b \<Longrightarrow> reads b (packet_skip_rr qs b)"
  unfolding packet_skip_rr_def
  by (rule skip_dname.parse_bind) (auto simp: packet_exec)

interpretation skip_rr: record_reader "packet_skip_rr qs" for qs
  by unfold_locales (rule packet_skip_rr_reads)

text \<open>Where a name can be decoded, skipping it ends at the same place.\<close>

lemma packet_skip_dname_name_at:
  assumes "name_at ap p pos k ls e" "p = take (buf_limit b) (buf_data b)" "pos = buf_position b" "buffer_wf b"
  shows "packet_skip_dname b = Some (True, b\<lparr>buf_position := e\<rparr>)"
  using assms
proof (induction arbitrary: b rule: name_at.induct)
  case (na_root pos)
  then show ?case by (subst packet_skip_dname_wf) (auto simp: Let_def)
next
  case (na_label pos n k ls e)
  have le: "pos + n + 1 \<le> buf_limit b" using na_label(1,7) by simp
  have "pos < buf_limit b" using le by simp
  then have nth: "p ! pos = buf_data b ! pos" unfolding na_label(7) by simp
  then have n: "n = unat (buf_data b ! pos)" "pos + n + 1 \<le> buf_limit b"
    using na_label(2) le unfolding nth by blast+
  then have "packet_skip_dname b = packet_skip_dname (b\<lparr>buf_position := pos + n + 1\<rparr>)"
    using na_label(3,4,8,9) by (subst packet_skip_dname_wf) (simp_all add: Let_def)
  also have "\<dots> = Some (True, b\<lparr>buf_position := pos + n + 1\<rparr>\<lparr>buf_position := e\<rparr>)"
    using n na_label(7,9) by (intro na_label.IH) simp_all
  finally show ?case by simp
next
  case (na_pointer pos k ls e)
  then show ?case by (subst packet_skip_dname_wf) (auto simp: Let_def)
qed

subsection \<open>The NOTIFY serial\<close>

lemma notify_soa_rdata_reads:
  assumes "packet_ok b" "buf_position b + 8 \<le> buf_limit b"
  shows "reads b (notify_soa_rdata b)"
  using assms unfolding notify_soa_rdata_def
  by (auto simp: packet_exec intro!: skip_dname.parse_bind_at)

lemma notify_serial_loop_reads: "packet_ok b \<Longrightarrow> reads b (notify_serial_loop n b)"
proof (induction n arbitrary: b)
  case 0
  then show ?case by (simp add: reads_same)
next
  case (Suc n)
  have soa: "reads b (notify_soa_rdata (b\<lparr>buf_position := q\<rparr>))" if "q + 8 \<le> buf_limit b" for q
    using notify_soa_rdata_reads [of "b\<lparr>buf_position := q\<rparr>"] Suc.prems that by simp
  have nxt: "reads b (notify_serial_loop n (b\<lparr>buf_position := q\<rparr>))" if "q \<le> buf_limit b" for q
    using Suc.IH [of "b\<lparr>buf_position := q\<rparr>"] Suc.prems that by simp
  show ?case unfolding notify_serial_loop.simps
    by (rule skip_dname.parse_bind [OF Suc.prems])
      (use Suc.prems in \<open>auto simp: packet_exec intro!: soa nxt\<close>)
qed

interpretation notify_serial: packet_reader "notify_serial_loop n" for n
  by unfold_locales (rule notify_serial_loop_reads)

lemma hdr_counts_wf:
  assumes "packet_ok b" "QHEADERSZ \<le> buf_limit b"
  shows "QDCOUNT b = Some (read_uint16 (mem_read 4 2 (buf_data b)))"
    "ANCOUNT b = Some (read_uint16 (mem_read 6 2 (buf_data b)))"
    "NSCOUNT b = Some (read_uint16 (mem_read 8 2 (buf_data b)))"
    "ARCOUNT b = Some (read_uint16 (mem_read 10 2 (buf_data b)))"
  using assms by (simp_all add: hdr_count_defs buffer_read_u16_at_wf QHEADERSZ_def)

lemma packet_find_notify_serial_restores:
  assumes "packet_ok b" "QHEADERSZ \<le> buf_limit b"
  shows "\<exists>serial. packet_find_notify_serial b = Some (serial, b)"
proof -
  let ?b = "b\<lparr>buf_position := QHEADERSZ\<rparr>"
  have ok: "packet_ok ?b" using assms by simp
  let ?n = "unat (read_uint16 (mem_read 4 2 (buf_data b)))"
  have pos: "buf_position b \<le> buf_limit b" using assms by (simp add: packet_ok_bounds)
  obtain f q where rr: "repeat_read (packet_skip_rr True) ?n ?b = Some (f, b\<lparr>buf_position := q\<rparr>)"
    "q \<le> buf_limit b"
    using skip_rr.repeat_read_reads [OF ok, where qs = True and n = ?n] by (auto elim!: readsE)
  define rrs where "rrs = unat (read_uint16 (mem_read 6 2 (buf_data b))) +
        unat (read_uint16 (mem_read 8 2 (buf_data b))) + unat (read_uint16 (mem_read 10 2 (buf_data b)))"
  have okq: "packet_ok (b\<lparr>buf_position := q\<rparr>)" using assms(1) rr(2) by simp
  obtain s q' where l: "notify_serial_loop rrs (b\<lparr>buf_position := q\<rparr>) = Some (s, b\<lparr>buf_position := q'\<rparr>)"
    "q' \<le> buf_limit b"
    using notify_serial.parse_reads [OF okq, where n = rrs] by (auto elim!: readsE)
  note ex = hdr_counts_wf(2-4) [OF assms] hdr_counts_wf(1) [OF ok, simplified, OF assms(2)]
    buffer_set_position_wf assms(2) pos rr(1) l(1)
  show ?thesis unfolding packet_find_notify_serial_def Let_def
    by (simp add: ex rrs_def [symmetric])
qed

subsection \<open>The question section\<close>

lemma butlast_wire_root: "butlast (wire ls) @ [0] = wire ls"
  by (simp add: wire_def butlast_append)

lemma read_qname_loop_complete:
  assumes "name_at ap p src k ls e" "\<not> ap" "p = take (buf_limit b) (buf_data b)" "buffer_wf b"
    "start \<le> src" "src - start + length (wire ls) \<le> MAXDOMAINLEN"
  shows "read_qname_loop b start src dst = Some (Some (e - 1, dst @ butlast (wire ls))) \<and>
    buf_data b ! (e - 1) = 0 \<and> e = src + length (wire ls)"
  using assms
proof (induction arbitrary: dst rule: name_at.induct)
  case (na_root pos)
  then show ?case using buffer_wfD(5) [OF na_root(5)] by (subst read_qname_loop.simps) simp
next
  case (na_label pos n k ls e)
  have pos: "pos < buf_limit b" "pos + n + 1 \<le> buf_limit b" "buf_limit b \<le> length (buf_data b)"
    using na_label(1,8) buffer_wfD(5) [OF na_label(9)] by auto
  then have nth: "p ! pos = buf_data b ! pos" using na_label(8) by simp
  have lab: "length (mem_read (pos + 1) n p) = n" using na_label(1) by simp
  have rd: "mem_read pos (n + 1) (buf_data b) = of_nat n # mem_read (pos + 1) n p"
    unfolding na_label(8) using pos mem_read_label [of pos n "buf_data b"] na_label(2) nth
    by (simp add: mem_read_take)
  have sz: "pos - start + (n + 1) + length (wire ls) \<le> MAXDOMAINLEN" "0 < length (wire ls)"
    using na_label(11) lab by simp_all
  have IH: "read_qname_loop b start (pos + n + 1) d = Some (Some (e - 1, d @ butlast (wire ls))) \<and>
    buf_data b ! (e - 1) = 0 \<and> e = pos + n + 1 + length (wire ls)" for d
    using na_label(10) sz by (intro na_label.IH [OF na_label(7,8,9)]) linarith+
  have "pos + n + 2 \<le> start + MAXDOMAINLEN" using sz na_label(10) by linarith
  moreover have "pos + n + 2 \<le> buf_limit b"
    using name_at_pos [OF na_label(5)] na_label(8) by simp
  ultimately have "read_qname_loop b start pos dst =
      read_qname_loop b start (pos + n + 1) (dst @ mem_read pos (n + 1) (buf_data b))"
    using pos na_label(2-4) nth by (subst read_qname_loop.simps) (auto simp: and_c0_zero)
  then show ?case using IH [of "dst @ mem_read pos (n + 1) (buf_data b)"] rd lab
    by (auto simp: butlast_append)
next
  case (na_pointer pos k ls e)
  then show ?case by simp
qed

lemma read_qname_loop_sound:
  assumes "buffer_wf b"
  shows "read_qname_loop b start src dst = Some (Some (s, dst')) \<Longrightarrow> s < buf_limit b \<Longrightarrow>
    \<exists>k ls. name_at False (take (buf_limit b) (buf_data b)) src k ls (s + 1) \<and>
      dst' = dst @ butlast (wire ls) \<and> s + 1 = src + length (wire ls) \<and> buf_data b ! s = 0"
proof (induction "length (buf_data b) - src" arbitrary: src dst rule: less_induct)
  case less
  let ?c = "buf_data b ! src" and ?p = "take (buf_limit b) (buf_data b)"
  have len: "buf_limit b \<le> length (buf_data b)" by (rule buffer_wfD(5) [OF assms])
  have src: "src < length (buf_data b)"
    using less.prems(1) by (subst (asm) read_qname_loop.simps) (auto simp: mem_get_def split: if_splits)
  show ?case
  proof (cases "?c = 0")
    case True
    then have "s = src" "dst' = dst" using less.prems(1) src
      by (auto simp: read_qname_loop.simps [of b start src])
    moreover have "name_at False ?p src 0 [] (src + 1)"
      using True less.prems(2) \<open>s = src\<close> len by (intro na_root) simp_all
    ultimately show ?thesis using True by (intro exI [of _ 0] exI [of _ "[]"]) auto
  next
    case False
    let ?n = "unat ?c"
    let ?l = "mem_read (src + 1) ?n (buf_data b)"
    have n: "?n < 64" "0 < ?n" "src + ?n + 2 \<le> buf_limit b"
      and step: "read_qname_loop b start (src + ?n + 1) (dst @ mem_read src (?n + 1) (buf_data b)) =
        Some (Some (s, dst'))"
      using less.prems(1) src False
      by (auto simp: read_qname_loop.simps [of b start src] and_c0_zero unat_gt_0 split: if_splits)
    have lt: "length (buf_data b) - (src + ?n + 1) < length (buf_data b) - src" using src by simp
    obtain k ls where h: "name_at False ?p (src + ?n + 1) k ls (s + 1)"
      "dst' = (dst @ mem_read src (?n + 1) (buf_data b)) @ butlast (wire ls)"
      "s + 1 = src + ?n + 1 + length (wire ls)" "buf_data b ! s = 0"
      using less.hyps [OF lt step less.prems(2)] by blast
    have l: "mem_read (src + 1) ?n ?p = ?l" using n by (intro mem_read_take) simp
    have "name_at False ?p src (Suc k) (mem_read (src + 1) ?n ?p # ls) (s + 1)"
      using n len h(1) by (intro na_label) simp_all
    moreover have "length ?l = ?n" "mem_read src (?n + 1) (buf_data b) = ?c # ?l"
      using n len mem_read_label [of src ?n "buf_data b"] by simp_all
    ultimately show ?thesis using h l by (intro exI [of _ "Suc k"] exI [of _ "?l # ls"])
      (simp add: butlast_append)
  qed
qed

lemma read_qname_loop_inside:
  "read_qname_loop b start src dst = Some (Some (s, dst')) \<Longrightarrow> s < length (buf_data b)"
proof (induction b start src dst rule: read_qname_loop.induct)
  case (1 b start src dst)
  from 1(2) have src: "src < length (buf_data b)"
    by (subst (asm) read_qname_loop.simps) (auto simp: mem_get_def split: if_splits)
  with 1(2) show ?case using 1(1) [of "buf_data b ! src"]
    by (simp add: read_qname_loop.simps [of b start src] split: if_splits)
qed

lemma read_qname_loop_total:
  assumes "buffer_wf b"
  shows "src < length (buf_data b) \<Longrightarrow> \<exists>r. read_qname_loop b start src dst = Some r"
proof (induction "length (buf_data b) - src" arbitrary: src dst rule: less_induct)
  case less
  let ?n = "unat (buf_data b ! src)"
  have "\<exists>r. read_qname_loop b start (src + ?n + 1) (dst @ mem_read src (?n + 1) (buf_data b)) = Some r"
    if "src + ?n + 2 \<le> buf_limit b"
    using less.hyps [of "src + ?n + 1"] that less.prems buffer_wfD(5) [OF assms] by simp
  then show ?case using less.prems by (subst read_qname_loop.simps) auto
qed

lemma packet_read_query_section_spec:
  assumes wf: "buffer_wf b" and cap: "buf_position b < length (buf_data b)"
  shows "packet_read_query_section b = Some r \<longleftrightarrow>
    (if \<exists>k ls e. name_at False (take (buf_limit b) (buf_data b)) (buf_position b) k ls e \<and>
          length (wire ls) \<le> MAXDOMAINLEN \<and> e + 4 \<le> buf_limit b
     then \<exists>k ls e. name_at False (take (buf_limit b) (buf_data b)) (buf_position b) k ls e \<and>
          r = (Some (wire ls, read_uint16 (mem_read e 2 (buf_data b)),
                     read_uint16 (mem_read (e + 2) 2 (buf_data b))), b\<lparr>buf_position := e + 4\<rparr>)
     else r = (None, b))"
proof -
  let ?p = "take (buf_limit b) (buf_data b)" and ?pos = "buf_position b"
  obtain lr where lr: "read_qname_loop b ?pos ?pos [] = Some lr"
    using read_qname_loop_total [OF wf cap] by blast
  show ?thesis
  proof (cases "\<exists>k ls e. name_at False ?p ?pos k ls e \<and> length (wire ls) \<le> MAXDOMAINLEN \<and> e + 4 \<le> buf_limit b")
    case True
    then obtain k ls e where na: "name_at False ?p ?pos k ls e" "length (wire ls) \<le> MAXDOMAINLEN"
      "e + 4 \<le> buf_limit b" by blast
    have c: "read_qname_loop b ?pos ?pos [] = Some (Some (e - 1, butlast (wire ls)))"
      "buf_data b ! (e - 1) = 0" "e = ?pos + length (wire ls)"
      using read_qname_loop_complete [OF na(1) _ refl wf, of ?pos "[]"] na(2) by auto
    obtain e0 where e0: "e = Suc e0" using c(3) length_wire_pos [of ls]
      by (metis add_gr_0 gr0_conv_Suc)
    have sz: "Suc e0 - ?pos = length (wire ls)" "e0 < length (buf_data b)"
      using c(3) e0 na(3) buffer_wfD(5) [OF wf] by linarith+
    have eq: "packet_read_query_section b = Some (Some (wire ls, read_uint16 (mem_read e 2 (buf_data b)),
                     read_uint16 (mem_read (e + 2) 2 (buf_data b))), b\<lparr>buf_position := e + 4\<rparr>)"
      unfolding packet_read_query_section_def Let_def c(1)
      using na(2,3) c(2) sz wf unfolding e0 by (simp add: packet_exec butlast_wire_root)
    have uniq: "ls' = ls \<and> e' = e" if "name_at False ?p ?pos k' ls' e'" for k' ls' e'
      using name_at_det [OF na(1) that] by simp
    have "(\<exists>k ls e. name_at False ?p ?pos k ls e \<and> r = F ls e) \<longleftrightarrow> F ls e = r" for F
      using na(1) uniq by metis
    then show ?thesis unfolding eq if_P [OF True] by simp
  next
    case False
    have "packet_read_query_section b = Some (None, b)"
    proof (cases lr)
      case None
      then show ?thesis using lr by (simp add: packet_read_query_section_def)
    next
      case (Some sd)
      obtain s d where sd: "sd = (s, d)" by (cases sd)
      show ?thesis
      proof (cases "s + 1 - ?pos > MAXDOMAINLEN \<or> s + 1 + 4 > buf_limit b")
        case True
        have "s < length (buf_data b)"
          using lr Some sd by (intro read_qname_loop_inside) simp
        then show ?thesis using True lr Some sd by (auto simp: packet_read_query_section_def Let_def)
      next
        case ok: False
        then have "s < buf_limit b" by simp
        from read_qname_loop_sound [OF wf lr [unfolded Some sd] this] False ok
        show ?thesis by fastforce
      qed
    qed
    then show ?thesis using False by auto
  qed
qed

end
