(* ===== verification/Dns_Types.thy ===== *)
theory Dns_Types
  imports Packet_Parse
begin

text \<open>
  The RR type descriptors and the conversions between types, classes and their text form
  (\<open>dns.h\<close>, \<open>dns.c\<close>). The descriptor table is an array with one entry for each type up to
  AVC and one for DLV; the entries without a name are all alike, so the named ones are listed
  and every other index has the entry for unknown data. The columns for the zone parser
  (token and zone format) are left out.
\<close>

definition MAXRDATALEN :: nat where "MAXRDATALEN = 64"
definition RRTYPE_DESCRIPTORS_LENGTH :: nat where "RRTYPE_DESCRIPTORS_LENGTH = 259"
definition PSEUDO_TYPE_DLV :: nat where "PSEUDO_TYPE_DLV = RRTYPE_DESCRIPTORS_LENGTH"
definition TYPE_NSEC3PARAM :: u16 where "TYPE_NSEC3PARAM = 51"
definition TYPE_DLV :: u16 where "TYPE_DLV = 32769"
definition TYPE_SRV :: u16 where "TYPE_SRV = 33"
definition TYPE_KX :: u16 where "TYPE_KX = 36"
definition TYPE_X25 :: u16 where "TYPE_X25 = 19"
definition TYPE_ISDN :: u16 where "TYPE_ISDN = 20"

datatype rdata_wireformat = RDATA_WF_COMPRESSED_DNAME | RDATA_WF_UNCOMPRESSED_DNAME
  | RDATA_WF_LITERAL_DNAME | RDATA_WF_BYTE | RDATA_WF_SHORT | RDATA_WF_LONG | RDATA_WF_TEXT
  | RDATA_WF_TEXTS | RDATA_WF_A | RDATA_WF_AAAA | RDATA_WF_BINARY | RDATA_WF_BINARYWITHLENGTH
  | RDATA_WF_APL | RDATA_WF_IPSECGATEWAY | RDATA_WF_ILNP64 | RDATA_WF_EUI48 | RDATA_WF_EUI64
  | RDATA_WF_LONG_TEXT

record rrtype_descriptor =
  rd_type :: u16
  rd_name :: "string option"
  rd_minimum :: nat
  rd_maximum :: nat
  rd_wireformat :: "rdata_wireformat list"

definition desc :: "u16 \<Rightarrow> string option \<Rightarrow> nat \<Rightarrow> nat \<Rightarrow> rdata_wireformat list \<Rightarrow> rrtype_descriptor" where
  "desc t n mi ma w = \<lparr>rd_type = t, rd_name = n, rd_minimum = mi, rd_maximum = ma, rd_wireformat = w\<rparr>"

definition descriptors_0 :: "(nat \<times> rrtype_descriptor) list" where
  "descriptors_0 = [
     (1, desc 1 (Some ''A'') 1 1 [RDATA_WF_A]),
     (2, desc 2 (Some ''NS'') 1 1 [RDATA_WF_COMPRESSED_DNAME]),
     (3, desc 3 (Some ''MD'') 1 1 [RDATA_WF_UNCOMPRESSED_DNAME]),
     (4, desc 4 (Some ''MF'') 1 1 [RDATA_WF_UNCOMPRESSED_DNAME]),
     (5, desc 5 (Some ''CNAME'') 1 1 [RDATA_WF_COMPRESSED_DNAME]),
     (6, desc 6 (Some ''SOA'') 7 7 [RDATA_WF_COMPRESSED_DNAME, RDATA_WF_COMPRESSED_DNAME, RDATA_WF_LONG, RDATA_WF_LONG, RDATA_WF_LONG, RDATA_WF_LONG, RDATA_WF_LONG]),
     (7, desc 7 (Some ''MB'') 1 1 [RDATA_WF_COMPRESSED_DNAME]),
     (8, desc 8 (Some ''MG'') 1 1 [RDATA_WF_COMPRESSED_DNAME]),
     (9, desc 9 (Some ''MR'') 1 1 [RDATA_WF_COMPRESSED_DNAME]),
     (10, desc 10 (Some ''NULL'') 1 1 [RDATA_WF_BINARY]),
     (11, desc 11 (Some ''WKS'') 2 2 [RDATA_WF_A, RDATA_WF_BINARY]),
     (12, desc 12 (Some ''PTR'') 1 1 [RDATA_WF_COMPRESSED_DNAME]),
     (13, desc 13 (Some ''HINFO'') 2 2 [RDATA_WF_TEXT, RDATA_WF_TEXT]),
     (14, desc 14 (Some ''MINFO'') 2 2 [RDATA_WF_COMPRESSED_DNAME, RDATA_WF_COMPRESSED_DNAME]),
     (15, desc 15 (Some ''MX'') 2 2 [RDATA_WF_SHORT, RDATA_WF_COMPRESSED_DNAME]),
     (16, desc 16 (Some ''TXT'') 1 1 [RDATA_WF_TEXTS]),
     (17, desc 17 (Some ''RP'') 2 2 [RDATA_WF_UNCOMPRESSED_DNAME, RDATA_WF_UNCOMPRESSED_DNAME]),
     (18, desc 18 (Some ''AFSDB'') 2 2 [RDATA_WF_SHORT, RDATA_WF_UNCOMPRESSED_DNAME]),
     (19, desc 19 (Some ''X25'') 1 1 [RDATA_WF_TEXT]),
     (20, desc 20 (Some ''ISDN'') 1 2 [RDATA_WF_TEXT, RDATA_WF_TEXT]),
     (21, desc 21 (Some ''RT'') 2 2 [RDATA_WF_SHORT, RDATA_WF_UNCOMPRESSED_DNAME]),
     (22, desc 22 (Some ''NSAP'') 1 1 [RDATA_WF_BINARY]),
     (24, desc 24 (Some ''SIG'') 9 9 [RDATA_WF_SHORT, RDATA_WF_BYTE, RDATA_WF_BYTE, RDATA_WF_LONG, RDATA_WF_LONG, RDATA_WF_LONG, RDATA_WF_SHORT, RDATA_WF_UNCOMPRESSED_DNAME, RDATA_WF_BINARY]),
     (25, desc 25 (Some ''KEY'') 4 4 [RDATA_WF_SHORT, RDATA_WF_BYTE, RDATA_WF_BYTE, RDATA_WF_BINARY]),
     (26, desc 26 (Some ''PX'') 3 3 [RDATA_WF_SHORT, RDATA_WF_UNCOMPRESSED_DNAME, RDATA_WF_UNCOMPRESSED_DNAME])]"

definition descriptors_28 :: "(nat \<times> rrtype_descriptor) list" where
  "descriptors_28 = [
     (28, desc 28 (Some ''AAAA'') 1 1 [RDATA_WF_AAAA]),
     (29, desc 29 (Some ''LOC'') 1 1 [RDATA_WF_BINARY]),
     (30, desc 30 (Some ''NXT'') 2 2 [RDATA_WF_UNCOMPRESSED_DNAME, RDATA_WF_BINARY]),
     (33, desc 33 (Some ''SRV'') 4 4 [RDATA_WF_SHORT, RDATA_WF_SHORT, RDATA_WF_SHORT, RDATA_WF_UNCOMPRESSED_DNAME]),
     (35, desc 35 (Some ''NAPTR'') 6 6 [RDATA_WF_SHORT, RDATA_WF_SHORT, RDATA_WF_TEXT, RDATA_WF_TEXT, RDATA_WF_TEXT, RDATA_WF_UNCOMPRESSED_DNAME]),
     (36, desc 36 (Some ''KX'') 2 2 [RDATA_WF_SHORT, RDATA_WF_UNCOMPRESSED_DNAME]),
     (37, desc 37 (Some ''CERT'') 4 4 [RDATA_WF_SHORT, RDATA_WF_SHORT, RDATA_WF_BYTE, RDATA_WF_BINARY]),
     (39, desc 39 (Some ''DNAME'') 1 1 [RDATA_WF_UNCOMPRESSED_DNAME]),
     (41, desc 41 (Some ''OPT'') 1 1 [RDATA_WF_BINARY]),
     (42, desc 42 (Some ''APL'') 0 MAXRDATALEN (replicate MAXRDATALEN RDATA_WF_APL)),
     (43, desc 43 (Some ''DS'') 4 4 [RDATA_WF_SHORT, RDATA_WF_BYTE, RDATA_WF_BYTE, RDATA_WF_BINARY]),
     (44, desc 44 (Some ''SSHFP'') 3 3 [RDATA_WF_BYTE, RDATA_WF_BYTE, RDATA_WF_BINARY]),
     (45, desc 45 (Some ''IPSECKEY'') 4 5 [RDATA_WF_BYTE, RDATA_WF_BYTE, RDATA_WF_BYTE, RDATA_WF_IPSECGATEWAY, RDATA_WF_BINARY])]"

definition descriptors_46 :: "(nat \<times> rrtype_descriptor) list" where
  "descriptors_46 = [
     (46, desc 46 (Some ''RRSIG'') 9 9 [RDATA_WF_SHORT, RDATA_WF_BYTE, RDATA_WF_BYTE, RDATA_WF_LONG, RDATA_WF_LONG, RDATA_WF_LONG, RDATA_WF_SHORT, RDATA_WF_LITERAL_DNAME, RDATA_WF_BINARY]),
     (47, desc 47 (Some ''NSEC'') 2 2 [RDATA_WF_LITERAL_DNAME, RDATA_WF_BINARY]),
     (48, desc 48 (Some ''DNSKEY'') 4 4 [RDATA_WF_SHORT, RDATA_WF_BYTE, RDATA_WF_BYTE, RDATA_WF_BINARY]),
     (49, desc 49 (Some ''DHCID'') 1 1 [RDATA_WF_BINARY]),
     (50, desc 50 (Some ''NSEC3'') 6 6 [RDATA_WF_BYTE, RDATA_WF_BYTE, RDATA_WF_SHORT, RDATA_WF_BINARYWITHLENGTH, RDATA_WF_BINARYWITHLENGTH, RDATA_WF_BINARY]),
     (51, desc 51 (Some ''NSEC3PARAM'') 4 4 [RDATA_WF_BYTE, RDATA_WF_BYTE, RDATA_WF_SHORT, RDATA_WF_BINARYWITHLENGTH]),
     (52, desc 52 (Some ''TLSA'') 4 4 [RDATA_WF_BYTE, RDATA_WF_BYTE, RDATA_WF_BYTE, RDATA_WF_BINARY]),
     (59, desc 59 (Some ''CDS'') 4 4 [RDATA_WF_SHORT, RDATA_WF_BYTE, RDATA_WF_BYTE, RDATA_WF_BINARY]),
     (60, desc 60 (Some ''CDNSKEY'') 4 4 [RDATA_WF_SHORT, RDATA_WF_BYTE, RDATA_WF_BYTE, RDATA_WF_BINARY]),
     (61, desc 61 (Some ''OPENPGPKEY'') 1 1 [RDATA_WF_BINARY]),
     (62, desc 62 (Some ''CSYNC'') 3 3 [RDATA_WF_LONG, RDATA_WF_SHORT, RDATA_WF_BINARY])]"

definition descriptors_99 :: "(nat \<times> rrtype_descriptor) list" where
  "descriptors_99 = [
     (99, desc 99 (Some ''SPF'') 1 MAXRDATALEN (replicate MAXRDATALEN RDATA_WF_TEXT)),
     (104, desc 104 (Some ''NID'') 2 2 [RDATA_WF_SHORT, RDATA_WF_ILNP64]),
     (105, desc 105 (Some ''L32'') 2 2 [RDATA_WF_SHORT, RDATA_WF_A]),
     (106, desc 106 (Some ''L64'') 2 2 [RDATA_WF_SHORT, RDATA_WF_ILNP64]),
     (107, desc 107 (Some ''LP'') 2 2 [RDATA_WF_SHORT, RDATA_WF_UNCOMPRESSED_DNAME]),
     (108, desc 108 (Some ''EUI48'') 1 1 [RDATA_WF_EUI48]),
     (109, desc 109 (Some ''EUI64'') 1 1 [RDATA_WF_EUI64])]"

definition descriptors_256 :: "(nat \<times> rrtype_descriptor) list" where
  "descriptors_256 = [
     (256, desc 256 (Some ''URI'') 3 3 [RDATA_WF_SHORT, RDATA_WF_SHORT, RDATA_WF_LONG_TEXT]),
     (257, desc 257 (Some ''CAA'') 3 3 [RDATA_WF_BYTE, RDATA_WF_TEXT, RDATA_WF_LONG_TEXT]),
     (258, desc 258 (Some ''AVC'') 1 1 [RDATA_WF_TEXTS])]"

definition named_descriptors :: "(nat \<times> rrtype_descriptor) list" where
  "named_descriptors = descriptors_0 @ descriptors_28 @ descriptors_46 @ descriptors_99 @ descriptors_256"

text \<open>Indexing the array; \<open>PSEUDO_TYPE_DLV\<close> is its last entry.\<close>

definition rrtype_descriptors :: "nat \<Rightarrow> rrtype_descriptor" where
  "rrtype_descriptors i =
     (if i = PSEUDO_TYPE_DLV then desc TYPE_DLV (Some ''DLV'') 4 4 [RDATA_WF_SHORT, RDATA_WF_BYTE, RDATA_WF_BYTE, RDATA_WF_BINARY]
      else case map_of named_descriptors i of Some d \<Rightarrow> d
           | None \<Rightarrow> desc (of_nat i) None 1 1 [RDATA_WF_BINARY])"

definition rrtype_descriptor_by_type :: "u16 \<Rightarrow> rrtype_descriptor" where
  "rrtype_descriptor_by_type ty =
     (if unat ty < RRTYPE_DESCRIPTORS_LENGTH then rrtype_descriptors (unat ty)
      else if ty = TYPE_DLV then rrtype_descriptors PSEUDO_TYPE_DLV
      else rrtype_descriptors 0)"

definition name_is :: "string \<Rightarrow> nat \<Rightarrow> bool" where
  "name_is name i = (case rd_name (rrtype_descriptors i) of None \<Rightarrow> False | Some n \<Rightarrow> strcaseeq n name)"

definition rrtype_descriptor_by_name :: "string \<Rightarrow> rrtype_descriptor option" where
  "rrtype_descriptor_by_name name =
     (case find (name_is name) [0..<RRTYPE_DESCRIPTORS_LENGTH] of
        Some i \<Rightarrow> Some (rrtype_descriptors i)
      | None \<Rightarrow> if name_is name PSEUDO_TYPE_DLV then Some (rrtype_descriptors PSEUDO_TYPE_DLV) else None)"

subsection \<open>The format of rdata fields\<close>

definition rdata_atom_is_domain :: "u16 \<Rightarrow> nat \<Rightarrow> bool" where
  "rdata_atom_is_domain ty i = (let d = rrtype_descriptor_by_type ty in
     i < rd_maximum d \<and>
     (rd_wireformat d ! i = RDATA_WF_COMPRESSED_DNAME \<or> rd_wireformat d ! i = RDATA_WF_UNCOMPRESSED_DNAME))"

definition rdata_atom_is_literal_domain :: "u16 \<Rightarrow> nat \<Rightarrow> bool" where
  "rdata_atom_is_literal_domain ty i = (let d = rrtype_descriptor_by_type ty in
     i < rd_maximum d \<and> rd_wireformat d ! i = RDATA_WF_LITERAL_DNAME)"

definition rdata_atom_wireformat_type :: "u16 \<Rightarrow> nat \<Rightarrow> rdata_wireformat option" where
  "rdata_atom_wireformat_type ty i = (let d = rrtype_descriptor_by_type ty in do {
     assert_c (i < rd_maximum d);
     mem_get (rd_wireformat d) i })"

subsection \<open>Text forms\<close>

definition digit_char :: "nat \<Rightarrow> char" where "digit_char d = char_of (48 + d)"

text \<open>The conversions of \<open>snprintf("%d")\<close> and \<open>strtol(.., 10)\<close> on digits.\<close>

fun decimal :: "nat \<Rightarrow> string" where
  "decimal n = (if n < 10 then [digit_char n] else decimal (n div 10) @ [digit_char (n mod 10)])"

declare decimal.simps [simp del]

definition digit_val :: "char \<Rightarrow> nat" where "digit_val c = of_char c - 48"

fun strtol_digits :: "nat \<Rightarrow> string \<Rightarrow> nat \<times> string" where
  "strtol_digits acc [] = (acc, [])"
| "strtol_digits acc (c # cs) =
     (if is_digit c then strtol_digits (min (acc * 10 + digit_val c) (2 ^ 63 - 1)) cs else (acc, c # cs))"

definition rrtype_to_string :: "u16 \<Rightarrow> string" where
  "rrtype_to_string ty = (case rd_name (rrtype_descriptor_by_type ty) of
      Some n \<Rightarrow> n
    | None \<Rightarrow> ''TYPE'' @ decimal (unat ty))"

text \<open>The shortcuts for frequent types; \<open>None\<close> goes on to the table.\<close>

definition char_at :: "string \<Rightarrow> nat \<Rightarrow> char" where
  "char_at s i = (if i < length s then tolower (s ! i) else CHR 0x00)"

definition rrtype_shortcut :: "string \<Rightarrow> u16 option" where
  "rrtype_shortcut name =
     (let c0 = char_at name 0; c1 = char_at name 1; c2 = char_at name 2 in
      if c0 = CHR ''r'' then
        if strcaseeq (drop 1 name) ''RSIG'' then Some TYPE_RRSIG else None
      else if c0 = CHR ''n'' then
        if c1 = CHR ''s'' then
          if c2 = CHR 0x00 then Some TYPE_NS
          else if c2 = CHR ''e'' then
            if strcaseeq (drop 2 name) ''EC'' then Some TYPE_NSEC
            else if strcaseeq (drop 2 name) ''EC3'' then Some TYPE_NSEC3
            else if strcaseeq (drop 2 name) ''EC3PARAM'' then Some TYPE_NSEC3PARAM else None
          else None
        else None
      else if c0 = CHR ''d'' then
        if c1 = CHR ''s'' then if c2 = CHR 0x00 then Some TYPE_DS else None
        else if c1 = CHR ''n'' then
          if strcaseeq (drop 2 name) ''SKEY'' then Some TYPE_DNSKEY else None
        else None
      else if c0 = CHR ''a'' then
        if c1 = CHR 0x00 then Some TYPE_A
        else if c1 = CHR ''a'' then
          if strcaseeq (drop 2 name) ''AA'' then Some TYPE_AAAA else None
        else None
      else if c0 = CHR ''s'' then
        if strcaseeq (drop 1 name) ''OA'' then Some TYPE_SOA else None
      else if c0 = CHR ''t'' then
        if strcaseeq (drop 1 name) ''XT'' then Some TYPE_TXT else None
      else if is_digit c0 then Some 0
      else if c0 = CHR ''i'' then if c1 = CHR ''n'' then Some 0 else None
      else None)"

text \<open>The notation of RFC 3597 for unknown types and classes: a keyword and a number.\<close>

definition unknown_from_string :: "string \<Rightarrow> string \<Rightarrow> u16" where
  "unknown_from_string kw name =
     (let k = length kw in
      if length name < k + 1 then 0
      else if \<not> strcaseeq (take k name) kw then 0
      else if \<not> is_digit (name ! k) then 0
      else case strtol_digits 0 (drop k name) of (n, rest) \<Rightarrow>
        if rest \<noteq> [] then 0 else if n > 65535 then 0 else of_nat n)"

definition rrtype_from_string :: "string \<Rightarrow> u16" where
  "rrtype_from_string name = (case rrtype_shortcut name of
      Some t \<Rightarrow> t
    | None \<Rightarrow> (case rrtype_descriptor_by_name name of
        Some d \<Rightarrow> rd_type d
      | None \<Rightarrow> unknown_from_string ''TYPE'' name))"

definition dns_rrclasses :: "(u16 \<times> string) list" where
  "dns_rrclasses = [(CLASS_IN, ''IN''), (CLASS_CS, ''CS''), (CLASS_CH, ''CH''), (CLASS_HS, ''HS'')]"

fun lookup_by_id :: "('i \<times> string) list \<Rightarrow> 'i \<Rightarrow> ('i \<times> string) option" where
  "lookup_by_id [] i = None"
| "lookup_by_id (e # es) i = (if fst e = i then Some e else lookup_by_id es i)"

fun lookup_by_name :: "('i \<times> string) list \<Rightarrow> string \<Rightarrow> ('i \<times> string) option" where
  "lookup_by_name [] name = None"
| "lookup_by_name (e # es) name = (if strcaseeq name (snd e) then Some e else lookup_by_name es name)"

definition rrclass_to_string :: "u16 \<Rightarrow> string" where
  "rrclass_to_string cl = (case lookup_by_id dns_rrclasses cl of
      Some e \<Rightarrow> snd e
    | None \<Rightarrow> ''CLASS'' @ decimal (unat cl))"

definition rrclass_from_string :: "string \<Rightarrow> u16" where
  "rrclass_from_string name = (case lookup_by_name dns_rrclasses name of
      Some e \<Rightarrow> fst e
    | None \<Rightarrow> unknown_from_string ''CLASS'' name)"

subsection \<open>Reading back what was printed\<close>

lemma digit_char: "d < 10 \<Longrightarrow> is_digit (digit_char d)" "d < 10 \<Longrightarrow> digit_val (digit_char d) = d"
  by (simp_all add: is_digit_def digit_val_def digit_char_def)

lemma strtol_snoc:
  "\<forall>c \<in> set xs. is_digit c \<Longrightarrow> is_digit c \<Longrightarrow> strtol_digits acc xs = (v, []) \<Longrightarrow>
    strtol_digits acc (xs @ [c]) = (min (v * 10 + digit_val c) (2 ^ 63 - 1), [])"
  by (induction xs arbitrary: acc) auto

lemma decimal_digits: "\<forall>c \<in> set (decimal n). is_digit c"
proof (induction n rule: decimal.induct)
  case (1 n)
  then show ?case by (cases "n < 10") (auto simp: decimal.simps [of n] digit_char)
qed

lemma decimal_nonempty [simp]: "decimal n \<noteq> []"
  by (simp add: decimal.simps [of n])

lemma strtol_decimal: "n < 2 ^ 63 \<Longrightarrow> strtol_digits 0 (decimal n) = (n, [])"
proof (induction n rule: decimal.induct)
  case (1 n)
  show ?case
  proof (cases "n < 10")
    case True
    then show ?thesis by (simp add: decimal.simps [of n] digit_char)
  next
    case False
    then have "strtol_digits 0 (decimal (n div 10)) = (n div 10, [])" using 1 by simp
    from strtol_snoc [OF decimal_digits digit_char(1) this, of "n mod 10"]
    show ?thesis using False "1.prems" by (simp add: decimal.simps [of n] digit_char)
  qed
qed

lemma tolower_digit [simp]: "is_digit c \<Longrightarrow> tolower c = c"
  by (simp add: is_digit_def tolower_def)

lemma unknown_decimal: "unknown_from_string kw (kw @ decimal (unat t)) = t"
proof -
  have n: "unat t < 65536" using unat_u16_less [of t] by simp
  obtain c cs where d: "decimal (unat t) = c # cs" by (cases "decimal (unat t)") auto
  have "is_digit c" using decimal_digits [of "unat t"] d by simp
  then show ?thesis using n d strtol_decimal [of "unat t"]
    by (simp add: unknown_from_string_def Let_def strcaseeq_def nth_append)
qed

text \<open>
  What the table must satisfy: no name begins like the notation for unknown types, names are
  different without regard to case, and a shortcut agrees with the table.
\<close>

definition descriptor_names :: "(nat \<times> string) list" where
  "descriptor_names = map (\<lambda>(i, d). (i, the (rd_name d))) named_descriptors"

lemmas descriptor_tables = named_descriptors_def descriptors_0_def descriptors_28_def descriptors_46_def
  descriptors_99_def descriptors_256_def desc_def

lemma descriptor_names_eval: "descriptor_names = map (\<lambda>(i, d). (i, the (rd_name d))) named_descriptors \<and>
    list_all (\<lambda>(i, d). i < RRTYPE_DESCRIPTORS_LENGTH \<and> rd_name d \<noteq> None \<and> unat (rd_type d) = i) named_descriptors"
  by (simp add: descriptor_names_def descriptor_tables RRTYPE_DESCRIPTORS_LENGTH_def)

lemma descriptor_names_eq: "descriptor_names = [(1, ''A''), (2, ''NS''), (3, ''MD''), (4, ''MF''), (5, ''CNAME''), (6, ''SOA''), (7, ''MB''), (8, ''MG''), (9, ''MR''), (10, ''NULL''), (11, ''WKS''), (12, ''PTR''), (13, ''HINFO''), (14, ''MINFO''), (15, ''MX''), (16, ''TXT''), (17, ''RP''), (18, ''AFSDB''), (19, ''X25''), (20, ''ISDN''), (21, ''RT''), (22, ''NSAP''), (24, ''SIG''), (25, ''KEY''), (26, ''PX''), (28, ''AAAA''), (29, ''LOC''), (30, ''NXT''), (33, ''SRV''), (35, ''NAPTR''), (36, ''KX''), (37, ''CERT''), (39, ''DNAME''), (41, ''OPT''), (42, ''APL''), (43, ''DS''), (44, ''SSHFP''), (45, ''IPSECKEY''), (46, ''RRSIG''), (47, ''NSEC''), (48, ''DNSKEY''), (49, ''DHCID''), (50, ''NSEC3''), (51, ''NSEC3PARAM''), (52, ''TLSA''), (59, ''CDS''), (60, ''CDNSKEY''), (61, ''OPENPGPKEY''), (62, ''CSYNC''), (99, ''SPF''), (104, ''NID''), (105, ''L32''), (106, ''L64''), (107, ''LP''), (108, ''EUI48''), (109, ''EUI64''), (256, ''URI''), (257, ''CAA''), (258, ''AVC'')]"
  by (simp add: descriptor_names_def descriptor_tables)

definition lower_names :: "string list" where
  "lower_names = [''a'', ''ns'', ''md'', ''mf'', ''cname'', ''soa'', ''mb'', ''mg'', ''mr'', ''null'', ''wks'', ''ptr'', ''hinfo'', ''minfo'', ''mx'', ''txt'', ''rp'', ''afsdb'', ''x25'', ''isdn'', ''rt'', ''nsap'', ''sig'', ''key'', ''px'', ''aaaa'', ''loc'', ''nxt'', ''srv'', ''naptr'', ''kx'', ''cert'', ''dname'', ''opt'', ''apl'', ''ds'', ''sshfp'', ''ipseckey'', ''rrsig'', ''nsec'', ''dnskey'', ''dhcid'', ''nsec3'', ''nsec3param'', ''tlsa'', ''cds'', ''cdnskey'', ''openpgpkey'', ''csync'', ''spf'', ''nid'', ''l32'', ''l64'', ''lp'', ''eui48'', ''eui64'', ''uri'', ''caa'', ''avc'']"

lemma tolower_upper:
  "tolower CHR ''A'' = CHR ''a''"
  "tolower CHR ''B'' = CHR ''b''"
  "tolower CHR ''C'' = CHR ''c''"
  "tolower CHR ''D'' = CHR ''d''"
  "tolower CHR ''E'' = CHR ''e''"
  "tolower CHR ''F'' = CHR ''f''"
  "tolower CHR ''G'' = CHR ''g''"
  "tolower CHR ''H'' = CHR ''h''"
  "tolower CHR ''I'' = CHR ''i''"
  "tolower CHR ''J'' = CHR ''j''"
  "tolower CHR ''K'' = CHR ''k''"
  "tolower CHR ''L'' = CHR ''l''"
  "tolower CHR ''M'' = CHR ''m''"
  "tolower CHR ''N'' = CHR ''n''"
  "tolower CHR ''O'' = CHR ''o''"
  "tolower CHR ''P'' = CHR ''p''"
  "tolower CHR ''Q'' = CHR ''q''"
  "tolower CHR ''R'' = CHR ''r''"
  "tolower CHR ''S'' = CHR ''s''"
  "tolower CHR ''T'' = CHR ''t''"
  "tolower CHR ''U'' = CHR ''u''"
  "tolower CHR ''V'' = CHR ''v''"
  "tolower CHR ''W'' = CHR ''w''"
  "tolower CHR ''X'' = CHR ''x''"
  "tolower CHR ''Y'' = CHR ''y''"
  "tolower CHR ''Z'' = CHR ''z''"
  by (simp_all add: tolower_def char_of_def bit_0)

lemma tolower_other:
  "tolower CHR ''a'' = CHR ''a''"
  "tolower CHR ''b'' = CHR ''b''"
  "tolower CHR ''c'' = CHR ''c''"
  "tolower CHR ''d'' = CHR ''d''"
  "tolower CHR ''e'' = CHR ''e''"
  "tolower CHR ''f'' = CHR ''f''"
  "tolower CHR ''g'' = CHR ''g''"
  "tolower CHR ''h'' = CHR ''h''"
  "tolower CHR ''i'' = CHR ''i''"
  "tolower CHR ''j'' = CHR ''j''"
  "tolower CHR ''k'' = CHR ''k''"
  "tolower CHR ''l'' = CHR ''l''"
  "tolower CHR ''m'' = CHR ''m''"
  "tolower CHR ''n'' = CHR ''n''"
  "tolower CHR ''o'' = CHR ''o''"
  "tolower CHR ''p'' = CHR ''p''"
  "tolower CHR ''q'' = CHR ''q''"
  "tolower CHR ''r'' = CHR ''r''"
  "tolower CHR ''s'' = CHR ''s''"
  "tolower CHR ''t'' = CHR ''t''"
  "tolower CHR ''u'' = CHR ''u''"
  "tolower CHR ''v'' = CHR ''v''"
  "tolower CHR ''w'' = CHR ''w''"
  "tolower CHR ''x'' = CHR ''x''"
  "tolower CHR ''y'' = CHR ''y''"
  "tolower CHR ''z'' = CHR ''z''"
  "tolower CHR ''0'' = CHR ''0''"
  "tolower CHR ''1'' = CHR ''1''"
  "tolower CHR ''2'' = CHR ''2''"
  "tolower CHR ''3'' = CHR ''3''"
  "tolower CHR ''4'' = CHR ''4''"
  "tolower CHR ''5'' = CHR ''5''"
  "tolower CHR ''6'' = CHR ''6''"
  "tolower CHR ''7'' = CHR ''7''"
  "tolower CHR ''8'' = CHR ''8''"
  "tolower CHR ''9'' = CHR ''9''"
  by (simp_all add: tolower_def)

lemmas tolower_chars = tolower_upper tolower_other

lemma tolower_names: "map (map tolower \<circ> snd) descriptor_names = lower_names"
  by (simp add: descriptor_names_eq lower_names_def tolower_chars)

lemma lower_names_distinct: "distinct (''dlv'' # lower_names)"
  by (simp add: lower_names_def)

lemma lower_names_not_type: "list_all (\<lambda>n. take 4 n \<noteq> ''type'') lower_names"
  by (simp add: lower_names_def)

lemma named_indices_distinct: "distinct (map fst named_descriptors)"
  by (simp add: descriptor_tables)

lemma shortcuts_agree:
  "list_all (\<lambda>(i, n). rrtype_shortcut n = None \<or> rrtype_shortcut n = Some (of_nat i)) descriptor_names"
  unfolding descriptor_names_eq
  by (simp add: rrtype_shortcut_def char_at_def tolower_chars strcaseeq_def is_digit_def
      TYPE_RRSIG_def TYPE_NS_def TYPE_NSEC_def TYPE_NSEC3_def TYPE_NSEC3PARAM_def TYPE_DS_def TYPE_DNSKEY_def
      TYPE_A_def TYPE_AAAA_def TYPE_SOA_def TYPE_TXT_def)

lemma named_descriptor_name:
  assumes "map_of named_descriptors i = Some d"
  obtains n where "rd_name d = Some n" "(i, n) \<in> set descriptor_names" "unat (rd_type d) = i"
proof -
  have "(i, d) \<in> set named_descriptors" using map_of_SomeD [OF assms] .
  then have "rd_name d \<noteq> None" "unat (rd_type d) = i" "(i, the (rd_name d)) \<in> set descriptor_names"
    using descriptor_names_eval by (force simp: list_all_iff descriptor_names_def)+
  then show thesis using that by auto
qed

lemma rrtype_descriptors_name:
  assumes "rd_name (rrtype_descriptors i) = Some n"
  shows "i = PSEUDO_TYPE_DLV \<and> n = ''DLV'' \<or> i \<noteq> PSEUDO_TYPE_DLV \<and> (i, n) \<in> set descriptor_names \<and> rd_type (rrtype_descriptors i) = of_nat i"
proof (cases "i = PSEUDO_TYPE_DLV")
  case True
  then show ?thesis using assms by (simp add: rrtype_descriptors_def desc_def)
next
  case False
  then obtain d where d: "map_of named_descriptors i = Some d" "rrtype_descriptors i = d" "rd_name d = Some n"
    using assms by (auto simp: rrtype_descriptors_def desc_def split: option.splits)
  obtain m where "rd_name d = Some m" "(i, m) \<in> set descriptor_names" "unat (rd_type d) = i"
    by (rule named_descriptor_name [OF d(1)])
  then show ?thesis using False d by (metis option.inject of_nat_unat ucast_id)
qed

lemma lower_name_in: "(i, n) \<in> set descriptor_names \<Longrightarrow> map tolower n \<in> set lower_names"
  unfolding tolower_names [symmetric] by force

lemma name_inject:
  assumes "(i, n) \<in> set descriptor_names" "(j, m) \<in> set descriptor_names" "map tolower n = map tolower m"
  shows "i = j"
proof -
  have "inj_on (map tolower \<circ> snd) (set descriptor_names)"
    using lower_names_distinct by (simp add: tolower_names [symmetric] distinct_map)
  from inj_onD [OF this _ assms(1,2)] show ?thesis using assms(3) by simp
qed

lemma not_dlv: "(i, n) \<in> set descriptor_names \<Longrightarrow> map tolower n \<noteq> map tolower ''DLV''"
  using lower_name_in [of i n] lower_names_distinct by (auto simp: tolower_chars)

lemma find_name:
  assumes "(i, n) \<in> set descriptor_names" "rd_name (rrtype_descriptors i) = Some n" "i < RRTYPE_DESCRIPTORS_LENGTH"
  shows "rrtype_descriptor_by_name n = Some (rrtype_descriptors i)"
proof -
  have "name_is n i" using assms(2) by (simp add: name_is_def strcaseeq_def)
  then obtain j where j: "find (name_is n) [0..<RRTYPE_DESCRIPTORS_LENGTH] = Some j" "name_is n j" "j < RRTYPE_DESCRIPTORS_LENGTH"
    using assms(3) by (cases "find (name_is n) [0..<RRTYPE_DESCRIPTORS_LENGTH]") (auto simp: find_None_iff find_Some_iff)
  from j(2) obtain m where m: "rd_name (rrtype_descriptors j) = Some m" "map tolower m = map tolower n"
    by (auto simp: name_is_def strcaseeq_def split: option.splits)
  have "j \<noteq> PSEUDO_TYPE_DLV" using j(3) by (simp add: PSEUDO_TYPE_DLV_def)
  then have "j = i" using rrtype_descriptors_name [OF m(1)] name_inject [OF _ assms(1), of j m] m(2) by auto
  then show ?thesis using j(1) by (simp add: rrtype_descriptor_by_name_def)
qed

lemma no_name:
  assumes "map tolower (take 4 name) = ''type''"
  shows "rrtype_descriptor_by_name name = None"
proof -
  have "\<not> name_is name i" for i
  proof
    assume "name_is name i"
    then obtain m where m: "rd_name (rrtype_descriptors i) = Some m" "map tolower m = map tolower name"
      by (auto simp: name_is_def strcaseeq_def split: option.splits)
    have t: "take 4 (map tolower m) = ''type''" using assms m(2) by (simp add: take_map)
    have "m = ''DLV'' \<or> map tolower m \<in> set lower_names"
      using rrtype_descriptors_name [OF m(1)] lower_name_in by blast
    then show False using t lower_names_not_type by (auto simp: list_all_iff tolower_chars)
  qed
  then have "find (name_is name) [0..<RRTYPE_DESCRIPTORS_LENGTH] = None" by (simp add: find_None_iff)
  then show ?thesis using \<open>\<And>i. \<not> name_is name i\<close> by (simp add: rrtype_descriptor_by_name_def)
qed

lemma rrtype_string_roundtrip: "rrtype_from_string (rrtype_to_string t) = t"
proof (cases "rd_name (rrtype_descriptor_by_type t)")
  case None
  let ?s = "''TYPE'' @ decimal (unat t)"
  have "rrtype_shortcut ?s = None"
    by (simp add: rrtype_shortcut_def char_at_def tolower_chars strcaseeq_def)
  moreover have "rrtype_descriptor_by_name ?s = None" by (rule no_name) (simp add: tolower_chars)
  ultimately show ?thesis using None unknown_decimal [of "''TYPE''" t]
    by (simp add: rrtype_from_string_def rrtype_to_string_def)
next
  case (Some n)
  show ?thesis
  proof (cases "unat t < RRTYPE_DESCRIPTORS_LENGTH")
    case True
    then have r: "rd_name (rrtype_descriptors (unat t)) = Some n" "unat t \<noteq> PSEUDO_TYPE_DLV"
      using Some by (simp_all add: rrtype_descriptor_by_type_def PSEUDO_TYPE_DLV_def)
    then have n: "(unat t, n) \<in> set descriptor_names" "rd_type (rrtype_descriptors (unat t)) = t"
      using rrtype_descriptors_name [OF r(1)] by auto
    have "rrtype_shortcut n = None \<or> rrtype_shortcut n = Some t"
      using shortcuts_agree n(1) by (auto simp: list_all_iff)
    then show ?thesis using find_name [OF n(1) r(1) True] n(2) Some
      by (auto simp: rrtype_from_string_def rrtype_to_string_def)
  next
    case False
    then have t: "t = TYPE_DLV" "n = ''DLV''"
      using Some by (auto simp: rrtype_descriptor_by_type_def rrtype_descriptors_def desc_def PSEUDO_TYPE_DLV_def
          RRTYPE_DESCRIPTORS_LENGTH_def descriptor_tables split: if_splits)
    have "find (name_is ''DLV'') [0..<RRTYPE_DESCRIPTORS_LENGTH] = None"
      using rrtype_descriptors_name not_dlv
      by (fastforce simp: find_None_iff name_is_def strcaseeq_def PSEUDO_TYPE_DLV_def split: option.splits)
    moreover have "name_is ''DLV'' PSEUDO_TYPE_DLV" "rd_type (rrtype_descriptors PSEUDO_TYPE_DLV) = TYPE_DLV"
      by (simp_all add: name_is_def rrtype_descriptors_def desc_def strcaseeq_def)
    moreover have "rrtype_shortcut ''DLV'' = None"
      by (simp add: rrtype_shortcut_def char_at_def tolower_chars strcaseeq_def)
    ultimately show ?thesis using Some t
      by (simp add: rrtype_from_string_def rrtype_to_string_def rrtype_descriptor_by_name_def)
  qed
qed

lemma rrclass_string_roundtrip: "rrclass_from_string (rrclass_to_string c) = c"
proof (cases "lookup_by_id dns_rrclasses c")
  case None
  let ?s = "''CLASS'' @ decimal (unat c)"
  have "lookup_by_name dns_rrclasses ?s = None"
    by (simp add: dns_rrclasses_def strcaseeq_def tolower_chars)
  then show ?thesis using None unknown_decimal [of "''CLASS''" c]
    by (simp add: rrclass_from_string_def rrclass_to_string_def)
next
  case (Some e)
  then show ?thesis
    by (auto simp: rrclass_from_string_def rrclass_to_string_def dns_rrclasses_def strcaseeq_def tolower_chars split: if_splits)
qed

end
