(* ===== verification/Edns.thy ===== *)
theory Edns
  imports Packet_Parse
begin

text \<open>
  EDNS0 (\<open>edns.h\<close>, \<open>edns.c\<close>): the OPT record of a query and the pieces of the OPT
  record of a response. Of the \<open>nsd\<close> structure only the NSID length is used. The parser
  is an instance of \<open>packet_reader\<close>, and the space it reserves for the response is
  related to the options it has read.
\<close>

definition OPT_LEN :: nat where "OPT_LEN = 9"
definition OPT_RDATA :: nat where "OPT_RDATA = 2"
definition OPT_HDR :: nat where "OPT_HDR = 4"
definition NSID_CODE :: u16 where "NSID_CODE = 3"
definition DNSSEC_OK_MASK :: u16 where "DNSSEC_OK_MASK = 0x8000"

record edns_data =
  ed_ok :: "byte list"
  ed_error :: "byte list"
  ed_rdata_none :: "byte list"
  ed_rdata_nsid :: "byte list"
  ed_nsid :: "byte list"

datatype edns_status = EDNS_NOT_PRESENT | EDNS_OK | EDNS_ERROR

record edns_record =
  ed_status :: edns_status
  ed_position :: nat
  ed_maxlen :: nat
  ed_opt_reserved_space :: nat
  ed_dnssec_ok :: u16
  ed_nsid_flag :: bool

definition edns_init_data :: "u16 \<Rightarrow> edns_data" where
  "edns_init_data max_length =
     (let hi = \<lambda>w::u16. (ucast (drop_bit 8 (w AND 0xff00)) :: byte);
          lo = \<lambda>w::u16. (ucast (w AND 0x00ff) :: byte) in
      \<lparr>ed_ok = [0, hi TYPE_OPT, lo TYPE_OPT, hi max_length, lo max_length, 0, 0, 0, 0],
       ed_error = [0, hi TYPE_OPT, lo TYPE_OPT, hi max_length, lo max_length, 1, 0, 0, 0],
       ed_rdata_none = [0, 0], ed_rdata_nsid = [0, 0], ed_nsid = [0, 0, 0, 0]\<rparr>)"

definition edns_init_nsid :: "edns_data \<Rightarrow> u16 \<Rightarrow> edns_data" where
  "edns_init_nsid dat nsid_len =
     (let hi = \<lambda>w::u32. (ucast (drop_bit 8 (w AND 0xff00)) :: byte);
          lo = \<lambda>w::u32. (ucast (w AND 0x00ff) :: byte) in
      dat\<lparr>ed_rdata_nsid := [hi (4 + ucast nsid_len), lo (4 + ucast nsid_len)],
          ed_nsid := [hi (ucast NSID_CODE), lo (ucast NSID_CODE), hi (ucast nsid_len), lo (ucast nsid_len)]\<rparr>)"

definition edns_init_record :: "edns_record" where
  "edns_init_record = \<lparr>ed_status = EDNS_NOT_PRESENT, ed_position = 0, ed_maxlen = 0,
     ed_opt_reserved_space = 0, ed_dnssec_ok = 0, ed_nsid_flag = False\<rparr>"

definition edns_handle_option ::
  "nat \<Rightarrow> u16 \<Rightarrow> u16 \<Rightarrow> buffer \<Rightarrow> edns_record \<Rightarrow> ((bool \<times> edns_record) \<times> buffer) option" where
  "edns_handle_option nsid_len optcode optlen packet edns =
     (if optcode = NSID_CODE then
        if nsid_len > 0 then do {
          packet \<leftarrow> buffer_skip packet (int (unat optlen));
          Some ((True, edns\<lparr>ed_nsid_flag := True,
             ed_opt_reserved_space := ed_opt_reserved_space edns + (OPT_HDR + nsid_len)\<rparr>), packet) }
        else do { packet \<leftarrow> buffer_skip packet (int (unat optlen)); Some ((True, edns), packet) }
      else do { packet \<leftarrow> buffer_skip packet (int (unat optlen)); Some ((True, edns), packet) })"

text \<open>
  The loop over the options. \<open>opt_rdlen\<close> is a \<open>uint16_t\<close> whose subtraction is guarded, so
  it is kept as a natural number.
\<close>

function edns_option_loop ::
  "nat \<Rightarrow> nat \<Rightarrow> buffer \<Rightarrow> edns_record \<Rightarrow> ((bool \<times> edns_record) \<times> buffer) option" where
  "edns_option_loop nsid_len opt_rdlen packet edns =
     (if opt_rdlen \<ge> 4 then do {
        (optcode, packet) \<leftarrow> buffer_read_u16 packet;
        (optlen, packet) \<leftarrow> buffer_read_u16 packet;
        if opt_rdlen < 4 + unat optlen then Some ((False, edns), packet)
        else do {
          ((ok, edns), packet) \<leftarrow> edns_handle_option nsid_len optcode optlen packet edns;
          if \<not> ok then Some ((False, edns), packet)
          else edns_option_loop nsid_len (opt_rdlen - (4 + unat optlen)) packet edns } }
      else if opt_rdlen \<noteq> 0 then Some ((False, edns), packet)
      else Some ((True, edns), packet))"
  by pat_completeness auto
termination
  by (relation "measure (\<lambda>(nsid_len, opt_rdlen, packet, edns). opt_rdlen)") auto

declare edns_option_loop.simps [simp del]

definition edns_parse_record ::
  "nat \<Rightarrow> edns_record \<Rightarrow> buffer \<Rightarrow> ((bool \<times> edns_record) \<times> buffer) option" where
  "edns_parse_record nsid_len edns packet = (let edns = edns\<lparr>ed_position := buf_position packet\<rparr> in do {
     av \<leftarrow> buffer_available packet (OPT_LEN + OPT_RDATA);
     if \<not> av then Some ((False, edns), packet) else do {
     (opt_owner, packet) \<leftarrow> buffer_read_u8 packet;
     (opt_type, packet) \<leftarrow> buffer_read_u16 packet;
     if opt_owner \<noteq> 0 \<or> opt_type \<noteq> TYPE_OPT then do {
       packet \<leftarrow> buffer_set_position packet (ed_position edns);
       Some ((False, edns), packet) }
     else do {
     (opt_class, packet) \<leftarrow> buffer_read_u16 packet;
     (_, packet) \<leftarrow> buffer_read_u8 packet;
     (opt_version, packet) \<leftarrow> buffer_read_u8 packet;
     (opt_flags, packet) \<leftarrow> buffer_read_u16 packet;
     (opt_rdlen, packet) \<leftarrow> buffer_read_u16 packet;
     if opt_version \<noteq> 0 then Some ((True, edns\<lparr>ed_status := EDNS_ERROR\<rparr>), packet)
     else do {
     ((ok, edns), packet) \<leftarrow>
       (if unat opt_rdlen > 0 then do {
          av \<leftarrow> buffer_available packet (unat opt_rdlen);
          if \<not> av then Some ((False, edns), packet)
          else edns_option_loop nsid_len (unat opt_rdlen) packet edns }
        else Some ((True, edns), packet));
     if \<not> ok then Some ((False, edns), packet)
     else Some ((True, edns\<lparr>ed_status := EDNS_OK, ed_maxlen := unat opt_class,
                          ed_dnssec_ok := opt_flags AND DNSSEC_OK_MASK\<rparr>), packet) } } } })"

definition edns_reserved_space :: "edns_record \<Rightarrow> nat" where
  "edns_reserved_space edns =
     (if ed_status edns = EDNS_NOT_PRESENT then 0
      else OPT_LEN + OPT_RDATA + ed_opt_reserved_space edns)"

subsection \<open>The parser stays inside the packet\<close>

text \<open>The space for options is enough for the NSID option, and is zero without it.\<close>

definition edns_room :: "nat \<Rightarrow> edns_record \<Rightarrow> bool" where
  "edns_room nsid_len e \<longleftrightarrow> (if ed_nsid_flag e then OPT_HDR + nsid_len \<le> ed_opt_reserved_space e else ed_opt_reserved_space e = 0)"

lemma edns_handle_option_wf:
  assumes "buffer_wf b" "buf_position b + unat optlen \<le> buf_limit b"
  shows "\<exists>e'. edns_handle_option nsid_len optcode optlen b e =
      Some ((True, e'), b\<lparr>buf_position := buf_position b + unat optlen\<rparr>) \<and>
    ed_opt_reserved_space e' =
      ed_opt_reserved_space e + (if optcode = NSID_CODE \<and> nsid_len > 0 then OPT_HDR + nsid_len else 0) \<and>
    ed_position e' = ed_position e \<and> ed_status e' = ed_status e \<and> ed_maxlen e' = ed_maxlen e \<and>
    (edns_room nsid_len e \<longrightarrow> edns_room nsid_len e')"
  using assms by (auto simp: edns_handle_option_def buffer_skip_uint edns_room_def)

text \<open>
  The loop consumes at most the announced length; when it succeeds, exactly that. Each
  option takes at least four bytes and adds at most the NSID option to the reserved space.
\<close>

lemma edns_option_loop_wf:
  "buffer_wf b \<Longrightarrow> buf_position b + n \<le> buf_limit b \<Longrightarrow>
    \<exists>ok e' q. edns_option_loop nsid_len n b e = Some ((ok, e'), b\<lparr>buf_position := q\<rparr>) \<and>
      q \<le> buf_position b + n \<and> (ok \<longrightarrow> q = buf_position b + n) \<and>
      ed_opt_reserved_space e' \<le> ed_opt_reserved_space e + n div 4 * (OPT_HDR + nsid_len) \<and>
      ed_status e' = ed_status e \<and> ed_position e' = ed_position e \<and>
      buf_position b \<le> q \<and> ed_maxlen e' = ed_maxlen e \<and> (edns_room nsid_len e \<longrightarrow> edns_room nsid_len e')"
proof (induction n arbitrary: b e rule: less_induct)
  case (less n)
  show ?case
  proof (cases "n \<ge> 4")
    case False
    then have "edns_option_loop nsid_len n b e =
        Some ((n = 0, e), b\<lparr>buf_position := buf_position b\<rparr>)"
      by (subst edns_option_loop.simps) simp
    then show ?thesis by (intro exI conjI; assumption?) simp_all
  next
    case True
    let ?b4 = "b\<lparr>buf_position := buf_position b + 4\<rparr>"
    define optcode where "optcode = read_uint16 (mem_read (buf_position b) 2 (buf_data b))"
    define optlen where "optlen = read_uint16 (mem_read (buf_position b + 2) 2 (buf_data b))"
    have eq: "edns_option_loop nsid_len n b e =
        (if n < 4 + unat optlen then Some ((False, e), ?b4)
         else do { ((ok, e'), p) \<leftarrow> edns_handle_option nsid_len optcode optlen ?b4 e;
            if \<not> ok then Some ((False, e'), p)
            else edns_option_loop nsid_len (n - (4 + unat optlen)) p e' })"
      using True less.prems
      unfolding optcode_def optlen_def
      by (subst edns_option_loop.simps) (simp add: packet_exec add.commute [of _ 4] del: add_2_eq_Suc add_2_eq_Suc')
    show ?thesis
    proof (cases "n < 4 + unat optlen")
      case short: True
      then show ?thesis unfolding eq using True by force
    next
      case False
      let ?b' = "b\<lparr>buf_position := buf_position b + 4 + unat optlen\<rparr>" and ?m = "n - (4 + unat optlen)"
      obtain e1 where e1: "edns_handle_option nsid_len optcode optlen ?b4 e = Some ((True, e1), ?b')"
        "ed_opt_reserved_space e1 \<le> ed_opt_reserved_space e + (OPT_HDR + nsid_len)"
        "ed_position e1 = ed_position e" "ed_status e1 = ed_status e" "ed_maxlen e1 = ed_maxlen e"
        "edns_room nsid_len e \<longrightarrow> edns_room nsid_len e1"
        using edns_handle_option_wf [of ?b4 optlen nsid_len optcode e] less.prems False
        by (auto split: if_splits)
      obtain ok e' q where IH: "edns_option_loop nsid_len ?m ?b' e1 = Some ((ok, e'), b\<lparr>buf_position := q\<rparr>)"
        "q \<le> buf_position b + n" "ok \<longrightarrow> q = buf_position b + n"
        "ed_opt_reserved_space e' \<le> ed_opt_reserved_space e1 + ?m div 4 * (OPT_HDR + nsid_len)"
        "ed_status e' = ed_status e" "ed_position e' = ed_position e" "buf_position b \<le> q" "ed_maxlen e' = ed_maxlen e"
        "edns_room nsid_len e1 \<longrightarrow> edns_room nsid_len e'"
        using less.IH [of ?m ?b' e1] less.prems False True e1(3,4,5) by auto
      have "Suc (?m div 4) \<le> n div 4" using False by linarith
      then have "Suc (?m div 4) * (OPT_HDR + nsid_len) \<le> n div 4 * (OPT_HDR + nsid_len)"
        by (rule mult_le_mono1)
      then have "ed_opt_reserved_space e' \<le> ed_opt_reserved_space e + n div 4 * (OPT_HDR + nsid_len)"
        using e1(2) IH(4) unfolding mult_Suc by linarith
      then show ?thesis unfolding eq using False IH e1 by simp blast
    qed
  qed
qed

lemma edns_parse_record_reads: "packet_ok b \<Longrightarrow> reads b (edns_parse_record nsid_len e b)"
proof -
  assume ok: "packet_ok b"
  have loop: "reads b (edns_option_loop nsid_len n (b\<lparr>buf_position := q\<rparr>) e \<bind> f)"
    if "q + n \<le> buf_limit b" "\<And>x q. q \<le> buf_limit b \<Longrightarrow> reads b (f (x, b\<lparr>buf_position := q\<rparr>))" for q n e f
    using edns_option_loop_wf [of "b\<lparr>buf_position := q\<rparr>" n nsid_len e] that ok
    by auto
  show ?thesis unfolding edns_parse_record_def Let_def
    using ok packet_ok_bounds(1) [OF ok]
    by (auto simp: packet_exec OPT_LEN_def OPT_RDATA_def reads_same intro!: loop)
qed

interpretation edns_reader: packet_reader "edns_parse_record nsid_len e" for nsid_len e
  by unfold_locales (rule edns_parse_record_reads)

end
