(* ===== verification/Rbtree.thy ===== *)
theory Rbtree
  imports Dname
begin

text \<open>
  The red-black tree of \<open>rbtree.h\<close> and \<open>rbtree.c\<close>. A subtree is a value of the
  datatype \<open>rbt\<close>; the node a C pointer designates is a subtree together with the list of
  frames on the way to the root, innermost first, so that \<open>node->parent\<close> is the first
  frame and following parent pointers is walking down that list. \<open>RBTREE_NULL\<close> is the
  sentinel: it is black and is its own left and right child. A step that would write to
  the sentinel, or an assertion that would fail, is \<^term>\<open>None\<close>.

  The element of a node is the user structure that embeds it; \<open>key\<close> projects the key and
  \<open>cmp\<close> is the comparison function of the tree. The laws \<open>cmp\<close> has to satisfy are the
  locale \<open>key_order\<close>; \<open>dname_compare\<close> is shown to satisfy them.
\<close>

datatype color = RED | BLACK

datatype 'a rbt =
    RBTREE_NULL
  | rbnode color "'a rbt" 'a "'a rbt"

fun rb_color :: "'a rbt \<Rightarrow> color" where
  "rb_color RBTREE_NULL = BLACK"
| "rb_color (rbnode c l x r) = c"

fun rb_left :: "'a rbt \<Rightarrow> 'a rbt" where
  "rb_left RBTREE_NULL = RBTREE_NULL"
| "rb_left (rbnode c l x r) = l"

fun rb_right :: "'a rbt \<Rightarrow> 'a rbt" where
  "rb_right RBTREE_NULL = RBTREE_NULL"
| "rb_right (rbnode c l x r) = r"

fun paint :: "color \<Rightarrow> 'a rbt \<Rightarrow> 'a rbt" where
  "paint c RBTREE_NULL = RBTREE_NULL"
| "paint c (rbnode c' l x r) = rbnode c l x r"

text \<open>The parent of a node: whether the node is its left or right child, and the rest.\<close>

datatype 'a frame = LChild color 'a "'a rbt" | RChild color "'a rbt" 'a

fun frame_color :: "'a frame \<Rightarrow> color" where
  "frame_color (LChild c x r) = c"
| "frame_color (RChild c l x) = c"

fun up :: "'a frame \<Rightarrow> 'a rbt \<Rightarrow> 'a rbt" where
  "up (LChild c x r) t = rbnode c t x r"
| "up (RChild c l x) t = rbnode c l x t"

fun plug :: "'a frame list \<Rightarrow> 'a rbt \<Rightarrow> 'a rbt" where
  "plug [] t = t"
| "plug (f # fs) t = plug fs (up f t)"

record 'a rbtree =
  rb_root :: "'a rbt"
  rb_count :: nat

definition rbtree_create :: "'a rbtree" where
  "rbtree_create = \<lparr>rb_root = RBTREE_NULL, rb_count = 0\<rparr>"

subsection \<open>Rotations\<close>

fun rbtree_rotate_left :: "'a rbt \<Rightarrow> 'a rbt option" where
  "rbtree_rotate_left (rbnode c a x (rbnode c' b y d)) = Some (rbnode c' (rbnode c a x b) y d)"
| "rbtree_rotate_left _ = None"

fun rbtree_rotate_right :: "'a rbt \<Rightarrow> 'a rbt option" where
  "rbtree_rotate_right (rbnode c (rbnode c' a x b) y d) = Some (rbnode c' a x (rbnode c b y d))"
| "rbtree_rotate_right _ = None"

subsection \<open>Insertion\<close>

text \<open>
  The loop of \<open>rbtree_insert_fixup\<close> at the red node \<open>node\<close> with its frames. A red parent
  without a grandparent would make the C code rotate around the sentinel.
\<close>

fun rbtree_insert_fixup :: "'a rbt \<Rightarrow> 'a frame list \<Rightarrow> 'a rbt option" where
  "rbtree_insert_fixup node [] = Some (paint BLACK node)"
| "rbtree_insert_fixup node [pf] =
     (if frame_color pf = BLACK then Some (paint BLACK (plug [pf] node)) else None)"
| "rbtree_insert_fixup node (pf # gf # fs) =
     (if frame_color pf = BLACK then Some (paint BLACK (plug (pf # gf # fs) node))
      else case gf of
        LChild gc gx uncle \<Rightarrow>
          if rb_color uncle = RED then
            rbtree_insert_fixup (rbnode RED (paint BLACK (up pf node)) gx (paint BLACK uncle)) fs
          else do {
            parent \<leftarrow> (case pf of RChild _ _ _ \<Rightarrow> rbtree_rotate_left (up pf node)
                                | LChild _ _ _ \<Rightarrow> Some (up pf node));
            t \<leftarrow> rbtree_rotate_right (rbnode RED (paint BLACK parent) gx uncle);
            Some (paint BLACK (plug fs t)) }
      | RChild gc uncle gx \<Rightarrow>
          if rb_color uncle = RED then
            rbtree_insert_fixup (rbnode RED (paint BLACK uncle) gx (paint BLACK (up pf node))) fs
          else do {
            parent \<leftarrow> (case pf of LChild _ _ _ \<Rightarrow> rbtree_rotate_right (up pf node)
                                | RChild _ _ _ \<Rightarrow> Some (up pf node));
            t \<leftarrow> rbtree_rotate_left (rbnode RED uncle gx (paint BLACK parent));
            Some (paint BLACK (plug fs t)) })"

text \<open>The search for the place of a new key: \<^term>\<open>None\<close> for a duplicate.\<close>

fun insert_place :: "('k \<Rightarrow> 'k \<Rightarrow> int) \<Rightarrow> ('a \<Rightarrow> 'k) \<Rightarrow> 'k \<Rightarrow> 'a rbt \<Rightarrow> 'a frame list \<Rightarrow> 'a frame list option" where
  "insert_place cmp key k RBTREE_NULL fs = Some fs"
| "insert_place cmp key k (rbnode c l x r) fs =
     (let o1 = cmp k (key x) in
      if o1 = 0 then None
      else if o1 < 0 then insert_place cmp key k l (LChild c x r # fs)
      else insert_place cmp key k r (RChild c l x # fs))"

text \<open>The flag is whether the node was added, the \<open>NULL\<close> test of the C result.\<close>

definition rbtree_insert ::
  "('k \<Rightarrow> 'k \<Rightarrow> int) \<Rightarrow> ('a \<Rightarrow> 'k) \<Rightarrow> 'a \<Rightarrow> 'a rbtree \<Rightarrow> (bool \<times> 'a rbtree) option" where
  "rbtree_insert cmp key dat rbtree =
     (case insert_place cmp key (key dat) (rb_root rbtree) [] of
        None \<Rightarrow> Some (False, rbtree)
      | Some fs \<Rightarrow> do {
          root \<leftarrow> rbtree_insert_fixup (rbnode RED RBTREE_NULL dat RBTREE_NULL) fs;
          Some (True, \<lparr>rb_root = root, rb_count = rb_count rbtree + 1\<rparr>) })"

subsection \<open>Searching\<close>

text \<open>
  The result is the exact-match flag and the node found, the greatest one that is not
  larger than the key.
\<close>

fun find_less_equal_loop ::
  "('k \<Rightarrow> 'k \<Rightarrow> int) \<Rightarrow> ('a \<Rightarrow> 'k) \<Rightarrow> 'k \<Rightarrow> 'a rbt \<Rightarrow> 'a option \<Rightarrow> bool \<times> 'a option" where
  "find_less_equal_loop cmp key k RBTREE_NULL res = (False, res)"
| "find_less_equal_loop cmp key k (rbnode c l x r) res =
     (let o1 = cmp k (key x) in
      if o1 = 0 then (True, Some x)
      else if o1 < 0 then find_less_equal_loop cmp key k l res
      else find_less_equal_loop cmp key k r (Some x))"

definition rbtree_find_less_equal ::
  "('k \<Rightarrow> 'k \<Rightarrow> int) \<Rightarrow> ('a \<Rightarrow> 'k) \<Rightarrow> 'a rbtree \<Rightarrow> 'k \<Rightarrow> bool \<times> 'a option" where
  "rbtree_find_less_equal cmp key rbtree k = find_less_equal_loop cmp key k (rb_root rbtree) None"

definition rbtree_search :: "('k \<Rightarrow> 'k \<Rightarrow> int) \<Rightarrow> ('a \<Rightarrow> 'k) \<Rightarrow> 'a rbtree \<Rightarrow> 'k \<Rightarrow> 'a option" where
  "rbtree_search cmp key rbtree k =
     (case rbtree_find_less_equal cmp key rbtree k of (found, node) \<Rightarrow> if found then node else None)"

subsection \<open>Deletion\<close>

text \<open>
  \<open>rbtree_delete_fixup\<close>. The C code recognises the side of \<open>child\<close> by
  \<open>child_parent->right == child\<close>, which for two null children would be ambiguous; the guard
  on \<open>sibling\<close> excludes that case.
\<close>

definition fixup_final_left :: "color \<Rightarrow> 'a \<Rightarrow> 'a rbt \<Rightarrow> 'a rbt \<Rightarrow> 'a rbt option" where
  "fixup_final_left pc px child sibling =
     (if pc = RED \<and> rb_color sibling = BLACK \<and> rb_color (rb_left sibling) = BLACK \<and>
         rb_color (rb_right sibling) = BLACK
      then Some (rbnode BLACK child px (paint RED sibling))
      else do {
        assert_c (sibling \<noteq> RBTREE_NULL);
        sibling \<leftarrow> (if rb_color sibling = BLACK \<and> rb_color (rb_left sibling) = RED \<and>
                     rb_color (rb_right sibling) = BLACK
                  then (case sibling of
                      rbnode _ sl sx sr \<Rightarrow> rbtree_rotate_right (rbnode RED (paint BLACK sl) sx sr)
                    | RBTREE_NULL \<Rightarrow> None)
                  else Some sibling);
        assert_c (rb_color (rb_right sibling) = RED);
        case sibling of
          rbnode _ sl sx sr \<Rightarrow>
            rbtree_rotate_left (rbnode BLACK child px (rbnode pc sl sx (paint BLACK sr)))
        | RBTREE_NULL \<Rightarrow> None })"

definition fixup_final_right :: "color \<Rightarrow> 'a rbt \<Rightarrow> 'a \<Rightarrow> 'a rbt \<Rightarrow> 'a rbt option" where
  "fixup_final_right pc sibling px child =
     (if pc = RED \<and> rb_color sibling = BLACK \<and> rb_color (rb_left sibling) = BLACK \<and>
         rb_color (rb_right sibling) = BLACK
      then Some (rbnode BLACK (paint RED sibling) px child)
      else do {
        assert_c (sibling \<noteq> RBTREE_NULL);
        sibling \<leftarrow> (if rb_color sibling = BLACK \<and> rb_color (rb_right sibling) = RED \<and>
                     rb_color (rb_left sibling) = BLACK
                  then (case sibling of
                      rbnode _ sl sx sr \<Rightarrow> rbtree_rotate_left (rbnode RED sl sx (paint BLACK sr))
                    | RBTREE_NULL \<Rightarrow> None)
                  else Some sibling);
        assert_c (rb_color (rb_left sibling) = RED);
        case sibling of
          rbnode _ sl sx sr \<Rightarrow>
            rbtree_rotate_right (rbnode BLACK (rbnode pc (paint BLACK sl) sx sr) px child)
        | RBTREE_NULL \<Rightarrow> None })"

fun rbtree_delete_fixup :: "'a rbt \<Rightarrow> 'a frame list \<Rightarrow> 'a rbt option" where
  "rbtree_delete_fixup child [] = Some child"
| "rbtree_delete_fixup child (LChild pc px sibling # fs) = do {
     assert_c (child \<noteq> RBTREE_NULL \<or> sibling \<noteq> RBTREE_NULL);
     if rb_color sibling = RED then
       (case sibling of
          rbnode _ sl sx sr \<Rightarrow> do {
            assert_c (child \<noteq> RBTREE_NULL \<or> sl \<noteq> RBTREE_NULL);
            t \<leftarrow> fixup_final_left RED px child sl;
            Some (plug (LChild BLACK sx sr # fs) t) }
        | RBTREE_NULL \<Rightarrow> None)
     else if pc = BLACK \<and> rb_color (rb_left sibling) = BLACK \<and> rb_color (rb_right sibling) = BLACK
     then rbtree_delete_fixup (rbnode pc child px (paint RED sibling)) fs
     else do { t \<leftarrow> fixup_final_left pc px child sibling; Some (plug fs t) } }"
| "rbtree_delete_fixup child (RChild pc sibling px # fs) = do {
     assert_c (child \<noteq> RBTREE_NULL \<or> sibling \<noteq> RBTREE_NULL);
     if rb_color sibling = RED then
       (case sibling of
          rbnode _ sl sx sr \<Rightarrow> do {
            assert_c (child \<noteq> RBTREE_NULL \<or> sr \<noteq> RBTREE_NULL);
            t \<leftarrow> fixup_final_right RED sr px child;
            Some (plug (RChild BLACK sl sx # fs) t) }
        | RBTREE_NULL \<Rightarrow> None)
     else if pc = BLACK \<and> rb_color (rb_left sibling) = BLACK \<and> rb_color (rb_right sibling) = BLACK
     then rbtree_delete_fixup (rbnode pc (paint RED sibling) px child) fs
     else do { t \<leftarrow> fixup_final_right pc sibling px child; Some (plug fs t) } }"

text \<open>\<open>rbtree_search\<close> of \<open>rbtree_delete\<close>, as the position of the node in the tree.\<close>

fun search_place ::
  "('k \<Rightarrow> 'k \<Rightarrow> int) \<Rightarrow> ('a \<Rightarrow> 'k) \<Rightarrow> 'k \<Rightarrow> 'a rbt \<Rightarrow> 'a frame list \<Rightarrow> ('a rbt \<times> 'a frame list) option" where
  "search_place cmp key k RBTREE_NULL fs = None"
| "search_place cmp key k (rbnode c l x r) fs =
     (let o1 = cmp k (key x) in
      if o1 = 0 then Some (rbnode c l x r, fs)
      else if o1 < 0 then search_place cmp key k l (LChild c x r # fs)
      else search_place cmp key k r (RChild c l x # fs))"

text \<open>The smallest node of a subtree with the frames that lead to it.\<close>

fun leftmost :: "'a rbt \<Rightarrow> 'a frame list \<Rightarrow> (color \<times> 'a \<times> 'a rbt \<times> 'a frame list) option" where
  "leftmost RBTREE_NULL fs = None"
| "leftmost (rbnode c l x r) fs =
     (if l = RBTREE_NULL then Some (c, x, r, fs) else leftmost l (LChild c x r # fs))"

definition unlink :: "color \<Rightarrow> 'a rbt \<Rightarrow> 'a frame list \<Rightarrow> 'a rbt option" where
  "unlink del_color child fs =
     (if del_color = RED then Some (plug fs child)
      else if rb_color child = RED then Some (plug fs (paint BLACK child))
      else rbtree_delete_fixup child fs)"

definition rbtree_delete ::
  "('k \<Rightarrow> 'k \<Rightarrow> int) \<Rightarrow> ('a \<Rightarrow> 'k) \<Rightarrow> 'k \<Rightarrow> 'a rbtree \<Rightarrow> ('a option \<times> 'a rbtree) option" where
  "rbtree_delete cmp key k rbtree =
     (case search_place cmp key k (rb_root rbtree) [] of
        None \<Rightarrow> Some (None, rbtree)
      | Some (RBTREE_NULL, fs) \<Rightarrow> None
      | Some (rbnode c l x r, fs) \<Rightarrow> do {
          root \<leftarrow> (if l \<noteq> RBTREE_NULL \<and> r \<noteq> RBTREE_NULL
                then do {
                  (sc, sx, sr, sfs) \<leftarrow> leftmost r [];
                  unlink sc sr (sfs @ RChild c l sx # fs) }
                else unlink c (if l \<noteq> RBTREE_NULL then l else r) fs);
          Some (Some x, \<lparr>rb_root = root, rb_count = rb_count rbtree - 1\<rparr>) })"

subsection \<open>Walking the tree\<close>

text \<open>A node is a non-null subtree with its frames; \<^term>\<open>None\<close> is \<open>RBTREE_NULL\<close>.\<close>

fun go_left :: "'a rbt \<Rightarrow> 'a frame list \<Rightarrow> ('a rbt \<times> 'a frame list) option" where
  "go_left RBTREE_NULL fs = None"
| "go_left (rbnode c l x r) fs =
     (if l = RBTREE_NULL then Some (rbnode c l x r, fs) else go_left l (LChild c x r # fs))"

fun go_right :: "'a rbt \<Rightarrow> 'a frame list \<Rightarrow> ('a rbt \<times> 'a frame list) option" where
  "go_right RBTREE_NULL fs = None"
| "go_right (rbnode c l x r) fs =
     (if r = RBTREE_NULL then Some (rbnode c l x r, fs) else go_right r (RChild c l x # fs))"

definition rbtree_first :: "'a rbtree \<Rightarrow> ('a rbt \<times> 'a frame list) option" where
  "rbtree_first rbtree = go_left (rb_root rbtree) []"

definition rbtree_last :: "'a rbtree \<Rightarrow> ('a rbt \<times> 'a frame list) option" where
  "rbtree_last rbtree = go_right (rb_root rbtree) []"

fun up_while_right :: "'a rbt \<Rightarrow> 'a frame list \<Rightarrow> ('a rbt \<times> 'a frame list) option" where
  "up_while_right t [] = None"
| "up_while_right t (RChild c l x # fs) = up_while_right (rbnode c l x t) fs"
| "up_while_right t (LChild c x r # fs) = Some (rbnode c t x r, fs)"

fun up_while_left :: "'a rbt \<Rightarrow> 'a frame list \<Rightarrow> ('a rbt \<times> 'a frame list) option" where
  "up_while_left t [] = None"
| "up_while_left t (LChild c x r # fs) = up_while_left (rbnode c t x r) fs"
| "up_while_left t (RChild c l x # fs) = Some (rbnode c l x t, fs)"

fun rbtree_next :: "'a rbt \<times> 'a frame list \<Rightarrow> ('a rbt \<times> 'a frame list) option" where
  "rbtree_next (RBTREE_NULL, fs) = None"
| "rbtree_next (rbnode c l x r, fs) =
     (if r \<noteq> RBTREE_NULL then go_left r (RChild c l x # fs)
      else up_while_right (rbnode c l x r) fs)"

fun rbtree_previous :: "'a rbt \<times> 'a frame list \<Rightarrow> ('a rbt \<times> 'a frame list) option" where
  "rbtree_previous (RBTREE_NULL, fs) = None"
| "rbtree_previous (rbnode c l x r, fs) =
     (if l \<noteq> RBTREE_NULL then go_right l (LChild c x r # fs)
      else up_while_left (rbnode c l x r) fs)"

subsection \<open>Red-black invariants\<close>

fun bheight :: "'a rbt \<Rightarrow> nat" where
  "bheight RBTREE_NULL = 0"
| "bheight (rbnode c l x r) = (if c = BLACK then bheight l + 1 else bheight l)"

fun rb_inv :: "'a rbt \<Rightarrow> bool" where
  "rb_inv RBTREE_NULL \<longleftrightarrow> True"
| "rb_inv (rbnode c l x r) \<longleftrightarrow> rb_inv l \<and> rb_inv r \<and> bheight l = bheight r \<and>
     (c = RED \<longrightarrow> rb_color l = BLACK \<and> rb_color r = BLACK)"

text \<open>
  \<open>ctx_inv c n fs\<close>: filling the frames \<open>fs\<close> with a valid tree of colour \<open>c\<close> and black
  height \<open>n\<close> gives a valid tree with a black root.
\<close>

fun ctx_inv :: "color \<Rightarrow> nat \<Rightarrow> 'a frame list \<Rightarrow> bool" where
  "ctx_inv c n [] \<longleftrightarrow> c = BLACK"
| "ctx_inv c n (LChild pc x r # fs) \<longleftrightarrow> rb_inv r \<and> bheight r = n \<and>
     (pc = RED \<longrightarrow> c = BLACK \<and> rb_color r = BLACK) \<and>
     ctx_inv pc (if pc = BLACK then n + 1 else n) fs"
| "ctx_inv c n (RChild pc l x # fs) \<longleftrightarrow> rb_inv l \<and> bheight l = n \<and>
     (pc = RED \<longrightarrow> c = BLACK \<and> rb_color l = BLACK) \<and>
     ctx_inv pc (if pc = BLACK then n + 1 else n) fs"

definition rb_tree :: "'a rbt \<Rightarrow> bool" where
  "rb_tree t \<longleftrightarrow> rb_inv t \<and> rb_color t = BLACK"

lemma plug_inv: "ctx_inv c n fs \<Longrightarrow> rb_inv t \<Longrightarrow> rb_color t = c \<Longrightarrow> bheight t = n \<Longrightarrow> rb_tree (plug fs t)"
  by (induction c n fs arbitrary: t rule: ctx_inv.induct) (auto simp: rb_tree_def)

lemma plug_inv_conv: "rb_tree (plug fs t) \<longleftrightarrow> rb_inv t \<and> ctx_inv (rb_color t) (bheight t) fs"
proof (induction fs arbitrary: t)
  case Nil
  then show ?case by (simp add: rb_tree_def)
next
  case (Cons f fs)
  then show ?case by (cases f) auto
qed

lemma ctx_inv_black: "ctx_inv RED n fs \<Longrightarrow> ctx_inv BLACK n fs"
  by (cases fs rule: list.exhaust) (auto elim: ctx_inv.elims)

lemma paint_inv [simp]: "rb_inv t \<Longrightarrow> rb_inv (paint BLACK t)"
  by (cases t) auto

lemma paint_black_tree: "rb_color t = BLACK \<Longrightarrow> paint BLACK t = t"
  by (cases t) auto

lemma not_RED [simp]: "c \<noteq> RED \<longleftrightarrow> c = BLACK" "c \<noteq> BLACK \<longleftrightarrow> c = RED"
  by (cases c; simp)+

lemma rb_color_RED: "rb_color t = RED \<longleftrightarrow> (\<exists>l x r. t = rbnode RED l x r)"
  by (cases t) auto

lemma rbtree_insert_fixup_inv:
  "ctx_inv BLACK (bheight node) fs \<Longrightarrow> rb_inv node \<Longrightarrow> rb_color node = RED \<Longrightarrow>
    \<exists>t. rbtree_insert_fixup node fs = Some t \<and> rb_tree t"
proof (induction node fs rule: rbtree_insert_fixup.induct)
  case (1 node)
  then show ?case by (cases node) (auto simp: rb_tree_def)
next
  case (2 node pf)
  then show ?case by (cases pf) (auto simp: rb_tree_def)
next
  case (3 node pf gf fs)
  obtain l x r where node: "node = rbnode RED l x r" using 3(4) 3(5) by (auto simp: rb_color_RED)
  show ?case
  proof (cases "frame_color pf = BLACK")
    case True
    then have "ctx_inv RED (bheight node) (pf # gf # fs)" using 3(3) by (cases pf) auto
    from plug_inv [OF this 3(4,5) refl] True show ?thesis
      by (simp add: rb_tree_def paint_black_tree)
  next
    case red: False
    have fin: "rb_tree (paint BLACK (plug fs t))" if "rb_inv t" "rb_color t = BLACK"
      "bheight t = Suc (bheight node)" "ctx_inv BLACK (Suc (bheight node)) fs" for t
      using plug_inv [OF that(4,1,2,3)] by (simp add: rb_tree_def paint_black_tree)
    show ?thesis
    proof (cases gf)
      case (LChild gc gx uncle)
      then show ?thesis using red 3(3,4) 3(1) [OF _ LChild] node fin
        by (cases pf; cases uncle) (auto split: if_splits)
    next
      case (RChild gc uncle gx)
      then show ?thesis using red 3(3,4) 3(2) [OF _ RChild] node fin
        by (cases pf; cases uncle) (auto split: if_splits)
    qed
  qed
qed

lemma plug_inv_weak:
  "ctx_inv c n fs \<Longrightarrow> rb_inv t \<Longrightarrow> rb_color t = c \<or> rb_color t = BLACK \<Longrightarrow> bheight t = n \<Longrightarrow>
    rb_tree (plug fs t)"
  using plug_inv ctx_inv_black by (metis color.exhaust)

lemma fixup_final_left_inv:
  assumes "rb_inv child" "rb_color child = BLACK" "rb_inv sib" "rb_color sib = BLACK"
    "bheight sib = bheight child + 1"
    "pc = BLACK \<longrightarrow> rb_color (rb_left sib) = RED \<or> rb_color (rb_right sib) = RED"
  shows "\<exists>t. fixup_final_left pc px child sib = Some t \<and> rb_inv t \<and>
    bheight t = (if pc = BLACK then bheight child + 2 else bheight child + 1) \<and>
    (rb_color t = pc \<or> rb_color t = BLACK)"
proof -
  obtain sl sx sr where sib: "sib = rbnode BLACK sl sx sr" using assms(4,5) by (cases sib) auto
  show ?thesis
  proof (cases "rb_color sr = RED")
    case True
    then obtain a y b where "sr = rbnode RED a y b" by (auto simp: rb_color_RED)
    then show ?thesis using assms sib by (auto simp: fixup_final_left_def)
  next
    case sr: False
    show ?thesis
    proof (cases "rb_color sl = RED")
      case True
      then obtain a y b where "sl = rbnode RED a y b" by (auto simp: rb_color_RED)
      then show ?thesis using assms sib sr by (auto simp: fixup_final_left_def)
    next
      case False
      then show ?thesis using assms sib sr by (auto simp: fixup_final_left_def)
    qed
  qed
qed

lemma fixup_final_right_inv:
  assumes "rb_inv child" "rb_color child = BLACK" "rb_inv sib" "rb_color sib = BLACK"
    "bheight sib = bheight child + 1"
    "pc = BLACK \<longrightarrow> rb_color (rb_left sib) = RED \<or> rb_color (rb_right sib) = RED"
  shows "\<exists>t. fixup_final_right pc sib px child = Some t \<and> rb_inv t \<and>
    bheight t = (if pc = BLACK then bheight child + 2 else bheight child + 1) \<and>
    (rb_color t = pc \<or> rb_color t = BLACK)"
proof -
  obtain sl sx sr where sib: "sib = rbnode BLACK sl sx sr" using assms(4,5) by (cases sib) auto
  show ?thesis
  proof (cases "rb_color sl = RED")
    case True
    then obtain a y b where "sl = rbnode RED a y b" by (auto simp: rb_color_RED)
    then show ?thesis using assms sib by (auto simp: fixup_final_right_def)
  next
    case sl: False
    show ?thesis
    proof (cases "rb_color sr = RED")
      case True
      then obtain a y b where "sr = rbnode RED a y b" by (auto simp: rb_color_RED)
      then show ?thesis using assms sib sl by (auto simp: fixup_final_right_def)
    next
      case False
      then show ?thesis using assms sib sl by (auto simp: fixup_final_right_def)
    qed
  qed
qed

lemma black_node_of_bheight: "rb_color t = BLACK \<Longrightarrow> bheight t = Suc n \<Longrightarrow>
    \<exists>l x r. t = rbnode BLACK l x r \<and> bheight l = n"
  by (cases t) auto

lemma rbtree_delete_fixup_inv:
  "ctx_inv BLACK (bheight child + 1) fs \<Longrightarrow> rb_inv child \<Longrightarrow> rb_color child = BLACK \<Longrightarrow>
    \<exists>t. rbtree_delete_fixup child fs = Some t \<and> rb_tree t"
proof (induction child fs rule: rbtree_delete_fixup.induct)
  case (1 child)
  then show ?case by (simp add: rb_tree_def)
next
  case (2 child pc px sib fs)
  have s: "rb_inv sib" "bheight sib = bheight child + 1" "sib \<noteq> RBTREE_NULL" using 2(2) by auto
  show ?case
  proof (cases "rb_color sib = RED")
    case True
    then obtain sl sx sr where sib: "sib = rbnode RED sl sx sr" by (auto simp: rb_color_RED)
    have sl: "rb_inv sl" "rb_color sl = BLACK" "bheight sl = bheight child + 1" "sl \<noteq> RBTREE_NULL"
      using s sib by auto
    obtain t where t: "fixup_final_left RED px child sl = Some t" "rb_inv t" "bheight t = bheight child + 1"
      using fixup_final_left_inv [OF 2(3,4) sl(1-3), of RED px] by auto
    have "rb_tree (plug (LChild BLACK sx sr # fs) t)"
      unfolding plug_inv_conv using t(2,3) 2(2) s sib by auto
    then show ?thesis using t sib sl s by simp
  next
    case black: False
    show ?thesis
    proof (cases "pc = BLACK \<and> rb_color (rb_left sib) = BLACK \<and> rb_color (rb_right sib) = BLACK")
      case True
      obtain a y b where sib: "sib = rbnode BLACK a y b" using black s black_node_of_bheight by fastforce
      then show ?thesis using 2(1) [of "()"] 2(2-4) True s by auto
    next
      case False
      obtain t where t: "fixup_final_left pc px child sib = Some t" "rb_inv t"
        "bheight t = (if pc = BLACK then bheight child + 2 else bheight child + 1)"
        "rb_color t = pc \<or> rb_color t = BLACK"
        using fixup_final_left_inv [OF 2(3,4) s(1) _ s(2), of pc px] black False by auto
      then have "rb_tree (plug fs t)" using 2(2) by (intro plug_inv_weak [of pc]) auto
      then show ?thesis using t False black s by auto
    qed
  qed
next
  case (3 child pc sib px fs)
  have s: "rb_inv sib" "bheight sib = bheight child + 1" "sib \<noteq> RBTREE_NULL" using 3(2) by auto
  show ?case
  proof (cases "rb_color sib = RED")
    case True
    then obtain sl sx sr where sib: "sib = rbnode RED sl sx sr" by (auto simp: rb_color_RED)
    have sr: "rb_inv sr" "rb_color sr = BLACK" "bheight sr = bheight child + 1" "sr \<noteq> RBTREE_NULL"
      using s sib by auto
    obtain t where t: "fixup_final_right RED sr px child = Some t" "rb_inv t" "bheight t = bheight child + 1"
      using fixup_final_right_inv [OF 3(3,4) sr(1-3), of RED px] by auto
    have "rb_tree (plug (RChild BLACK sl sx # fs) t)"
      unfolding plug_inv_conv using t(2,3) 3(2) s sib by auto
    then show ?thesis using t sib sr s by simp
  next
    case black: False
    show ?thesis
    proof (cases "pc = BLACK \<and> rb_color (rb_left sib) = BLACK \<and> rb_color (rb_right sib) = BLACK")
      case True
      obtain a y b where sib: "sib = rbnode BLACK a y b" using black s black_node_of_bheight by fastforce
      then show ?thesis using 3(1) [of "()"] 3(2-4) True s by auto
    next
      case False
      obtain t where t: "fixup_final_right pc sib px child = Some t" "rb_inv t"
        "bheight t = (if pc = BLACK then bheight child + 2 else bheight child + 1)"
        "rb_color t = pc \<or> rb_color t = BLACK"
        using fixup_final_right_inv [OF 3(3,4) s(1) _ s(2), of pc px] black False by auto
      then have "rb_tree (plug fs t)" using 3(2) by (intro plug_inv_weak [of pc]) auto
      then show ?thesis using t False black s by auto
    qed
  qed
qed

subsection \<open>The sequence of elements\<close>

fun inorder :: "'a rbt \<Rightarrow> 'a list" where
  "inorder RBTREE_NULL = []"
| "inorder (rbnode c l x r) = inorder l @ x # inorder r"

fun ctx_before :: "'a frame list \<Rightarrow> 'a list" where
  "ctx_before [] = []"
| "ctx_before (LChild c x r # fs) = ctx_before fs"
| "ctx_before (RChild c l x # fs) = ctx_before fs @ inorder l @ [x]"

fun ctx_after :: "'a frame list \<Rightarrow> 'a list" where
  "ctx_after [] = []"
| "ctx_after (LChild c x r # fs) = x # inorder r @ ctx_after fs"
| "ctx_after (RChild c l x # fs) = ctx_after fs"

lemma inorder_plug: "inorder (plug fs t) = ctx_before fs @ inorder t @ ctx_after fs"
proof (induction fs arbitrary: t)
  case (Cons f fs)
  then show ?case by (cases f) auto
qed simp

lemma inorder_paint [simp]: "inorder (paint c t) = inorder t"
  by (cases t) auto

lemma ctx_append [simp]:
  "ctx_before (fs @ gs) = ctx_before gs @ ctx_before fs"
  "ctx_after (fs @ gs) = ctx_after fs @ ctx_after gs"
  by (induction fs rule: ctx_before.induct) auto

lemma plug_append [simp]: "plug (fs @ gs) t = plug gs (plug fs t)"
  by (induction fs arbitrary: t) auto

lemma inorder_rotate:
  "rbtree_rotate_left t = Some t' \<Longrightarrow> inorder t' = inorder t"
  "rbtree_rotate_right t = Some t' \<Longrightarrow> inorder t' = inorder t"
  by (cases t rule: rbtree_rotate_left.cases; auto) (cases t rule: rbtree_rotate_right.cases; auto)

lemma inorder_up: "inorder (up f t) = ctx_before [f] @ inorder t @ ctx_after [f]"
  by (cases f) auto

lemma rbtree_insert_fixup_inorder:
  "rbtree_insert_fixup node fs = Some t \<Longrightarrow> inorder t = ctx_before fs @ inorder node @ ctx_after fs"
proof (induction node fs rule: rbtree_insert_fixup.induct)
  case (3 node pf gf fs)
  show ?case
  proof (cases "frame_color pf = BLACK")
    case True
    then show ?thesis using 3(3) by (cases pf; cases gf) (auto simp: inorder_plug)
  next
    case red: False
    show ?thesis
    proof (cases gf)
      case (LChild gc gx uncle)
      show ?thesis
      proof (cases "rb_color uncle = RED")
        case True
        then show ?thesis using 3(1) [OF red LChild True] 3(3) red LChild by (cases pf) auto
      next
        case False
        then show ?thesis using 3(3) red LChild
          by (cases pf) (auto simp: inorder_plug bind_eq_Some_conv dest!: inorder_rotate)
      qed
    next
      case (RChild gc uncle gx)
      show ?thesis
      proof (cases "rb_color uncle = RED")
        case True
        then show ?thesis using 3(2) [OF red RChild True] 3(3) red RChild by (cases pf) auto
      next
        case False
        then show ?thesis using 3(3) red RChild
          by (cases pf) (auto simp: inorder_plug bind_eq_Some_conv dest!: inorder_rotate)
      qed
    qed
  qed
qed (auto simp: inorder_up split: if_splits)

lemma fixup_final_inorder:
  "fixup_final_left pc px child sib = Some t \<Longrightarrow> inorder t = inorder child @ px # inorder sib"
  "fixup_final_right pc sib px child = Some t \<Longrightarrow> inorder t = inorder sib @ px # inorder child"
  by (cases sib; auto simp: fixup_final_left_def bind_eq_Some_conv dest!: inorder_rotate
      split: if_splits rbt.splits)
    (cases sib; auto simp: fixup_final_right_def bind_eq_Some_conv dest!: inorder_rotate
      split: if_splits rbt.splits)

lemma rbtree_delete_fixup_inorder:
  "rbtree_delete_fixup child fs = Some t \<Longrightarrow> inorder t = ctx_before fs @ inorder child @ ctx_after fs"
  by (induction child fs arbitrary: t rule: rbtree_delete_fixup.induct)
    (auto simp: inorder_plug bind_eq_Some_conv dest!: fixup_final_inorder split: if_splits rbt.splits)

lemma leftmost_Some:
  "t \<noteq> RBTREE_NULL \<Longrightarrow> \<exists>c x r fs'. leftmost t fs = Some (c, x, r, fs' @ fs) \<and>
     plug fs' (rbnode c RBTREE_NULL x r) = t \<and>
     ctx_before fs' = [] \<and> inorder t = x # inorder r @ ctx_after fs'"
proof (induction t arbitrary: fs)
  case (rbnode c l x r)
  show ?case
  proof (cases "l = RBTREE_NULL")
    case True
    then show ?thesis by auto
  next
    case False
    obtain c' x' r' fs' where IH: "leftmost l (LChild c x r # fs) = Some (c', x', r', fs' @ LChild c x r # fs)"
      "plug fs' (rbnode c' RBTREE_NULL x' r') = l"
      "ctx_before fs' = []" "inorder l = x' # inorder r' @ ctx_after fs'"
      using rbnode.IH(1) [OF False, of "LChild c x r # fs"] by blast
    then show ?thesis using False
      by (intro exI [of _ c'] exI [of _ x'] exI [of _ r'] exI [of _ "fs' @ [LChild c x r]"]) simp
  qed
qed simp

lemma unlink_inorder:
  "unlink dc child fs = Some t \<Longrightarrow> inorder t = ctx_before fs @ inorder child @ ctx_after fs"
  by (auto simp: unlink_def inorder_plug dest: rbtree_delete_fixup_inorder split: if_splits)

lemma unlink_inv:
  assumes "rb_tree (plug fs (rbnode dc RBTREE_NULL x child)) \<or> rb_tree (plug fs (rbnode dc child x RBTREE_NULL))"
  shows "\<exists>t. unlink dc child fs = Some t \<and> rb_tree t"
proof -
  have c: "rb_inv child" "bheight child = 0" "dc = RED \<longrightarrow> rb_color child = BLACK"
    and ctx: "ctx_inv dc (if dc = BLACK then 1 else 0) fs"
    using assms by (auto simp: plug_inv_conv split: if_splits)
  show ?thesis
  proof (cases "dc = RED")
    case True
    then show ?thesis using c ctx plug_inv_weak [of dc 0 fs child] by (simp add: unlink_def)
  next
    case black: False
    show ?thesis
    proof (cases "rb_color child = RED")
      case True
      then have "rb_tree (plug fs (paint BLACK child))"
        using c ctx black by (cases child) (auto simp: plug_inv_conv)
      then show ?thesis using True black by (simp add: unlink_def)
    next
      case False
      then show ?thesis using c ctx black rbtree_delete_fixup_inv [of child fs] by (simp add: unlink_def)
    qed
  qed
qed

subsection \<open>The laws of a comparison function\<close>

definition ordered :: "('k \<Rightarrow> bool) \<Rightarrow> ('k \<Rightarrow> 'o::linorder) \<Rightarrow> ('a \<Rightarrow> 'k) \<Rightarrow> 'a list \<Rightarrow> bool" where
  "ordered keydom rank key xs \<longleftrightarrow>
     sorted_wrt (<) (map (\<lambda>x. rank (key x)) xs) \<and> (\<forall>x \<in> set xs. keydom (key x))"

definition valid_rbtree :: "('k \<Rightarrow> bool) \<Rightarrow> ('k \<Rightarrow> 'o::linorder) \<Rightarrow> ('a \<Rightarrow> 'k) \<Rightarrow> 'a rbtree \<Rightarrow> bool" where
  "valid_rbtree keydom rank key t \<longleftrightarrow> rb_tree (rb_root t) \<and> ordered keydom rank key (inorder (rb_root t)) \<and>
     rb_count t = length (inorder (rb_root t))"

lemma ordered_append:
  "ordered keydom rank key (xs @ x # ys) \<longleftrightarrow> ordered keydom rank key xs \<and> ordered keydom rank key ys \<and>
     keydom (key x) \<and>
     (\<forall>y \<in> set xs. rank (key y) < rank (key x)) \<and> (\<forall>y \<in> set ys. rank (key x) < rank (key y))"
  by (fastforce simp: ordered_def sorted_wrt_append)

lemma ordered_remove: "ordered keydom rank key (xs @ x # ys) \<Longrightarrow> ordered keydom rank key (xs @ ys)"
  by (auto simp: ordered_def sorted_wrt_append)

lemma ordered_inject:
  "ordered keydom rank key xs \<Longrightarrow> x \<in> set xs \<Longrightarrow> y \<in> set xs \<Longrightarrow> rank (key x) = rank (key y) \<Longrightarrow> x = y"
  by (induction xs) (force simp: ordered_def)+

text \<open>
  What the tree relies on: on the keys in \<open>keydom\<close> the sign of \<open>cmp\<close> is the comparison
  of the ranks of the keys in a linear order.
\<close>

locale key_order =
  fixes cmp :: "'k \<Rightarrow> 'k \<Rightarrow> int" and keydom :: "'k \<Rightarrow> bool" and rank :: "'k \<Rightarrow> 'o::linorder"
    and key :: "'a \<Rightarrow> 'k"
  assumes cmp_rank: "keydom a \<Longrightarrow> keydom b \<Longrightarrow> sgn (cmp a b) = ocmp (rank a) (rank b)"
begin

lemma cmp_cases:
  assumes "keydom a" "keydom b"
  shows "cmp a b < 0 \<longleftrightarrow> rank a < rank b" "cmp a b = 0 \<longleftrightarrow> rank a = rank b" "cmp a b > 0 \<longleftrightarrow> rank b < rank a"
  using sgn_eq_ocmp [OF cmp_rank [OF assms]] by auto

lemma insert_place_spec:
  assumes "keydom k"
  shows "ordered keydom rank key (inorder t) \<Longrightarrow>
    (case insert_place cmp key k t fs of
       None \<Rightarrow> \<exists>x \<in> set (inorder t). rank (key x) = rank k
     | Some fs' \<Rightarrow> plug fs' RBTREE_NULL = plug fs t \<and>
         (\<exists>xs ys. inorder t = xs @ ys \<and> ctx_before fs' = ctx_before fs @ xs \<and> ctx_after fs' = ys @ ctx_after fs \<and>
           (\<forall>x \<in> set xs. rank (key x) < rank k) \<and> (\<forall>y \<in> set ys. rank k < rank (key y))))"
proof (induction t arbitrary: fs)
  case (rbnode c l x r)
  have o: "ordered keydom rank key (inorder l)" "ordered keydom rank key (inorder r)" "keydom (key x)"
    "\<forall>y \<in> set (inorder l). rank (key y) < rank (key x)" "\<forall>y \<in> set (inorder r). rank (key x) < rank (key y)"
    using rbnode.prems by (auto simp: ordered_append)
  note cc = cmp_cases [OF assms o(3)]
  consider "rank k = rank (key x)" | "rank k < rank (key x)" | "rank (key x) < rank k" by force
  then show ?case
  proof cases
    case 1
    then show ?thesis using cc by auto
  next
    case 2
    then show ?thesis using cc rbnode.IH(1) [OF o(1), of "LChild c x r # fs"] o(5)
      by (auto split: option.splits) (metis Un_iff append.assoc append_Cons insert_iff less_trans list.simps(15) set_append)
  next
    case 3
    then show ?thesis using cc rbnode.IH(2) [OF o(2), of "RChild c l x # fs"] o(4)
      by (auto split: option.splits) (metis Un_iff append.assoc append_Cons insert_iff less_trans list.simps(15) set_append)
  qed
qed simp

lemma rbtree_insert_spec:
  assumes v: "valid_rbtree keydom rank key t" and k: "keydom (key d)"
  shows "\<exists>t'. rbtree_insert cmp key d t = Some (\<forall>x \<in> set (inorder (rb_root t)). rank (key x) \<noteq> rank (key d), t') \<and>
    valid_rbtree keydom rank key t' \<and>
    (if \<exists>x \<in> set (inorder (rb_root t)). rank (key x) = rank (key d) then t' = t
     else \<exists>xs ys. inorder (rb_root t) = xs @ ys \<and> inorder (rb_root t') = xs @ d # ys)"
proof (cases "insert_place cmp key (key d) (rb_root t) []")
  case None
  then have "\<exists>x \<in> set (inorder (rb_root t)). rank (key x) = rank (key d)"
    using insert_place_spec [OF k, of "rb_root t" "[]"] v by (auto simp: valid_rbtree_def)
  then show ?thesis using None v by (auto simp: rbtree_insert_def)
next
  case (Some fs)
  obtain xs ys where p: "plug fs RBTREE_NULL = rb_root t" "inorder (rb_root t) = xs @ ys"
    "ctx_before fs = xs" "ctx_after fs = ys"
    "\<forall>x \<in> set xs. rank (key x) < rank (key d)" "\<forall>y \<in> set ys. rank (key d) < rank (key y)"
    using insert_place_spec [OF k, of "rb_root t" "[]"] v Some by (auto simp: valid_rbtree_def)
  have "ctx_inv BLACK 0 fs"
    using v plug_inv_conv [of fs RBTREE_NULL] p(1) by (simp add: valid_rbtree_def)
  then obtain root where r: "rbtree_insert_fixup (rbnode RED RBTREE_NULL d RBTREE_NULL) fs = Some root" "rb_tree root"
    using rbtree_insert_fixup_inv [of "rbnode RED RBTREE_NULL d RBTREE_NULL" fs] by auto
  have io: "inorder root = xs @ d # ys" using rbtree_insert_fixup_inorder [OF r(1)] p by simp
  have new: "\<forall>x \<in> set (inorder (rb_root t)). rank (key x) \<noteq> rank (key d)" using p by auto
  have "ordered keydom rank key (xs @ ys)" using v p(2) by (simp add: valid_rbtree_def)
  then have "ordered keydom rank key (xs @ d # ys)"
    using p(5,6) k by (auto simp: ordered_def sorted_wrt_append)
  then show ?thesis using Some r io new p(2) v
    by (auto simp: rbtree_insert_def valid_rbtree_def)
qed

lemma find_less_equal_spec:
  assumes "keydom k"
  shows "ordered keydom rank key (inorder t) \<Longrightarrow>
    find_less_equal_loop cmp key k t res =
      (\<exists>x \<in> set (inorder t). rank (key x) = rank k,
       let le = filter (\<lambda>x. rank (key x) \<le> rank k) (inorder t) in if le = [] then res else Some (last le))"
proof (induction t arbitrary: res)
  case (rbnode c l x r)
  have o: "ordered keydom rank key (inorder l)" "ordered keydom rank key (inorder r)" "keydom (key x)"
    "\<forall>y \<in> set (inorder l). rank (key y) < rank (key x)" "\<forall>y \<in> set (inorder r). rank (key x) < rank (key y)"
    using rbnode.prems by (auto simp: ordered_append)
  note cc = cmp_cases [OF assms o(3)]
  consider "rank k = rank (key x)" | "rank k < rank (key x)" | "rank (key x) < rank k" by force
  then show ?case
  proof cases
    case 1
    then have "filter (\<lambda>x. rank (key x) \<le> rank k) (inorder r) = []"
      using o(5) by (auto simp: filter_empty_conv)
    then show ?thesis using cc 1 by (auto simp: Let_def)
  next
    case 2
    then have "filter (\<lambda>x. rank (key x) \<le> rank k) (inorder r) = []"
      "\<not> (\<exists>y \<in> set (inorder r). rank (key y) = rank k)"
      using o(5) by (force simp: filter_empty_conv)+
    then show ?thesis using cc 2 rbnode.IH(1) [OF o(1)] by (auto simp: Let_def)
  next
    case 3
    then have "\<not> (\<exists>y \<in> set (inorder l). rank (key y) = rank k)" using o(4) by force
    then show ?thesis using cc 3 rbnode.IH(2) [OF o(2)] by (auto simp: Let_def)
  qed
qed simp

lemma rbtree_search_spec:
  assumes v: "valid_rbtree keydom rank key t" and k: "keydom k"
  shows "rbtree_search cmp key t k = Some x \<longleftrightarrow> x \<in> set (inorder (rb_root t)) \<and> rank (key x) = rank k"
proof -
  let ?xs = "inorder (rb_root t)" and ?le = "filter (\<lambda>x. rank (key x) \<le> rank k) (inorder (rb_root t))"
  have o: "ordered keydom rank key ?xs" using v by (simp add: valid_rbtree_def)
  have last: "last ?le = y" if y: "y \<in> set ?xs" "rank (key y) = rank k" for y
  proof -
    obtain as bs where "?xs = as @ y # bs" using y(1) by (auto simp: in_set_conv_decomp)
    moreover from this o have "\<forall>z \<in> set bs. rank (key y) < rank (key z)" by (simp add: ordered_append)
    ultimately have "?le = filter (\<lambda>x. rank (key x) \<le> rank k) as @ [y]"
      using y(2) by (auto simp: filter_empty_conv)
    then show ?thesis by simp
  qed
  then show ?thesis
    using find_less_equal_spec [OF k o, of None] ordered_inject [OF o]
    by (auto simp: rbtree_search_def rbtree_find_less_equal_def Let_def filter_empty_conv split: if_splits)
qed

lemma search_place_spec:
  assumes "keydom k"
  shows "ordered keydom rank key (inorder t) \<Longrightarrow>
    (case search_place cmp key k t fs of
       None \<Rightarrow> \<forall>x \<in> set (inorder t). rank (key x) \<noteq> rank k
     | Some (t', fs') \<Rightarrow> plug fs' t' = plug fs t \<and> (\<exists>c l x r. t' = rbnode c l x r \<and> rank (key x) = rank k))"
proof (induction t arbitrary: fs)
  case (rbnode c l x r)
  have o: "ordered keydom rank key (inorder l)" "ordered keydom rank key (inorder r)" "keydom (key x)"
    "\<forall>y \<in> set (inorder l). rank (key y) < rank (key x)" "\<forall>y \<in> set (inorder r). rank (key x) < rank (key y)"
    using rbnode.prems by (auto simp: ordered_append)
  note cc = cmp_cases [OF assms o(3)]
  consider "rank k = rank (key x)" | "rank k < rank (key x)" | "rank (key x) < rank k" by force
  then show ?case
  proof cases
    case 1
    then show ?thesis using cc by auto
  next
    case 2
    then show ?thesis using cc rbnode.IH(1) [OF o(1), of "LChild c x r # fs"] o(5)
      by (force split: option.splits)
  next
    case 3
    then show ?thesis using cc rbnode.IH(2) [OF o(2), of "RChild c l x # fs"] o(4)
      by (force split: option.splits)
  qed
qed simp

lemma rbtree_delete_spec:
  assumes v: "valid_rbtree keydom rank key t" and k: "keydom k"
  shows "\<exists>t'. rbtree_delete cmp key k t = Some (rbtree_search cmp key t k, t') \<and>
    valid_rbtree keydom rank key t' \<and>
    inorder (rb_root t') = filter (\<lambda>x. rank (key x) \<noteq> rank k) (inorder (rb_root t))"
proof (cases "search_place cmp key k (rb_root t) []")
  case None
  then have n: "\<forall>x \<in> set (inorder (rb_root t)). rank (key x) \<noteq> rank k"
    using search_place_spec [OF k, of "rb_root t" "[]"] v by (auto simp: valid_rbtree_def)
  then have "rbtree_search cmp key t k = None"
    using rbtree_search_spec [OF v k] by (cases "rbtree_search cmp key t k") auto
  then show ?thesis using None v n by (auto simp: rbtree_delete_def)
next
  case (Some p)
  then obtain c l x r fs where p: "search_place cmp key k (rb_root t) [] = Some (rbnode c l x r, fs)"
    "plug fs (rbnode c l x r) = rb_root t" "rank (key x) = rank k"
    using search_place_spec [OF k, of "rb_root t" "[]"] v by (cases p) (auto simp: valid_rbtree_def)
  have io: "inorder (rb_root t) = (ctx_before fs @ inorder l) @ x # (inorder r @ ctx_after fs)"
    using inorder_plug [of fs "rbnode c l x r"] p(2) by simp
  have rb: "rb_tree (plug fs (rbnode c l x r))" and cnt: "rb_count t = length (inorder (rb_root t))"
    and o: "ordered keydom rank key (inorder (rb_root t))"
    using v p(2) by (auto simp: valid_rbtree_def)
  have flt: "filter (\<lambda>x. rank (key x) \<noteq> rank k) (inorder (rb_root t)) =
      (ctx_before fs @ inorder l) @ (inorder r @ ctx_after fs)"
  proof -
    have "filter (\<lambda>x. rank (key x) \<noteq> rank k) ys = ys" if "\<forall>y \<in> set ys. rank (key y) \<noteq> rank k" for ys
      using that by (simp add: filter_id_conv)
    moreover have "\<forall>y \<in> set (ctx_before fs @ inorder l) \<union> set (inorder r @ ctx_after fs). rank (key y) \<noteq> rank k"
      using o p(3) unfolding io ordered_append by force
    ultimately show ?thesis unfolding io using p(3) by simp
  qed
  have s: "rbtree_search cmp key t k = Some x"
    using rbtree_search_spec [OF v k] p(3) io by auto
  have "\<exists>root. rbtree_delete cmp key k t = Some (Some x, \<lparr>rb_root = root, rb_count = rb_count t - 1\<rparr>) \<and>
      rb_tree root \<and> inorder root = (ctx_before fs @ inorder l) @ (inorder r @ ctx_after fs)"
  proof (cases "l \<noteq> RBTREE_NULL \<and> r \<noteq> RBTREE_NULL")
    case True
    then obtain sc sx sr sfs where m: "leftmost r [] = Some (sc, sx, sr, sfs)"
      "plug sfs (rbnode sc RBTREE_NULL sx sr) = r" "ctx_before sfs = []"
      "inorder r = sx # inorder sr @ ctx_after sfs"
      using leftmost_Some [of r "[]"] by auto
    have "rb_tree (plug (sfs @ RChild c l sx # fs) (rbnode sc RBTREE_NULL sx sr))"
      using rb m(2) by (simp add: plug_inv_conv)
    then obtain root where "unlink sc sr (sfs @ RChild c l sx # fs) = Some root" "rb_tree root"
      using unlink_inv [of "sfs @ RChild c l sx # fs" sc sx sr] by metis
    moreover from this(1) have "inorder root = (ctx_before fs @ inorder l) @ (inorder r @ ctx_after fs)"
      using m(3,4) by (auto dest: unlink_inorder)
    ultimately show ?thesis using p(1) True m(1) by (simp add: rbtree_delete_def)
  next
    case False
    let ?ch = "if l \<noteq> RBTREE_NULL then l else r"
    have "rb_tree (plug fs (rbnode c RBTREE_NULL x ?ch)) \<or> rb_tree (plug fs (rbnode c ?ch x RBTREE_NULL))"
      using rb False by (cases "l = RBTREE_NULL") auto
    then obtain root where "unlink c ?ch fs = Some root" "rb_tree root"
      using unlink_inv [of fs c x ?ch] by blast
    moreover from this(1) have "inorder root = (ctx_before fs @ inorder l) @ (inorder r @ ctx_after fs)"
      using False by (auto dest!: unlink_inorder split: if_splits)
    ultimately show ?thesis using p(1) False by (auto simp: rbtree_delete_def)
  qed
  then show ?thesis using s flt io cnt o ordered_remove [of keydom rank key "ctx_before fs @ inorder l" x]
    by (auto simp: valid_rbtree_def)
qed

end

subsection \<open>Walking visits the elements in order\<close>

text \<open>The elements that are still to come after the node at a position.\<close>

fun remaining :: "'a rbt \<times> 'a frame list \<Rightarrow> 'a list" where
  "remaining (t, fs) = (case t of RBTREE_NULL \<Rightarrow> [] | rbnode c l x r \<Rightarrow> x # inorder r @ ctx_after fs)"

lemma go_left_spec: "t \<noteq> RBTREE_NULL \<Longrightarrow>
    \<exists>p. go_left t fs = Some p \<and> remaining p = inorder t @ ctx_after fs \<and> fst p \<noteq> RBTREE_NULL"
proof (induction t arbitrary: fs)
  case (rbnode c l x r)
  then show ?case using rbnode.IH(1) [of "LChild c x r # fs"] by (cases "l = RBTREE_NULL") auto
qed simp

lemma up_while_right_spec:
  "(up_while_right t fs = None \<and> ctx_after fs = []) \<or>
   (\<exists>p. up_while_right t fs = Some p \<and> remaining p = ctx_after fs \<and> fst p \<noteq> RBTREE_NULL)"
  by (induction t fs rule: up_while_right.induct) auto

lemma rbtree_next_spec:
  assumes "fst p \<noteq> RBTREE_NULL"
  shows "(rbtree_next p = None \<and> tl (remaining p) = []) \<or>
    (\<exists>q. rbtree_next p = Some q \<and> remaining q = tl (remaining p) \<and> fst q \<noteq> RBTREE_NULL)"
proof -
  obtain c l x r fs where p: "p = (rbnode c l x r, fs)" using assms by (cases p; cases "fst p") auto
  show ?thesis
  proof (cases "r = RBTREE_NULL")
    case True
    then show ?thesis using p up_while_right_spec [of "rbnode c l x r" fs] by auto
  next
    case False
    then show ?thesis using p go_left_spec [of r "RChild c l x # fs"] by auto
  qed
qed

text \<open>\<open>RBTREE_FOR\<close>: the elements seen by following \<open>rbtree_next\<close>, with fuel.\<close>

fun walk :: "nat \<Rightarrow> ('a rbt \<times> 'a frame list) option \<Rightarrow> 'a list option" where
  "walk n None = Some []"
| "walk 0 (Some p) = None"
| "walk (Suc n) (Some p) = (case fst p of RBTREE_NULL \<Rightarrow> Some []
     | rbnode c l x r \<Rightarrow> map_option ((#) x) (walk n (rbtree_next p)))"

lemma walk_remaining:
  "fst p \<noteq> RBTREE_NULL \<Longrightarrow> length (remaining p) \<le> n \<Longrightarrow> walk n (Some p) = Some (remaining p)"
proof (induction n arbitrary: p)
  case 0
  then show ?case by (cases p; cases "fst p") auto
next
  case (Suc n)
  obtain c l x r fs where p: "p = (rbnode c l x r, fs)" using Suc.prems by (cases p; cases "fst p") auto
  show ?case
  proof (cases "rbtree_next p")
    case None
    then show ?thesis using p rbtree_next_spec [of p] by auto
  next
    case (Some q)
    then have "remaining q = tl (remaining p)" "fst q \<noteq> RBTREE_NULL" using rbtree_next_spec [of p] p by auto
    then show ?thesis using Suc.IH [of q] Suc.prems Some p by auto
  qed
qed

lemma walk_first:
  assumes "rb_count t = length (inorder (rb_root t))"
  shows "walk (rb_count t) (rbtree_first t) = Some (inorder (rb_root t))"
proof (cases "rb_root t = RBTREE_NULL")
  case False
  then obtain p where "rbtree_first t = Some p" "remaining p = inorder (rb_root t)" "fst p \<noteq> RBTREE_NULL"
    using go_left_spec [of "rb_root t" "[]"] by (auto simp: rbtree_first_def)
  then show ?thesis using walk_remaining [of p "rb_count t"] assms by simp
qed (simp add: rbtree_first_def)

subsection \<open>Height\<close>

fun rb_height :: "'a rbt \<Rightarrow> nat" where
  "rb_height RBTREE_NULL = 0"
| "rb_height (rbnode c l x r) = max (rb_height l) (rb_height r) + 1"

lemma rb_height_bheight: "rb_inv t \<Longrightarrow> rb_height t \<le> 2 * bheight t + (if rb_color t = RED then 1 else 0)"
proof (induction t)
  case (rbnode c l x r)
  then show ?case by (cases c) (auto split: if_splits)
qed simp

lemma bheight_size: "rb_inv t \<Longrightarrow> 2 ^ bheight t \<le> length (inorder t) + 1"
  by (induction t) auto

subsection \<open>dname_compare orders the trees of names\<close>

function unwire :: "byte list \<Rightarrow> byte list list" where
  "unwire bs = (case bs of [] \<Rightarrow> []
     | c # r \<Rightarrow> if c = 0 then [] else take (unat c) r # unwire (drop (unat c) r))"
  by pat_completeness auto
termination by (relation "measure length") auto

declare unwire.simps [simp del]

lemma unwire_wire: "\<forall>l \<in> set ls. valid_label l \<Longrightarrow> unwire (wire ls) = ls"
proof (induction ls)
  case (Cons l ls)
  then show ?case using valid_label_byte [of l] by (subst unwire.simps) simp
qed (simp add: unwire.simps)

definition labels_of :: "dname \<Rightarrow> byte list list" where
  "labels_of d = unwire (dname_name d)"

lemma labels_of_dname_of [simp]: "valid_labels ls \<Longrightarrow> labels_of (dname_of ls) = ls"
  by (simp add: labels_of_def unwire_wire valid_labels_def)

definition dname_rank :: "dname \<Rightarrow> byte list list" where
  "dname_rank d = rev (labels_of d)"

definition dname_cmp :: "dname \<Rightarrow> dname \<Rightarrow> int" where
  "dname_cmp a b = (case dname_compare a b of Some c \<Rightarrow> c | None \<Rightarrow> 0)"

interpretation dname_order: key_order dname_cmp wf_dname dname_rank key for key :: "'a \<Rightarrow> dname"
proof unfold_locales
  fix a b assume "wf_dname a" "wf_dname b"
  then obtain la lb where l: "valid_labels la" "a = dname_of la" "valid_labels lb" "b = dname_of lb"
    by (auto simp: wf_dname_def)
  then show "sgn (dname_cmp a b) = ocmp (dname_rank a) (dname_rank b)"
    using dname_compare_ocmp [OF l(1,3)] by (auto simp: dname_cmp_def dname_rank_def)
qed

lemma dname_rank_inject: "wf_dname a \<Longrightarrow> wf_dname b \<Longrightarrow> dname_rank a = dname_rank b \<longleftrightarrow> a = b"
  by (auto simp: wf_dname_def dname_rank_def)

end
