(* ===== verification/Tsig.thy ===== *)
theory Tsig
  imports Packet_Parse Rbtree
begin

text \<open>
  Transaction signatures (\<open>tsig.h\<close>, \<open>tsig.c\<close>). The HMAC implementation is reached through
  the function pointers of \<open>struct tsig_algorithm\<close>; they are fields of the record
  \<open>tsig_algorithm\<close>, over a type \<open>'c\<close> of contexts, so every result holds for any
  implementation. What is used of it, that the digest depends on the concatenation of the
  data passed to \<open>hmac_update\<close>, is the predicate \<open>hmac_incremental\<close>. The current time is
  an argument of the functions that call \<open>time\<close>. Memory regions of the record are not
  modelled.
\<close>

definition TSIG_ERROR_NOERROR :: u16 where "TSIG_ERROR_NOERROR = 0"
definition TSIG_ERROR_BADSIG :: u16 where "TSIG_ERROR_BADSIG = 16"
definition TSIG_ERROR_BADKEY :: u16 where "TSIG_ERROR_BADKEY = 17"
definition TSIG_ERROR_BADTIME :: u16 where "TSIG_ERROR_BADTIME = 18"
definition RCODE_FORMAT_16 :: u16 where "RCODE_FORMAT_16 = 1"

datatype tsig_status = TSIG_NOT_PRESENT | TSIG_OK | TSIG_ERROR

record tsig_key =
  tk_name :: dname
  tk_data :: "byte list"

record 'c tsig_algorithm =
  ta_short_name :: string
  ta_wireformat_name :: dname
  ta_maximum_digest_size :: nat
  hmac_init_context :: "tsig_key \<Rightarrow> 'c"
  hmac_update :: "'c \<Rightarrow> byte list \<Rightarrow> 'c"
  hmac_final :: "'c \<Rightarrow> byte list"

record 'c tsig_record =
  tr_status :: tsig_status
  tr_position :: nat
  tr_response_count :: nat
  tr_updates_since_last_prepare :: nat
  tr_context :: "'c option"
  tr_algorithm :: "'c tsig_algorithm option"
  tr_key :: "tsig_key option"
  tr_prior_mac_size :: nat
  tr_prior_mac_data :: "byte list"
  tr_key_name :: "dname option"
  tr_algorithm_name :: "dname option"
  tr_signed_time_high :: u16
  tr_signed_time_low :: u32
  tr_signed_time_fudge :: u16
  tr_mac_size :: u16
  tr_mac_data :: "byte list option"
  tr_original_query_id :: u16
  tr_error_code :: u16
  tr_other_size :: u16
  tr_other_data :: "byte list option"

text \<open>The static variables of \<open>tsig.c\<close>.\<close>

record 'c tsig_state =
  ts_key_table :: "tsig_key rbtree"
  ts_algorithm_table :: "'c tsig_algorithm list"
  ts_max_algo_digest_size :: nat

subsection \<open>Keys and algorithms\<close>

definition tsig_add_key :: "tsig_key \<Rightarrow> 'c tsig_state \<Rightarrow> 'c tsig_state option" where
  "tsig_add_key k st = do {
     (_, t) \<leftarrow> rbtree_insert dname_cmp tk_name k (ts_key_table st);
     Some (st\<lparr>ts_key_table := t\<rparr>) }"

definition tsig_del_key :: "tsig_key option \<Rightarrow> 'c tsig_state \<Rightarrow> 'c tsig_state option" where
  "tsig_del_key k st = (case k of None \<Rightarrow> Some st | Some k \<Rightarrow> do {
     (_, t) \<leftarrow> rbtree_delete dname_cmp tk_name (tk_name k) (ts_key_table st);
     Some (st\<lparr>ts_key_table := t\<rparr>) })"

definition tsig_find_key :: "'c tsig_state \<Rightarrow> dname \<Rightarrow> tsig_key option" where
  "tsig_find_key st name = rbtree_search dname_cmp tk_name (ts_key_table st) name"

definition tsig_add_algorithm :: "'c tsig_algorithm \<Rightarrow> 'c tsig_state \<Rightarrow> 'c tsig_state" where
  "tsig_add_algorithm alg st = st\<lparr>ts_algorithm_table := alg # ts_algorithm_table st,
     ts_max_algo_digest_size :=
       (if ta_maximum_digest_size alg > ts_max_algo_digest_size st
        then ta_maximum_digest_size alg else ts_max_algo_digest_size st)\<rparr>"

text \<open>\<open>tsig_openssl_init\<close> registers the algorithms it is given here.\<close>

definition tsig_init :: "'c tsig_algorithm list \<Rightarrow> 'c tsig_state" where
  "tsig_init openssl_algorithms = foldl (\<lambda>st alg. tsig_add_algorithm alg st)
     \<lparr>ts_key_table = rbtree_create, ts_algorithm_table = [], ts_max_algo_digest_size = 0\<rparr>
     openssl_algorithms"

text \<open>On non-null strings; the end of a list is the terminating zero.\<close>

fun tsig_strlowercmp :: "string \<Rightarrow> string \<Rightarrow> int" where
  "tsig_strlowercmp (a # as) (b # bs) =
     (if tolower a \<noteq> tolower b then
        (if (of_char (tolower a) :: nat) < of_char (tolower b) then -1 else 1)
      else tsig_strlowercmp as bs)"
| "tsig_strlowercmp [] [] = 0"
| "tsig_strlowercmp [] (b # bs) = -1"
| "tsig_strlowercmp (a # as) [] = 1"

definition alg_name_matches :: "string \<Rightarrow> string \<Rightarrow> bool" where
  "alg_name_matches name short_name \<longleftrightarrow>
     tsig_strlowercmp name short_name = 0 \<or>
     take 5 short_name = ''hmac-'' \<and> tsig_strlowercmp name (drop 5 short_name) = 0"

fun tsig_get_algorithm_by_name :: "'c tsig_algorithm list \<Rightarrow> string \<Rightarrow> 'c tsig_algorithm option" where
  "tsig_get_algorithm_by_name [] name = None"
| "tsig_get_algorithm_by_name (e # es) name =
     (if alg_name_matches name (ta_short_name e) then Some e else tsig_get_algorithm_by_name es name)"

fun find_algorithm :: "'c tsig_algorithm list \<Rightarrow> dname \<Rightarrow> 'c tsig_algorithm option" where
  "find_algorithm [] name = None"
| "find_algorithm (e # es) name =
     (if dname_cmp name (ta_wireformat_name e) = 0 then Some e else find_algorithm es name)"

subsection \<open>The record\<close>

definition tsig_init_record ::
  "'c tsig_record \<Rightarrow> 'c tsig_algorithm option \<Rightarrow> tsig_key option \<Rightarrow> 'c tsig_record" where
  "tsig_init_record tsig alg k = tsig\<lparr>tr_status := TSIG_NOT_PRESENT, tr_error_code := TSIG_ERROR_NOERROR,
     tr_position := 0, tr_response_count := 0, tr_context := None, tr_algorithm := alg, tr_key := k,
     tr_prior_mac_size := 0, tr_prior_mac_data := []\<rparr>"

text \<open>
  \<open>tsig_from_query\<close>. The comparisons with an algorithm and key of an earlier message of the
  connection come after assertions that there are none, so they never apply.
\<close>

definition tsig_from_query ::
  "u64 \<Rightarrow> 'c tsig_state \<Rightarrow> 'c tsig_record \<Rightarrow> (bool \<times> 'c tsig_record) option" where
  "tsig_from_query now st tsig = do {
     assert_c (tr_status tsig = TSIG_OK);
     assert_c (tr_algorithm tsig = None);
     assert_c (tr_key tsig = None);
     kn \<leftarrow> tr_key_name tsig;
     an \<leftarrow> tr_algorithm_name tsig;
     case (find_algorithm (ts_algorithm_table st) an, tsig_find_key st kn) of
       (Some alg, Some k) \<Rightarrow>
         let signed_time = push_bit 32 (ucast (tr_signed_time_high tsig)) OR ucast (tr_signed_time_low tsig);
             fudge = ucast (tr_signed_time_fudge tsig) :: u64
         in if now < signed_time - fudge \<or> now > signed_time + fudge then
              Some (False, tsig\<lparr>tr_error_code := TSIG_ERROR_BADTIME, tr_other_size := 6,
                tr_other_data := Some (write_uint16 (ucast (drop_bit 32 now)) @ write_uint32 (ucast now))\<rparr>)
            else Some (True, tsig\<lparr>tr_algorithm := Some alg, tr_key := Some k,
                tr_response_count := 0, tr_prior_mac_size := 0\<rparr>)
     | _ \<Rightarrow> Some (False, tsig\<lparr>tr_error_code := TSIG_ERROR_BADKEY\<rparr>) }"

definition tsig_init_query :: "'c tsig_record \<Rightarrow> u16 \<Rightarrow> 'c tsig_record option" where
  "tsig_init_query tsig original_query_id = do {
     alg \<leftarrow> tr_algorithm tsig;
     k \<leftarrow> tr_key tsig;
     Some (tsig\<lparr>tr_response_count := 0, tr_prior_mac_size := 0,
       tr_algorithm_name := Some (ta_wireformat_name alg), tr_key_name := Some (tk_name k),
       tr_mac_size := 0, tr_mac_data := None, tr_original_query_id := original_query_id,
       tr_error_code := TSIG_ERROR_NOERROR, tr_other_size := 0, tr_other_data := None\<rparr>) }"

definition tsig_hmac_update :: "'c tsig_record \<Rightarrow> byte list \<Rightarrow> 'c tsig_record option" where
  "tsig_hmac_update tsig dat = do {
     alg \<leftarrow> tr_algorithm tsig;
     c \<leftarrow> tr_context tsig;
     Some (tsig\<lparr>tr_context := Some (hmac_update alg c dat)\<rparr>) }"

definition tsig_prepare :: "'c tsig_record \<Rightarrow> 'c tsig_record option" where
  "tsig_prepare tsig = do {
     alg \<leftarrow> tr_algorithm tsig;
     k \<leftarrow> tr_key tsig;
     tsig \<leftarrow> Some (tsig\<lparr>tr_context := Some (hmac_init_context alg k)\<rparr>);
     tsig \<leftarrow> (if tr_prior_mac_size tsig > 0 then do {
               t1 \<leftarrow> tsig_hmac_update tsig (write_uint16 (of_nat (tr_prior_mac_size tsig)));
               assert_c (tr_prior_mac_size tsig \<le> length (tr_prior_mac_data tsig));
               tsig_hmac_update t1 (take (tr_prior_mac_size tsig) (tr_prior_mac_data tsig)) }
             else Some tsig);
     Some (tsig\<lparr>tr_updates_since_last_prepare := 0\<rparr>) }"

definition tsig_update :: "'c tsig_record \<Rightarrow> buffer \<Rightarrow> nat \<Rightarrow> 'c tsig_record option" where
  "tsig_update tsig packet len = do {
     assert_c (len \<le> buf_limit packet);
     assert_c (2 \<le> len \<and> len \<le> length (buf_data packet));
     tsig \<leftarrow> tsig_hmac_update tsig (write_uint16 (tr_original_query_id tsig));
     tsig \<leftarrow> tsig_hmac_update tsig (mem_read 2 (len - 2) (buf_data packet));
     qr \<leftarrow> QR packet;
     let tsig = (if qr \<noteq> 0 then tsig\<lparr>tr_response_count := tr_response_count tsig + 1\<rparr> else tsig);
     Some (tsig\<lparr>tr_updates_since_last_prepare := tr_updates_since_last_prepare tsig + 1\<rparr>) }"

definition name_bytes :: "dname option \<Rightarrow> byte list option" where
  "name_bytes d = do { n \<leftarrow> d; assert_c (name_size n \<le> length (dname_name n)); Some (take (name_size n) (dname_name n)) }"

definition other_bytes :: "'c tsig_record \<Rightarrow> byte list option" where
  "other_bytes tsig = (if tr_other_size tsig = 0 then Some []
     else do { d \<leftarrow> tr_other_data tsig; assert_c (unat (tr_other_size tsig) \<le> length d);
               Some (take (unat (tr_other_size tsig)) d) })"

definition tsig_digest_variables :: "'c tsig_record \<Rightarrow> bool \<Rightarrow> 'c tsig_record option" where
  "tsig_digest_variables tsig timers_only = do {
     t \<leftarrow> (if timers_only then Some tsig else do {
         kn \<leftarrow> name_bytes (tr_key_name tsig);
         t \<leftarrow> tsig_hmac_update tsig kn;
         t \<leftarrow> tsig_hmac_update t (write_uint16 CLASS_ANY);
         t \<leftarrow> tsig_hmac_update t (write_uint32 0);
         an \<leftarrow> name_bytes (tr_algorithm_name tsig);
         tsig_hmac_update t an });
     t \<leftarrow> tsig_hmac_update t (write_uint16 (tr_signed_time_high tsig));
     t \<leftarrow> tsig_hmac_update t (write_uint32 (tr_signed_time_low tsig));
     t \<leftarrow> tsig_hmac_update t (write_uint16 (tr_signed_time_fudge tsig));
     if timers_only then Some t else do {
         t \<leftarrow> tsig_hmac_update t (write_uint16 (tr_error_code tsig));
         t \<leftarrow> tsig_hmac_update t (write_uint16 (tr_other_size tsig));
         od \<leftarrow> other_bytes tsig;
         tsig_hmac_update t od } }"

definition tsig_hmac_final :: "'c tsig_record \<Rightarrow> 'c tsig_record option" where
  "tsig_hmac_final tsig = do {
     alg \<leftarrow> tr_algorithm tsig;
     c \<leftarrow> tr_context tsig;
     Some (tsig\<lparr>tr_prior_mac_data := hmac_final alg c, tr_prior_mac_size := length (hmac_final alg c)\<rparr>) }"

definition tsig_sign :: "u64 \<Rightarrow> 'c tsig_record \<Rightarrow> 'c tsig_record option" where
  "tsig_sign now tsig = do {
     let tsig = tsig\<lparr>tr_signed_time_high := ucast (drop_bit 32 now), tr_signed_time_low := ucast now,
                     tr_signed_time_fudge := 300\<rparr>;
     tsig \<leftarrow> tsig_digest_variables tsig (tr_response_count tsig > 1);
     tsig \<leftarrow> tsig_hmac_final tsig;
     Some (tsig\<lparr>tr_mac_size := of_nat (tr_prior_mac_size tsig),
                tr_mac_data := Some (tr_prior_mac_data tsig)\<rparr>) }"

definition tsig_verify :: "'c tsig_record \<Rightarrow> (bool \<times> 'c tsig_record) option" where
  "tsig_verify tsig = do {
     tsig \<leftarrow> tsig_digest_variables tsig (tr_response_count tsig > 1);
     tsig \<leftarrow> tsig_hmac_final tsig;
     bad \<leftarrow> (if unat (tr_mac_size tsig) \<noteq> tr_prior_mac_size tsig then Some True
            else do {
              mac \<leftarrow> (if tr_mac_size tsig = 0 then Some [] else tr_mac_data tsig);
              c \<leftarrow> memcmp mac (tr_prior_mac_data tsig) (unat (tr_mac_size tsig));
              Some (c \<noteq> 0) });
     if bad then Some (False, tsig\<lparr>tr_error_code := TSIG_ERROR_BADSIG\<rparr>)
     else Some (True, tsig) }"

subsection \<open>The TSIG resource record\<close>

definition tsig_parse_rr ::
  "'c tsig_record \<Rightarrow> buffer \<Rightarrow> ((bool \<times> 'c tsig_record) \<times> buffer) option" where
  "tsig_parse_rr tsig packet = do {
     let start = buf_position packet;
     let fail = (\<lambda>r tsig packet. do { packet \<leftarrow> buffer_set_position packet start; Some ((r, tsig), packet) });
     let tsig = tsig\<lparr>tr_status := TSIG_NOT_PRESENT, tr_position := start, tr_key_name := None,
                     tr_algorithm_name := None, tr_mac_data := None, tr_other_data := None\<rparr>;
     (kn, packet) \<leftarrow> dname_make_from_packet packet True True;
     let tsig = tsig\<lparr>tr_key_name := kn\<rparr>;
     if kn = None then fail False tsig packet else do {
     av \<leftarrow> buffer_available packet 10;
     if \<not> av then fail False tsig packet else do {
     (ty, packet) \<leftarrow> buffer_read_u16 packet;
     (klass, packet) \<leftarrow> buffer_read_u16 packet;
     if ty \<noteq> TYPE_TSIG \<or> klass \<noteq> CLASS_ANY then fail True tsig packet else do {
     (ttl, packet) \<leftarrow> buffer_read_u32 packet;
     (rdlen, packet) \<leftarrow> buffer_read_u16 packet;
     let tsig = tsig\<lparr>tr_status := TSIG_ERROR, tr_error_code := RCODE_FORMAT_16\<rparr>;
     av \<leftarrow> buffer_available packet (unat rdlen);
     if ttl \<noteq> 0 \<or> \<not> av then fail False tsig packet else do {
     (an, packet) \<leftarrow> dname_make_from_packet packet True True;
     let tsig = tsig\<lparr>tr_algorithm_name := an\<rparr>;
     if an = None then fail False tsig packet else do {
     av \<leftarrow> buffer_available packet 10;
     if \<not> av then fail False tsig packet else do {
     (high, packet) \<leftarrow> buffer_read_u16 packet;
     (low, packet) \<leftarrow> buffer_read_u32 packet;
     (fudge, packet) \<leftarrow> buffer_read_u16 packet;
     (mac_size, packet) \<leftarrow> buffer_read_u16 packet;
     let tsig = tsig\<lparr>tr_signed_time_high := high, tr_signed_time_low := low,
                     tr_signed_time_fudge := fudge, tr_mac_size := mac_size\<rparr>;
     av \<leftarrow> buffer_available packet (unat mac_size);
     if \<not> av then fail False (tsig\<lparr>tr_mac_size := 0\<rparr>) packet else do {
     let tsig = tsig\<lparr>tr_mac_data := Some (mem_read (buf_position packet) (unat mac_size) (buf_data packet))\<rparr>;
     packet \<leftarrow> buffer_skip packet (int (unat mac_size));
     av \<leftarrow> buffer_available packet 6;
     if \<not> av then fail False tsig packet else do {
     (qid, packet) \<leftarrow> buffer_read_u16 packet;
     (err, packet) \<leftarrow> buffer_read_u16 packet;
     (other_size, packet) \<leftarrow> buffer_read_u16 packet;
     let tsig = tsig\<lparr>tr_original_query_id := qid, tr_error_code := err, tr_other_size := other_size\<rparr>;
     av \<leftarrow> buffer_available packet (unat other_size);
     if \<not> av \<or> unat other_size > 16 then fail False (tsig\<lparr>tr_other_size := 0\<rparr>) packet else do {
     let tsig = tsig\<lparr>tr_other_data := Some (mem_read (buf_position packet) (unat other_size) (buf_data packet))\<rparr>;
     packet \<leftarrow> buffer_skip packet (int (unat other_size));
     Some ((True, tsig\<lparr>tr_status := TSIG_OK\<rparr>), packet) } } } } } } } } } }"

text \<open>The loop that skips the records before the last one; \<open>i\<close> counts up to \<open>n\<close>.\<close>

fun tsig_skip_loop :: "nat \<Rightarrow> nat \<Rightarrow> nat \<Rightarrow> buffer \<Rightarrow> (bool \<times> buffer) option" where
  "tsig_skip_loop qd 0 i packet = Some (True, packet)"
| "tsig_skip_loop qd (Suc n) i packet = do {
     (ok, packet) \<leftarrow> packet_skip_rr (i < qd) packet;
     if \<not> ok then Some (False, packet) else tsig_skip_loop qd n (i + 1) packet }"

definition tsig_find_rr ::
  "'c tsig_record \<Rightarrow> buffer \<Rightarrow> ((bool \<times> 'c tsig_record) \<times> buffer) option" where
  "tsig_find_rr tsig packet = (let saved_position = buf_position packet in do {
     qd \<leftarrow> QDCOUNT packet; an \<leftarrow> ANCOUNT packet; ns \<leftarrow> NSCOUNT packet; ar \<leftarrow> ARCOUNT packet;
     if ar = 0 then Some ((True, tsig\<lparr>tr_status := TSIG_NOT_PRESENT\<rparr>), packet) else do {
     packet \<leftarrow> buffer_set_position packet QHEADERSZ;
     (ok, packet) \<leftarrow> tsig_skip_loop (unat qd) (unat qd + unat an + unat ns + unat ar - 1) 0 packet;
     if \<not> ok then do {
       packet \<leftarrow> buffer_set_position packet saved_position; Some ((False, tsig), packet) }
     else do {
       ((r, tsig), packet) \<leftarrow> tsig_parse_rr tsig packet;
       packet \<leftarrow> buffer_set_position packet saved_position;
       Some ((r, tsig), packet) } } })"

definition tsig_append_rr :: "'c tsig_record \<Rightarrow> buffer \<Rightarrow> buffer option" where
  "tsig_append_rr tsig packet = do {
     packet \<leftarrow> (if tr_key_name tsig \<noteq> None
               then do { n \<leftarrow> name_bytes (tr_key_name tsig); buffer_write packet n }
               else buffer_write_u8 packet 0);
     packet \<leftarrow> buffer_write_u16 packet TYPE_TSIG;
     packet \<leftarrow> buffer_write_u16 packet CLASS_ANY;
     packet \<leftarrow> buffer_write_u32 packet 0;
     let rdlength_pos = buf_position packet;
     packet \<leftarrow> buffer_skip packet 2;
     packet \<leftarrow> (if tr_algorithm_name tsig \<noteq> None
               then do { n \<leftarrow> name_bytes (tr_algorithm_name tsig); buffer_write packet n }
               else buffer_write_u8 packet 0);
     packet \<leftarrow> buffer_write_u16 packet (tr_signed_time_high tsig);
     packet \<leftarrow> buffer_write_u32 packet (tr_signed_time_low tsig);
     packet \<leftarrow> buffer_write_u16 packet (tr_signed_time_fudge tsig);
     packet \<leftarrow> buffer_write_u16 packet (tr_mac_size tsig);
     mac \<leftarrow> (if tr_mac_size tsig = 0 then Some [] else tr_mac_data tsig);
     assert_c (unat (tr_mac_size tsig) \<le> length mac);
     packet \<leftarrow> buffer_write packet (take (unat (tr_mac_size tsig)) mac);
     packet \<leftarrow> buffer_write_u16 packet (tr_original_query_id tsig);
     packet \<leftarrow> buffer_write_u16 packet (tr_error_code tsig);
     packet \<leftarrow> buffer_write_u16 packet (tr_other_size tsig);
     od \<leftarrow> other_bytes tsig;
     packet \<leftarrow> buffer_write packet od;
     buffer_write_u16_at packet rdlength_pos (of_nat (buf_position packet - rdlength_pos - 2)) }"

definition tsig_reserved_space :: "'c tsig_state \<Rightarrow> 'c tsig_record \<Rightarrow> nat" where
  "tsig_reserved_space st tsig =
     (if tr_status tsig = TSIG_NOT_PRESENT then 0
      else (case tr_key_name tsig of Some n \<Rightarrow> name_size n | None \<Rightarrow> 1) + 2 + 2 + 4 + 2 +
           (case tr_algorithm_name tsig of Some n \<Rightarrow> name_size n | None \<Rightarrow> 1) + 2 + 4 + 2 + 2 +
           ts_max_algo_digest_size st + 2 + 2 + 2 + unat (tr_other_size tsig))"

definition tsig_error_reply :: "'c tsig_record \<Rightarrow> 'c tsig_record option" where
  "tsig_error_reply tsig = do {
     d \<leftarrow> (case tr_mac_data tsig of None \<Rightarrow> Some None
          | Some m \<Rightarrow> do { assert_c (unat (tr_mac_size tsig) \<le> length m);
                           Some (Some (replicate (unat (tr_mac_size tsig)) 0 @ drop (unat (tr_mac_size tsig)) m)) });
     Some (tsig\<lparr>tr_mac_data := d, tr_mac_size := 0\<rparr>) }"

subsection \<open>Parsing stays inside the packet\<close>

lemma tsig_parse_rr_reads: "packet_ok b \<Longrightarrow> reads b (tsig_parse_rr tsig b)"
  unfolding tsig_parse_rr_def Let_def
  by (rule name_reader.parse_bind, assumption)
    (auto simp: packet_exec packet_ok_bounds reads_same intro!: name_reader.parse_bind_at)

interpretation tsig_rr: packet_reader "tsig_parse_rr tsig" for tsig
  by unfold_locales (rule tsig_parse_rr_reads)

lemma tsig_skip_loop_reads: "packet_ok b \<Longrightarrow> reads b (tsig_skip_loop qd n i b)"
proof (induction n arbitrary: b i)
  case 0
  then show ?case by (simp add: reads_same)
next
  case (Suc n)
  have nxt: "reads b (tsig_skip_loop qd n (i + 1) (b\<lparr>buf_position := q\<rparr>))" if "q \<le> buf_limit b" for q
    using Suc.IH [of "b\<lparr>buf_position := q\<rparr>"] Suc.prems that by simp
  show ?case unfolding tsig_skip_loop.simps
    by (rule skip_rr.parse_bind [OF Suc.prems]) (use nxt in auto)
qed

interpretation tsig_skip: packet_reader "tsig_skip_loop qd n i" for qd n i
  by unfold_locales (rule tsig_skip_loop_reads)

text \<open>\<open>tsig_find_rr\<close> leaves the packet as it was.\<close>

lemma tsig_find_rr_restores:
  assumes "packet_ok b" "QHEADERSZ \<le> buf_limit b"
  shows "\<exists>r. tsig_find_rr tsig b = Some (r, b)"
proof -
  have pos: "buf_position b \<le> buf_limit b" using assms by (simp add: packet_ok_bounds)
  let ?b = "b\<lparr>buf_position := QHEADERSZ\<rparr>"
  have ok: "packet_ok ?b" using assms by simp
  obtain qd an ns ar where c: "QDCOUNT b = Some qd" "ANCOUNT b = Some an" "NSCOUNT b = Some ns" "ARCOUNT b = Some ar"
    using hdr_counts_wf [OF assms] by blast
  obtain f q where l: "tsig_skip_loop (unat qd) (unat qd + unat an + unat ns + unat ar - 1) 0 ?b =
      Some (f, b\<lparr>buf_position := q\<rparr>)" "q \<le> buf_limit b"
    using tsig_skip.parse_total [OF ok] by (metis (no_types, lifting) buffer.surjective buffer.update_convs(1) buffer.select_convs(2))
  obtain r t q' where p: "tsig_parse_rr tsig (b\<lparr>buf_position := q\<rparr>) = Some ((r, t), b\<lparr>buf_position := q'\<rparr>)"
    "q' \<le> buf_limit b"
    using tsig_rr.parse_reads [of "b\<lparr>buf_position := q\<rparr>" tsig] l(2) assms(1) by (auto elim!: readsE)
  show ?thesis unfolding tsig_find_rr_def Let_def
    using pos by (auto simp: c l(1) p(1) buffer_set_position_wf assms(2) simp del: One_nat_def)
qed

subsection \<open>What is signed\<close>

definition hmac_incremental :: "'c tsig_algorithm \<Rightarrow> (byte list \<Rightarrow> byte list \<Rightarrow> byte list) \<Rightarrow> bool" where
  "hmac_incremental alg H \<longleftrightarrow> (\<forall>k ds. hmac_final alg (foldl (hmac_update alg) (hmac_init_context alg k) ds) =
     H (tk_data k) (concat ds))"

definition absorbed :: "'c tsig_algorithm \<Rightarrow> tsig_key \<Rightarrow> byte list \<Rightarrow> 'c tsig_record \<Rightarrow> bool" where
  "absorbed alg k bs tsig \<longleftrightarrow> tr_algorithm tsig = Some alg \<and>
     (\<exists>ds. tr_context tsig = Some (foldl (hmac_update alg) (hmac_init_context alg k) ds) \<and> concat ds = bs)"

definition prior_mac_bytes :: "'c tsig_record \<Rightarrow> byte list" where
  "prior_mac_bytes tsig = (if tr_prior_mac_size tsig > 0
     then write_uint16 (of_nat (tr_prior_mac_size tsig)) @ take (tr_prior_mac_size tsig) (tr_prior_mac_data tsig)
     else [])"

text \<open>The TSIG variables of RFC 2845, section 3.4.2, or only the timers.\<close>

definition tsig_timers :: "'c tsig_record \<Rightarrow> byte list" where
  "tsig_timers tsig = write_uint16 (tr_signed_time_high tsig) @ write_uint32 (tr_signed_time_low tsig) @
     write_uint16 (tr_signed_time_fudge tsig)"

definition tsig_variables :: "'c tsig_record \<Rightarrow> bool \<Rightarrow> byte list option" where
  "tsig_variables tsig timers_only =
     (if timers_only then Some (tsig_timers tsig)
      else do {
        kn \<leftarrow> name_bytes (tr_key_name tsig);
        an \<leftarrow> name_bytes (tr_algorithm_name tsig);
        od \<leftarrow> other_bytes tsig;
        Some (kn @ write_uint16 CLASS_ANY @ write_uint32 0 @ an @ tsig_timers tsig @
          write_uint16 (tr_error_code tsig) @ write_uint16 (tr_other_size tsig) @ od) })"

lemma tsig_hmac_update_absorbed:
  assumes "absorbed alg k bs tsig"
  shows "\<exists>c. tsig_hmac_update tsig d = Some (tsig\<lparr>tr_context := Some c\<rparr>) \<and>
    absorbed alg k (bs @ d) (tsig\<lparr>tr_context := Some c\<rparr>)"
proof -
  obtain ds where ds: "tr_algorithm tsig = Some alg"
    "tr_context tsig = Some (foldl (hmac_update alg) (hmac_init_context alg k) ds)" "concat ds = bs"
    using assms by (auto simp: absorbed_def)
  then show ?thesis
    by (auto simp: tsig_hmac_update_def absorbed_def intro!: exI [of _ "ds @ [d]"])
qed

text \<open>Chaining updates: the record changes only in its context.\<close>

definition absorbs :: "'c tsig_algorithm \<Rightarrow> tsig_key \<Rightarrow> byte list \<Rightarrow> 'c tsig_record \<Rightarrow> 'c tsig_record option \<Rightarrow> bool" where
  "absorbs alg k bs tsig r \<longleftrightarrow>
     (\<exists>c. r = Some (tsig\<lparr>tr_context := Some c\<rparr>) \<and> absorbed alg k bs (tsig\<lparr>tr_context := Some c\<rparr>))"

lemma absorbs_update:
  assumes "absorbed alg k bs (tsig\<lparr>tr_context := Some c\<rparr>)"
    "\<And>c'. absorbed alg k (bs @ d) (tsig\<lparr>tr_context := Some c'\<rparr>) \<Longrightarrow>
       absorbs alg k bs' tsig (f (tsig\<lparr>tr_context := Some c'\<rparr>))"
  shows "absorbs alg k bs' tsig (tsig_hmac_update (tsig\<lparr>tr_context := Some c\<rparr>) d \<bind> f)"
  using tsig_hmac_update_absorbed [OF assms(1), of d] assms(2) by auto

lemma absorbs_last:
  assumes "absorbed alg k bs (tsig\<lparr>tr_context := Some c\<rparr>)"
  shows "absorbs alg k (bs @ d) tsig (tsig_hmac_update (tsig\<lparr>tr_context := Some c\<rparr>) d)"
  using tsig_hmac_update_absorbed [OF assms, of d] by (auto simp: absorbs_def)

lemma absorbs_last_eq:
  "absorbed alg k bs (tsig\<lparr>tr_context := Some c\<rparr>) \<Longrightarrow> bs' = bs @ d \<Longrightarrow>
    absorbs alg k bs' tsig (tsig_hmac_update (tsig\<lparr>tr_context := Some c\<rparr>) d)"
  by (simp add: absorbs_last)

lemma absorbs_Some:
  "absorbed alg k bs (tsig\<lparr>tr_context := Some c\<rparr>) \<Longrightarrow> absorbs alg k bs tsig (Some (tsig\<lparr>tr_context := Some c\<rparr>))"
  by (auto simp: absorbs_def)

lemma absorbs_bind:
  "absorbs alg k bs tsig m \<Longrightarrow>
    (\<And>c. absorbed alg k bs (tsig\<lparr>tr_context := Some c\<rparr>) \<Longrightarrow> absorbs alg k bs' tsig (f (tsig\<lparr>tr_context := Some c\<rparr>))) \<Longrightarrow>
    absorbs alg k bs' tsig (m \<bind> f)"
  by (auto simp: absorbs_def)

lemma tsig_digest_variables_absorbs:
  assumes a: "absorbed alg k bs (tsig\<lparr>tr_context := Some c\<rparr>)" and v: "tsig_variables tsig timers_only = Some vs"
  shows "absorbs alg k (bs @ vs) tsig (tsig_digest_variables (tsig\<lparr>tr_context := Some c\<rparr>) timers_only)"
proof (cases timers_only)
  case True
  then have "bs @ vs = ((bs @ write_uint16 (tr_signed_time_high tsig)) @ write_uint32 (tr_signed_time_low tsig)) @
      write_uint16 (tr_signed_time_fudge tsig)"
    using v by (auto simp: tsig_variables_def tsig_timers_def)
  then show ?thesis using True a
    by (auto simp: tsig_digest_variables_def intro!: absorbs_update absorbs_last_eq)
next
  case False
  then obtain kn an od where n: "name_bytes (tr_key_name tsig) = Some kn"
    "name_bytes (tr_algorithm_name tsig) = Some an" "other_bytes tsig = Some od"
    and vs: "vs = kn @ write_uint16 CLASS_ANY @ write_uint32 0 @ an @ tsig_timers tsig @
          write_uint16 (tr_error_code tsig) @ write_uint16 (tr_other_size tsig) @ od"
    using v by (auto simp: tsig_variables_def bind_eq_Some_conv)
  have ob: "other_bytes (tsig\<lparr>tr_context := c\<rparr>) = Some od" for c
    unfolding n(3) [symmetric] by (simp add: other_bytes_def)
  have e: "bs @ vs = (((((((((bs @ kn) @ write_uint16 CLASS_ANY) @ write_uint32 0) @ an) @
      write_uint16 (tr_signed_time_high tsig)) @ write_uint32 (tr_signed_time_low tsig)) @
      write_uint16 (tr_signed_time_fudge tsig)) @ write_uint16 (tr_error_code tsig)) @
      write_uint16 (tr_other_size tsig)) @ od"
    by (simp add: vs tsig_timers_def)
  show ?thesis unfolding e tsig_digest_variables_def using False a n
    by (auto simp: ob intro!: absorbs_update absorbs_bind [OF absorbs_last] absorbs_last_eq)
qed

lemma tsig_variables_context [simp]:
  "tsig_variables (tsig\<lparr>tr_context := c\<rparr>) b = tsig_variables tsig b"
  by (simp add: tsig_variables_def other_bytes_def tsig_timers_def)

lemma absorbed_final:
  assumes "absorbed alg k bs tsig" "hmac_incremental alg H"
  shows "tsig_hmac_final tsig = Some (tsig\<lparr>tr_prior_mac_data := H (tk_data k) bs,
    tr_prior_mac_size := length (H (tk_data k) bs)\<rparr>)"
  using assms by (auto simp: absorbed_def hmac_incremental_def tsig_hmac_final_def)

lemma bytes_cmp_eq: "length a = length b \<Longrightarrow> bytes_cmp a b = 0 \<longleftrightarrow> a = b"
  by (induction a b rule: list_induct2) auto

text \<open>
  Verification accepts exactly the MAC of what has been absorbed followed by the TSIG
  variables.
\<close>

lemma tsig_verify_spec:
  assumes a: "absorbed alg k bs tsig" and h: "hmac_incremental alg H"
    and v: "tsig_variables tsig (tr_response_count tsig > 1) = Some vs"
    and m: "tr_mac_data tsig = Some mac" "length mac = unat (tr_mac_size tsig)"
  shows "\<exists>tsig'. tsig_verify tsig = Some (mac = H (tk_data k) (bs @ vs), tsig') \<and>
    (mac \<noteq> H (tk_data k) (bs @ vs) \<longrightarrow> tr_error_code tsig' = TSIG_ERROR_BADSIG)"
proof -
  let ?D = "H (tk_data k) (bs @ vs)"
  have c: "tsig\<lparr>tr_context := Some (the (tr_context tsig))\<rparr> = tsig" using a by (auto simp: absorbed_def)
  obtain c where d: "tsig_digest_variables tsig (tr_response_count tsig > 1) = Some (tsig\<lparr>tr_context := Some c\<rparr>)"
    "absorbed alg k (bs @ vs) (tsig\<lparr>tr_context := Some c\<rparr>)"
    using tsig_digest_variables_absorbs [where tsig = tsig and c = "the (tr_context tsig)", unfolded c, OF a v]
    by (auto simp: absorbs_def)
  have eq: "bytes_cmp mac ?D = 0 \<longleftrightarrow> mac = ?D" if "length mac = length ?D"
    using that by (rule bytes_cmp_eq)
  show ?thesis unfolding tsig_verify_def using d(1) absorbed_final [OF d(2) h] m
    by (cases "length mac = length ?D") (auto simp: memcmp_def eq unat_eq_0)
qed

lemma tsig_sign_spec:
  assumes a: "absorbed alg k bs tsig" and h: "hmac_incremental alg H"
    and t: "tsig' = tsig\<lparr>tr_signed_time_high := ucast (drop_bit 32 now), tr_signed_time_low := ucast now,
                     tr_signed_time_fudge := 300\<rparr>"
    and v: "tsig_variables tsig' (tr_response_count tsig > 1) = Some vs"
  shows "\<exists>c. tsig_sign now tsig = Some (tsig'\<lparr>tr_context := Some c, tr_prior_mac_data := H (tk_data k) (bs @ vs),
    tr_prior_mac_size := length (H (tk_data k) (bs @ vs)), tr_mac_size := of_nat (length (H (tk_data k) (bs @ vs))),
    tr_mac_data := Some (H (tk_data k) (bs @ vs))\<rparr>)"
proof -
  have a': "absorbed alg k bs tsig'" using a by (simp add: absorbed_def t)
  have c: "tsig'\<lparr>tr_context := Some (the (tr_context tsig'))\<rparr> = tsig'" using a' by (auto simp: absorbed_def)
  obtain c where d: "tsig_digest_variables tsig' (tr_response_count tsig > 1) = Some (tsig'\<lparr>tr_context := Some c\<rparr>)"
    "absorbed alg k (bs @ vs) (tsig'\<lparr>tr_context := Some c\<rparr>)"
    using tsig_digest_variables_absorbs [where tsig = tsig' and c = "the (tr_context tsig')", unfolded c, OF a' v]
    by (auto simp: absorbs_def)
  have rc: "tr_response_count tsig' = tr_response_count tsig" by (simp add: t)
  show ?thesis unfolding tsig_sign_def Let_def t [symmetric]
    using d(1) absorbed_final [OF d(2) h] by (auto simp: rc)
qed

lemma tsig_prepare_spec:
  assumes "tr_algorithm tsig = Some alg" "tr_key tsig = Some k"
    "tr_prior_mac_size tsig \<le> length (tr_prior_mac_data tsig)"
  shows "\<exists>c. tsig_prepare tsig = Some (tsig\<lparr>tr_context := Some c, tr_updates_since_last_prepare := 0\<rparr>) \<and>
    absorbed alg k (prior_mac_bytes tsig) (tsig\<lparr>tr_context := Some c, tr_updates_since_last_prepare := 0\<rparr>)"
proof -
  have 0: "absorbed alg k [] (tsig\<lparr>tr_context := Some (hmac_init_context alg k)\<rparr>)"
    using assms by (auto simp: absorbed_def intro: exI [of _ "[]"])
  have "absorbs alg k (prior_mac_bytes tsig) tsig
    (if tr_prior_mac_size tsig > 0 then do {
       t1 \<leftarrow> tsig_hmac_update (tsig\<lparr>tr_context := Some (hmac_init_context alg k)\<rparr>)
              (write_uint16 (of_nat (tr_prior_mac_size tsig)));
       tsig_hmac_update t1 (take (tr_prior_mac_size tsig) (tr_prior_mac_data tsig)) }
     else Some (tsig\<lparr>tr_context := Some (hmac_init_context alg k)\<rparr>))"
    using 0 by (auto simp: prior_mac_bytes_def intro!: absorbs_update absorbs_last_eq absorbs_Some)
  then obtain c where c: "(if tr_prior_mac_size tsig > 0 then do {
       t1 \<leftarrow> tsig_hmac_update (tsig\<lparr>tr_context := Some (hmac_init_context alg k)\<rparr>)
              (write_uint16 (of_nat (tr_prior_mac_size tsig)));
       tsig_hmac_update t1 (take (tr_prior_mac_size tsig) (tr_prior_mac_data tsig)) }
     else Some (tsig\<lparr>tr_context := Some (hmac_init_context alg k)\<rparr>)) = Some (tsig\<lparr>tr_context := Some c\<rparr>)"
    "absorbed alg k (prior_mac_bytes tsig) (tsig\<lparr>tr_context := Some c\<rparr>)"
    by (auto simp: absorbs_def)
  have "tsig_prepare tsig = Some (tsig\<lparr>tr_context := Some c, tr_updates_since_last_prepare := 0\<rparr>)"
    using c(1) assms by (auto simp: tsig_prepare_def bind_eq_Some_conv split: if_splits)
  moreover have "absorbed alg k (prior_mac_bytes tsig) (tsig\<lparr>tr_context := Some c, tr_updates_since_last_prepare := 0\<rparr>)"
    using c(2) by (simp add: absorbed_def)
  ultimately show ?thesis by blast
qed

lemma tsig_update_spec:
  assumes a: "absorbed alg k bs tsig" and b: "buffer_wf b" "2 \<le> len" "len \<le> buf_limit b" "QHEADERSZ \<le> buf_limit b"
  shows "\<exists>c. tsig_update tsig b len = Some (tsig\<lparr>tr_context := Some c,
      tr_response_count := tr_response_count tsig + (if buf_data b ! 2 AND 0x80 \<noteq> 0 then 1 else 0),
      tr_updates_since_last_prepare := tr_updates_since_last_prepare tsig + 1\<rparr>) \<and>
    absorbed alg k (bs @ write_uint16 (tr_original_query_id tsig) @ mem_read 2 (len - 2) (buf_data b))
      (tsig\<lparr>tr_context := Some c\<rparr>)"
proof -
  have c: "tsig\<lparr>tr_context := Some (the (tr_context tsig))\<rparr> = tsig" using a by (auto simp: absorbed_def)
  obtain c1 where 1: "tsig_hmac_update tsig (write_uint16 (tr_original_query_id tsig)) = Some (tsig\<lparr>tr_context := Some c1\<rparr>)"
    "absorbed alg k (bs @ write_uint16 (tr_original_query_id tsig)) (tsig\<lparr>tr_context := Some c1\<rparr>)"
    using tsig_hmac_update_absorbed [OF a] by blast
  obtain c2 where 2: "tsig_hmac_update (tsig\<lparr>tr_context := Some c1\<rparr>) (mem_read 2 (len - 2) (buf_data b)) =
      Some (tsig\<lparr>tr_context := Some c2\<rparr>)"
    "absorbed alg k ((bs @ write_uint16 (tr_original_query_id tsig)) @ mem_read 2 (len - 2) (buf_data b))
      (tsig\<lparr>tr_context := Some c2\<rparr>)"
    using tsig_hmac_update_absorbed [OF 1(2), of "mem_read 2 (len - 2) (buf_data b)"] by auto
  have "buf_limit b \<le> length (buf_data b)" using b(1) by (rule buffer_wfD)
  then show ?thesis using 1 2 b
    by (auto simp: tsig_update_def QR_def hdr_get_def buffer_at_wf QHEADERSZ_def intro!: exI [of _ c2])
qed

subsection \<open>Appending and parsing the record\<close>

definition tsig_rdata :: "'c tsig_record \<Rightarrow> byte list \<Rightarrow> byte list \<Rightarrow> byte list \<Rightarrow> byte list" where
  "tsig_rdata t an mac od = an @ write_uint16 (tr_signed_time_high t) @ write_uint32 (tr_signed_time_low t) @
     write_uint16 (tr_signed_time_fudge t) @ write_uint16 (tr_mac_size t) @ mac @
     write_uint16 (tr_original_query_id t) @ write_uint16 (tr_error_code t) @ write_uint16 (tr_other_size t) @ od"

definition tsig_rr_bytes :: "'c tsig_record \<Rightarrow> byte list \<Rightarrow> byte list \<Rightarrow> byte list \<Rightarrow> byte list \<Rightarrow> byte list" where
  "tsig_rr_bytes t kn an mac od = kn @ write_uint16 TYPE_TSIG @ write_uint16 CLASS_ANY @ write_uint32 0 @
     write_uint16 (of_nat (length (tsig_rdata t an mac od))) @ tsig_rdata t an mac od"

text \<open>A record whose fields can be written: names, MAC and other data are present.\<close>

definition tsig_sendable :: "'c tsig_record \<Rightarrow> byte list list \<Rightarrow> byte list list \<Rightarrow> byte list \<Rightarrow> byte list \<Rightarrow> bool" where
  "tsig_sendable t kl al mac od \<longleftrightarrow> valid_labels kl \<and> valid_labels al \<and>
     tr_key_name t = Some (dname_of kl) \<and> tr_algorithm_name t = Some (dname_of al) \<and>
     tr_mac_data t = Some mac \<and> length mac = unat (tr_mac_size t) \<and>
     tr_other_data t = Some od \<and> length od = unat (tr_other_size t)"

lemma name_bytes_dname_of [simp]: "name_bytes (Some (dname_of ls)) = Some (wire ls)"
  by (simp add: name_bytes_def dname_of_def)

lemma tsig_sendable_other: "tsig_sendable t kl al mac od \<Longrightarrow> other_bytes t = Some od"
  by (auto simp: tsig_sendable_def other_bytes_def)

lemma length_tsig_rr_bytes:
  "length (tsig_rr_bytes t kn an mac od) = 26 + length kn + length an + length mac + length od"
  by (simp add: tsig_rr_bytes_def tsig_rdata_def)

lemma tsig_append_rr_spec:
  assumes wf: "buffer_wf b" and t: "tsig_sendable t kl al mac od"
    and fit: "buf_position b + length (tsig_rr_bytes t (wire kl) (wire al) mac od) \<le> buf_limit b"
  shows "tsig_append_rr t b = Some (written b (tsig_rr_bytes t (wire kl) (wire al) mac od))"
proof -
  have fit': "buf_position b + (26 + length (wire kl) + length (wire al) + length mac + length od) \<le> buf_limit b"
    using fit by (simp add: length_tsig_rr_bytes)
  note w = buffer_write_written [OF wf]
  let ?h = "wire kl @ write_uint16 TYPE_TSIG @ write_uint16 CLASS_ANY @ write_uint32 0"
  let ?g = "mem_read (buf_position b + length ?h) 2 (buf_data b)"
  have g: "length ?g = 2" using fit' buffer_wfD(5) [OF wf] by simp
  have w1: "buffer_write b (wire kl) = Some (written b (wire kl))"
    using w [of "[]" "wire kl"] fit' by simp
  have mac: "(if tr_mac_size t = 0 then Some [] else tr_mac_data t) = Some mac"
    "take (unat (tr_mac_size t)) mac = mac" "unat (tr_mac_size t) \<le> length mac"
    using t by (auto simp: tsig_sendable_def)
  have sk: "buffer_skip (written b ?h) 2 = Some (written b (?h @ ?g))"
    using fit' by (intro buffer_skip_written [OF wf]) simp
  have last: "buffer_write_u16_at (written b (?h @ ?g @ tsig_rdata t (wire al) mac od)) (buf_position b + length ?h) v =
      Some (written b (?h @ write_uint16 v @ tsig_rdata t (wire al) mac od))" for v
    using fit' g by (intro buffer_write_u16_at_written [OF wf]) (simp_all add: tsig_rdata_def)
  have body: "tsig_append_rr t b =
     buffer_write_u16_at (written b (?h @ ?g @ tsig_rdata t (wire al) mac od)) (buf_position b + length ?h)
       (of_nat (buf_position b + length (?h @ ?g @ tsig_rdata t (wire al) mac od) - (buf_position b + length ?h) - 2))"
    using t fit' g sk mac w1 tsig_sendable_other [OF t]
    unfolding tsig_append_rr_def tsig_sendable_def Let_def buffer_write_int_defs
    by (simp add: w tsig_rdata_def append_assoc)
  have len: "buf_position b + length (?h @ ?g @ tsig_rdata t (wire al) mac od) - (buf_position b + length ?h) - 2 =
      length (tsig_rdata t (wire al) mac od)" using g by simp
  show ?thesis unfolding body len last by (simp add: tsig_rr_bytes_def)
qed

lemma dname_make_from_packet_bytes:
  assumes "packet_ok b" "q + length (wire ls) \<le> buf_limit b" "bytes_at q (wire ls) (buf_data b)"
    "valid_labels ls" "norm_labels True ls = ls"
  shows "dname_make_from_packet (b\<lparr>buf_position := q\<rparr>) True True =
    Some (Some (dname_of ls), b\<lparr>buf_position := q + length (wire ls)\<rparr>)"
proof -
  have "name_at True (take (buf_limit b) (buf_data b)) q (length ls) ls (q + length (wire ls))"
    using assms by (intro name_at_bytes bytes_at_take) (auto simp: valid_labels_def)
  then show ?thesis
    using dname_make_from_packet_name_at [of "b\<lparr>buf_position := q\<rparr>" True "length ls" ls _ True] assms
    by (simp add: packet_ok_def valid_labels_def)
qed

lemma tsig_parse_rr_bytes:
  assumes ok: "packet_ok b" and t: "tsig_sendable t kl al mac od"
    and fit: "buf_position b + length (tsig_rr_bytes t (wire kl) (wire al) mac od) \<le> buf_limit b"
    and at: "bytes_at (buf_position b) (tsig_rr_bytes t (wire kl) (wire al) mac od) (buf_data b)"
    and low: "norm_labels True kl = kl" "norm_labels True al = al"
    and sz: "length od \<le> 16"
  shows "tsig_parse_rr t0 b = Some ((True, t0\<lparr>tr_status := TSIG_OK, tr_position := buf_position b,
      tr_key_name := Some (dname_of kl), tr_algorithm_name := Some (dname_of al),
      tr_signed_time_high := tr_signed_time_high t, tr_signed_time_low := tr_signed_time_low t,
      tr_signed_time_fudge := tr_signed_time_fudge t, tr_mac_size := tr_mac_size t, tr_mac_data := Some mac,
      tr_original_query_id := tr_original_query_id t, tr_error_code := tr_error_code t,
      tr_other_size := tr_other_size t, tr_other_data := Some od\<rparr>),
    b\<lparr>buf_position := buf_position b + length (tsig_rr_bytes t (wire kl) (wire al) mac od)\<rparr>)"
proof -
  have v: "valid_labels kl" "valid_labels al" and m: "length mac = unat (tr_mac_size t)"
    and o: "length od = unat (tr_other_size t)"
    using t by (auto simp: tsig_sendable_def)
  have wf: "buffer_wf b" using ok by simp
  let ?d = "buf_data b" and ?rd = "tsig_rdata t (wire al) mac od"
  define q0 where "q0 = buf_position b"
  define q1 where "q1 = q0 + length (wire kl)"
  define q2 where "q2 = q1 + 2"
  define q3 where "q3 = q2 + 2"
  define q4 where "q4 = q3 + 4"
  define q5 where "q5 = q4 + 2"
  define q6 where "q6 = q5 + length (wire al)"
  define q7 where "q7 = q6 + 2"
  define q8 where "q8 = q7 + 4"
  define q9 where "q9 = q8 + 2"
  define q10 where "q10 = q9 + 2"
  define q11 where "q11 = q10 + length mac"
  define q12 where "q12 = q11 + 2"
  define q13 where "q13 = q12 + 2"
  define q14 where "q14 = q13 + 2"
  define q15 where "q15 = q14 + length od"
  note qs = q1_def q2_def q3_def q4_def q5_def q6_def q7_def q8_def q9_def q10_def q11_def q12_def
    q13_def q14_def q15_def
  have end_: "buf_position b + length (tsig_rr_bytes t (wire kl) (wire al) mac od) = q15"
    by (simp add: qs q0_def length_tsig_rr_bytes)
  then have lim: "q15 \<le> buf_limit b" using fit by simp
  have rd: "length ?rd = q15 - q5" by (simp add: tsig_rdata_def qs)
  have rdl: "unat (of_nat (length ?rd) :: u16) = q15 - q5"
    using unat_u16_of_nat [of "length ?rd"] lim packet_ok_bounds(3) [OF ok] rd by (simp add: MAX_PACKET_SIZE_def)
  have bs: "bytes_at q0 (wire kl) ?d" "bytes_at q1 (write_uint16 TYPE_TSIG) ?d"
    "bytes_at q2 (write_uint16 CLASS_ANY) ?d" "bytes_at q3 (write_uint32 0) ?d"
    "bytes_at q4 (write_uint16 (of_nat (length ?rd))) ?d" "bytes_at q5 (wire al) ?d"
    "bytes_at q6 (write_uint16 (tr_signed_time_high t)) ?d" "bytes_at q7 (write_uint32 (tr_signed_time_low t)) ?d"
    "bytes_at q8 (write_uint16 (tr_signed_time_fudge t)) ?d" "bytes_at q9 (write_uint16 (tr_mac_size t)) ?d"
    "bytes_at q10 mac ?d" "bytes_at q11 (write_uint16 (tr_original_query_id t)) ?d"
    "bytes_at q12 (write_uint16 (tr_error_code t)) ?d" "bytes_at q13 (write_uint16 (tr_other_size t)) ?d"
    "bytes_at q14 od ?d"
    using at unfolding tsig_rr_bytes_def tsig_rdata_def bytes_at_append qs q0_def
    by (simp_all add: add.assoc)
  have le: "q0 + length (wire kl) \<le> buf_limit b" "q1 + 2 \<le> buf_limit b" "q2 + 2 \<le> buf_limit b" "q3 + 4 \<le> buf_limit b"
    "q4 + 2 \<le> buf_limit b" "q5 + length (wire al) \<le> buf_limit b" "q6 + 2 \<le> buf_limit b" "q7 + 4 \<le> buf_limit b"
    "q8 + 2 \<le> buf_limit b" "q9 + 2 \<le> buf_limit b" "q11 + 2 \<le> buf_limit b" "q12 + 2 \<le> buf_limit b"
    "q13 + 2 \<le> buf_limit b"
    using lim by (simp_all add: qs)
  have n1: "dname_make_from_packet b True True = Some (Some (dname_of kl), b\<lparr>buf_position := q1\<rparr>)"
    using dname_make_from_packet_bytes [OF ok le(1) bs(1) v(1) low(1)] by (simp add: q0_def q1_def)
  note n2 = dname_make_from_packet_bytes [OF ok le(6) bs(6) v(2) low(2), folded q6_def]
  note r = read_u16_bytes [OF wf le(2) bs(2), folded q2_def] read_u16_bytes [OF wf le(3) bs(3), folded q3_def]
    read_u32_bytes [OF wf le(4) bs(4), folded q4_def] read_u16_bytes [OF wf le(5) bs(5), folded q5_def]
    read_u16_bytes [OF wf le(7) bs(7), folded q7_def] read_u32_bytes [OF wf le(8) bs(8), folded q8_def]
    read_u16_bytes [OF wf le(9) bs(9), folded q9_def] read_u16_bytes [OF wf le(10) bs(10), folded q10_def]
    read_u16_bytes [OF wf le(11) bs(12), folded q12_def] read_u16_bytes [OF wf le(12) bs(13), folded q13_def]
    read_u16_bytes [OF wf le(13) bs(14), folded q14_def]
  have av: "buffer_available (b\<lparr>buf_position := q1\<rparr>) 10 = Some True"
    "buffer_available (b\<lparr>buf_position := q5\<rparr>) (q15 - q5) = Some True"
    "buffer_available (b\<lparr>buf_position := q6\<rparr>) 10 = Some True"
    "buffer_available (b\<lparr>buf_position := q10\<rparr>) (unat (tr_mac_size t)) = Some True"
    "buffer_available (b\<lparr>buf_position := q11\<rparr>) 6 = Some True"
    "buffer_available (b\<lparr>buf_position := q14\<rparr>) (unat (tr_other_size t)) = Some True"
    using lim wf by (simp_all add: buffer_available_wf qs m [symmetric] o [symmetric])
  have sk: "buffer_skip (b\<lparr>buf_position := q10\<rparr>) (uint (tr_mac_size t)) = Some (b\<lparr>buf_position := q11\<rparr>)"
    "buffer_skip (b\<lparr>buf_position := q14\<rparr>) (uint (tr_other_size t)) = Some (b\<lparr>buf_position := q15\<rparr>)"
    using lim wf by (simp_all add: buffer_skip_uint qs m [symmetric] o [symmetric])
  have md: "mem_read q10 (unat (tr_mac_size t)) ?d = mac" "mem_read q14 (unat (tr_other_size t)) ?d = od"
    using bs(11,15) m o by (simp_all add: bytes_at_def)
  show ?thesis unfolding end_ tsig_parse_rr_def Let_def
    using sz o by (simp add: n1 n2 r av sk md rdl)
qed

end
