(* ===== verification/Namedb.thy ===== *)
theory Namedb
  imports Packet_Parse Rbtree
begin

text \<open>
  The in-memory name database (\<open>namedb.h\<close>, \<open>namedb.c\<close>), in the configuration with the
  red-black tree (\<open>--disable-radix-tree\<close>) and without NSEC3. Domains, RRsets and zones are
  shared and compared by address, so a pointer is a number and the record \<open>namedb\<close> holds a
  store for each of the three; following a dangling or null pointer is \<^term>\<open>None\<close>.

  The doubly linked number list of the domain table is the list of its domains in order.
  The zone tree (\<open>radtree.c\<close>) is a partial map from names to zones.
\<close>

type_synonym domain_id = nat
type_synonym zone_id = nat
type_synonym rrset_id = nat

datatype rdata_atom = atom_domain domain_id | atom_data "byte list"

record rr =
  rr_owner :: domain_id
  rr_rdatas :: "rdata_atom list"
  rr_ttl :: u32
  rr_type :: u16
  rr_klass :: u16

record rrset =
  rs_zone :: zone_id
  rs_rrs :: "rr list"

text \<open>\<open>dom_temp\<close> marks the temporary domains of a query, which are in no tree.\<close>

record domain =
  dom_dname :: dname
  dom_parent :: "domain_id option"
  dom_wildcard_child_closest_match :: domain_id
  dom_rrsets :: "rrset_id list"
  dom_number :: nat
  dom_usage :: nat
  dom_is_existing :: bool
  dom_is_apex :: bool
  dom_temp :: bool

record zone =
  zone_apex :: "domain_id option"
  zone_soa_rrset :: "rrset_id option"
  zone_soa_nx_rrset :: "rrset_id option"
  zone_ns_rrset :: "rrset_id option"
  zone_is_secure_flag :: bool
  zone_is_ok :: bool
  zone_has_request_xfr :: bool
  zone_rrl_whitelist :: u16

record domain_table =
  dt_names :: "(dname \<times> domain_id) rbtree"
  dt_root :: domain_id
  dt_numlist :: "domain_id list"

record namedb =
  db_domains :: "domain_id \<Rightarrow> domain option"
  db_rrsets :: "rrset_id \<Rightarrow> rrset option"
  db_zones :: "zone_id \<Rightarrow> zone option"
  db_table :: domain_table
  db_zonetree :: "dname \<Rightarrow> zone_id option"
  db_next :: nat

definition domain_dname :: "namedb \<Rightarrow> domain_id \<Rightarrow> dname option" where
  "domain_dname db d = map_option dom_dname (db_domains db d)"

definition set_domain :: "domain_id \<Rightarrow> domain \<Rightarrow> namedb \<Rightarrow> namedb" where
  "set_domain d v db = db\<lparr>db_domains := (db_domains db)(d \<mapsto> v)\<rparr>"

definition rrset_rrtype :: "rrset \<Rightarrow> u16 option" where
  "rrset_rrtype rs = (case rs_rrs rs of [] \<Rightarrow> None | r # _ \<Rightarrow> Some (rr_type r))"

definition rrset_rrclass :: "rrset \<Rightarrow> u16 option" where
  "rrset_rrclass rs = (case rs_rrs rs of [] \<Rightarrow> None | r # _ \<Rightarrow> Some (rr_klass r))"

subsection \<open>Looking things up\<close>

text \<open>
  The loops over the RRsets of a domain: the first one that satisfies a test. The result
  is the pointer (\<open>NULL\<close> is the inner \<^term>\<open>None\<close>).
\<close>

fun find_rrset_where :: "namedb \<Rightarrow> (rrset \<Rightarrow> bool option) \<Rightarrow> rrset_id list \<Rightarrow> rrset_id option option" where
  "find_rrset_where db test [] = Some None"
| "find_rrset_where db test (r # rs) = do {
     rset \<leftarrow> db_rrsets db r;
     ok \<leftarrow> test rset;
     if ok then Some (Some r) else find_rrset_where db test rs }"

definition domain_find_rrset :: "namedb \<Rightarrow> domain_id \<Rightarrow> zone_id \<Rightarrow> u16 \<Rightarrow> rrset_id option option" where
  "domain_find_rrset db d z ty = do {
     dm \<leftarrow> db_domains db d;
     find_rrset_where db (\<lambda>rs. if rs_zone rs = z then do { t \<leftarrow> rrset_rrtype rs; Some (t = ty) } else Some False)
       (dom_rrsets dm) }"

definition domain_find_any_rrset :: "namedb \<Rightarrow> domain_id \<Rightarrow> zone_id \<Rightarrow> rrset_id option option" where
  "domain_find_any_rrset db d z = do {
     dm \<leftarrow> db_domains db d;
     find_rrset_where db (\<lambda>rs. Some (rs_zone rs = z)) (dom_rrsets dm) }"

definition TYPE_SIG :: u16 where "TYPE_SIG = 24"
definition TYPE_NXT :: u16 where "TYPE_NXT = 30"

definition domain_find_non_cname_rrset :: "namedb \<Rightarrow> domain_id \<Rightarrow> zone_id \<Rightarrow> rrset_id option option" where
  "domain_find_non_cname_rrset db d z = do {
     dm \<leftarrow> db_domains db d;
     find_rrset_where db (\<lambda>rs. if rs_zone rs = z then do {
           t \<leftarrow> rrset_rrtype rs;
           Some (t \<notin> {TYPE_CNAME, TYPE_RRSIG, TYPE_NXT, TYPE_SIG, TYPE_NSEC, TYPE_NSEC3}) }
         else Some False) (dom_rrsets dm) }"

text \<open>
  The walks along parent pointers recurse on the label count: a parent has fewer labels.
  When it has not, the chain is not the one of a domain table and the result is \<^term>\<open>None\<close>.
\<close>

definition domain_labels :: "namedb \<Rightarrow> domain_id \<Rightarrow> nat" where
  "domain_labels db d = (case db_domains db d of None \<Rightarrow> 0 | Some dm \<Rightarrow> label_count (dom_dname dm))"

definition domain_parent :: "namedb \<Rightarrow> domain_id \<Rightarrow> domain_id option option" where
  "domain_parent db d = do {
     dm \<leftarrow> db_domains db d;
     case dom_parent dm of None \<Rightarrow> Some None
     | Some p \<Rightarrow> do { assert_c (domain_labels db p < domain_labels db d); Some (Some p) } }"

lemma domain_parent_labels: "domain_parent db d = Some (Some p) \<Longrightarrow> domain_labels db p < domain_labels db d"
  by (auto simp: domain_parent_def bind_eq_Some_conv split: option.splits if_splits)

text \<open>\<open>find_up\<close> is the loop that goes to the first ancestor, itself included, with a property.\<close>

function find_up :: "namedb \<Rightarrow> (domain_id \<Rightarrow> 'b option option) \<Rightarrow> (domain_id \<Rightarrow> bool) \<Rightarrow> domain_id \<Rightarrow> 'b option option" where
  "find_up db test stop d = (if stop d then Some None else do {
     r \<leftarrow> test d;
     case r of Some x \<Rightarrow> Some (Some x)
     | None \<Rightarrow> do {
         p \<leftarrow> domain_parent db d;
         case p of None \<Rightarrow> Some None | Some p \<Rightarrow> find_up db test stop p } })"
  by pat_completeness auto
termination
  by (relation "measure (\<lambda>(db, test, stop, d). domain_labels db d)") (auto simp: domain_parent_labels)

declare find_up.simps [simp del]

fun find_soa_zone :: "namedb \<Rightarrow> rrset_id list \<Rightarrow> zone_id option option" where
  "find_soa_zone db [] = Some None"
| "find_soa_zone db (r # rs) = do {
     rset \<leftarrow> db_rrsets db r;
     t \<leftarrow> rrset_rrtype rset;
     if t = TYPE_SOA then Some (Some (rs_zone rset)) else find_soa_zone db rs }"

definition namedb_find_zone :: "namedb \<Rightarrow> dname \<Rightarrow> zone_id option" where
  "namedb_find_zone db dname = db_zonetree db dname"

text \<open>At an apex the search ends, whether it has found a zone or not.\<close>

definition domain_find_zone :: "namedb \<Rightarrow> domain_id \<Rightarrow> zone_id option option" where
  "domain_find_zone db d = do {
     r \<leftarrow> find_up db (\<lambda>d. do {
         dm \<leftarrow> db_domains db d;
         if dom_is_apex dm then do {
           z \<leftarrow> find_soa_zone db (dom_rrsets dm);
           case z of Some z \<Rightarrow> Some (Some (Some z))
           | None \<Rightarrow> Some (Some (namedb_find_zone db (dom_dname dm))) }
         else Some None }) (\<lambda>_. False) d;
     Some (case r of None \<Rightarrow> None | Some z \<Rightarrow> z) }"

definition domain_find_parent_zone :: "namedb \<Rightarrow> zone_id \<Rightarrow> zone_id option option" where
  "domain_find_parent_zone db z = do {
     zone \<leftarrow> db_zones db z;
     apex \<leftarrow> zone_apex zone;
     dm \<leftarrow> db_domains db apex;
     r \<leftarrow> find_rrset_where db (\<lambda>rs. if rs_zone rs \<noteq> z then do { t \<leftarrow> rrset_rrtype rs; Some (t = TYPE_NS) }
                                  else Some False) (dom_rrsets dm);
     case r of Some r \<Rightarrow> do { rset \<leftarrow> db_rrsets db r; Some (Some (rs_zone rset)) }
     | None \<Rightarrow> do {
         p \<leftarrow> domain_parent db apex;
         case p of None \<Rightarrow> Some None | Some p \<Rightarrow> domain_find_zone db p } }"

definition zone_apex_is :: "namedb \<Rightarrow> zone_id \<Rightarrow> domain_id \<Rightarrow> bool" where
  "zone_apex_is db z d \<longleftrightarrow> (\<exists>zone. db_zones db z = Some zone \<and> zone_apex zone = Some d)"

lemma zone_apex_is_code [code]:
  "zone_apex_is db z d \<longleftrightarrow> (case db_zones db z of None \<Rightarrow> False | Some zone \<Rightarrow> zone_apex zone = Some d)"
  by (auto simp: zone_apex_is_def split: option.splits)

definition domain_find_ns_rrsets :: "namedb \<Rightarrow> domain_id \<Rightarrow> zone_id \<Rightarrow> (domain_id \<times> rrset_id) option option" where
  "domain_find_ns_rrsets db d z =
     find_up db (\<lambda>d. do { r \<leftarrow> domain_find_rrset db d z TYPE_NS;
                          Some (map_option (\<lambda>r. (d, r)) r) }) (zone_apex_is db z) d"

definition find_dname_above :: "namedb \<Rightarrow> domain_id \<Rightarrow> zone_id \<Rightarrow> domain_id option option" where
  "find_dname_above db d z = do {
     p \<leftarrow> domain_parent db d;
     case p of None \<Rightarrow> Some None
     | Some p \<Rightarrow> find_up db (\<lambda>d. do { r \<leftarrow> domain_find_rrset db d z TYPE_DNAME;
                          Some (map_option (\<lambda>r. d) r) }) (zone_apex_is db z) p }"

definition domain_is_glue :: "namedb \<Rightarrow> domain_id \<Rightarrow> zone_id \<Rightarrow> bool option" where
  "domain_is_glue db d z = do {
     r \<leftarrow> domain_find_ns_rrsets db d z;
     case r of None \<Rightarrow> Some False
     | Some (ns_domain, _) \<Rightarrow> do { s \<leftarrow> domain_find_rrset db ns_domain z TYPE_SOA; Some (s = None) } }"

definition domain_wildcard_child :: "namedb \<Rightarrow> domain_id \<Rightarrow> domain_id option option" where
  "domain_wildcard_child db d = do {
     dm \<leftarrow> db_domains db d;
     let w = dom_wildcard_child_closest_match dm;
     wn \<leftarrow> domain_dname db w;
     if w \<noteq> d then do {
       isw \<leftarrow> label_is_wildcard (dname_name wn);
       Some (if isw then Some w else None) }
     else Some None }"

definition zone_is_secure :: "namedb \<Rightarrow> zone_id \<Rightarrow> bool option" where
  "zone_is_secure db z = map_option zone_is_secure_flag (db_zones db z)"

definition rr_rrsig_type_covered :: "rr \<Rightarrow> u16 option" where
  "rr_rrsig_type_covered r = do {
     assert_c (rr_type r = TYPE_RRSIG);
     case rr_rdatas r of
       atom_data d # _ \<Rightarrow> do { assert_c (length d = 2); Some (read_uint16 d) }
     | _ \<Rightarrow> None }"

subsection \<open>The domain table\<close>

definition table_search_tree :: "namedb \<Rightarrow> dname \<Rightarrow> bool \<times> (dname \<times> domain_id) option" where
  "table_search_tree db dname = rbtree_find_less_equal dname_cmp fst (dt_names (db_table db)) dname"

text \<open>The loop that climbs from the closest match to the closest encloser.\<close>

function climb :: "namedb \<Rightarrow> nat \<Rightarrow> domain_id \<Rightarrow> domain_id option" where
  "climb db n d = do {
     dn \<leftarrow> domain_dname db d;
     if n < label_count dn then do {
       p \<leftarrow> domain_parent db d;
       case p of None \<Rightarrow> None | Some p \<Rightarrow> climb db n p }
     else Some d }"
  by pat_completeness auto
termination
  by (relation "measure (\<lambda>(db, n, d). domain_labels db d)") (auto simp: domain_parent_labels)

declare climb.simps [simp del]

text \<open>The result is the exact flag, the closest match and the closest encloser.\<close>

definition domain_table_search :: "namedb \<Rightarrow> dname \<Rightarrow> (bool \<times> domain_id \<times> domain_id) option" where
  "domain_table_search db dname = (case table_search_tree db dname of (exact, m) \<Rightarrow> do {
     (_, closest_match) \<leftarrow> m;
     if exact then Some (True, closest_match, closest_match)
     else do {
       mn \<leftarrow> domain_dname db closest_match;
       label_match_count \<leftarrow> dname_label_match_count mn dname;
       assert_c (label_match_count < label_count dname);
       closest_encloser \<leftarrow> climb db label_match_count closest_match;
       Some (False, closest_match, closest_encloser) } })"

definition domain_table_find :: "namedb \<Rightarrow> dname \<Rightarrow> domain_id option option" where
  "domain_table_find db dname = do {
     (exact, _, ce) \<leftarrow> domain_table_search db dname;
     Some (if exact then Some ce else None) }"

definition namedb_lookup :: "namedb \<Rightarrow> dname \<Rightarrow> (bool \<times> domain_id \<times> domain_id) option" where
  "namedb_lookup db dname = domain_table_search db dname"

definition domain_table_create :: "namedb option" where
  "domain_table_create = do {
     o1 \<leftarrow> dname_make [0] False;
     origin \<leftarrow> o1;
     let root = \<lparr>dom_dname = origin, dom_parent = None, dom_wildcard_child_closest_match = 0,
       dom_rrsets = [], dom_number = 1, dom_usage = 1, dom_is_existing = False, dom_is_apex = False,
       dom_temp = False\<rparr>;
     (_, t) \<leftarrow> rbtree_insert dname_cmp fst (origin, 0) rbtree_create;
     Some \<lparr>db_domains = [0 \<mapsto> root], db_rrsets = (\<lambda>_. None), db_zones = (\<lambda>_. None),
       db_table = \<lparr>dt_names = t, dt_root = 0, dt_numlist = [0]\<rparr>, db_zonetree = (\<lambda>_. None), db_next = 1\<rparr> }"

definition allocate_domain_info :: "namedb \<Rightarrow> dname \<Rightarrow> domain_id \<Rightarrow> (domain_id \<times> namedb) option" where
  "allocate_domain_info db dname parent = do {
     pn \<leftarrow> domain_dname db parent;
     c \<leftarrow> dname_partial_copy (Some dname) (label_count pn + 1);
     dn \<leftarrow> c;
     let result = db_next db;
     assert_c (dt_numlist (db_table db) \<noteq> []);
     last_dom \<leftarrow> db_domains db (last (dt_numlist (db_table db)));
     let dm = \<lparr>dom_dname = dn, dom_parent = Some parent, dom_wildcard_child_closest_match = result,
       dom_rrsets = [], dom_number = dom_number last_dom + 1, dom_usage = 0, dom_is_existing = False,
       dom_is_apex = False, dom_temp = False\<rparr>;
     Some (result, set_domain result dm (db\<lparr>
       db_table := (db_table db)\<lparr>dt_numlist := dt_numlist (db_table db) @ [result]\<rparr>,
       db_next := result + 1\<rparr>)) }"

definition wildcard_label :: "byte list" where "wildcard_label = [1, 0x2a, 0]"

text \<open>
  Both \<open>domain_table_insert\<close> and \<open>domain_add_rrset\<close> make a child the parent's closest match
  for the wildcard when it is larger than the current one but not larger than the wildcard.
\<close>

definition update_wildcard_match :: "namedb \<Rightarrow> domain_id \<Rightarrow> domain_id \<Rightarrow> namedb option" where
  "update_wildcard_match db parent child = do {
     cn \<leftarrow> domain_dname db child;
     p \<leftarrow> db_domains db parent;
     c1 \<leftarrow> label_compare (dname_name cn) wildcard_label;
     if c1 \<le> 0 then do {
       wn \<leftarrow> domain_dname db (dom_wildcard_child_closest_match p);
       c2 \<leftarrow> dname_compare cn wn;
       if c2 > 0 then Some (set_domain parent (p\<lparr>dom_wildcard_child_closest_match := child\<rparr>) db)
       else Some db }
     else Some db }"

definition insert_step :: "namedb \<Rightarrow> dname \<Rightarrow> domain_id \<Rightarrow> (domain_id \<times> namedb) option" where
  "insert_step db dname closest_encloser = do {
     (result, db) \<leftarrow> allocate_domain_info db dname closest_encloser;
     rn \<leftarrow> domain_dname db result;
     (_, t) \<leftarrow> rbtree_insert dname_cmp fst (rn, result) (dt_names (db_table db));
     let db = db\<lparr>db_table := (db_table db)\<lparr>dt_names := t\<rparr>\<rparr>;
     db \<leftarrow> update_wildcard_match db closest_encloser result;
     Some (result, db) }"

text \<open>The \<open>do\<close> loop runs once for each missing label.\<close>

fun insert_loop :: "nat \<Rightarrow> namedb \<Rightarrow> dname \<Rightarrow> domain_id \<Rightarrow> (domain_id \<times> namedb) option" where
  "insert_loop 0 db dname ce = Some (ce, db)"
| "insert_loop (Suc n) db dname ce = do {
     (result, db) \<leftarrow> insert_step db dname ce;
     insert_loop n db dname result }"

definition domain_table_insert :: "namedb \<Rightarrow> dname \<Rightarrow> (domain_id \<times> namedb) option" where
  "domain_table_insert db dname = do {
     (exact, _, ce) \<leftarrow> domain_table_search db dname;
     if exact then Some (ce, db)
     else do {
       cn \<leftarrow> domain_dname db ce;
       assert_c (label_count cn < label_count dname);
       insert_loop (label_count dname - label_count cn) db dname ce } }"

subsection \<open>Adding data to a domain\<close>

text \<open>The loop that makes a domain and its ancestors exist.\<close>

function make_existing :: "namedb \<Rightarrow> domain_id \<Rightarrow> namedb option" where
  "make_existing db d = do {
     dm \<leftarrow> db_domains db d;
     if dom_is_existing dm then Some db
     else do {
       p \<leftarrow> domain_parent db d;
       let db1 = set_domain d (dm\<lparr>dom_is_existing := True\<rparr>) db;
       case p of None \<Rightarrow> Some db1
       | Some p \<Rightarrow> do {
           db2 \<leftarrow> update_wildcard_match db1 p d;
           assert_c (domain_labels db2 p < domain_labels db d);
           make_existing db2 p } } }"
  by pat_completeness auto
termination
  by (relation "measure (\<lambda>(db, d). domain_labels db d)") auto

declare make_existing.simps [simp del]

definition domain_add_rrset :: "namedb \<Rightarrow> domain_id \<Rightarrow> rrset_id \<Rightarrow> namedb option" where
  "domain_add_rrset db d r = do {
     dm \<leftarrow> db_domains db d;
     make_existing (set_domain d (dm\<lparr>dom_rrsets := dom_rrsets dm @ [r]\<rparr>) db) d }"

subsection \<open>Deleting domains\<close>

definition domain_place :: "namedb \<Rightarrow> domain_id \<Rightarrow> ((dname \<times> domain_id) rbt \<times> (dname \<times> domain_id) frame list) option" where
  "domain_place db d = do {
     dn \<leftarrow> domain_dname db d;
     search_place dname_cmp fst dn (rb_root (dt_names (db_table db))) [] }"

definition place_domain :: "((dname \<times> domain_id) rbt \<times> (dname \<times> domain_id) frame list) option \<Rightarrow> domain_id option" where
  "place_domain p = (case p of Some (rbnode _ _ (_, d) _, _) \<Rightarrow> Some d | _ \<Rightarrow> None)"

text \<open>\<open>NULL\<close> at either end of the tree.\<close>

definition domain_next :: "namedb \<Rightarrow> domain_id \<Rightarrow> domain_id option option" where
  "domain_next db d = do { p \<leftarrow> domain_place db d; Some (place_domain (rbtree_next p)) }"

definition domain_previous :: "namedb \<Rightarrow> domain_id \<Rightarrow> domain_id option option" where
  "domain_previous db d = do { p \<leftarrow> domain_place db d; Some (place_domain (rbtree_previous p)) }"

definition numlist_make_last :: "namedb \<Rightarrow> domain_id \<Rightarrow> namedb option" where
  "numlist_make_last db d = (let nl = dt_numlist (db_table db) in do {
     assert_c (nl \<noteq> []);
     let lst = last nl;
     if d = lst then Some db
     else do {
       assert_c (d \<in> set nl);
       dm \<leftarrow> db_domains db d;
       ldom \<leftarrow> db_domains db lst;
       Some (set_domain d (dm\<lparr>dom_number := dom_number ldom\<rparr>)
            (set_domain lst (ldom\<lparr>dom_number := dom_number dm\<rparr>)
            (db\<lparr>db_table := (db_table db)\<lparr>
               dt_numlist := map (\<lambda>x. if x = d then lst else if x = lst then d else x) nl\<rparr>\<rparr>))) } })"

definition numlist_pop_last :: "namedb \<Rightarrow> namedb" where
  "numlist_pop_last db = db\<lparr>db_table := (db_table db)\<lparr>dt_numlist := butlast (dt_numlist (db_table db))\<rparr>\<rparr>"

definition domain_can_be_deleted :: "namedb \<Rightarrow> domain_id \<Rightarrow> bool option" where
  "domain_can_be_deleted db d = do {
     dm \<leftarrow> db_domains db d;
     if dom_rrsets dm \<noteq> [] then Some False
     else if dom_usage dm \<noteq> 0 then Some False
     else do {
       n \<leftarrow> domain_next db d;
       case n of None \<Rightarrow> Some True
       | Some n \<Rightarrow> do {
           nn \<leftarrow> domain_dname db n;
           sub \<leftarrow> dname_is_subdomain nn (dom_dname dm);
           Some (\<not> sub) } } }"

text \<open>Walking back to an existing domain, at most to the parent; the tree has \<open>n\<close> nodes.\<close>

fun previous_existing :: "nat \<Rightarrow> namedb \<Rightarrow> domain_id option \<Rightarrow> domain_id option \<Rightarrow> domain_id option option" where
  "previous_existing n db parent None = Some None"
| "previous_existing 0 db parent (Some d) = None"
| "previous_existing (Suc n) db parent (Some d) = do {
     dm \<leftarrow> db_domains db d;
     if dom_is_existing dm then Some (Some d)
     else if Some d = parent then Some parent
     else do { p \<leftarrow> domain_previous db d; previous_existing n db parent p } }"

definition domain_previous_existing_child :: "namedb \<Rightarrow> domain_id \<Rightarrow> domain_id option option" where
  "domain_previous_existing_child db d = do {
     dm \<leftarrow> db_domains db d;
     p \<leftarrow> domain_previous db d;
     previous_existing (rb_count (dt_names (db_table db)) + 1) db (dom_parent dm) p }"

definition do_deldomain :: "namedb \<Rightarrow> domain_id \<Rightarrow> namedb option" where
  "do_deldomain db d = do {
     dm \<leftarrow> db_domains db d;
     parent \<leftarrow> dom_parent dm;
     db \<leftarrow> numlist_make_last db d;
     let db = numlist_pop_last db;
     pdom \<leftarrow> db_domains db parent;
     db \<leftarrow> (if dom_wildcard_child_closest_match pdom = d then do {
              pe \<leftarrow> domain_previous_existing_child db d;
              pe \<leftarrow> pe;
              Some (set_domain parent (pdom\<lparr>dom_wildcard_child_closest_match := pe\<rparr>) db) }
            else Some db);
     (_, t) \<leftarrow> rbtree_delete dname_cmp fst (dom_dname dm) (dt_names (db_table db));
     Some (db\<lparr>db_table := (db_table db)\<lparr>dt_names := t\<rparr>, db_domains := (db_domains db)(d := None)\<rparr>) }"

text \<open>The loop ends at the root, whose usage is never zero; \<open>n\<close> bounds the number of labels.\<close>

fun domain_table_deldomain :: "nat \<Rightarrow> namedb \<Rightarrow> domain_id \<Rightarrow> namedb option" where
  "domain_table_deldomain 0 db d = None"
| "domain_table_deldomain (Suc n) db d = do {
     can \<leftarrow> domain_can_be_deleted db d;
     if \<not> can then Some db
     else do {
       dm \<leftarrow> db_domains db d;
       db \<leftarrow> do_deldomain db d;
       parent \<leftarrow> dom_parent dm;
       domain_table_deldomain n db parent } }"

subsection \<open>Well-formed databases\<close>

definition table_entries :: "namedb \<Rightarrow> (dname \<times> domain_id) set" where
  "table_entries db = set (inorder (rb_root (dt_names (db_table db))))"

text \<open>The domain \<open>d\<close> of the table has the labels \<open>ls\<close>.\<close>

definition named :: "namedb \<Rightarrow> byte list list \<Rightarrow> domain_id \<Rightarrow> bool" where
  "named db ls d \<longleftrightarrow> valid_labels ls \<and> (dname_of ls, d) \<in> table_entries db"

text \<open>
  The tree is a valid search tree whose entries are domains with that name; with a name the
  table has all its ancestors, linked by the parent pointers.
\<close>

definition db_ok :: "namedb \<Rightarrow> bool" where
  "db_ok db \<longleftrightarrow>
     valid_rbtree wf_dname dname_rank fst (dt_names (db_table db)) \<and>
     (\<forall>n d. (n, d) \<in> table_entries db \<longrightarrow> (\<exists>dm. db_domains db d = Some dm \<and> dom_dname dm = n)) \<and>
     (\<forall>d dm. named db [] d \<longrightarrow> db_domains db d = Some dm \<longrightarrow> dom_parent dm = None) \<and>
     (\<forall>l ls d dm. named db (l # ls) d \<longrightarrow> db_domains db d = Some dm \<longrightarrow>
        (\<exists>p. dom_parent dm = Some p \<and> named db ls p)) \<and>
     (\<exists>d. named db [] d)"

lemma db_ok_tree: "db_ok db \<Longrightarrow> valid_rbtree wf_dname dname_rank fst (dt_names (db_table db))"
  by (simp add: db_ok_def)

lemma db_ok_root: "db_ok db \<Longrightarrow> \<exists>d. named db [] d"
  by (simp add: db_ok_def)

lemma named_valid: "named db ls d \<Longrightarrow> valid_labels ls"
  by (simp add: named_def)

lemma named_domain:
  assumes "db_ok db" "named db ls d"
  obtains dm where "db_domains db d = Some dm" "dom_dname dm = dname_of ls"
  using assms by (fastforce simp: db_ok_def named_def)

lemma named_in_domains: "db_ok db \<Longrightarrow> named db ls d \<Longrightarrow> db_domains db d \<noteq> None"
  by (fastforce simp: db_ok_def named_def)

lemma named_dname [simp]:
  assumes "db_ok db" "named db ls d"
  shows "domain_dname db d = Some (dname_of ls)" "domain_labels db d = Suc (length ls)"
proof -
  obtain dm where "db_domains db d = Some dm" "dom_dname dm = dname_of ls"
    using named_domain [OF assms] .
  then show "domain_dname db d = Some (dname_of ls)" "domain_labels db d = Suc (length ls)"
    by (simp_all add: domain_dname_def domain_labels_def)
qed

lemma named_inject: "db_ok db \<Longrightarrow> named db a d \<Longrightarrow> named db b d \<Longrightarrow> a = b"
  by (metis dname_of_inject named_dname(1) named_valid option.inject)

lemma named_unique:
  assumes "db_ok db" "named db ls d" "named db ls e"
  shows "d = e"
proof -
  have "ordered wf_dname dname_rank fst (inorder (rb_root (dt_names (db_table db))))"
    using db_ok_tree [OF assms(1)] by (simp add: valid_rbtree_def)
  from ordered_inject [OF this, of "(dname_of ls, d)" "(dname_of ls, e)"] assms(2,3)
  show ?thesis by (simp add: named_def table_entries_def)
qed

lemma entry_named:
  assumes "db_ok db" "(n, d) \<in> table_entries db"
  obtains ls where "n = dname_of ls" "named db ls d"
proof -
  have "wf_dname n" using assms by (auto simp: db_ok_def valid_rbtree_def ordered_def table_entries_def)
  then show thesis using that assms(2) by (auto simp: wf_dname_def named_def)
qed

lemma named_parent:
  assumes "db_ok db"
  shows "named db [] d \<Longrightarrow> domain_parent db d = Some None"
    and "named db (l # ls) d \<Longrightarrow> \<exists>p. domain_parent db d = Some (Some p) \<and> named db ls p"
proof -
  assume n: "named db [] d"
  obtain dm where dm: "db_domains db d = Some dm" "dom_dname dm = dname_of []"
    using named_domain [OF assms n] by blast
  then have "dom_parent dm = None" using assms n unfolding db_ok_def by blast
  then show "domain_parent db d = Some None" using dm by (simp add: domain_parent_def)
next
  assume n: "named db (l # ls) d"
  obtain dm where dm: "db_domains db d = Some dm" "dom_dname dm = dname_of (l # ls)"
    using named_domain [OF assms n] by blast
  obtain p where p: "dom_parent dm = Some p" "named db ls p"
    using assms n dm(1) unfolding db_ok_def by blast
  have "domain_labels db p < domain_labels db d" using named_dname(2) [OF assms] p(2) n by simp
  then show "\<exists>p. domain_parent db d = Some (Some p) \<and> named db ls p"
    using dm p by (auto simp: domain_parent_def)
qed

lemma named_ancestor: "db_ok db \<Longrightarrow> named db (xs @ ls) d \<Longrightarrow> \<exists>p. named db ls p"
proof (induction xs arbitrary: d)
  case (Cons x xs)
  then show ?case using named_parent(2) [of db x "xs @ ls" d] by auto
qed auto

subsection \<open>Searching the table\<close>

lemma climb_named:
  assumes "db_ok db"
  shows "named db (xs @ ls) d \<Longrightarrow> \<exists>p. climb db (Suc (length ls)) d = Some p \<and> named db ls p"
proof (induction xs arbitrary: d)
  case Nil
  then show ?case using named_dname [OF assms] by (subst climb.simps) auto
next
  case (Cons x xs)
  obtain p where "domain_parent db d = Some (Some p)" "named db (xs @ ls) p"
    using named_parent(2) [OF assms, of x "xs @ ls" d] Cons.prems by auto
  then show ?case using named_dname [OF assms Cons.prems] Cons.IH [of p]
    by (subst climb.simps) auto
qed

lemma sorted_wrt_last: "sorted_wrt R xs \<Longrightarrow> x \<in> set xs \<Longrightarrow> x = last xs \<or> R x (last xs)"
  by (induction xs) (auto split: if_splits)

lemma lex_sandwich:
  fixes p m r :: "'a::linorder list"
  assumes "p \<le> m" "m \<le> p @ r"
  shows "prefix p m"
  using assms
proof (induction p arbitrary: m)
  case (Cons a p)
  then obtain b m' where m: "m = b # m'" by (cases m) auto
  have "a = b" using Cons.prems m by auto
  then show ?case using Cons.prems Cons.IH [of m'] m by auto
qed simp

lemma lex_append_le: "p @ a \<le> p @ (b :: 'a::linorder list) \<longleftrightarrow> a \<le> b"
  by (induction p) auto

lemma prefix_le: "prefix p (m :: 'a::linorder list) \<Longrightarrow> p \<le> m"
proof (induction p arbitrary: m)
  case (Cons a p)
  then show ?case by (cases m) auto
qed simp

text \<open>
  The tree search finds the greatest name that is not above the one asked for, and among
  the names of the table it shares the most labels with it.
\<close>

lemma table_search_tree_spec:
  assumes ok: "db_ok db" and v: "valid_labels ls"
  obtains exact m ml where "table_search_tree db (dname_of ls) = (exact, Some (dname_of ml, m))"
    "named db ml m" "exact \<longleftrightarrow> ml = ls" "exact \<longleftrightarrow> (\<exists>d. named db ls d)" "rev ml \<le> rev ls"
    "\<And>s d. named db s d \<Longrightarrow> suffix s ls \<Longrightarrow> suffix s ml"
proof -
  let ?t = "dt_names (db_table db)" and ?xs = "inorder (rb_root (dt_names (db_table db)))"
  let ?k = "dname_of ls"
  let ?le = "filter (\<lambda>x. dname_rank (fst x) \<le> dname_rank ?k) ?xs"
  have o: "ordered wf_dname dname_rank fst ?xs" using db_ok_tree [OF ok] by (simp add: valid_rbtree_def)
  have k: "wf_dname ?k" "dname_rank ?k = rev ls" using v by (simp_all add: dname_rank_def)
  have res: "table_search_tree db ?k = (\<exists>x \<in> set ?xs. dname_rank (fst x) = dname_rank ?k,
      if ?le = [] then None else Some (last ?le))"
    using dname_order.find_less_equal_spec [OF k(1) o, of None]
    by (simp add: table_search_tree_def rbtree_find_less_equal_def Let_def)
  obtain r where r: "named db [] r" using db_ok_root [OF ok] by blast
  then have "(dname_of [], r) \<in> set ?le" using k by (auto simp: named_def table_entries_def dname_rank_def)
  then have ne: "?le \<noteq> []" by (metis length_pos_if_in_set length_greater_0_conv)
  obtain mn m where m: "last ?le = (mn, m)" by (cases "last ?le")
  have "(mn, m) \<in> set ?le" using last_in_set [OF ne] m by simp
  then have mt: "(mn, m) \<in> table_entries db" "dname_rank mn \<le> rev ls"
    using k(2) by (auto simp: table_entries_def)
  obtain ml where ml: "mn = dname_of ml" "named db ml m" using entry_named [OF ok mt(1)] .
  have le: "rev ml \<le> rev ls" using mt(2) ml named_valid [OF ml(2)] by (simp add: dname_rank_def)
  have max: "rev s \<le> rev ml" if s: "named db s d" "rev s \<le> rev ls" for s d
  proof -
    have "(dname_of s, d) \<in> set ?le" using s k(2) by (auto simp: named_def table_entries_def dname_rank_def)
    moreover have "sorted_wrt (\<lambda>a b. dname_rank (fst a) < dname_rank (fst b)) ?le"
      using o by (auto simp: ordered_def sorted_wrt_map sorted_wrt_filter)
    ultimately have "(dname_of s, d) = last ?le \<or>
        dname_rank (fst (dname_of s, d)) < dname_rank (fst (last ?le))"
      by (rule sorted_wrt_last [rotated])
    then have "(dname_of s, d) = (mn, m) \<or> dname_rank (dname_of s) < dname_rank mn"
      unfolding m by simp
    then show ?thesis
      using ml s(1) by (auto simp: dname_rank_def named_def)
  qed
  have ex: "(\<exists>x \<in> set ?xs. dname_rank (fst x) = dname_rank ?k) \<longleftrightarrow> (\<exists>d. named db ls d)"
  proof
    assume "\<exists>x \<in> set ?xs. dname_rank (fst x) = dname_rank ?k"
    then obtain n d where "(n, d) \<in> table_entries db" "dname_rank n = rev ls"
      using k(2) by (auto simp: table_entries_def)
    moreover from this(1) obtain s where "n = dname_of s" "named db s d" by (rule entry_named [OF ok])
    ultimately show "\<exists>d. named db ls d" by (auto simp: dname_rank_def named_def)
  next
    assume "\<exists>d. named db ls d"
    then show "\<exists>x \<in> set ?xs. dname_rank (fst x) = dname_rank ?k"
      by (force simp: named_def table_entries_def)
  qed
  have exact: "(\<exists>d. named db ls d) \<longleftrightarrow> ml = ls"
    using max [of ls] ml(2) le by (metis order_antisym rev_is_rev_conv order_refl)
  have sfx: "suffix s ml" if sd: "named db s d" "suffix s ls" for s d
  proof -
    have "rev s \<le> rev ls" using sd(2) by (intro prefix_le) (simp add: suffix_to_prefix)
    from max [OF sd(1) this] le obtain t where "rev s \<le> rev ml" "rev ml \<le> rev s @ t"
      using sd(2) by (auto simp: suffix_def)
    then have "prefix (rev s) (rev ml)" by (rule lex_sandwich)
    then show ?thesis by (simp add: suffix_to_prefix)
  qed
  show thesis
    by (rule that [of "\<exists>d. named db ls d" ml m]) (use res ex ne m ml exact le sfx in auto)
qed

text \<open>
  The closest encloser is the longest ancestor of the name, or the name itself, that is in
  the table. No assertion of the search fails.
\<close>

lemma domain_table_search_spec:
  assumes ok: "db_ok db" and v: "valid_labels ls"
  obtains exact m ce ml cl where
    "domain_table_search db (dname_of ls) = Some (exact, m, ce)"
    "named db ml m" "named db cl ce" "exact \<longleftrightarrow> cl = ls" "exact \<longleftrightarrow> (\<exists>d. named db ls d)"
    "suffix cl ls" "suffix cl ml" "\<And>s d. named db s d \<Longrightarrow> suffix s ls \<Longrightarrow> suffix s cl"
proof -
  obtain exact m ml where t: "table_search_tree db (dname_of ls) = (exact, Some (dname_of ml, m))"
    "named db ml m" "exact \<longleftrightarrow> ml = ls" "exact \<longleftrightarrow> (\<exists>d. named db ls d)" "rev ml \<le> rev ls"
    "\<And>s d. named db s d \<Longrightarrow> suffix s ls \<Longrightarrow> suffix s ml"
    by (rule table_search_tree_spec [OF ok v]) blast
  show thesis
  proof (cases exact)
    case True
    then have "domain_table_search db (dname_of ls) = Some (True, m, m)"
      using t(1) by (simp add: domain_table_search_def)
    then show thesis using True t by (intro that [of True m m ml ml]) auto
  next
    case False
    let ?c = "longest_common_prefix (rev ml) (rev ls)"
    have pre: "prefix ?c (rev ml)" "prefix ?c (rev ls)"
      by (rule longest_common_prefix_prefix1 longest_common_prefix_prefix2)+
    have neq: "?c \<noteq> rev ls"
    proof
      assume "?c = rev ls"
      then have "rev ls \<le> rev ml" using pre(1) prefix_le by metis
      then show False using t(3,5) False by (metis order_antisym rev_is_rev_conv)
    qed
    have len: "length ?c < length ls"
      using prefix_length_less [of ?c "rev ls"] pre(2) neq by (simp add: strict_prefix_def)
    obtain xs where xs: "ml = xs @ rev ?c" using pre(1) by (metis prefix_def rev_append rev_rev_ident)
    obtain ce where ce: "climb db (Suc (length ?c)) m = Some ce" "named db (rev ?c) ce"
      using climb_named [OF ok, of xs "rev ?c" m] t(2) xs by (metis length_rev)
    have "domain_table_search db (dname_of ls) = Some (False, m, ce)"
      using t(1) False named_dname [OF ok t(2)] dname_label_match_count_lcp [OF named_valid [OF t(2)] v] len ce(1)
      by (simp add: domain_table_search_def)
    moreover have "suffix s (rev ?c)" if "named db s d" "suffix s ls" for s d
    proof -
      have "prefix (rev s) (rev ml)" "prefix (rev s) (rev ls)"
        using t(6) [OF that] that(2) by (simp_all add: suffix_to_prefix)
      then have "prefix (rev s) ?c" by (rule longest_common_prefix_max_prefix)
      then show ?thesis by (simp add: suffix_to_prefix)
    qed
    moreover have "suffix (rev ?c) ls" "suffix (rev ?c) ml" using pre by (simp_all add: suffix_to_prefix)
    moreover have "rev ?c \<noteq> ls" using neq by (metis rev_rev_ident)
    ultimately show thesis using False t ce by (intro that [of False m ce ml "rev ?c"]) auto
  qed
qed

subsection \<open>Inserting names\<close>

text \<open>Allocation: identifiers are below \<open>db_next\<close> and the domains are numbered from 1 on.\<close>

definition db_numbered :: "namedb \<Rightarrow> bool" where
  "db_numbered db \<longleftrightarrow> (\<forall>d. db_domains db d \<noteq> None \<longrightarrow> d < db_next db) \<and>
     distinct (dt_numlist (db_table db)) \<and> set (dt_numlist (db_table db)) = snd ` table_entries db \<and>
     map (\<lambda>d. map_option dom_number (db_domains db d)) (dt_numlist (db_table db)) =
       map Some [1..<length (dt_numlist (db_table db)) + 1]"

definition star :: "byte list" where "star = [0x2a]"

text \<open>
  The closest match for the wildcard below a domain is the largest of the domain itself and
  its children that are not above the wildcard.
\<close>

definition wildcard_ok :: "namedb \<Rightarrow> bool" where
  "wildcard_ok db \<longleftrightarrow> (\<forall>ls d dm. named db ls d \<longrightarrow> db_domains db d = Some dm \<longrightarrow>
     (\<exists>wl. named db wl (dom_wildcard_child_closest_match dm) \<and>
        (wl = ls \<or> (\<exists>l. wl = l # ls \<and> l \<le> star)) \<and>
        (\<forall>l c. named db (l # ls) c \<longrightarrow> l \<le> star \<longrightarrow> rev (l # ls) \<le> rev wl)))"

text \<open>
  \<open>db_extends db x r db'\<close>: \<open>db'\<close> has in addition the domain \<open>r\<close> with labels \<open>x\<close>, and the
  names, parents and RRsets of the other domains are as before.
\<close>

definition db_extends :: "namedb \<Rightarrow> byte list list \<Rightarrow> domain_id \<Rightarrow> namedb \<Rightarrow> bool" where
  "db_extends db x r db' \<longleftrightarrow> valid_labels x \<and> (\<nexists>d. named db x d) \<and> db_domains db r = None \<and>
     table_entries db' = insert (dname_of x, r) (table_entries db) \<and>
     valid_rbtree wf_dname dname_rank fst (dt_names (db_table db')) \<and>
     (\<exists>rm. db_domains db' r = Some rm \<and> dom_dname rm = dname_of x \<and>
        (\<exists>p. dom_parent rm = Some p \<and> named db (tl x) p)) \<and> x \<noteq> [] \<and>
     (\<forall>d. d \<noteq> r \<longrightarrow> rel_option (\<lambda>a b. dom_dname a = dom_dname b \<and> dom_parent a = dom_parent b \<and>
        dom_rrsets a = dom_rrsets b \<and> dom_number a = dom_number b \<and> dom_is_existing a = dom_is_existing b \<and>
        dom_is_apex a = dom_is_apex b) (db_domains db d) (db_domains db' d))"

lemma db_extends_named:
  assumes "db_extends db x r db'"
  shows "named db' s d \<longleftrightarrow> named db s d \<or> s = x \<and> d = r"
  using assms by (auto simp: db_extends_def named_def)

lemma db_extends_ok:
  assumes ok: "db_ok db" and e: "db_extends db x r db'"
  shows "db_ok db'"
proof -
  note nm = db_extends_named [OF e]
  have old: "\<exists>dm'. db_domains db' d = Some dm' \<and> dom_dname dm' = dom_dname dm \<and> dom_parent dm' = dom_parent dm"
    if "db_domains db d = Some dm" for d dm
  proof -
    have "d \<noteq> r" using that e by (auto simp: db_extends_def)
    then have "rel_option (\<lambda>a b. dom_dname a = dom_dname b \<and> dom_parent a = dom_parent b \<and>
        dom_rrsets a = dom_rrsets b \<and> dom_number a = dom_number b \<and> dom_is_existing a = dom_is_existing b \<and>
        dom_is_apex a = dom_is_apex b) (db_domains db d) (db_domains db' d)"
      using e by (simp add: db_extends_def)
    then show ?thesis using that by (cases "db_domains db' d") auto
  qed
  have x: "x \<noteq> []" using e by (simp add: db_extends_def)
  have tree: "valid_rbtree wf_dname dname_rank fst (dt_names (db_table db'))" using e by (simp add: db_extends_def)
  have 1: "\<exists>dm. db_domains db' d = Some dm \<and> dom_dname dm = n" if "(n, d) \<in> table_entries db'" for n d
  proof -
    have "(n, d) = (dname_of x, r) \<or> (n, d) \<in> table_entries db" using that e by (auto simp: db_extends_def)
    then show ?thesis
    proof
      assume "(n, d) = (dname_of x, r)"
      then show ?thesis using e by (auto simp: db_extends_def)
    next
      assume "(n, d) \<in> table_entries db"
      then obtain dm where "db_domains db d = Some dm" "dom_dname dm = n" using ok by (auto simp: db_ok_def)
      then show ?thesis using old by force
    qed
  qed
  have 2: "dom_parent dm = None" if "named db' [] d" "db_domains db' d = Some dm" for d dm
  proof -
    have n: "named db [] d" using that(1) x by (simp add: nm)
    then obtain dm0 where dm0: "db_domains db d = Some dm0" using named_domain [OF ok] by blast
    have "dom_parent dm0 = None" using ok n dm0 unfolding db_ok_def by blast
    then show ?thesis using old [OF dm0] that(2) by auto
  qed
  have 3: "\<exists>p. dom_parent dm = Some p \<and> named db' ls p"
    if "named db' (l # ls) d" "db_domains db' d = Some dm" for l ls d dm
  proof -
    have "named db (l # ls) d \<or> l # ls = x \<and> d = r" using that(1) unfolding nm .
    then show ?thesis
    proof
      assume n: "named db (l # ls) d"
      then obtain dm0 where dm0: "db_domains db d = Some dm0" using named_domain [OF ok] by blast
      obtain p where "dom_parent dm0 = Some p" "named db ls p"
        using ok n dm0 unfolding db_ok_def by blast
      then show ?thesis using old [OF dm0] that(2) unfolding nm by auto
    next
      assume n: "l # ls = x \<and> d = r"
      obtain rm p where "db_domains db' r = Some rm" "dom_parent rm = Some p" "named db (tl x) p"
        using e by (auto simp: db_extends_def)
      then show ?thesis using n that(2) unfolding nm by auto
    qed
  qed
  have 4: "\<exists>d. named db' [] d" using db_ok_root [OF ok] unfolding nm by blast
  show ?thesis unfolding db_ok_def using tree 1 2 3 4 by blast
qed

lemma update_wildcard_match_spec:
  assumes c: "domain_dname db child = Some (dname_of (x # cl))" and p: "db_domains db parent = Some p"
    and w: "domain_dname db (dom_wildcard_child_closest_match p) = Some (dname_of wl)"
    and v: "valid_labels (x # cl)" "valid_labels wl"
  shows "update_wildcard_match db parent child =
    Some (if x \<le> star \<and> rev wl < rev (x # cl)
          then set_domain parent (p\<lparr>dom_wildcard_child_closest_match := child\<rparr>) db else db)"
proof -
  have "valid_label star" by (simp add: star_def valid_label_def MAXLABELLEN_def)
  then obtain c1 where c1: "label_compare (wire (x # cl)) wildcard_label = Some c1" "sgn c1 = ocmp x star"
    using label_compare_wire [OF valid_labels_hd [OF v(1)], of star "wire cl" "[0]"]
    by (auto simp: wildcard_label_def star_def)
  obtain c2 where c2: "dname_compare (dname_of (x # cl)) (dname_of wl) = Some c2"
    "sgn c2 = ocmp (rev (x # cl)) (rev wl)"
    using dname_compare_ocmp [OF v] by blast
  have "c1 \<le> 0 \<longleftrightarrow> x \<le> star" using sgn_eq_ocmp [OF c1(2)] by (metis linorder_not_le)
  moreover have "c2 > 0 \<longleftrightarrow> rev wl < rev (x # cl)" using sgn_eq_ocmp [OF c2(2)] by simp
  moreover have "dname_name (dname_of (x # cl)) = wire (x # cl)" by (simp add: dname_of_def)
  ultimately show ?thesis using c p w c1(1) c2(1)
    by (simp add: update_wildcard_match_def)
qed

lemma allocate_domain_info_spec:
  assumes ok: "db_ok db" and n: "db_numbered db" and ce: "named db cl ce"
    and ls: "valid_labels ls" "suffix (x # cl) ls"
  shows "allocate_domain_info db (dname_of ls) ce = Some (db_next db,
      set_domain (db_next db) \<lparr>dom_dname = dname_of (x # cl), dom_parent = Some ce,
         dom_wildcard_child_closest_match = db_next db, dom_rrsets = [],
         dom_number = length (dt_numlist (db_table db)) + 1, dom_usage = 0, dom_is_existing = False,
         dom_is_apex = False, dom_temp = False\<rparr>
       (db\<lparr>db_table := (db_table db)\<lparr>dt_numlist := dt_numlist (db_table db) @ [db_next db]\<rparr>,
          db_next := db_next db + 1\<rparr>))"
proof -
  let ?nl = "dt_numlist (db_table db)"
  have cet: "(dname_of cl, ce) \<in> table_entries db" using ce by (simp add: named_def)
  then have "ce \<in> set ?nl" using n by (force simp: db_numbered_def)
  then have ne: "?nl \<noteq> []" by auto
  have nums: "map (\<lambda>d. map_option dom_number (db_domains db d)) ?nl = map Some [1..<length ?nl + 1]"
    using n by (simp add: db_numbered_def)
  have "map_option dom_number (db_domains db (last ?nl)) =
      last (map (\<lambda>d. map_option dom_number (db_domains db d)) ?nl)" using ne by (simp add: last_map)
  also have "\<dots> = Some (length ?nl)" unfolding nums using ne by (simp add: last_map Suc_le_eq)
  finally obtain lm where lm: "db_domains db (last ?nl) = Some lm" "dom_number lm = length ?nl"
    by (cases "db_domains db (last ?nl)") auto
  obtain ys where ys: "ls = ys @ x # cl" using ls(2) by (auto simp: suffix_def)
  have "dname_partial_copy (Some (dname_of ls)) (Suc (Suc (length cl))) = Some (Some (dname_of (x # cl)))"
    using dname_partial_copy_labels [OF ls(1), of "Suc (Suc (length cl))"] ys by simp
  then show ?thesis using named_dname [OF ok ce] ne lm
    by (simp add: allocate_domain_info_def Let_def)
qed

lemma insert_step_spec:
  assumes ok: "db_ok db" and n: "db_numbered db" and w: "wildcard_ok db" and ce: "named db cl ce"
    and ls: "valid_labels ls" "suffix (x # cl) ls" and new: "\<nexists>d. named db (x # cl) d"
  obtains r db' where "insert_step db (dname_of ls) ce = Some (r, db')" "db_extends db (x # cl) r db'"
    "db_numbered db'" "wildcard_ok db'" "r = db_next db"
proof -
  let ?r = "db_next db" and ?nl = "dt_numlist (db_table db)"
  define rm where "rm = \<lparr>dom_dname = dname_of (x # cl), dom_parent = Some ce,
         dom_wildcard_child_closest_match = ?r, dom_rrsets = [],
         dom_number = length ?nl + 1, dom_usage = 0, dom_is_existing = False,
         dom_is_apex = False, dom_temp = False\<rparr>"
  define db1 where "db1 = set_domain ?r rm (db\<lparr>db_table := (db_table db)\<lparr>dt_numlist := ?nl @ [?r]\<rparr>,
          db_next := db_next db + 1\<rparr>)"
  have al: "allocate_domain_info db (dname_of ls) ce = Some (?r, db1)"
    using allocate_domain_info_spec [OF ok n ce ls] unfolding rm_def db1_def .
  have v: "valid_labels (x # cl)" using ls by (metis suffix_def valid_labels_drop append_eq_conv_conj)
  have fresh: "db_domains db ?r = None" using n by (force simp: db_numbered_def)
  obtain cem where cem: "db_domains db ce = Some cem" "dom_dname cem = dname_of cl"
    using named_domain [OF ok ce] .
  have cer: "ce \<noteq> ?r" using cem fresh by auto
  have nr: "\<forall>y \<in> set (inorder (rb_root (dt_names (db_table db)))). dname_rank (fst y) \<noteq> dname_rank (dname_of (x # cl))"
  proof
    fix y assume "y \<in> set (inorder (rb_root (dt_names (db_table db))))"
    then have y: "(fst y, snd y) \<in> table_entries db" by (simp add: table_entries_def)
    obtain s where "fst y = dname_of s" "named db s (snd y)" using entry_named [OF ok y] .
    then show "dname_rank (fst y) \<noteq> dname_rank (dname_of (x # cl))"
      using new v named_valid by (auto simp: dname_rank_def simp del: rev.simps)
  qed
  have wfx: "wf_dname (fst (dname_of (x # cl), ?r))" using v by simp
  have nr': "(\<forall>y \<in> set (inorder (rb_root (dt_names (db_table db)))).
      dname_rank (fst y) \<noteq> dname_rank (fst (dname_of (x # cl), ?r))) = True"
    "(\<exists>y \<in> set (inorder (rb_root (dt_names (db_table db)))).
      dname_rank (fst y) = dname_rank (fst (dname_of (x # cl), ?r))) = False"
    using nr by auto
  obtain t xs ys where t0: "rbtree_insert dname_cmp fst (dname_of (x # cl), ?r) (dt_names (db_table db)) = Some (True, t)"
    "valid_rbtree wf_dname dname_rank fst t"
    "inorder (rb_root (dt_names (db_table db))) = xs @ ys" "inorder (rb_root t) = xs @ (dname_of (x # cl), ?r) # ys"
    using dname_order.rbtree_insert_spec [OF db_ok_tree [OF ok] wfx] unfolding nr' if_False by blast
  have "set (inorder (rb_root t)) = insert (dname_of (x # cl), ?r) (table_entries db)"
    unfolding table_entries_def t0(3,4) by simp
  note t = t0(1,2) this
  define db2 where "db2 = db1\<lparr>db_table := (db_table db1)\<lparr>dt_names := t\<rparr>\<rparr>"
  have dom2: "db_domains db2 = (db_domains db)(?r \<mapsto> rm)" by (simp add: db2_def db1_def set_domain_def)
  obtain wl where wl: "named db wl (dom_wildcard_child_closest_match cem)"
    "wl = cl \<or> (\<exists>l. wl = l # cl \<and> l \<le> star)"
    "\<And>l c. named db (l # cl) c \<Longrightarrow> l \<le> star \<Longrightarrow> rev (l # cl) \<le> rev wl"
    using w ce cem unfolding wildcard_ok_def by blast
  have wne: "dom_wildcard_child_closest_match cem \<noteq> ?r"
    using named_in_domains [OF ok wl(1)] fresh by metis
  define db3 where "db3 = (if x \<le> star \<and> rev wl < rev (x # cl)
          then set_domain ce (cem\<lparr>dom_wildcard_child_closest_match := ?r\<rparr>) db2 else db2)"
  have "update_wildcard_match db2 ce ?r = Some db3" unfolding db3_def
    by (rule update_wildcard_match_spec)
      (use v named_valid [OF wl(1)] named_dname(1) [OF ok wl(1)] cem cer wne in
        \<open>simp_all add: domain_dname_def dom2 rm_def\<close>)
  then have step: "insert_step db (dname_of ls) ce = Some (?r, db3)"
    using al t(1) by (simp add: insert_step_def db2_def db1_def set_domain_def domain_dname_def rm_def)
  have tab: "db_table db3 = db_table db2" "db_next db3 = ?r + 1"
    by (simp_all add: db3_def db2_def db1_def set_domain_def)
  have ent: "table_entries db3 = insert (dname_of (x # cl), ?r) (table_entries db)"
    using t(3) by (simp add: table_entries_def tab db2_def)
  have ext: "db_extends db (x # cl) ?r db3"
    unfolding db_extends_def using v new fresh ent t(2) cem cer ce
    by (auto simp: tab db2_def db1_def db3_def set_domain_def rm_def option.rel_refl)
  note nm = db_extends_named [OF ext]
  have numl: "dt_numlist (db_table db3) = ?nl @ [?r]" by (simp add: tab db2_def db1_def set_domain_def)
  have dom3: "db_domains db3 = (if x \<le> star \<and> rev wl < rev (x # cl)
      then (db_domains db)(?r \<mapsto> rm, ce \<mapsto> cem\<lparr>dom_wildcard_child_closest_match := ?r\<rparr>)
      else (db_domains db)(?r \<mapsto> rm))"
    by (simp add: db3_def dom2 set_domain_def)
  have num: "db_numbered db3"
  proof -
    have nl0: "distinct ?nl" "set ?nl = snd ` table_entries db"
      "map (\<lambda>d. map_option dom_number (db_domains db d)) ?nl = map Some [1..<length ?nl + 1]"
      using n unfolding db_numbered_def by blast+
    have "db_domains db d \<noteq> None" if "d \<in> snd ` table_entries db" for d
      using that ok by (fastforce simp: db_ok_def)
    then have "?r \<notin> set ?nl" using nl0(2) fresh by blast
    note nl = nl0(1,2) this nl0(3)
    have "map (\<lambda>d. map_option dom_number (db_domains db3 d)) ?nl = map Some [1..<length ?nl + 1]"
      unfolding nl(4) [symmetric] using nl(3) cem(1) by (intro map_cong) (auto simp: dom3)
    moreover have "map_option dom_number (db_domains db3 ?r) = Some (length ?nl + 1)"
      using cer by (simp add: dom3 rm_def)
    moreover have "d < ?r + 1" if "db_domains db3 d \<noteq> None" for d
      using that n cem(1) by (fastforce simp: db_numbered_def dom3 split: if_splits)
    ultimately show ?thesis using nl by (auto simp: db_numbered_def numl tab(2) ent)
  qed
  have "wildcard_ok db3" unfolding wildcard_ok_def
  proof (intro allI impI)
    fix s d dm assume nd: "named db3 s d" and dm: "db_domains db3 d = Some dm"
    let ?goal = "\<exists>wl. named db3 wl (dom_wildcard_child_closest_match dm) \<and>
        (wl = s \<or> (\<exists>l. wl = l # s \<and> l \<le> star)) \<and>
        (\<forall>l c. named db3 (l # s) c \<longrightarrow> l \<le> star \<longrightarrow> rev (l # s) \<le> rev wl)"
    have "named db s d \<or> s = x # cl \<and> d = ?r" using nd unfolding nm .
    then show ?goal
    proof
      assume s: "s = x # cl \<and> d = ?r"
      have "\<not> named db3 (l # s) c" for l c
      proof
        assume "named db3 (l # s) c"
        then have "named db (l # x # cl) c" unfolding nm using s by auto
        then show False using named_ancestor [OF ok, of "[l]" "x # cl" c] new by auto
      qed
      moreover have "dm = rm" using dm cer s by (simp add: dom3 split: if_splits)
      then have "named db3 s (dom_wildcard_child_closest_match dm)" using s unfolding nm by (simp add: rm_def)
      ultimately show ?goal by blast
    next
      assume old: "named db s d"
      have dr: "d \<noteq> ?r" using named_in_domains [OF ok old] fresh by metis
      show ?goal
      proof (cases "d = ce")
        case True
        have s: "s = cl" using named_inject [OF ok old] ce True by simp
        show ?goal
        proof (cases "x \<le> star \<and> rev wl < rev (x # cl)")
          case upd: True
          have "dom_wildcard_child_closest_match dm = ?r" using dm True upd by (auto simp: dom3)
          moreover have "rev (l # cl) \<le> rev (x # cl)" if nc: "named db3 (l # cl) c" "l \<le> star" for l c
          proof -
            have "named db (l # cl) c \<or> l # cl = x # cl \<and> c = ?r" using nc(1) unfolding nm .
            then show ?thesis
            proof
              assume "named db (l # cl) c"
              from wl(3) [OF this nc(2)] upd show ?thesis by (meson order_less_imp_le order_trans)
            qed simp
          qed
          ultimately show ?goal using s upd unfolding nm by blast
        next
          case False
          have "dm = cem" using dm True False cem cer by (auto simp: dom3 split: if_splits)
          moreover have "rev (l # cl) \<le> rev wl" if nc: "named db3 (l # cl) c" "l \<le> star" for l c
          proof -
            have "named db (l # cl) c \<or> l # cl = x # cl \<and> c = ?r" using nc(1) unfolding nm .
            then show ?thesis
            proof
              assume "named db (l # cl) c"
              from wl(3) [OF this nc(2)] show ?thesis .
            qed (use False nc(2) in \<open>auto simp: not_less\<close>)
          qed
          ultimately show ?goal using s wl(1,2) unfolding nm by blast
        qed
      next
        case False
        have dmo: "db_domains db d = Some dm" using dm dr False by (auto simp: dom3 split: if_splits)
        have "s \<noteq> cl" using named_unique [OF ok ce] old False by auto
        then have ch: "named db3 (l # s) c \<longleftrightarrow> named db (l # s) c" for l c unfolding nm by auto
        obtain wl' where "named db wl' (dom_wildcard_child_closest_match dm)"
          "wl' = s \<or> (\<exists>l. wl' = l # s \<and> l \<le> star)"
          "\<forall>l c. named db (l # s) c \<longrightarrow> l \<le> star \<longrightarrow> rev (l # s) \<le> rev wl'"
          using w old dmo unfolding wildcard_ok_def by blast
        moreover from this(1) have "named db3 wl' (dom_wildcard_child_closest_match dm)" unfolding nm by blast
        ultimately show ?goal unfolding ch by blast
      qed
    qed
  qed
  with step ext num show thesis using that by blast
qed

definition db_inv :: "namedb \<Rightarrow> bool" where
  "db_inv db \<longleftrightarrow> db_ok db \<and> db_numbered db \<and> wildcard_ok db"

text \<open>Inserting one label after the other: the names added are the missing suffixes.\<close>

lemma insert_loop_spec:
  assumes "valid_labels ls"
  shows "db_inv db \<Longrightarrow> named db cl ce \<Longrightarrow> suffix cl ls \<Longrightarrow>
    (\<forall>s d. named db s d \<longrightarrow> suffix s ls \<longrightarrow> suffix s cl) \<Longrightarrow>
    \<exists>r db'. insert_loop (length ls - length cl) db (dname_of ls) ce = Some (r, db') \<and> db_inv db' \<and>
      named db' ls r \<and>
      (\<forall>s. (\<exists>d. named db' s d) \<longleftrightarrow> (\<exists>d. named db s d) \<or> suffix s ls) \<and>
      (\<forall>s d. named db s d \<longrightarrow> named db' s d)"
proof (induction "length ls - length cl" arbitrary: cl db ce)
  case 0
  then have "cl = ls" by (auto simp: suffix_def)
  then show ?case using 0 named_ancestor [of db] by (auto simp: db_inv_def suffix_def)
next
  case (Suc n)
  then obtain ys where ys: "ls = ys @ cl" by (auto simp: suffix_def)
  then have "ys \<noteq> []" using Suc.hyps(2) by auto
  then obtain zs x where "ys = zs @ [x]" by (metis rev_exhaust)
  then have x: "ls = zs @ x # cl" using ys by simp
  have new: "\<nexists>d. named db (x # cl) d"
  proof
    assume "\<exists>d. named db (x # cl) d"
    then have "suffix (x # cl) cl" using Suc.prems(4) x by (auto simp: suffix_def)
    then show False by (auto dest: suffix_length_le)
  qed
  have sx: "suffix (x # cl) ls" using x by (auto simp: suffix_def)
  obtain r db' where st: "insert_step db (dname_of ls) ce = Some (r, db')" "db_extends db (x # cl) r db'"
    "db_numbered db'" "wildcard_ok db'"
    using insert_step_spec [OF _ _ _ Suc.prems(2) assms sx new] Suc.prems(1) unfolding db_inv_def by metis
  note nm = db_extends_named [OF st(2)]
  have inv: "db_inv db'" using db_extends_ok [OF _ st(2)] st Suc.prems(1) by (simp add: db_inv_def)
  have n: "n = length ls - length (x # cl)" using Suc.hyps(2) x by simp
  have sub: "\<forall>s d. named db' s d \<longrightarrow> suffix s ls \<longrightarrow> suffix s (x # cl)"
    using Suc.prems(4) unfolding nm by (auto intro: suffix_ConsI)
  have r: "named db' (x # cl) r" unfolding nm by simp
  obtain r' db'' where IH: "insert_loop (length ls - length (x # cl)) db' (dname_of ls) r = Some (r', db'')"
    "db_inv db''" "named db'' ls r'"
    "\<And>s. (\<exists>d. named db'' s d) \<longleftrightarrow> (\<exists>d. named db' s d) \<or> suffix s ls"
    "\<And>s d. named db' s d \<Longrightarrow> named db'' s d"
    using Suc.hyps(1) [OF n inv r sx sub] by blast
  have "length ls - length cl = Suc (length ls - length (x # cl))" using x by simp
  then have "insert_loop (length ls - length cl) db (dname_of ls) ce = Some (r', db'')"
    using st(1) IH(1) by simp
  moreover have "(\<exists>d. named db'' s d) \<longleftrightarrow> (\<exists>d. named db s d) \<or> suffix s ls" for s
    unfolding IH(4) unfolding nm using sx by blast
  moreover have "named db'' s d" if "named db s d" for s d using IH(5) that unfolding nm by blast
  ultimately show ?case using IH(2,3) by blast
qed

lemma domain_table_insert_spec:
  assumes inv: "db_inv db" and v: "valid_labels ls"
  shows "\<exists>r db'. domain_table_insert db (dname_of ls) = Some (r, db') \<and> db_inv db' \<and> named db' ls r \<and>
    (\<forall>s. (\<exists>d. named db' s d) \<longleftrightarrow> (\<exists>d. named db s d) \<or> suffix s ls) \<and>
    (\<forall>s d. named db s d \<longrightarrow> named db' s d)"
proof -
  have ok: "db_ok db" using inv by (simp add: db_inv_def)
  obtain exact m ce ml cl where s: "domain_table_search db (dname_of ls) = Some (exact, m, ce)"
    "named db ml m" "named db cl ce" "exact \<longleftrightarrow> cl = ls" "exact \<longleftrightarrow> (\<exists>d. named db ls d)"
    "suffix cl ls" "suffix cl ml" "\<And>s d. named db s d \<Longrightarrow> suffix s ls \<Longrightarrow> suffix s cl"
    by (rule domain_table_search_spec [OF ok v]) blast
  obtain r db' where l: "insert_loop (length ls - length cl) db (dname_of ls) ce = Some (r, db')" "db_inv db'"
      "named db' ls r" "\<forall>s. (\<exists>d. named db' s d) \<longleftrightarrow> (\<exists>d. named db s d) \<or> suffix s ls"
      "\<forall>s d. named db s d \<longrightarrow> named db' s d"
    using insert_loop_spec [OF v inv s(3,6)] s(8) by blast
  show ?thesis
  proof (cases exact)
    case True
    then have "domain_table_insert db (dname_of ls) = Some (r, db')"
      using s(1,4) l(1) by (simp add: domain_table_insert_def)
    then show ?thesis using l by blast
  next
    case False
    have "length cl < length ls" using s(4,6) False by (metis suffix_length_less strict_suffix_def)
    then have "domain_table_insert db (dname_of ls) = Some (r, db')"
      using s(1) False named_dname [OF ok s(3)] l(1) by (simp add: domain_table_insert_def)
    then show ?thesis using l by blast
  qed
qed

text \<open>The wildcard child is the child whose first label is the asterisk.\<close>

lemma domain_wildcard_child_spec:
  assumes ok: "db_ok db" and w: "wildcard_ok db" and n: "named db ls d"
  shows "domain_wildcard_child db d = Some (if \<exists>c. named db (star # ls) c
     then Some (THE c. named db (star # ls) c) else None)"
proof -
  obtain dm where dm: "db_domains db d = Some dm" using named_in_domains [OF ok n] by blast
  obtain wl where wl: "named db wl (dom_wildcard_child_closest_match dm)"
    "wl = ls \<or> (\<exists>l. wl = l # ls \<and> l \<le> star)"
    "\<And>l c. named db (l # ls) c \<Longrightarrow> l \<le> star \<Longrightarrow> rev (l # ls) \<le> rev wl"
    using w n dm unfolding wildcard_ok_def by blast
  let ?w = "dom_wildcard_child_closest_match dm"
  have wn: "domain_dname db ?w = Some (dname_of wl)" using named_dname(1) [OF ok wl(1)] .
  have nm: "dname_name (dname_of wl) = wire wl" by (simp add: dname_of_def)
  have star: "label_is_wildcard (wire (l # ls)) = Some (l = star)" if "valid_label l" for l
  proof -
    have "(of_nat (length l) :: byte) = 1 \<longleftrightarrow> length l = 1"
      using valid_label_byte(1) [OF that] by (metis of_nat_1 unat_1)
    then show ?thesis using that
      by (cases l) (auto simp: label_is_wildcard_def star_def valid_label_def)
  qed
  show ?thesis
  proof (cases "\<exists>c. named db (star # ls) c")
    case True
    then obtain c where c: "named db (star # ls) c" by blast
    have "rev (star # ls) \<le> rev wl" using wl(3) [OF c] by simp
    then have "wl = star # ls" using wl(2)
    proof (elim disjE exE conjE)
      assume "wl = ls" and le: "rev (star # ls) \<le> rev wl"
      then have "rev ls @ [star] \<le> rev ls" by simp
      then show ?thesis using prefix_le [of "rev ls" "rev ls @ [star]"] by (metis append_self_conv not_Cons_self order_antisym prefixI)
    next
      fix l assume "wl = l # ls" "l \<le> star" and le: "rev (star # ls) \<le> rev wl"
      then have "[star] \<le> [l]" by (simp only: rev.simps lex_append_le)
      then show ?thesis using \<open>wl = l # ls\<close> \<open>l \<le> star\<close> by (auto dest: order_antisym)
    qed
    then have wc: "named db (star # ls) ?w" using wl(1) by simp
    have "?w \<noteq> d" using named_inject [OF ok wc] n by (metis not_Cons_self)
    moreover have "(THE c. named db (star # ls) c) = ?w"
      using wc named_unique [OF ok] by blast
    ultimately show ?thesis using dm wn True \<open>wl = star # ls\<close> nm star [of star] valid_labels_hd [OF named_valid [OF wc]]
      by (simp add: domain_wildcard_child_def Let_def)
  next
    case False
    have "domain_wildcard_child db d = Some None"
    proof (cases "wl = ls")
      case True
      then have "?w = d" using named_unique [OF ok] wl(1) n by blast
      then show ?thesis using dm wn by (simp add: domain_wildcard_child_def Let_def)
    next
      case ne: False
      then obtain l where l: "wl = l # ls" using wl(2) by blast
      have "l \<noteq> star" using False wl(1) l by blast
      then show ?thesis using dm wn nm l star [of l] valid_labels_hd [OF named_valid [OF wl(1) [unfolded l]]]
        by (simp add: domain_wildcard_child_def Let_def)
    qed
    then show ?thesis using False by simp
  qed
qed

lemma domain_table_create_inv:
  "\<exists>db. domain_table_create = Some db \<and> db_inv db \<and> (\<forall>ls d. named db ls d \<longleftrightarrow> ls = [] \<and> d = 0)"
proof -
  have mk: "dname_make [0] False = Some (Some (dname_of []))"
    using dname_make_of_wire [of "[]" "[]" False] by (simp add: norm_labels_def)
  define t where "t = \<lparr>rb_root = rbnode BLACK RBTREE_NULL (dname_of [], 0::nat) RBTREE_NULL, rb_count = 1\<rparr>"
  define db where "db = \<lparr>db_domains = [0 \<mapsto> \<lparr>dom_dname = dname_of [], dom_parent = None,
      dom_wildcard_child_closest_match = 0, dom_rrsets = [], dom_number = 1, dom_usage = 1,
      dom_is_existing = False, dom_is_apex = False, dom_temp = False\<rparr>],
    db_rrsets = (\<lambda>_. None), db_zones = (\<lambda>_. None),
    db_table = \<lparr>dt_names = t, dt_root = 0, dt_numlist = [0]\<rparr>, db_zonetree = (\<lambda>_. None), db_next = 1\<rparr>"
  have c: "domain_table_create = Some db"
    by (simp add: domain_table_create_def mk Let_def rbtree_insert_def rbtree_create_def db_def t_def)
  have ent: "table_entries db = {(dname_of [], 0)}" by (simp add: table_entries_def db_def t_def)
  have nm: "named db ls d \<longleftrightarrow> ls = [] \<and> d = 0" for ls d by (auto simp: named_def ent)
  have tree: "valid_rbtree wf_dname dname_rank fst (dt_names (db_table db))"
    by (simp add: db_def t_def valid_rbtree_def rb_tree_def ordered_def)
  have "db_ok db" unfolding db_ok_def nm ent using tree by (simp add: db_def)
  moreover have "db_numbered db" by (simp add: db_numbered_def ent) (simp add: db_def)
  moreover have "wildcard_ok db" unfolding wildcard_ok_def nm by (simp add: db_def)
  ultimately show ?thesis using c nm by (auto simp: db_inv_def)
qed

subsection \<open>Adding RRsets keeps the table\<close>

definition dom_skeleton :: "domain \<Rightarrow> dname \<times> domain_id option \<times> domain_id \<times> nat" where
  "dom_skeleton dm = (dom_dname dm, dom_parent dm, dom_wildcard_child_closest_match dm, dom_number dm)"

text \<open>Two databases that differ only in the RRsets and flags of their domains.\<close>

definition db_same :: "namedb \<Rightarrow> namedb \<Rightarrow> bool" where
  "db_same db db' \<longleftrightarrow> db_table db' = db_table db \<and> db_next db' = db_next db \<and>
     (\<forall>d. map_option dom_skeleton (db_domains db' d) = map_option dom_skeleton (db_domains db d))"

lemma db_same_refl [simp]: "db_same db db"
  by (simp add: db_same_def)

lemma db_same_trans: "db_same a b \<Longrightarrow> db_same b c \<Longrightarrow> db_same a c"
  by (simp add: db_same_def)

lemma db_same_named [simp]: "db_same db db' \<Longrightarrow> named db' ls d \<longleftrightarrow> named db ls d"
  by (simp add: db_same_def named_def table_entries_def)

lemma db_same_domain:
  assumes "db_same db db'" "db_domains db' d = Some dm'"
  obtains dm where "db_domains db d = Some dm" "dom_skeleton dm = dom_skeleton dm'"
proof -
  have "map_option dom_skeleton (db_domains db' d) = map_option dom_skeleton (db_domains db d)"
    using assms(1) by (simp add: db_same_def)
  then show thesis using that assms(2) by (cases "db_domains db d") auto
qed

lemma db_same_sym: "db_same db db' \<Longrightarrow> db_same db' db"
  by (simp add: db_same_def)

lemma db_same_inv:
  assumes inv: "db_inv db" and same: "db_same db db'"
  shows "db_inv db'"
proof -
  note nm = db_same_named [OF same]
  have tab: "table_entries db' = table_entries db" "db_table db' = db_table db" "db_next db' = db_next db"
    using same by (simp_all add: db_same_def table_entries_def)
  have ok: "db_ok db" and num: "db_numbered db" and w: "wildcard_ok db" using inv by (auto simp: db_inv_def)
  have "db_ok db'" unfolding db_ok_def nm tab
  proof (intro conjI allI impI)
    fix n d assume "(n, d) \<in> table_entries db"
    then obtain dm where dm: "db_domains db d = Some dm" "dom_dname dm = n" using ok by (auto simp: db_ok_def)
    obtain dm' where "db_domains db' d = Some dm'" "dom_skeleton dm' = dom_skeleton dm"
      using db_same_domain [OF db_same_sym [OF same] dm(1)] .
    then show "\<exists>dm. db_domains db' d = Some dm \<and> dom_dname dm = n" using dm by (auto simp: dom_skeleton_def)
  next
    fix d dm assume a: "named db [] d" "db_domains db' d = Some dm"
    obtain dm0 where "db_domains db d = Some dm0" "dom_skeleton dm0 = dom_skeleton dm"
      using db_same_domain [OF same a(2)] .
    then show "dom_parent dm = None" using ok a(1) unfolding db_ok_def by (auto simp: dom_skeleton_def)
  next
    fix l ls d dm assume a: "named db (l # ls) d" "db_domains db' d = Some dm"
    obtain dm0 where dm0: "db_domains db d = Some dm0" "dom_skeleton dm0 = dom_skeleton dm"
      using db_same_domain [OF same a(2)] .
    have "dom_parent dm = dom_parent dm0" using dm0(2) by (simp add: dom_skeleton_def)
    then show "\<exists>p. dom_parent dm = Some p \<and> named db ls p"
      using ok a(1) dm0(1) unfolding db_ok_def by metis
  qed (use ok in \<open>auto simp: db_ok_def\<close>)
  moreover have "db_numbered db'"
  proof -
    have "map_option dom_number (db_domains db' d) = map_option dom_number (db_domains db d)" for d
    proof -
      have "map_option dom_skeleton (db_domains db' d) = map_option dom_skeleton (db_domains db d)"
        using same by (simp add: db_same_def)
      then show ?thesis by (cases "db_domains db d"; cases "db_domains db' d") (auto simp: dom_skeleton_def)
    qed
    moreover have "db_domains db' d \<noteq> None \<longleftrightarrow> db_domains db d \<noteq> None" for d
      using same by (metis (no_types, lifting) db_same_def option.map_disc_iff)
    ultimately show ?thesis using num by (simp add: db_numbered_def tab)
  qed
  moreover have "wildcard_ok db'" unfolding wildcard_ok_def nm
  proof (intro allI impI)
    fix ls d dm assume a: "named db ls d" "db_domains db' d = Some dm"
    obtain dm0 where dm0: "db_domains db d = Some dm0" "dom_skeleton dm0 = dom_skeleton dm"
      using db_same_domain [OF same a(2)] .
    then have "dom_wildcard_child_closest_match dm0 = dom_wildcard_child_closest_match dm"
      by (simp add: dom_skeleton_def)
    then show "\<exists>wl. named db wl (dom_wildcard_child_closest_match dm) \<and>
        (wl = ls \<or> (\<exists>l. wl = l # ls \<and> l \<le> star)) \<and>
        (\<forall>l c. named db (l # ls) c \<longrightarrow> l \<le> star \<longrightarrow> rev (l # ls) \<le> rev wl)"
      using w a(1) dm0(1) unfolding wildcard_ok_def by metis
  qed
  ultimately show ?thesis by (simp add: db_inv_def)
qed

lemma db_same_set_domain:
  "db_domains db d = Some dm \<Longrightarrow> dom_skeleton dm' = dom_skeleton dm \<Longrightarrow> db_same db (set_domain d dm' db)"
  by (simp add: db_same_def set_domain_def)

lemma update_wildcard_match_same:
  assumes inv: "db_inv db" and c: "named db (x # cl) c" and p: "named db cl p"
  shows "update_wildcard_match db p c = Some db"
proof -
  have ok: "db_ok db" and w: "wildcard_ok db" using inv by (auto simp: db_inv_def)
  obtain dm where dm: "db_domains db p = Some dm" using named_in_domains [OF ok p] by blast
  obtain wl where wl: "named db wl (dom_wildcard_child_closest_match dm)"
    "\<And>l c. named db (l # cl) c \<Longrightarrow> l \<le> star \<Longrightarrow> rev (l # cl) \<le> rev wl"
    using w p dm unfolding wildcard_ok_def by blast
  have "\<not> (x \<le> star \<and> rev wl < rev (x # cl))" using wl(2) [OF c] by (auto simp: not_less)
  then show ?thesis
    using update_wildcard_match_spec [OF named_dname(1) [OF ok c] dm named_dname(1) [OF ok wl(1)]
        named_valid [OF c] named_valid [OF wl(1)]] by (simp only: if_False)
qed

definition existing :: "namedb \<Rightarrow> domain_id \<Rightarrow> bool" where
  "existing db d \<longleftrightarrow> (\<exists>dm. db_domains db d = Some dm \<and> dom_is_existing dm)"

text \<open>Among the ancestors of \<open>ls\<close>, a domain exists when one of its children does.\<close>

definition existing_closed :: "namedb \<Rightarrow> byte list list \<Rightarrow> bool" where
  "existing_closed db ls \<longleftrightarrow> (\<forall>l s c p. suffix (l # s) ls \<longrightarrow> named db (l # s) c \<longrightarrow> named db s p \<longrightarrow>
     existing db c \<longrightarrow> existing db p)"

lemma existing_path:
  assumes ok: "db_ok db" and cl: "existing_closed db ls"
  shows "suffix (xs @ s) ls \<Longrightarrow> named db (xs @ s) d \<Longrightarrow> named db s c \<Longrightarrow> existing db d \<Longrightarrow> existing db c"
proof (induction xs arbitrary: d)
  case Nil
  then show ?case using named_unique [OF ok] by auto
next
  case (Cons x xs)
  obtain p where p: "named db (xs @ s) p" using named_parent(2) [OF ok, of x "xs @ s" d] Cons.prems(2) by auto
  have "existing db p" using cl Cons.prems p unfolding existing_closed_def by (metis append_Cons)
  moreover have "suffix (xs @ s) ls" using Cons.prems(1) by (auto simp: suffix_def)
  ultimately show ?case using Cons.IH [OF _ p Cons.prems(3)] by blast
qed

text \<open>
  \<open>make_existing\<close> sets the flag on the domain and all its ancestors. The loop may stop at
  the first existing one because above an existing domain all domains exist.
\<close>

lemma make_existing_spec:
  "db_inv db \<Longrightarrow> named db ls d \<Longrightarrow> existing_closed db ls \<Longrightarrow>
    \<exists>db'. make_existing db d = Some db' \<and> db_same db db' \<and>
      (\<forall>s c. named db s c \<longrightarrow> (existing db' c \<longleftrightarrow> existing db c \<or> suffix s ls)) \<and>
      (\<forall>c. map_option dom_rrsets (db_domains db' c) = map_option dom_rrsets (db_domains db c))"
proof (induction ls arbitrary: db d)
  case Nil
  have ok: "db_ok db" using Nil.prems(1) by (simp add: db_inv_def)
  obtain dm where dm: "db_domains db d = Some dm" using named_in_domains [OF ok Nil.prems(2)] by blast
  let ?db = "if dom_is_existing dm then db else set_domain d (dm\<lparr>dom_is_existing := True\<rparr>) db"
  have "make_existing db d = Some ?db"
    using dm named_parent(1) [OF ok Nil.prems(2)] by (subst make_existing.simps) (simp add: Let_def)
  moreover have "db_same db ?db" using dm by (auto intro!: db_same_set_domain simp: dom_skeleton_def)
  moreover have "existing ?db c \<longleftrightarrow> existing db c \<or> suffix s []" if "named db s c" for s c
    using that dm named_unique [OF ok Nil.prems(2)] named_inject [OF ok Nil.prems(2)]
    by (auto simp: existing_def set_domain_def)
  moreover have "map_option dom_rrsets (db_domains ?db c) = map_option dom_rrsets (db_domains db c)" for c
    using dm by (auto simp: set_domain_def)
  ultimately show ?case by blast
next
  case (Cons l ls)
  have ok: "db_ok db" using Cons.prems(1) by (simp add: db_inv_def)
  obtain dm where dm: "db_domains db d = Some dm" using named_in_domains [OF ok Cons.prems(2)] by blast
  show ?case
  proof (cases "dom_is_existing dm")
    case True
    then have "make_existing db d = Some db" using dm by (subst make_existing.simps) simp
    moreover have "existing db c" if sc: "named db s c" "suffix s (l # ls)" for s c
    proof -
      obtain xs where xs: "l # ls = xs @ s" using sc(2) by (auto simp: suffix_def)
      show ?thesis
        by (rule existing_path [OF ok Cons.prems(3), of xs s d c])
          (use Cons.prems sc xs True dm in \<open>auto simp: existing_def\<close>)
    qed
    ultimately show ?thesis by auto
  next
    case False
    obtain p where p: "domain_parent db d = Some (Some p)" "named db ls p"
      using named_parent(2) [OF ok Cons.prems(2)] by blast
    define db1 where "db1 = set_domain d (dm\<lparr>dom_is_existing := True\<rparr>) db"
    have same: "db_same db db1" unfolding db1_def using dm by (intro db_same_set_domain) (auto simp: dom_skeleton_def)
    note nm = db_same_named [OF same]
    have inv1: "db_inv db1" using db_same_inv [OF Cons.prems(1) same] .
    have pd: "p \<noteq> d" using named_inject [OF ok p(2)] Cons.prems(2) by (metis not_Cons_self)
    have ex1: "existing db1 c \<longleftrightarrow> existing db c \<or> c = d" for c
      using dm by (auto simp: existing_def db1_def set_domain_def)
    have upd: "update_wildcard_match db1 p d = Some db1"
      using update_wildcard_match_same [OF inv1] Cons.prems(2) p(2) unfolding nm by blast
    have lab: "domain_labels db1 p < domain_labels db d"
      using named_dname(2) [OF _ p(2) [folded nm]] named_dname(2) [OF ok Cons.prems(2)] inv1 by (simp add: db_inv_def)
    have pre: "existing_closed db1 ls" unfolding existing_closed_def
    proof (intro allI impI)
      fix l' s c p' assume that: "suffix (l' # s) ls" "named db1 (l' # s) c" "named db1 s p'" "existing db1 c"
      have "c \<noteq> d" using named_inject [OF ok Cons.prems(2)] that(1,2) unfolding nm
        by (metis length_Cons not_less_eq suffix_length_le lessI order_less_le_trans)
      moreover have "suffix (l' # s) (l # ls)" using that(1) by (simp add: suffix_Cons)
      ultimately show "existing db1 p'" using that Cons.prems(3) unfolding nm ex1 existing_closed_def by blast
    qed
    obtain db' where IH: "make_existing db1 p = Some db'" "db_same db1 db'"
      "\<And>s c. named db1 s c \<Longrightarrow> (existing db' c \<longleftrightarrow> existing db1 c \<or> suffix s ls)"
      "\<And>c. map_option dom_rrsets (db_domains db' c) = map_option dom_rrsets (db_domains db1 c)"
      using Cons.IH [OF inv1 p(2) [folded nm] pre] by blast
    have "make_existing db d = Some db'"
      using dm False p(1) upd lab IH(1) unfolding db1_def by (subst make_existing.simps) (simp add: Let_def)
    moreover have "db_same db db'" using db_same_trans [OF same IH(2)] .
    moreover have "existing db' c \<longleftrightarrow> existing db c \<or> suffix s (l # ls)" if "named db s c" for s c
      using IH(3) [OF that [folded nm]] named_unique [OF ok Cons.prems(2)] named_inject [OF ok Cons.prems(2)] that
      unfolding ex1 by (auto simp: suffix_Cons)
    moreover have "map_option dom_rrsets (db_domains db' c) = map_option dom_rrsets (db_domains db c)" for c
      unfolding IH(4) using dm by (auto simp: db1_def set_domain_def)
    ultimately show ?thesis by blast
  qed
qed

lemma domain_add_rrset_spec:
  assumes inv: "db_inv db" and n: "named db ls d" and cl: "existing_closed db ls"
    and dm: "db_domains db d = Some dm"
  shows "\<exists>db' dm'. domain_add_rrset db d r = Some db' \<and> db_inv db' \<and>
    (\<forall>s c. named db' s c \<longleftrightarrow> named db s c) \<and>
    (\<forall>s c. named db s c \<longrightarrow> (existing db' c \<longleftrightarrow> existing db c \<or> suffix s ls)) \<and>
    db_domains db' d = Some dm' \<and> dom_rrsets dm' = dom_rrsets dm @ [r]"
proof -
  define db1 where "db1 = set_domain d (dm\<lparr>dom_rrsets := dom_rrsets dm @ [r]\<rparr>) db"
  have same: "db_same db db1" unfolding db1_def using dm by (intro db_same_set_domain) (auto simp: dom_skeleton_def)
  note nm = db_same_named [OF same]
  have ex: "existing db1 c \<longleftrightarrow> existing db c" for c using dm by (auto simp: existing_def db1_def set_domain_def)
  have cl1: "existing_closed db1 ls" using cl unfolding existing_closed_def nm ex .
  obtain db' where db': "make_existing db1 d = Some db'" "db_same db1 db'"
    "\<And>s c. named db1 s c \<Longrightarrow> (existing db' c \<longleftrightarrow> existing db1 c \<or> suffix s ls)"
    "\<And>c. map_option dom_rrsets (db_domains db' c) = map_option dom_rrsets (db_domains db1 c)"
    using make_existing_spec [OF db_same_inv [OF inv same] n [folded nm] cl1] by blast
  have "domain_add_rrset db d r = Some db'" using dm db'(1) by (simp add: domain_add_rrset_def db1_def)
  moreover have "db_inv db'" using db_same_inv [OF inv db_same_trans [OF same db'(2)]] .
  moreover have "named db' s c \<longleftrightarrow> named db s c" for s c using db_same_named [OF db_same_trans [OF same db'(2)]] .
  moreover have "existing db' c \<longleftrightarrow> existing db c \<or> suffix s ls" if "named db s c" for s c
    using db'(3) [OF that [folded nm]] unfolding ex .
  moreover obtain dm' where "db_domains db' d = Some dm'" "dom_rrsets dm' = dom_rrsets dm @ [r]"
    using db'(4) [of d] by (cases "db_domains db' d") (auto simp: db1_def set_domain_def)
  ultimately show ?thesis by blast
qed

end
