(* ===== verification/Encode.thy ===== *)
theory Encode
  imports Dns_Types Edns Tsig Namedb
begin

text \<open>
  The query structure (\<open>query.h\<close>), the tables for name compression (\<open>query.c\<close>), the encoding of
  records into the answer packet (\<open>packet.c\<close>) and the list of RRsets of an answer with its encoding
  (\<open>answer.h\<close>, \<open>answer.c\<close>), in the configuration with \<open>MINIMAL_RESPONSES\<close>, \<open>INET6\<close> and
  \<open>RATELIMIT\<close>.

  A query is compiled against a name database, which is a further argument. The array
  \<open>compressed_dnames\<close> is a stack with the name entered last at the head of the list;
  \<open>compressed_dname_count\<close> is its length.
\<close>

definition MAXRRSPP :: nat where "MAXRRSPP = 10240"
definition MAX_COMPRESSED_DNAMES :: nat where "MAX_COMPRESSED_DNAMES = MAXRRSPP"
definition MAX_COMPRESSION_OFFSET :: nat where "MAX_COMPRESSION_OFFSET = 16383"
definition IPV4_MINIMAL_RESPONSE_SIZE :: nat where "IPV4_MINIMAL_RESPONSE_SIZE = 1480"
definition IPV6_MINIMAL_RESPONSE_SIZE :: nat where "IPV6_MINIMAL_RESPONSE_SIZE = 1220"

type_synonym rr_section = nat

definition ANSWER_SECTION :: rr_section where "ANSWER_SECTION = 1"
definition AUTHORITY_SECTION :: rr_section where "AUTHORITY_SECTION = 2"
definition OPTIONAL_AUTHORITY_SECTION :: rr_section where "OPTIONAL_AUTHORITY_SECTION = 3"
definition ADDITIONAL_A_SECTION :: rr_section where "ADDITIONAL_A_SECTION = 4"
definition ADDITIONAL_AAAA_SECTION :: rr_section where "ADDITIONAL_AAAA_SECTION = 5"
definition ADDITIONAL_OTHER_SECTION :: rr_section where "ADDITIONAL_OTHER_SECTION = 6"
definition RR_SECTION_COUNT :: rr_section where "RR_SECTION_COUNT = 7"

lemmas section_defs = ANSWER_SECTION_def AUTHORITY_SECTION_def OPTIONAL_AUTHORITY_SECTION_def
  ADDITIONAL_A_SECTION_def ADDITIONAL_AAAA_SECTION_def ADDITIONAL_OTHER_SECTION_def RR_SECTION_COUNT_def

text \<open>The socket address of a client: the octets of the address and the port.\<close>

datatype sockaddr = sockaddr_in "byte list" u16 | sockaddr_in6 "byte list" u16

definition is_in6 :: "sockaddr \<Rightarrow> bool" where
  "is_in6 a = (case a of sockaddr_in6 _ _ \<Rightarrow> True | sockaddr_in _ _ \<Rightarrow> False)"

record 'c query =
  q_addr :: sockaddr
  q_maxlen :: nat
  q_reserved_space :: nat
  q_edns :: edns_record
  q_tsig :: "'c tsig_record"
  q_tsig_prepare_it :: bool
  q_tsig_update_it :: bool
  q_tsig_sign_it :: bool
  q_tcp :: bool
  q_packet :: buffer
  q_qname :: "dname option"
  q_qtype :: u16
  q_qclass :: u16
  q_zone :: "zone_id option"
  q_delegation_domain :: "domain_id option"
  q_delegation_rrset :: "rrset_id option"
  q_opcode :: byte
  q_cname_count :: nat
  q_compressed_dnames :: "domain_id list"
  q_compressed_dname_offsets :: "u16 list"
  q_compressed_dname_offsets_size :: nat
  q_number_temporary_domains :: nat
  q_axfr_is_done :: bool
  q_axfr_zone :: "zone_id option"
  q_axfr_current_domain :: "domain_id option"
  q_axfr_current_rrset :: "rrset_id option"
  q_axfr_current_rr :: nat
  q_wildcard_domain :: "domain_id option"

text \<open>The difference is computed as a \<open>size_t\<close>.\<close>

definition query_overflow :: "'c query \<Rightarrow> bool" where
  "query_overflow q \<longleftrightarrow>
     buf_position (q_packet q) > nat ((int (q_maxlen q) - int (q_reserved_space q)) mod 2 ^ 64)"

subsection \<open>The compression tables\<close>

definition domain_number :: "namedb \<Rightarrow> domain_id \<Rightarrow> nat option" where
  "domain_number db d = map_option dom_number (db_domains db d)"

definition query_get_dname_offset :: "namedb \<Rightarrow> 'c query \<Rightarrow> domain_id \<Rightarrow> u16 option" where
  "query_get_dname_offset db q d = do {
     n \<leftarrow> domain_number db d;
     mem_get (q_compressed_dname_offsets q) n }"

definition query_put_dname_offset :: "namedb \<Rightarrow> 'c query \<Rightarrow> domain_id \<Rightarrow> u16 \<Rightarrow> 'c query option" where
  "query_put_dname_offset db q d offset = do {
     n \<leftarrow> domain_number db d;
     assert_c (n > 0);
     if unat offset > MAX_COMPRESSION_OFFSET then Some q
     else if length (q_compressed_dnames q) \<ge> MAX_COMPRESSED_DNAMES then Some q
     else do {
       assert_c (n < length (q_compressed_dname_offsets q));
       Some (q\<lparr>q_compressed_dname_offsets := (q_compressed_dname_offsets q)[n := offset],
               q_compressed_dnames := d # q_compressed_dnames q\<rparr>) } }"

fun clear_offsets :: "namedb \<Rightarrow> nat \<Rightarrow> domain_id list \<Rightarrow> u16 list \<Rightarrow> (domain_id list \<times> u16 list) option" where
  "clear_offsets db max_offset [] offs = Some ([], offs)"
| "clear_offsets db max_offset (d # ds) offs = do {
     n \<leftarrow> domain_number db d;
     v \<leftarrow> mem_get offs n;
     if unat v \<ge> max_offset then clear_offsets db max_offset ds (offs[n := 0])
     else Some (d # ds, offs) }"

definition query_clear_dname_offsets :: "namedb \<Rightarrow> 'c query \<Rightarrow> nat \<Rightarrow> 'c query option" where
  "query_clear_dname_offsets db q max_offset = do {
     (ds, offs) \<leftarrow> clear_offsets db max_offset (q_compressed_dnames q) (q_compressed_dname_offsets q);
     Some (q\<lparr>q_compressed_dnames := ds, q_compressed_dname_offsets := offs\<rparr>) }"

fun zero_offsets :: "namedb \<Rightarrow> domain_id list \<Rightarrow> u16 list \<Rightarrow> u16 list option" where
  "zero_offsets db [] offs = Some offs"
| "zero_offsets db (d # ds) offs = do {
     n \<leftarrow> domain_number db d;
     assert_c (n < length offs);
     zero_offsets db ds (offs[n := 0]) }"

definition query_clear_compression_tables :: "namedb \<Rightarrow> 'c query \<Rightarrow> 'c query option" where
  "query_clear_compression_tables db q = do {
     offs \<leftarrow> zero_offsets db (q_compressed_dnames q) (q_compressed_dname_offsets q);
     Some (q\<lparr>q_compressed_dname_offsets := offs, q_compressed_dnames := []\<rparr>) }"

function query_add_compression_domain :: "namedb \<Rightarrow> 'c query \<Rightarrow> domain_id \<Rightarrow> u16 \<Rightarrow> 'c query option" where
  "query_add_compression_domain db q d offset = do {
     p \<leftarrow> domain_parent db d;
     case p of None \<Rightarrow> Some q
     | Some p \<Rightarrow> do {
         q \<leftarrow> query_put_dname_offset db q d offset;
         dn \<leftarrow> domain_dname db d;
         len \<leftarrow> label_length (dname_name dn);
         query_add_compression_domain db q p (offset + of_nat (len + 1)) } }"
  by pat_completeness auto
termination
  by (relation "measure (\<lambda>(db, q, d, off). domain_labels db d)") (auto simp: domain_parent_labels)

declare query_add_compression_domain.simps [simp del]

subsection \<open>Encoding names and records\<close>

definition put_packet :: "'c query \<Rightarrow> buffer option \<Rightarrow> 'c query option" where
  "put_packet q r = map_option (\<lambda>p. q\<lparr>q_packet := p\<rparr>) r"

function encode_dname :: "namedb \<Rightarrow> 'c query \<Rightarrow> domain_id \<Rightarrow> 'c query option" where
  "encode_dname db q d = do {
     p \<leftarrow> domain_parent db d;
     case p of None \<Rightarrow> put_packet q (buffer_write_u8 (q_packet q) 0)
     | Some p \<Rightarrow> do {
         off \<leftarrow> query_get_dname_offset db q d;
         if off = 0 then do {
           q \<leftarrow> query_put_dname_offset db q d (of_nat (buf_position (q_packet q)));
           dn \<leftarrow> domain_dname db d;
           len \<leftarrow> label_length (dname_name dn);
           assert_c (len + 1 \<le> length (dname_name dn));
           q \<leftarrow> put_packet q (buffer_write (q_packet q) (take (len + 1) (dname_name dn)));
           encode_dname db q p }
         else do {
           assert_c (unat off \<le> MAX_COMPRESSION_OFFSET);
           put_packet q (buffer_write_u16 (q_packet q) (0xc000 OR off)) } } }"
  by pat_completeness auto
termination
  by (relation "measure (\<lambda>(db, q, d). domain_labels db d)") (auto simp: domain_parent_labels)

declare encode_dname.simps [simp del]

definition encode_rdata :: "namedb \<Rightarrow> 'c query \<Rightarrow> rdata_wireformat \<Rightarrow> rdata_atom \<Rightarrow> 'c query option" where
  "encode_rdata db q fmt a =
     (case a of
        atom_domain d \<Rightarrow>
          (if fmt = RDATA_WF_COMPRESSED_DNAME then encode_dname db q d
           else if fmt = RDATA_WF_UNCOMPRESSED_DNAME then do {
             dn \<leftarrow> domain_dname db d;
             put_packet q (buffer_write (q_packet q) (dname_name dn)) }
           else None)
      | atom_data bs \<Rightarrow>
          (if fmt = RDATA_WF_COMPRESSED_DNAME \<or> fmt = RDATA_WF_UNCOMPRESSED_DNAME then None
           else put_packet q (buffer_write (q_packet q) bs)))"

fun encode_rdatas :: "namedb \<Rightarrow> 'c query \<Rightarrow> u16 \<Rightarrow> nat \<Rightarrow> rdata_atom list \<Rightarrow> 'c query option" where
  "encode_rdatas db q ty j [] = Some q"
| "encode_rdatas db q ty j (a # as) = do {
     fmt \<leftarrow> rdata_atom_wireformat_type ty j;
     q \<leftarrow> encode_rdata db q fmt a;
     encode_rdatas db q ty (j + 1) as }"

text \<open>The result is whether the record was added.\<close>

definition packet_encode_rr :: "namedb \<Rightarrow> 'c query \<Rightarrow> domain_id \<Rightarrow> rr \<Rightarrow> u32 \<Rightarrow> (bool \<times> 'c query) option" where
  "packet_encode_rr db q owner r ttl = do {
     let truncation_mark = buf_position (q_packet q);
     q \<leftarrow> encode_dname db q owner;
     q \<leftarrow> put_packet q (buffer_write_u16 (q_packet q) (rr_type r));
     q \<leftarrow> put_packet q (buffer_write_u16 (q_packet q) (rr_klass r));
     q \<leftarrow> put_packet q (buffer_write_u32 (q_packet q) ttl);
     let rdlength_pos = buf_position (q_packet q);
     q \<leftarrow> put_packet q (buffer_skip (q_packet q) 2);
     q \<leftarrow> encode_rdatas db q (rr_type r) 0 (rr_rdatas r);
     if \<not> query_overflow q then do {
       q \<leftarrow> put_packet q (buffer_write_u16_at (q_packet q) rdlength_pos
              (of_nat (buf_position (q_packet q) - rdlength_pos - 2)));
       Some (True, q) }
     else do {
       q \<leftarrow> put_packet q (buffer_set_position (q_packet q) truncation_mark);
       q \<leftarrow> query_clear_dname_offsets db q truncation_mark;
       assert_c (\<not> query_overflow q);
       Some (False, q) } }"

text \<open>The loops over records stop at the first that does not fit.\<close>

fun encode_rrs :: "namedb \<Rightarrow> 'c query \<Rightarrow> domain_id \<Rightarrow> rr list \<Rightarrow> nat \<Rightarrow> (bool \<times> nat \<times> 'c query) option" where
  "encode_rrs db q owner [] added = Some (True, added, q)"
| "encode_rrs db q owner (r # rs) added = do {
     (ok, q) \<leftarrow> packet_encode_rr db q owner r (rr_ttl r);
     if ok then encode_rrs db q owner rs (added + 1) else Some (False, added, q) }"

fun encode_sigs :: "namedb \<Rightarrow> 'c query \<Rightarrow> domain_id \<Rightarrow> u16 \<Rightarrow> u32 option \<Rightarrow> rr list \<Rightarrow> nat \<Rightarrow> (bool \<times> nat \<times> 'c query) option" where
  "encode_sigs db q owner ty ttl [] added = Some (True, added, q)"
| "encode_sigs db q owner ty ttl (r # rs) added = do {
     cov \<leftarrow> rr_rrsig_type_covered r;
     if cov = ty then do {
       (ok, q) \<leftarrow> packet_encode_rr db q owner r (case ttl of Some t \<Rightarrow> t | None \<Rightarrow> rr_ttl r);
       if ok then encode_sigs db q owner ty ttl rs (added + 1) else Some (False, added, q) }
     else encode_sigs db q owner ty ttl rs added }"

definition truncate_to :: "namedb \<Rightarrow> 'c query \<Rightarrow> nat \<Rightarrow> 'c query option" where
  "truncate_to db q mark = do {
     q \<leftarrow> put_packet q (buffer_set_position (q_packet q) mark);
     query_clear_dname_offsets db q mark }"

text \<open>
  \<open>robin\<close> is \<open>Some\<close> of the counter \<open>round_robin_off\<close> when the option \<open>round-robin\<close> is set. The
  result is the number of records added, the flag \<open>done\<close> and the counter.
\<close>

definition packet_encode_rrset ::
  "namedb \<Rightarrow> 'c query \<Rightarrow> domain_id \<Rightarrow> rrset_id \<Rightarrow> rr_section \<Rightarrow> nat \<Rightarrow> bool \<Rightarrow> nat option \<Rightarrow>
     (nat \<times> bool \<times> nat option \<times> 'c query) option" where
  "packet_encode_rrset db q owner rsid section minimal_respsize done robin = do {
     rset \<leftarrow> db_rrsets db rsid;
     let rrs = rs_rrs rset;
     let minimize_response = (section \<ge> OPTIONAL_AUTHORITY_SECTION);
     let truncate_rrset = (section = ANSWER_SECTION \<or> section = AUTHORITY_SECTION);
     let do_robin = (robin \<noteq> None \<and> section = ANSWER_SECTION \<and> q_qtype q \<noteq> TYPE_AXFR \<and> q_qtype q \<noteq> TYPE_IXFR);
     assert_c (length rrs > 0);
     let truncation_mark = buf_position (q_packet q);
     let start = (if do_robin then the robin mod length rrs else 0);
     let robin = (if do_robin then map_option Suc robin else robin);
     (all_added, added, q) \<leftarrow> encode_rrs db q owner (drop start rrs) 0;
     (all_added, added, q) \<leftarrow> (if all_added then encode_rrs db q owner (take start rrs) added
                               else Some (all_added, added, q));
     ty \<leftarrow> rrset_rrtype rset;
     sigs \<leftarrow> (if all_added \<and> ed_dnssec_ok (q_edns q) \<noteq> 0 then do {
               secure \<leftarrow> zone_is_secure db (rs_zone rset);
               if secure \<and> ty \<noteq> TYPE_RRSIG then domain_find_rrset db owner (rs_zone rset) TYPE_RRSIG else Some None }
             else Some None);
     (all_added, added, q) \<leftarrow>
       (case sigs of None \<Rightarrow> Some (all_added, added, q)
        | Some s \<Rightarrow> do {
            sset \<leftarrow> db_rrsets db s;
            encode_sigs db q owner ty (if ty = TYPE_SOA then Some (rr_ttl (hd rrs)) else None) (rs_rrs sset) added });
     (added, done, q) \<leftarrow>
       (if (\<not> all_added \<or> buf_position (q_packet q) > minimal_respsize) \<and> \<not> q_tcp q \<and> minimize_response
        then do { q \<leftarrow> truncate_to db q truncation_mark; Some (0, True, q) }
        else Some (added, done, q));
     (added, q) \<leftarrow>
       (if \<not> all_added \<and> truncate_rrset
        then do {
          q \<leftarrow> truncate_to db q truncation_mark;
          q \<leftarrow> put_packet q (TC_SET (q_packet q));
          Some (0, q) }
        else Some (added, q));
     Some (added, done, robin, q) }"

subsection \<open>The answer\<close>

record answer_entry =
  ae_section :: rr_section
  ae_domain :: domain_id
  ae_rrset :: rrset_id

type_synonym answer = "answer_entry list"

definition answer_init :: answer where "answer_init = []"

text \<open>The search for the RRset under the same domain number.\<close>

fun answer_find :: "namedb \<Rightarrow> answer \<Rightarrow> nat \<Rightarrow> rrset_id \<Rightarrow> nat \<Rightarrow> nat option option" where
  "answer_find db [] n r i = Some None"
| "answer_find db (e # es) n r i =
     (if ae_rrset e = r then do {
        m \<leftarrow> domain_number db (ae_domain e);
        if m = n then Some (Some i) else answer_find db es n r (i + 1) }
      else answer_find db es n r (i + 1))"

definition answer_add_rrset :: "namedb \<Rightarrow> answer \<Rightarrow> rr_section \<Rightarrow> domain_id \<Rightarrow> rrset_id \<Rightarrow> (bool \<times> answer) option" where
  "answer_add_rrset db answer section d r = do {
     assert_c (section \<ge> ANSWER_SECTION \<and> section < RR_SECTION_COUNT);
     n \<leftarrow> domain_number db d;
     found \<leftarrow> answer_find db answer n r 0;
     case found of
       Some i \<Rightarrow>
         (if section < ae_section (answer ! i)
          then Some (True, answer[i := (answer ! i)\<lparr>ae_section := section\<rparr>])
          else Some (False, answer))
     | None \<Rightarrow>
         (if length answer \<ge> MAXRRSPP then Some (False, answer)
          else Some (True, answer @ [\<lparr>ae_section = section, ae_domain = d, ae_rrset = r\<rparr>])) }"

fun encode_section :: "namedb \<Rightarrow> rr_section \<Rightarrow> nat \<Rightarrow> answer \<Rightarrow> 'c query \<Rightarrow> u16 \<Rightarrow> bool \<Rightarrow> nat option \<Rightarrow>
    (u16 \<times> bool \<times> nat option \<times> 'c query) option" where
  "encode_section db section mini [] q cnt done robin = Some (cnt, done, robin, q)"
| "encode_section db section mini (e # es) q cnt done robin = do {
     tc \<leftarrow> TC (q_packet q);
     if tc \<noteq> 0 then Some (cnt, done, robin, q)
     else if ae_section e = section then do {
       (added, done, robin, q) \<leftarrow> packet_encode_rrset db q (ae_domain e) (ae_rrset e) section mini done robin;
       encode_section db section mini es q (cnt + of_nat added) done robin }
     else encode_section db section mini es q cnt done robin }"

text \<open>The loop over the sections; \<open>counts\<close> is indexed by the section.\<close>

fun encode_sections :: "namedb \<Rightarrow> rr_section list \<Rightarrow> nat \<Rightarrow> answer \<Rightarrow> 'c query \<Rightarrow> (rr_section \<Rightarrow> u16) \<Rightarrow> nat option \<Rightarrow>
    ((rr_section \<Rightarrow> u16) \<times> nat option \<times> 'c query) option" where
  "encode_sections db [] mini answer q counts robin = Some (counts, robin, q)"
| "encode_sections db (s # ss) mini answer q counts robin = do {
     tc \<leftarrow> TC (q_packet q);
     if tc \<noteq> 0 then Some (counts, robin, q) else do {
     (cnt, done, robin, q) \<leftarrow> encode_section db s mini answer q 0 False robin;
     let counts = counts(s := cnt);
     if done then do {
       q \<leftarrow> (if s = ADDITIONAL_A_SECTION \<and> cnt = 0 \<and> q_delegation_domain q \<noteq> None
            then put_packet q (TC_SET (q_packet q)) else Some q);
       Some (counts, robin, q) }
     else encode_sections db ss mini answer q counts robin } }"

definition encode_answer :: "namedb \<Rightarrow> 'c query \<Rightarrow> answer \<Rightarrow> nat option \<Rightarrow> (nat option \<times> 'c query) option" where
  "encode_answer db q answer robin = do {
     let mini = (if is_in6 (q_addr q) then IPV6_MINIMAL_RESPONSE_SIZE else IPV4_MINIMAL_RESPONSE_SIZE);
     (counts, robin, q) \<leftarrow> encode_sections db [ANSWER_SECTION..<RR_SECTION_COUNT] mini answer q (\<lambda>_. 0) robin;
     q \<leftarrow> put_packet q (ANCOUNT_SET (q_packet q) (counts ANSWER_SECTION));
     q \<leftarrow> put_packet q (NSCOUNT_SET (q_packet q) (counts AUTHORITY_SECTION + counts OPTIONAL_AUTHORITY_SECTION));
     q \<leftarrow> put_packet q (ARCOUNT_SET (q_packet q)
            (counts ADDITIONAL_A_SECTION + counts ADDITIONAL_AAAA_SECTION + counts ADDITIONAL_OTHER_SECTION));
     Some (robin, q) }"

subsection \<open>What an encoded name means\<close>

text \<open>
  \<open>spells db nm offs d ls\<close>: the domain \<open>d\<close> stands for the name \<open>ls\<close>, when a compression entry
  for the number \<open>n\<close> stands for \<open>nm n\<close>. A domain with an entry has the name of the entry, and
  the others have the name of their own first label and their parent.
\<close>

inductive spells :: "namedb \<Rightarrow> (nat \<Rightarrow> byte list list) \<Rightarrow> u16 list \<Rightarrow> domain_id \<Rightarrow> byte list list \<Rightarrow> bool"
  for db :: namedb and nm :: "nat \<Rightarrow> byte list list" and offs :: "u16 list" where
  sp_root: "domain_parent db d = Some None \<Longrightarrow> spells db nm offs d []"
| sp_pointer: "domain_parent db d = Some (Some p) \<Longrightarrow> domain_number db d = Some n \<Longrightarrow> n < length offs \<Longrightarrow>
    offs ! n \<noteq> 0 \<Longrightarrow> unat (offs ! n) \<le> MAX_COMPRESSION_OFFSET \<Longrightarrow> spells db nm offs d (nm n)"
| sp_label: "domain_parent db d = Some (Some p) \<Longrightarrow> domain_number db d = Some n \<Longrightarrow> 0 < n \<Longrightarrow> n < length offs \<Longrightarrow>
    offs ! n = 0 \<Longrightarrow> domain_dname db d = Some dn \<Longrightarrow> dname_name dn = of_nat (length l) # l @ rest \<Longrightarrow> valid_label l \<Longrightarrow>
    spells db nm offs p ls \<Longrightarrow> nm n = l # ls \<Longrightarrow> spells db nm offs d (l # ls)"

text \<open>Entries are only added, above those that are there.\<close>

inductive pushed :: "namedb \<Rightarrow> nat \<Rightarrow> nat \<Rightarrow> u16 list \<Rightarrow> domain_id list \<Rightarrow> u16 list \<Rightarrow> bool"
  for db :: namedb and lo :: nat and hi :: nat and offs :: "u16 list" where
  pu_none: "pushed db lo hi offs [] offs"
| pu_entry: "pushed db lo hi offs new offs1 \<Longrightarrow> domain_number db d = Some n \<Longrightarrow> 0 < n \<Longrightarrow> n < length offs1 \<Longrightarrow>
    offs1 ! n = 0 \<Longrightarrow> v \<noteq> 0 \<Longrightarrow> lo \<le> unat v \<Longrightarrow> unat v < hi \<Longrightarrow> unat v \<le> MAX_COMPRESSION_OFFSET \<Longrightarrow>
    pushed db lo hi offs (d # new) (offs1[n := v])"

definition settled :: "namedb \<Rightarrow> nat \<Rightarrow> domain_id list \<Rightarrow> u16 list \<Rightarrow> bool" where
  "settled db pos stack offs \<longleftrightarrow> (case stack of [] \<Rightarrow> True
     | d # _ \<Rightarrow> \<exists>n. domain_number db d = Some n \<and> n < length offs \<and> unat (offs ! n) < pos)"

lemma settled_clear: "settled db pos stack offs \<Longrightarrow> clear_offsets db pos stack offs = Some (stack, offs)"
  by (cases stack) (auto simp: settled_def)

definition sound_table :: "byte list \<Rightarrow> u16 list \<Rightarrow> (nat \<Rightarrow> byte list list) \<Rightarrow> nat set \<Rightarrow> bool" where
  "sound_table P offs nm X \<longleftrightarrow> (\<forall>n < length offs. n \<notin> X \<longrightarrow> offs ! n \<noteq> 0 \<longrightarrow>
     (\<exists>k e. name_at True P (unat (offs ! n)) k (nm n) e))"

lemma pushed_length: "pushed db lo hi offs new offs' \<Longrightarrow> length offs' = length offs"
  by (induction rule: pushed.induct) auto

lemma pushed_keeps: "pushed db lo hi offs new offs' \<Longrightarrow> n < length offs \<Longrightarrow> offs ! n \<noteq> 0 \<Longrightarrow> offs' ! n = offs ! n"
proof (induction rule: pushed.induct)
  case (pu_entry new offs1 d m v)
  then show ?case by (cases "m = n") auto
qed simp

lemma pushed_new:
  "pushed db lo hi offs new offs' \<Longrightarrow> n < length offs \<Longrightarrow> offs' ! n \<noteq> offs ! n \<Longrightarrow> unat (offs' ! n) \<le> MAX_COMPRESSION_OFFSET"
proof (induction rule: pushed.induct)
  case (pu_entry new offs1 d m v)
  then show ?case using pushed_length [OF pu_entry(1)] by (cases "m = n") auto
qed simp

lemma pushed_trans:
  "pushed db lo hi offs1 new2 offs2 \<Longrightarrow> pushed db lo hi offs new1 offs1 \<Longrightarrow> pushed db lo hi offs (new2 @ new1) offs2"
proof (induction rule: pushed.induct)
  case (pu_entry new offs1 d n v)
  then show ?case using pushed.pu_entry [of db lo hi offs "new @ new1" offs1 d n v] by simp
qed simp

lemma pushed_mono: "pushed db lo hi offs new offs' \<Longrightarrow> lo' \<le> lo \<Longrightarrow> hi \<le> hi' \<Longrightarrow> pushed db lo' hi' offs new offs'"
proof (induction rule: pushed.induct)
  case (pu_entry new offs1 d n v)
  then show ?case by (intro pushed.pu_entry) auto
qed (rule pushed.pu_none)

lemma clear_pushed:
  "pushed db lo hi offs new offs' \<Longrightarrow> mark \<le> lo \<Longrightarrow>
    clear_offsets db mark (new @ stack) offs' = clear_offsets db mark stack offs"
proof (induction rule: pushed.induct)
  case (pu_entry new offs1 d n v)
  have "(offs1[n := v])[n := 0] = offs1" using pu_entry(5) by (metis list_update_id list_update_overwrite)
  then show ?case using pu_entry by simp
qed simp

lemma settled_pushed:
  assumes "pushed db lo hi offs new offs'" "settled db lo stack offs" "lo \<le> hi"
  shows "settled db hi (new @ stack) offs'"
  using assms(1)
proof (cases rule: pushed.cases)
  case pu_none
  then show ?thesis using assms(2,3) by (auto simp: settled_def split: list.splits)
next
  case (pu_entry new1 offs1 d n v)
  then show ?thesis by (simp add: settled_def)
qed

lemma spells_mono:
  assumes "\<And>n. n < length offs \<Longrightarrow> offs ! n \<noteq> 0 \<Longrightarrow> offs' ! n = offs ! n" "length offs' = length offs"
    and "\<And>n. n < length offs \<Longrightarrow> offs' ! n \<noteq> offs ! n \<Longrightarrow> unat (offs' ! n) \<le> MAX_COMPRESSION_OFFSET"
  shows "spells db nm offs d ls \<Longrightarrow> spells db nm offs' d ls"
proof (induction rule: spells.induct)
  case (sp_pointer d p n)
  then show ?case using assms by (intro spells.sp_pointer) auto
next
  case (sp_label d p n dn l rest ls)
  show ?case
  proof (cases "offs' ! n = 0")
    case True
    then show ?thesis using sp_label assms(2) by (intro spells.sp_label) auto
  next
    case False
    then have "spells db nm offs' d (nm n)" using sp_label assms(2,3) by (intro spells.sp_pointer) auto
    then show ?thesis using sp_label by simp
  qed
qed (rule spells.sp_root)

lemma spells_pushed: "pushed db lo hi offs new offs' \<Longrightarrow> spells db nm offs d ls \<Longrightarrow> spells db nm offs' d ls"
  by (rule spells_mono) (auto dest: pushed_keeps pushed_new pushed_length)

text \<open>More bytes behind the packet do not change a name in it.\<close>

lemma name_at_append: "name_at ap p pos k ls e \<Longrightarrow> name_at ap (p @ r) pos k ls e"
proof (induction rule: name_at.induct)
  case (na_root pos)
  then show ?case using name_at.na_root [of pos "p @ r" ap] by (simp add: nth_append)
next
  case (na_label pos n k ls e)
  have "mem_read (pos + 1) n (p @ r) = mem_read (pos + 1) n p" using na_label(1) by (simp add: mem_read_def)
  then show ?case using name_at.na_label [of pos n "p @ r" ap k ls e] na_label by (simp add: nth_append)
next
  case (na_pointer pos k ls e)
  have "pointer_target (p @ r) pos = pointer_target p pos" using na_pointer(2) by (simp add: pointer_target_def nth_append)
  then show ?case using name_at.na_pointer [of ap pos "p @ r" k ls e] na_pointer by (simp add: nth_append)
qed

lemma sound_table_append: "sound_table P offs nm X \<Longrightarrow> sound_table (P @ bs) offs nm X"
  unfolding sound_table_def by (meson name_at_append)

lemma name_at_label_append:
  assumes "name_at ap p (pos + length l + 1) k ls e" "valid_label l" "bytes_at pos (of_nat (length l) # l) p"
  shows "name_at ap p pos (Suc k) (l # ls) e"
proof -
  obtain pre post where p: "p = pre @ of_nat (length l) # l @ post" "length pre = pos"
    using assms(3) by (auto simp: bytes_at_decomp)
  have "mem_read (pos + 1) (length l) p = l" "p ! pos = of_nat (length l)" "pos + length l + 1 \<le> length p"
    using p by (auto simp: mem_read_def)
  moreover have "0 < length l" "length l < 64" "unat (of_nat (length l) :: byte) = length l"
    using valid_label_byte [OF assms(2)] assms(2) by (simp_all add: valid_label_def)
  ultimately have "name_at ap p pos (Suc k) (mem_read (pos + 1) (length l) p # ls) e"
    using assms(1) by (intro name_at.na_label) simp_all
  then show ?thesis using \<open>mem_read (pos + 1) (length l) p = l\<close> by simp
qed

lemma bit_pointer_mask: "bit (0xc000 :: u16) n \<longleftrightarrow> n = 14 \<or> n = 15" "bit (0xc0 :: byte) n \<longleftrightarrow> n = 6 \<or> n = 7"
proof -
  have "(0xc000 :: u16) = push_bit 14 (mask 2)" "(0xc0 :: byte) = push_bit 6 (mask 2)" by (simp_all add: mask_eq_exp_minus_1)
  then have "bit (0xc000 :: u16) n = bit (push_bit 14 (mask 2) :: u16) n" "bit (0xc0 :: byte) n = bit (push_bit 6 (mask 2) :: byte) n"
    by argo+
  moreover have "bit (push_bit 14 (mask 2) :: u16) n \<longleftrightarrow> n = 14 \<or> n = 15" "bit (push_bit 6 (mask 2) :: byte) n \<longleftrightarrow> n = 6 \<or> n = 7"
    by (auto simp: bit_push_bit_iff bit_mask_iff simp del: mask_eq_exp_minus_1)
  ultimately show "bit (0xc000 :: u16) n \<longleftrightarrow> n = 14 \<or> n = 15" "bit (0xc0 :: byte) n \<longleftrightarrow> n = 6 \<or> n = 7" by argo+
qed

lemma pointer_bytes:
  fixes v :: u16
  assumes "unat v \<le> MAX_COMPRESSION_OFFSET"
  obtains c0 c1 where "write_uint16 (0xc000 OR v) = [c0, c1]" "192 \<le> unat c0" "(unat c0 - 192) * 256 + unat c1 = unat v"
proof -
  define m h where "m = (0xc000 :: u16)" and "h = (0xc0 :: byte)"
  have mh: "bit m n \<longleftrightarrow> n = 14 \<or> n = 15" "bit h n \<longleftrightarrow> n = 6 \<or> n = 7" for n
    unfolding m_def h_def by (rule bit_pointer_mask)+
  define c0 c1 where "c0 = (ucast (drop_bit 8 (m OR v)) :: byte)" and "c1 = (ucast (m OR v) :: byte)"
  have "take_bit 14 v = v"
    using assms by (intro word_unat_eq_iff [THEN iffD2]) (simp add: unsigned_take_bit_eq take_bit_nat_eq_self MAX_COMPRESSION_OFFSET_def)
  then have hi: "\<not> bit v n" if "14 \<le> n" for n using that by (metis bit_take_bit_iff not_le)
  have "c0 AND h = h"
    by (rule bit_word_eqI) (auto simp: c0_def bit_simps mh)
  then have ge: "192 \<le> unat c0" by (simp add: and_c0_c0 h_def)
  have "push_bit 8 (ucast (c0 AND NOT h)) OR ucast c1 = v"
    by (rule bit_word_eqI) (use hi in \<open>auto simp: c0_def c1_def bit_simps mh\<close>)
  then have "(unat c0 - 192) * 256 + unat c1 = unat v" using pointer_value [OF ge, of c1] by (simp add: h_def)
  moreover have "write_uint16 (0xc000 OR v) = [c0, c1]" by (simp add: write_uint16_def c0_def c1_def m_def)
  ultimately show thesis using that ge by blast
qed

subsection \<open>Encoding a name\<close>

text \<open>The query after the bytes \<open>bs\<close> and new compression entries have been written.\<close>

definition advanced :: "'c query \<Rightarrow> byte list \<Rightarrow> u16 list \<Rightarrow> domain_id list \<Rightarrow> 'c query" where
  "advanced q bs offs new = q\<lparr>q_packet := written (q_packet q) bs, q_compressed_dname_offsets := offs,
     q_compressed_dnames := new @ q_compressed_dnames q\<rparr>"

lemma advanced_sel [simp]:
  "q_packet (advanced q bs offs new) = written (q_packet q) bs"
  "q_compressed_dname_offsets (advanced q bs offs new) = offs"
  "q_compressed_dnames (advanced q bs offs new) = new @ q_compressed_dnames q"
  "q_maxlen (advanced q bs offs new) = q_maxlen q"
  "q_reserved_space (advanced q bs offs new) = q_reserved_space q"
  by (simp_all add: advanced_def)

lemma advanced_nil [simp]: "advanced q [] (q_compressed_dname_offsets q) [] = q"
  by (simp add: advanced_def)

lemma written_written:
  "buffer_wf b \<Longrightarrow> buf_position b + length xs + length ys \<le> buf_limit b \<Longrightarrow> written (written b xs) ys = written b (xs @ ys)"
  using mem_write_append [of "buf_position b" xs ys "buf_data b"] buffer_wfD(5) [of b]
  by (simp add: written_def add.assoc)

lemma advanced_advanced:
  assumes "buffer_wf (q_packet q)" "buf_position (q_packet q) + length xs + length ys \<le> buf_limit (q_packet q)"
  shows "advanced (advanced q xs offs1 new1) ys offs2 new2 = advanced q (xs @ ys) offs2 (new2 @ new1)"
  using written_written [OF assms] by (simp add: advanced_def)

lemma put_written:
  assumes "buffer_wf (q_packet q)" "buf_position (q_packet q) + length bs + length d \<le> buf_limit (q_packet q)"
  shows "put_packet (advanced q bs offs new) (buffer_write (written (q_packet q) bs) d) = Some (advanced q (bs @ d) offs new)"
  using buffer_write_written [OF assms] by (simp add: put_packet_def advanced_def)

text \<open>
  An encoder appends bytes and entries, and whatever the bytes in front are, provided the table was
  right for them, the table is right afterwards and \<open>meaning\<close> holds of the packet.
\<close>

definition encodes ::
  "namedb \<Rightarrow> (nat \<Rightarrow> byte list list) \<Rightarrow> nat set \<Rightarrow> 'c query \<Rightarrow> nat \<Rightarrow> (byte list \<Rightarrow> nat \<Rightarrow> nat \<Rightarrow> bool) \<Rightarrow> 'c query option \<Rightarrow> bool" where
  "encodes db nm X q room meaning r \<longleftrightarrow> (\<exists>bs offs new. r = Some (advanced q bs offs new) \<and> length bs \<le> room \<and>
     pushed db (buf_position (q_packet q)) (buf_position (q_packet q) + length bs) (q_compressed_dname_offsets q) new offs \<and>
     (\<forall>P. length P = buf_position (q_packet q) \<longrightarrow> sound_table P (q_compressed_dname_offsets q) nm X \<longrightarrow>
        sound_table (P @ bs) offs nm X \<and> meaning (P @ bs) (length P) (length P + length bs)))"

definition name_here :: "byte list list \<Rightarrow> byte list \<Rightarrow> nat \<Rightarrow> nat \<Rightarrow> bool" where
  "name_here ls P pos e \<longleftrightarrow> (\<exists>k. name_at True P pos k ls e)"

lemma encodesI:
  assumes "r = Some (advanced q bs offs new)" "length bs \<le> room"
    "pushed db (buf_position (q_packet q)) (buf_position (q_packet q) + length bs) (q_compressed_dname_offsets q) new offs"
    "\<And>P. length P = buf_position (q_packet q) \<Longrightarrow> sound_table P (q_compressed_dname_offsets q) nm X \<Longrightarrow>
        sound_table (P @ bs) offs nm X \<and> meaning (P @ bs) (length P) (length P + length bs)"
  shows "encodes db nm X q room meaning r"
  using assms unfolding encodes_def by blast

lemma encodesE:
  assumes "encodes db nm X q room meaning r"
  obtains bs offs new where "r = Some (advanced q bs offs new)" "length bs \<le> room"
    "pushed db (buf_position (q_packet q)) (buf_position (q_packet q) + length bs) (q_compressed_dname_offsets q) new offs"
    "\<And>P. length P = buf_position (q_packet q) \<Longrightarrow> sound_table P (q_compressed_dname_offsets q) nm X \<Longrightarrow>
        sound_table (P @ bs) offs nm X \<and> meaning (P @ bs) (length P) (length P + length bs)"
  using assms unfolding encodes_def by blast

definition room_for :: "'c query \<Rightarrow> nat \<Rightarrow> bool" where
  "room_for q n \<longleftrightarrow> buffer_wf (q_packet q) \<and> 0 < buf_position (q_packet q) \<and>
     buf_position (q_packet q) + n \<le> buf_limit (q_packet q) \<and> buf_position (q_packet q) + n \<le> 65536"

lemma put_offset_cases:
  assumes n: "domain_number db d = Some n" "0 < n" "n < length (q_compressed_dname_offsets q)"
    and z: "q_compressed_dname_offsets q ! n = 0" and r: "room_for q m" "0 < m"
  obtains (skip) "query_put_dname_offset db q d (of_nat (buf_position (q_packet q))) = Some q"
  | (put) offs where "query_put_dname_offset db q d (of_nat (buf_position (q_packet q))) = Some (advanced q [] offs [d])"
      "offs = (q_compressed_dname_offsets q)[n := of_nat (buf_position (q_packet q))]"
      "unat (offs ! n) = buf_position (q_packet q)" "offs ! n \<noteq> 0"
      "pushed db (buf_position (q_packet q)) (buf_position (q_packet q) + 1) (q_compressed_dname_offsets q) [d] offs"
proof (cases "buf_position (q_packet q) > MAX_COMPRESSION_OFFSET \<or> MAX_COMPRESSED_DNAMES \<le> length (q_compressed_dnames q)")
  case True
  have u: "unat (of_nat (buf_position (q_packet q)) :: u16) = buf_position (q_packet q)"
    using r by (intro unat_u16_of_nat) (simp add: room_for_def)
  then show thesis using True n by (intro skip) (auto simp: query_put_dname_offset_def)
next
  case False
  let ?v = "of_nat (buf_position (q_packet q)) :: u16"
  have u: "unat ?v = buf_position (q_packet q)"
    using r by (intro unat_u16_of_nat) (simp add: room_for_def)
  then have v: "?v \<noteq> 0" using r by (auto simp: room_for_def simp flip: unat_eq_0)
  show thesis
  proof (rule put)
    show "query_put_dname_offset db q d ?v = Some (advanced q [] ((q_compressed_dname_offsets q)[n := ?v]) [d])"
      using False n u by (auto simp: query_put_dname_offset_def advanced_def)
    show "pushed db (buf_position (q_packet q)) (buf_position (q_packet q) + 1) (q_compressed_dname_offsets q) [d]
        ((q_compressed_dname_offsets q)[n := ?v])"
      using pu_entry [OF pu_none, of db d n "q_compressed_dname_offsets q" ?v "buf_position (q_packet q)"
          "buf_position (q_packet q) + 1"] n z u v r False by simp
  qed (use u v n in simp_all)
qed

lemma encode_pointer:
  assumes p: "domain_parent db d = Some (Some p)" "domain_number db d = Some n" "n < length (q_compressed_dname_offsets q)"
    and o: "q_compressed_dname_offsets q ! n \<noteq> 0" "unat (q_compressed_dname_offsets q ! n) \<le> MAX_COMPRESSION_OFFSET"
    and r: "room_for q m" "2 \<le> m" and x: "n \<notin> X"
  shows "encodes db nm X q m (name_here (nm n)) (encode_dname db q d)"
proof -
  let ?v = "q_compressed_dname_offsets q ! n"
  obtain c0 c1 where c: "write_uint16 (0xc000 OR ?v) = [c0, c1]" "192 \<le> unat c0" "(unat c0 - 192) * 256 + unat c1 = unat ?v"
    using pointer_bytes [OF o(2)] .
  have "query_get_dname_offset db q d = Some ?v" using p by (simp add: query_get_dname_offset_def)
  moreover have "put_packet q (buffer_write_u16 (q_packet q) (0xc000 OR ?v)) =
      Some (advanced q [c0, c1] (q_compressed_dname_offsets q) [])"
    using put_written [of q "[]" "[c0, c1]" "q_compressed_dname_offsets q" "[]"] r c(1)
    by (simp add: room_for_def buffer_write_u16_def)
  ultimately have e: "encode_dname db q d = Some (advanced q [c0, c1] (q_compressed_dname_offsets q) [])"
    using p(1) o by (subst encode_dname.simps) simp
  show ?thesis
  proof (rule encodesI [OF e])
    show "length [c0, c1] \<le> m" using r(2) by simp
    fix P assume P: "length P = buf_position (q_packet q)" "sound_table P (q_compressed_dname_offsets q) nm X"
    obtain k e' where "name_at True P (unat ?v) k (nm n) e'" using P(2) p(3) o(1) x unfolding sound_table_def by blast
    then have "name_at True (P @ [c0, c1]) (pointer_target (P @ [c0, c1]) (length P)) k (nm n) e'"
      using name_at_append c(3) by (simp add: pointer_target_def nth_append)
    then have "name_at True (P @ [c0, c1]) (length P) (Suc k) (nm n) (length P + 2)"
      using c(2) by (intro name_at.na_pointer) simp_all
    then show "sound_table (P @ [c0, c1]) (q_compressed_dname_offsets q) nm X \<and>
        name_here (nm n) (P @ [c0, c1]) (length P) (length P + length [c0, c1])"
      using sound_table_append [OF P(2)] by (auto simp: name_here_def)
  qed (rule pu_none)
qed

lemma encode_root:
  assumes "domain_parent db d = Some None" "room_for q m" "1 \<le> m"
  shows "encodes db nm X q m (name_here []) (encode_dname db q d)"
proof (rule encodesI)
  show "encode_dname db q d = Some (advanced q [0] (q_compressed_dname_offsets q) [])"
    using assms put_written [of q "[]" "[0]" "q_compressed_dname_offsets q" "[]"]
    by (subst encode_dname.simps) (simp add: room_for_def buffer_write_u8_def)
  fix P assume P: "length P = buf_position (q_packet q)" "sound_table P (q_compressed_dname_offsets q) nm X"
  show "sound_table (P @ [0]) (q_compressed_dname_offsets q) nm X \<and>
      name_here [] (P @ [0]) (length P) (length P + length [0 :: byte])"
    using sound_table_append [OF P(2)] name_at.na_root [of "length P" "P @ [0]" True]
    by (auto simp: name_here_def nth_append)
qed (use assms in \<open>simp_all add: pu_none\<close>)

text \<open>
  A label in front of an encoded name: \<open>q1\<close> is the query with the entry for the domain, when there
  was room for it, and \<open>X1\<close> the numbers that have an entry whose name is not complete yet.
\<close>

lemma encodes_label:
  assumes wf: "room_for q (length l + 1 + m)" and l: "valid_label l" and nm: "nm n = l # ls" and n: "n < length (q_compressed_dname_offsets q)"
    and z: "q_compressed_dname_offsets q ! n = 0"
    and rest: "encodes db nm X1 (advanced q (of_nat (length l) # l) offs1 new1) m (name_here ls) r"
    and q1: "new1 = [] \<and> offs1 = q_compressed_dname_offsets q \<and> X1 = X \<or>
      new1 = [d] \<and> X1 = insert n X \<and> n \<notin> X \<and>
      offs1 = (q_compressed_dname_offsets q)[n := of_nat (buf_position (q_packet q))] \<and>
      unat (offs1 ! n) = buf_position (q_packet q) \<and> offs1 ! n \<noteq> 0 \<and>
      pushed db (buf_position (q_packet q)) (buf_position (q_packet q) + 1) (q_compressed_dname_offsets q) [d] offs1"
  shows "encodes db nm X q (length l + 1 + m) (name_here (l # ls)) r"
proof -
  let ?lb = "of_nat (length l) # l" and ?pos = "buf_position (q_packet q)" and ?offs = "q_compressed_dname_offsets q"
  let ?q1 = "advanced q ?lb offs1 new1"
  obtain bs offs new where r: "r = Some (advanced ?q1 bs offs new)" "length bs \<le> m"
    "pushed db (?pos + length ?lb) (?pos + length ?lb + length bs) offs1 new offs"
    "\<And>P. length P = ?pos + length ?lb \<Longrightarrow> sound_table P offs1 nm X1 \<Longrightarrow>
        sound_table (P @ bs) offs nm X1 \<and> name_here ls (P @ bs) (length P) (length P + length bs)"
    using encodesE [OF rest] by auto
  have pu1: "pushed db ?pos (?pos + length (?lb @ bs)) ?offs new1 offs1"
    using q1 by (auto intro: pu_none pushed_mono)
  have len1: "length offs1 = length ?offs" using pushed_length [OF pu1] .
  show ?thesis
  proof (rule encodesI)
    show "r = Some (advanced q (?lb @ bs) offs (new @ new1))"
      using r(1,2) wf advanced_advanced [of q ?lb bs offs1 new1 offs new] by (simp add: room_for_def)
    show "length (?lb @ bs) \<le> length l + 1 + m" using r(2) by simp
    show "pushed db ?pos (?pos + length (?lb @ bs)) ?offs (new @ new1) offs"
      by (rule pushed_trans [OF pushed_mono [OF r(3)] pu1]) simp_all
    fix P assume P: "length P = ?pos" "sound_table P ?offs nm X"
    have "sound_table (P @ ?lb) offs1 nm X1"
      using q1 sound_table_append [OF P(2), of ?lb] len1 unfolding sound_table_def
      by (auto simp: nth_list_update)
    then have s: "sound_table (P @ ?lb @ bs) offs nm X1" "name_here ls (P @ ?lb @ bs) (?pos + length ?lb) (?pos + length (?lb @ bs))"
      using r(4) [of "P @ ?lb"] P(1) by (simp_all add: add.assoc)
    then obtain k where "name_at True (P @ ?lb @ bs) (length P + length l + 1) k ls (length P + length (?lb @ bs))"
      using P(1) by (auto simp: name_here_def)
    moreover have "bytes_at (length P) ?lb (P @ ?lb @ bs)" by (auto simp: bytes_at_decomp)
    ultimately have na: "name_at True (P @ ?lb @ bs) (length P) (Suc k) (l # ls) (length P + length (?lb @ bs))"
      using l by (intro name_at_label_append) simp_all
    have "sound_table (P @ ?lb @ bs) offs nm X" unfolding sound_table_def
    proof (intro allI impI)
      fix i assume i: "i < length offs" "i \<notin> X" "offs ! i \<noteq> 0"
      show "\<exists>k e. name_at True (P @ ?lb @ bs) (unat (offs ! i)) k (nm i) e"
      proof (cases "i \<in> X1")
        case False
        then show ?thesis using s(1) i unfolding sound_table_def by blast
      next
        case True
        then have e: "i = n" "unat (offs1 ! n) = ?pos" "offs1 ! n \<noteq> 0" using q1 i(2) by auto
        have "offs ! n = offs1 ! n" using pushed_keeps [OF r(3), of n] e(3) n len1 by simp
        then show ?thesis using na nm P(1) e by auto
      qed
    qed
    then show "sound_table (P @ ?lb @ bs) offs nm X \<and> name_here (l # ls) (P @ ?lb @ bs) (length P) (length P + length (?lb @ bs))"
      using na by (auto simp: name_here_def)
  qed
qed

lemma encode_dname_spec:
  assumes "spells db nm (q_compressed_dname_offsets q) d ls" "room_for q (length (wire ls) + 1)"
    and "\<And>x. x \<in> X \<Longrightarrow> length ls < length (nm x)"
  shows "encodes db nm X q (length (wire ls) + 1) (name_here ls) (encode_dname db q d)"
  using assms
proof (induction "domain_labels db d" arbitrary: d q X ls rule: less_induct)
  case less
  from less.prems(1) show ?case
  proof (cases rule: spells.cases)
    case sp_root
    then show ?thesis using encode_root [of db d q] less.prems(2) by simp
  next
    case (sp_pointer p n)
    have "n \<notin> X" using less.prems(3) sp_pointer(1) by fastforce
    moreover have "2 \<le> length (wire ls) + 1" using length_wire_pos [of ls] by linarith
    ultimately show ?thesis using encode_pointer [of db d p n q "length (wire ls) + 1" X nm] sp_pointer less.prems(2) by simp
  next
    case (sp_label p n dn l rest ls')
    note p = sp_label(2) and n = sp_label(3-5) and z = sp_label(6) and dn = sp_label(7,8) and l = sp_label(9)
      and sp = sp_label(10) and nm = sp_label(11) and ls = sp_label(1)
    let ?lb = "of_nat (length l) # l" and ?m = "length (wire ls') + 1"
    have m: "length (wire ls) + 1 = length l + 1 + ?m" using ls by simp
    have room: "room_for q (length l + 1 + ?m)" using less.prems(2) m by simp
    have lab: "domain_labels db p < domain_labels db d" using domain_parent_labels [OF p] .
    have nX: "n \<notin> X" using less.prems(3) nm ls by fastforce
    have len: "label_length (dname_name dn) = Some (length l)" "take (length l + 1) (dname_name dn) = ?lb"
      "length l + 1 \<le> length (dname_name dn)"
      using dn valid_label_byte [OF l] by simp_all
    have off: "query_get_dname_offset db q d = Some 0" using n z by (simp add: query_get_dname_offset_def)
    have run: "encode_dname db q d = encode_dname db (advanced q ?lb offs1 new1) p"
      if "query_put_dname_offset db q d (of_nat (buf_position (q_packet q))) = Some (advanced q [] offs1 new1)" for offs1 new1
      using put_written [of q "[]" ?lb offs1 new1] room that p off len dn(1)
      by (subst encode_dname.simps) (simp add: room_for_def)
    have IH: "encodes db nm X1 (advanced q ?lb offs1 new1) ?m (name_here ls') (encode_dname db (advanced q ?lb offs1 new1) p)"
      if "pushed db lo hi (q_compressed_dname_offsets q) new1 offs1" "X1 \<subseteq> insert n X" for offs1 new1 X1 lo hi
    proof (rule less.hyps [OF lab])
      show "spells db nm (q_compressed_dname_offsets (advanced q ?lb offs1 new1)) p ls'"
        using spells_pushed [OF that(1) sp] by simp
      show "room_for (advanced q ?lb offs1 new1) ?m" using room by (simp add: room_for_def)
      show "length ls' < length (nm x)" if "x \<in> X1" for x
        using that \<open>X1 \<subseteq> insert n X\<close> less.prems(3) [of x] nm ls by fastforce
    qed
    have "encodes db nm X q (length l + 1 + ?m) (name_here (l # ls')) (encode_dname db q d)"
    proof (rule put_offset_cases [OF n z room])
      assume "query_put_dname_offset db q d (of_nat (buf_position (q_packet q))) = Some q"
      then show "encodes db nm X q (length l + 1 + ?m) (name_here (l # ls')) (encode_dname db q d)"
        using run [of "q_compressed_dname_offsets q" "[]"] IH [OF pu_none subset_insertI]
        by (intro encodes_label [where nm = nm and n = n and ?offs1.0 = "q_compressed_dname_offsets q" and ?new1.0 = "[]" and ?X1.0 = X])
          (use room l nm n z in simp_all)
    next
      fix offs
      assume put: "query_put_dname_offset db q d (of_nat (buf_position (q_packet q))) = Some (advanced q [] offs [d])"
        "offs = (q_compressed_dname_offsets q)[n := of_nat (buf_position (q_packet q))]"
        "unat (offs ! n) = buf_position (q_packet q)" "offs ! n \<noteq> 0"
        "pushed db (buf_position (q_packet q)) (buf_position (q_packet q) + 1) (q_compressed_dname_offsets q) [d] offs"
      show "encodes db nm X q (length l + 1 + ?m) (name_here (l # ls')) (encode_dname db q d)"
        using run [OF put(1)] IH [OF put(5) subset_refl] put(2-5) nX
        by (intro encodes_label [where nm = nm and n = n and ?offs1.0 = offs and ?new1.0 = "[d]" and d = d and ?X1.0 = "insert n X"])
          (use room l nm n z in simp_all)
    qed simp
    then show ?thesis using m ls by simp
  qed
qed

subsection \<open>Encoding a record\<close>

definition stable :: "(byte list \<Rightarrow> nat \<Rightarrow> nat \<Rightarrow> bool) \<Rightarrow> bool" where
  "stable M \<longleftrightarrow> (\<forall>P r s e. M P s e \<longrightarrow> M (P @ r) s e)"

definition bytes_here :: "byte list \<Rightarrow> byte list \<Rightarrow> nat \<Rightarrow> nat \<Rightarrow> bool" where
  "bytes_here d P s e \<longleftrightarrow> bytes_at s d P \<and> e = s + length d"

lemma stable_name [simp]: "stable (name_here ls)"
  unfolding stable_def name_here_def by (meson name_at_append)

lemma bytes_at_appended: "bytes_at s d P \<Longrightarrow> bytes_at s d (P @ r)"
  by (metis append.assoc bytes_at_decomp)

lemma stable_bytes [simp]: "stable (bytes_here d)"
  by (auto simp: stable_def bytes_here_def intro: bytes_at_appended)

lemma room_advanced: "room_for q (m + n) \<Longrightarrow> length bs \<le> m \<Longrightarrow> room_for (advanced q bs offs new) n"
  by (simp add: room_for_def)

lemma encodes_bind:
  assumes e: "encodes db nm X q m1 M1 r" and st: "stable M1" and room: "room_for q (m1 + m2)"
    and f: "\<And>bs offs new. pushed db (buf_position (q_packet q)) (buf_position (q_packet q) + length bs) (q_compressed_dname_offsets q) new offs \<Longrightarrow>
      room_for (advanced q bs offs new) m2 \<Longrightarrow> encodes db nm X (advanced q bs offs new) m2 M2 (f (advanced q bs offs new))"
  shows "encodes db nm X q (m1 + m2) (\<lambda>P s e. \<exists>x. M1 P s x \<and> M2 P x e) (r \<bind> f)"
proof -
  let ?pos = "buf_position (q_packet q)"
  obtain bs1 offs1 new1 where r: "r = Some (advanced q bs1 offs1 new1)" "length bs1 \<le> m1"
    "pushed db ?pos (?pos + length bs1) (q_compressed_dname_offsets q) new1 offs1"
    "\<And>P. length P = ?pos \<Longrightarrow> sound_table P (q_compressed_dname_offsets q) nm X \<Longrightarrow>
        sound_table (P @ bs1) offs1 nm X \<and> M1 (P @ bs1) (length P) (length P + length bs1)"
    using encodesE [OF e] by blast
  obtain bs2 offs2 new2 where r2: "f (advanced q bs1 offs1 new1) = Some (advanced (advanced q bs1 offs1 new1) bs2 offs2 new2)"
    "length bs2 \<le> m2" "pushed db (?pos + length bs1) (?pos + length bs1 + length bs2) offs1 new2 offs2"
    "\<And>P. length P = ?pos + length bs1 \<Longrightarrow> sound_table P offs1 nm X \<Longrightarrow>
        sound_table (P @ bs2) offs2 nm X \<and> M2 (P @ bs2) (length P) (length P + length bs2)"
    using encodesE [OF f [OF r(3) room_advanced [OF room r(2)]]] by auto
  show ?thesis
  proof (rule encodesI)
    show "(r \<bind> f) = Some (advanced q (bs1 @ bs2) offs2 (new2 @ new1))"
      using r(1,2) r2(1,2) room advanced_advanced [of q bs1 bs2 offs1 new1 offs2 new2] by (simp add: room_for_def)
    show "length (bs1 @ bs2) \<le> m1 + m2" using r(2) r2(2) by simp
    show "pushed db ?pos (?pos + length (bs1 @ bs2)) (q_compressed_dname_offsets q) (new2 @ new1) offs2"
      by (rule pushed_trans [OF pushed_mono [OF r2(3)] pushed_mono [OF r(3)]]) simp_all
    fix P assume P: "length P = ?pos" "sound_table P (q_compressed_dname_offsets q) nm X"
    have 1: "sound_table (P @ bs1) offs1 nm X" "M1 (P @ bs1) (length P) (length P + length bs1)" using r(4) [OF P] by auto
    have "M1 ((P @ bs1) @ bs2) (length P) (length P + length bs1)" using st 1(2) unfolding stable_def by blast
    then show "sound_table (P @ bs1 @ bs2) offs2 nm X \<and>
        (\<exists>x. M1 (P @ bs1 @ bs2) (length P) x \<and> M2 (P @ bs1 @ bs2) x (length P + length (bs1 @ bs2)))"
      using r2(4) [of "P @ bs1"] 1(1) P(1) by (auto simp: add.assoc)
  qed
qed

lemma encode_bytes:
  assumes "room_for q (length d)"
  shows "encodes db nm X q (length d) (bytes_here d) (put_packet q (buffer_write (q_packet q) d))"
proof (rule encodesI)
  show "put_packet q (buffer_write (q_packet q) d) = Some (advanced q d (q_compressed_dname_offsets q) [])"
    using put_written [of q "[]" d "q_compressed_dname_offsets q" "[]"] assms by (simp add: room_for_def)
  fix P assume "length P = buf_position (q_packet q)" "sound_table P (q_compressed_dname_offsets q) nm X"
  then show "sound_table (P @ d) (q_compressed_dname_offsets q) nm X \<and> bytes_here d (P @ d) (length P) (length P + length d)"
    using sound_table_append by (simp add: bytes_here_def bytes_at_def mem_read_def)
qed (simp_all add: pu_none)

text \<open>What the fields of the rdata are: names that may be compressed, and bytes.\<close>

datatype field = f_name "byte list list" | f_bytes "byte list"

fun field_room :: "field \<Rightarrow> nat" where
  "field_room (f_name ls) = length (wire ls) + 1"
| "field_room (f_bytes bs) = length bs"

fun field_here :: "field \<Rightarrow> byte list \<Rightarrow> nat \<Rightarrow> nat \<Rightarrow> bool" where
  "field_here (f_name ls) = name_here ls"
| "field_here (f_bytes bs) = bytes_here bs"

fun fields_here :: "field list \<Rightarrow> byte list \<Rightarrow> nat \<Rightarrow> nat \<Rightarrow> bool" where
  "fields_here [] P s e \<longleftrightarrow> s = e"
| "fields_here (f # fs) P s e \<longleftrightarrow> (\<exists>x. field_here f P s x \<and> fields_here fs P x e)"

definition field_of :: "namedb \<Rightarrow> (nat \<Rightarrow> byte list list) \<Rightarrow> u16 list \<Rightarrow> rdata_wireformat \<Rightarrow> rdata_atom \<Rightarrow> field \<Rightarrow> bool" where
  "field_of db nm offs fmt a fld \<longleftrightarrow>
     (case a of
        atom_domain d \<Rightarrow>
          fmt = RDATA_WF_COMPRESSED_DNAME \<and> (\<exists>ls. fld = f_name ls \<and> spells db nm offs d ls) \<or>
          fmt = RDATA_WF_UNCOMPRESSED_DNAME \<and> (\<exists>dn. domain_dname db d = Some dn \<and> fld = f_bytes (dname_name dn))
      | atom_data bs \<Rightarrow> fmt \<noteq> RDATA_WF_COMPRESSED_DNAME \<and> fmt \<noteq> RDATA_WF_UNCOMPRESSED_DNAME \<and> fld = f_bytes bs)"

fun fields_of :: "namedb \<Rightarrow> (nat \<Rightarrow> byte list list) \<Rightarrow> u16 list \<Rightarrow> u16 \<Rightarrow> nat \<Rightarrow> rdata_atom list \<Rightarrow> field list \<Rightarrow> bool" where
  "fields_of db nm offs ty j [] [] \<longleftrightarrow> True"
| "fields_of db nm offs ty j (a # as) (f # fs) \<longleftrightarrow>
     (\<exists>fmt. rdata_atom_wireformat_type ty j = Some fmt \<and> field_of db nm offs fmt a f) \<and> fields_of db nm offs ty (j + 1) as fs"
| "fields_of db nm offs ty j _ _ \<longleftrightarrow> False"

lemma stable_field [simp]: "stable (field_here f)"
  by (cases f) auto

lemma field_of_pushed: "pushed db lo hi offs new offs' \<Longrightarrow> field_of db nm offs fmt a f \<Longrightarrow> field_of db nm offs' fmt a f"
  by (auto simp: field_of_def split: rdata_atom.splits intro: spells_pushed)

lemma fields_of_pushed: "pushed db lo hi offs new offs' \<Longrightarrow> fields_of db nm offs ty j as fs \<Longrightarrow> fields_of db nm offs' ty j as fs"
  by (induction db nm offs ty j as fs rule: fields_of.induct) (auto intro: field_of_pushed)

lemma encode_rdata_spec:
  assumes "field_of db nm (q_compressed_dname_offsets q) fmt a f" "room_for q (field_room f)"
  shows "encodes db nm {} q (field_room f) (field_here f) (encode_rdata db q fmt a)"
  using assms encode_dname_spec [where X = "{}" and nm = nm and db = db and q = q] encode_bytes [of q]
  by (auto simp: field_of_def encode_rdata_def split: rdata_atom.splits)

lemma encode_rdatas_spec:
  "fields_of db nm (q_compressed_dname_offsets q) ty j as fs \<Longrightarrow> room_for q (sum_list (map field_room fs)) \<Longrightarrow>
    encodes db nm {} q (sum_list (map field_room fs)) (fields_here fs) (encode_rdatas db q ty j as)"
proof (induction as arbitrary: q j fs)
  case Nil
  then show ?case
    by (cases fs) (auto intro!: encodesI [where bs = "[]" and offs = "q_compressed_dname_offsets q" and new = "[]"] simp: pu_none)
next
  case (Cons a as)
  then obtain f fs' fmt where f: "fs = f # fs'" "rdata_atom_wireformat_type ty j = Some fmt"
    "field_of db nm (q_compressed_dname_offsets q) fmt a f" "fields_of db nm (q_compressed_dname_offsets q) ty (j + 1) as fs'"
    by (cases fs) auto
  have "encodes db nm {} q (field_room f + sum_list (map field_room fs'))
      (\<lambda>P s e. \<exists>x. field_here f P s x \<and> fields_here fs' P x e)
      (encode_rdata db q fmt a \<bind> (\<lambda>q. encode_rdatas db q ty (j + 1) as))"
  proof (rule encodes_bind)
    show "encodes db nm {} q (field_room f) (field_here f) (encode_rdata db q fmt a)"
      using Cons.prems f by (intro encode_rdata_spec) (auto simp: room_for_def)
    show "room_for q (field_room f + sum_list (map field_room fs'))" using Cons.prems f by simp
    fix bs offs new
    assume "pushed db (buf_position (q_packet q)) (buf_position (q_packet q) + length bs) (q_compressed_dname_offsets q) new offs"
      "room_for (advanced q bs offs new) (sum_list (map field_room fs'))"
    then show "encodes db nm {} (advanced q bs offs new) (sum_list (map field_room fs')) (fields_here fs')
        (encode_rdatas db (advanced q bs offs new) ty (j + 1) as)"
      using f(4) fields_of_pushed by (intro Cons.IH) auto
  qed simp
  then show ?case using f by simp
qed

text \<open>A whole record in the packet.\<close>

definition rr_here :: "byte list list \<Rightarrow> u16 \<Rightarrow> u16 \<Rightarrow> u32 \<Rightarrow> field list \<Rightarrow> byte list \<Rightarrow> nat \<Rightarrow> nat \<Rightarrow> bool" where
  "rr_here ols ty kl ttl fs P s e \<longleftrightarrow> (\<exists>x rdlen. name_here ols P s x \<and>
     bytes_at x (write_uint16 ty @ write_uint16 kl @ write_uint32 ttl @ write_uint16 rdlen) P \<and>
     x + 10 + unat rdlen = e \<and> fields_here fs P (x + 10) e)"

definition rr_room :: "byte list list \<Rightarrow> field list \<Rightarrow> nat" where
  "rr_room ols fs = length (wire ols) + 1 + 10 + sum_list (map field_room fs)"

definition rr_spelled :: "namedb \<Rightarrow> (nat \<Rightarrow> byte list list) \<Rightarrow> u16 list \<Rightarrow> domain_id \<Rightarrow> rr \<Rightarrow> byte list list \<Rightarrow> field list \<Rightarrow> bool" where
  "rr_spelled db nm offs owner r ols fs \<longleftrightarrow> spells db nm offs owner ols \<and> fields_of db nm offs (rr_type r) 0 (rr_rdatas r) fs"

lemma encode_rr_front:
  assumes "spells db nm (q_compressed_dname_offsets q) owner ols" "room_for q (length (wire ols) + 1 + 8)"
  shows "encodes db nm {} q (length (wire ols) + 1 + 8)
    (\<lambda>P s e. \<exists>x. name_here ols P s x \<and> bytes_here (write_uint16 ty @ write_uint16 kl @ write_uint32 ttl) P x e)
    (do { q \<leftarrow> encode_dname db q owner;
          q \<leftarrow> put_packet q (buffer_write_u16 (q_packet q) ty);
          q \<leftarrow> put_packet q (buffer_write_u16 (q_packet q) kl);
          put_packet q (buffer_write_u32 (q_packet q) ttl) })"
proof (rule encodes_bind)
  show "encodes db nm {} q (length (wire ols) + 1) (name_here ols) (encode_dname db q owner)"
    using assms by (intro encode_dname_spec) (auto simp: room_for_def)
  fix bs offs new
  let ?q = "advanced q bs offs new" and ?d = "write_uint16 ty @ write_uint16 kl @ write_uint32 ttl"
  assume r: "room_for ?q 8"
  have w: "put_packet (advanced ?q xs offs []) (buffer_write (written (q_packet ?q) xs) ys) = Some (advanced ?q (xs @ ys) offs [])"
    if "length xs + length ys \<le> 8" for xs ys
    using r that by (intro put_written) (auto simp: room_for_def)
  have "(do { q \<leftarrow> put_packet ?q (buffer_write_u16 (q_packet ?q) ty);
          q \<leftarrow> put_packet q (buffer_write_u16 (q_packet q) kl);
          put_packet q (buffer_write_u32 (q_packet q) ttl) }) = Some (advanced ?q ?d offs [])"
    using w [of "[]" "write_uint16 ty"] w [of "write_uint16 ty" "write_uint16 kl"]
      w [of "write_uint16 ty @ write_uint16 kl" "write_uint32 ttl"]
    by (simp add: buffer_write_int_defs advanced_def)
  moreover have "put_packet ?q (buffer_write (q_packet ?q) ?d) = Some (advanced ?q ?d offs [])"
    using w [of "[]" ?d] by (simp add: advanced_def)
  ultimately show "encodes db nm {} ?q 8 (bytes_here ?d)
      (do { q \<leftarrow> put_packet ?q (buffer_write_u16 (q_packet ?q) ty);
          q \<leftarrow> put_packet q (buffer_write_u16 (q_packet q) kl);
          put_packet q (buffer_write_u32 (q_packet q) ttl) })"
    using encode_bytes [of ?q ?d db nm "{}"] r by simp
qed (use assms in simp_all)

text \<open>
  The octets of the length are left out first. Whatever is there in the meantime, the names that the
  fields point to are right once the length is filled in.
\<close>

lemma encode_rr_body:
  assumes sp: "rr_spelled db nm (q_compressed_dname_offsets q) owner r ols fs" and room: "room_for q (rr_room ols fs)"
  obtains bs1 g bs2 offs1 new1 offs new where
    "(do { q \<leftarrow> encode_dname db q owner;
          q \<leftarrow> put_packet q (buffer_write_u16 (q_packet q) (rr_type r));
          q \<leftarrow> put_packet q (buffer_write_u16 (q_packet q) (rr_klass r));
          put_packet q (buffer_write_u32 (q_packet q) ttl) }) = Some (advanced q bs1 offs1 new1)"
    "put_packet (advanced q bs1 offs1 new1) (buffer_skip (written (q_packet q) bs1) 2) = Some (advanced q (bs1 @ g) offs1 new1)"
    "encode_rdatas db (advanced q (bs1 @ g) offs1 new1) (rr_type r) 0 (rr_rdatas r) = Some (advanced q (bs1 @ g @ bs2) offs new)"
    "length g = 2" "length (bs1 @ g @ bs2) \<le> rr_room ols fs" "length bs2 < 65536"
    "pushed db (buf_position (q_packet q)) (buf_position (q_packet q) + length (bs1 @ g @ bs2)) (q_compressed_dname_offsets q) new offs"
    "\<And>P. length P = buf_position (q_packet q) \<Longrightarrow> sound_table P (q_compressed_dname_offsets q) nm {} \<Longrightarrow>
       sound_table (P @ bs1 @ write_uint16 (of_nat (length bs2)) @ bs2) offs nm {} \<and>
       rr_here ols (rr_type r) (rr_klass r) ttl fs (P @ bs1 @ write_uint16 (of_nat (length bs2)) @ bs2) (length P)
         (length P + length (bs1 @ g @ bs2))"
proof -
  let ?pos = "buf_position (q_packet q)" and ?offs = "q_compressed_dname_offsets q"
  let ?h = "write_uint16 (rr_type r) @ write_uint16 (rr_klass r) @ write_uint32 ttl"
  note sp' = sp [unfolded rr_spelled_def]
  have rooms: "room_for q (length (wire ols) + 1 + 8)" using room by (simp add: room_for_def rr_room_def)
  obtain bs1 offs1 new1 where f:
    "(do { q \<leftarrow> encode_dname db q owner;
          q \<leftarrow> put_packet q (buffer_write_u16 (q_packet q) (rr_type r));
          q \<leftarrow> put_packet q (buffer_write_u16 (q_packet q) (rr_klass r));
          put_packet q (buffer_write_u32 (q_packet q) ttl) }) = Some (advanced q bs1 offs1 new1)"
    "length bs1 \<le> length (wire ols) + 1 + 8" "pushed db ?pos (?pos + length bs1) ?offs new1 offs1"
    "\<And>P. length P = ?pos \<Longrightarrow> sound_table P ?offs nm {} \<Longrightarrow> sound_table (P @ bs1) offs1 nm {} \<and>
       (\<exists>x. name_here ols (P @ bs1) (length P) x \<and> bytes_here ?h (P @ bs1) x (length P + length bs1))"
    using encodesE [OF encode_rr_front [OF conjunct1 [OF sp'] rooms, where ty = "rr_type r" and kl = "rr_klass r" and ttl = ttl]] by blast
  define g where "g = mem_read (?pos + length bs1) 2 (buf_data (q_packet q))"
  have fit: "?pos + length bs1 + 2 \<le> buf_limit (q_packet q)" "buffer_wf (q_packet q)"
    using f(2) room by (auto simp: room_for_def rr_room_def)
  then have lg: "length g = 2" unfolding g_def by (subst length_mem_read) (auto simp: buffer_wf_unfold)
  have sk: "put_packet (advanced q bs1 offs1 new1) (buffer_skip (written (q_packet q) bs1) 2) = Some (advanced q (bs1 @ g) offs1 new1)"
    using buffer_skip_written [OF fit(2,1)] by (simp add: g_def put_packet_def advanced_def)
  let ?q2 = "advanced q (bs1 @ g) offs1 new1" and ?m = "sum_list (map field_room fs)"
  have room2: "room_for ?q2 ?m" using room f(2) lg by (simp add: room_for_def rr_room_def)
  obtain bs2 offs new where r: "encode_rdatas db ?q2 (rr_type r) 0 (rr_rdatas r) = Some (advanced ?q2 bs2 offs new)"
    "length bs2 \<le> ?m" "pushed db (?pos + length (bs1 @ g)) (?pos + length (bs1 @ g) + length bs2) offs1 new offs"
    "\<And>P. length P = ?pos + length (bs1 @ g) \<Longrightarrow> sound_table P offs1 nm {} \<Longrightarrow> sound_table (P @ bs2) offs nm {} \<and>
       fields_here fs (P @ bs2) (length P) (length P + length bs2)"
    using encodesE [OF encode_rdatas_spec [OF _ room2]] fields_of_pushed [OF f(3) conjunct2 [OF sp']]
    unfolding advanced_sel written_sel by blast
  have l2: "length (bs1 @ g @ bs2) \<le> rr_room ols fs" using f(2) lg r(2) by (simp add: rr_room_def)
  then have l64: "length bs2 < 65536" using room lg by (simp add: room_for_def)
  show thesis
  proof (rule that [OF f(1) sk _ lg l2 l64])
    show "encode_rdatas db ?q2 (rr_type r) 0 (rr_rdatas r) = Some (advanced q (bs1 @ g @ bs2) offs (new @ new1))"
      using r(1) advanced_advanced [of q "bs1 @ g" bs2 offs1 new1 offs new] l2 room by (simp add: room_for_def)
    show "pushed db ?pos (?pos + length (bs1 @ g @ bs2)) ?offs (new @ new1) offs"
      by (rule pushed_trans [OF pushed_mono [OF r(3)] pushed_mono [OF f(3)]]) simp_all
    fix P assume P: "length P = ?pos" "sound_table P ?offs nm {}"
    let ?w = "write_uint16 (of_nat (length bs2))" 
    have 1: "sound_table (P @ bs1) offs1 nm {}" using f(4) [OF P] by simp
    obtain x where x: "name_here ols (P @ bs1) (length P) x" "bytes_at x ?h (P @ bs1)" "x + 8 = length P + length bs1"
      using f(4) [OF P] by (auto simp: bytes_here_def)
    have 2: "sound_table (P @ bs1 @ ?w @ bs2) offs nm {}" "fields_here fs (P @ bs1 @ ?w @ bs2) (length P + length bs1 + 2) (length P + length bs1 + 2 + length bs2)"
      using r(4) [of "P @ bs1 @ ?w"] sound_table_append [OF 1, of ?w] P(1) lg by (simp_all add: add.assoc)
    have e: "x + 10 = length P + length bs1 + 2" using x(3) by simp
    have 3: "name_here ols (P @ bs1 @ ?w @ bs2) (length P) x" using x(1) stable_name unfolding stable_def by (metis append.assoc)
    have "bytes_at x ?h (P @ bs1 @ ?w @ bs2)" using bytes_at_appended [OF x(2), of "?w @ bs2"] by simp
    moreover have "bytes_at (x + 8) ?w (P @ bs1 @ ?w @ bs2)" using x(3) by (simp add: bytes_at_def mem_read_def)
    ultimately have "bytes_at x (?h @ ?w) (P @ bs1 @ ?w @ bs2)" using bytes_at_append [of x ?h ?w] by simp
    moreover have "fields_here fs (P @ bs1 @ ?w @ bs2) (x + 10) (length P + length (bs1 @ g @ bs2))"
      using 2(2) unfolding e by (simp add: lg add.assoc)
    moreover have "x + 10 + unat (of_nat (length bs2) :: u16) = length P + length (bs1 @ g @ bs2)"
      using l64 e lg unat_u16_of_nat [of "length bs2"] by simp
    ultimately show "sound_table (P @ bs1 @ ?w @ bs2) offs nm {} \<and>
       rr_here ols (rr_type r) (rr_klass r) ttl fs (P @ bs1 @ ?w @ bs2) (length P) (length P + length (bs1 @ g @ bs2))"
      using 2(1) 3 unfolding rr_here_def append.assoc by blast
  qed
qed

lemma packet_encode_rr_spec:
  assumes sp: "rr_spelled db nm (q_compressed_dname_offsets q) owner r ols fs" and room: "room_for q (rr_room ols fs)"
    and st: "settled db (buf_position (q_packet q)) (q_compressed_dnames q) (q_compressed_dname_offsets q)"
    and ov: "\<not> query_overflow q"
  obtains (added) q' where "packet_encode_rr db q owner r ttl = Some (True, q')" "\<not> query_overflow q'"
      "encodes db nm {} q (rr_room ols fs) (rr_here ols (rr_type r) (rr_klass r) ttl fs) (Some q')"
  | (full) bs where "length bs \<le> rr_room ols fs" "query_overflow (advanced q bs (q_compressed_dname_offsets q) [])"
      "packet_encode_rr db q owner r ttl = Some (False, q\<lparr>q_packet := (written (q_packet q) bs)\<lparr>buf_position := buf_position (q_packet q)\<rparr>\<rparr>)"
proof (rule encode_rr_body [OF sp room, of ttl])
  let ?pos = "buf_position (q_packet q)" and ?offs = "q_compressed_dname_offsets q"
  fix bs1 g bs2 offs1 new1 offs new
  assume b:
    "(do { q \<leftarrow> encode_dname db q owner;
          q \<leftarrow> put_packet q (buffer_write_u16 (q_packet q) (rr_type r));
          q \<leftarrow> put_packet q (buffer_write_u16 (q_packet q) (rr_klass r));
          put_packet q (buffer_write_u32 (q_packet q) ttl) }) = Some (advanced q bs1 offs1 new1)"
    "put_packet (advanced q bs1 offs1 new1) (buffer_skip (written (q_packet q) bs1) 2) = Some (advanced q (bs1 @ g) offs1 new1)"
    "encode_rdatas db (advanced q (bs1 @ g) offs1 new1) (rr_type r) 0 (rr_rdatas r) = Some (advanced q (bs1 @ g @ bs2) offs new)"
    "length g = 2" "length (bs1 @ g @ bs2) \<le> rr_room ols fs" "length bs2 < 65536"
    "pushed db ?pos (?pos + length (bs1 @ g @ bs2)) ?offs new offs"
    "\<And>P. length P = ?pos \<Longrightarrow> sound_table P ?offs nm {} \<Longrightarrow>
       sound_table (P @ bs1 @ write_uint16 (of_nat (length bs2)) @ bs2) offs nm {} \<and>
       rr_here ols (rr_type r) (rr_klass r) ttl fs (P @ bs1 @ write_uint16 (of_nat (length bs2)) @ bs2) (length P)
         (length P + length (bs1 @ g @ bs2))"
  let ?q3 = "advanced q (bs1 @ g @ bs2) offs new" and ?w = "write_uint16 (of_nat (length bs2) :: u16)"
  have run: "packet_encode_rr db q owner r ttl =
      (if \<not> query_overflow ?q3 then do {
         q \<leftarrow> put_packet ?q3 (buffer_write_u16_at (q_packet ?q3) (?pos + length bs1) (of_nat (length bs2)));
         Some (True, q) }
       else do {
         q \<leftarrow> put_packet ?q3 (buffer_set_position (q_packet ?q3) ?pos);
         q \<leftarrow> query_clear_dname_offsets db q ?pos;
         assert_c (\<not> query_overflow q);
         Some (False, q) })"
    using b(1-4) unfolding packet_encode_rr_def Let_def by (auto simp: Option.bind_eq_Some_conv)
  have wf: "buffer_wf (q_packet q)" "?pos + length (bs1 @ g @ bs2) \<le> buf_limit (q_packet q)"
    using room b(5) by (auto simp: room_for_def)
  show thesis
  proof (cases "query_overflow ?q3")
    case False
    let ?q' = "advanced q (bs1 @ ?w @ bs2) offs new"
    have "packet_encode_rr db q owner r ttl = Some (True, ?q')"
      using run False buffer_write_u16_at_written [OF wf b(4)] by (simp add: put_packet_def advanced_def)
    moreover have "\<not> query_overflow ?q'" using False b(4) by (simp add: query_overflow_def)
    moreover have "encodes db nm {} q (rr_room ols fs) (rr_here ols (rr_type r) (rr_klass r) ttl fs) (Some ?q')"
    proof (rule encodesI)
      show "pushed db ?pos (?pos + length (bs1 @ ?w @ bs2)) ?offs new offs" using b(4,7) by simp
    qed (use b(4,5,8) in simp_all)
    ultimately show thesis by (rule added)
  next
    case True
    have clr: "clear_offsets db ?pos (new @ q_compressed_dnames q) offs = Some (q_compressed_dnames q, ?offs)"
      using clear_pushed [OF b(7) le_refl] settled_clear [OF st] by simp
    have "packet_encode_rr db q owner r ttl =
        Some (False, q\<lparr>q_packet := (written (q_packet q) (bs1 @ g @ bs2))\<lparr>buf_position := ?pos\<rparr>\<rparr>)"
      using run True wf clr ov
      by (simp add: buffer_set_position_def put_packet_def advanced_def query_clear_dname_offsets_def query_overflow_def)
    moreover have "query_overflow (advanced q (bs1 @ g @ bs2) ?offs [])" using True by (simp add: query_overflow_def)
    ultimately show thesis using full b(5) by blast
  qed
qed

end
