(* ===== verification/Encode_Answer.thy ===== *)
theory Encode_Answer
  imports Encode
begin

text \<open>
  What the encoders for RRsets and for a whole answer do (\<open>packet_encode_rrset\<close> in \<open>packet.c\<close>,
  \<open>encode_answer\<close> and \<open>answer_add_rrset\<close> in \<open>answer.c\<close>): which records are in the message, that they
  can be read back from it, how the message is truncated, and the header counts. The relation \<open>grown\<close> is the
  contract between the loops: octets and compression entries are only added behind the position, and the
  table stays right whatever is in front of it.
\<close>

unbundle bit_operations_syntax

subsection \<open>Encoding RRsets\<close>

text \<open>
  The query has grown by some octets and compression entries. The octets behind the position are
  left over from records that did not fit and can be anything.
\<close>

definition grown :: "namedb \<Rightarrow> (nat \<Rightarrow> byte list list) \<Rightarrow> 'c query \<Rightarrow> (byte list \<Rightarrow> nat \<Rightarrow> nat \<Rightarrow> bool) \<Rightarrow> 'c query \<Rightarrow> bool" where
  "grown db nm q meaning q' \<longleftrightarrow> (\<exists>bs offs new data.
     q' = q\<lparr>q_packet := (q_packet q)\<lparr>buf_position := buf_position (q_packet q) + length bs, buf_data := data\<rparr>,
            q_compressed_dname_offsets := offs, q_compressed_dnames := new @ q_compressed_dnames q\<rparr> \<and>
     length data = length (buf_data (q_packet q)) \<and> buf_position (q_packet q) + length bs \<le> buf_limit (q_packet q) \<and>
     take (buf_position (q_packet q) + length bs) data = take (buf_position (q_packet q)) (buf_data (q_packet q)) @ bs \<and>
     pushed db (buf_position (q_packet q)) (buf_position (q_packet q) + length bs) (q_compressed_dname_offsets q) new offs \<and>
     (\<forall>P. length P = buf_position (q_packet q) \<longrightarrow> sound_table P (q_compressed_dname_offsets q) nm {} \<longrightarrow>
        sound_table (P @ bs) offs nm {} \<and> meaning (P @ bs) (length P) (length P + length bs)))"

lemma grownI:
  assumes "q' = q\<lparr>q_packet := (q_packet q)\<lparr>buf_position := buf_position (q_packet q) + length bs, buf_data := data\<rparr>,
            q_compressed_dname_offsets := offs, q_compressed_dnames := new @ q_compressed_dnames q\<rparr>"
    "length data = length (buf_data (q_packet q))" "buf_position (q_packet q) + length bs \<le> buf_limit (q_packet q)"
    "take (buf_position (q_packet q) + length bs) data = take (buf_position (q_packet q)) (buf_data (q_packet q)) @ bs"
    "pushed db (buf_position (q_packet q)) (buf_position (q_packet q) + length bs) (q_compressed_dname_offsets q) new offs"
    "\<And>P. length P = buf_position (q_packet q) \<Longrightarrow> sound_table P (q_compressed_dname_offsets q) nm {} \<Longrightarrow>
        sound_table (P @ bs) offs nm {} \<and> meaning (P @ bs) (length P) (length P + length bs)"
  shows "grown db nm q meaning q'"
  using assms unfolding grown_def by blast

lemma grownE:
  assumes "grown db nm q meaning q'"
  obtains bs offs new data where
    "q' = q\<lparr>q_packet := (q_packet q)\<lparr>buf_position := buf_position (q_packet q) + length bs, buf_data := data\<rparr>,
            q_compressed_dname_offsets := offs, q_compressed_dnames := new @ q_compressed_dnames q\<rparr>"
    "length data = length (buf_data (q_packet q))" "buf_position (q_packet q) + length bs \<le> buf_limit (q_packet q)"
    "take (buf_position (q_packet q) + length bs) data = take (buf_position (q_packet q)) (buf_data (q_packet q)) @ bs"
    "pushed db (buf_position (q_packet q)) (buf_position (q_packet q) + length bs) (q_compressed_dname_offsets q) new offs"
    "\<And>P. length P = buf_position (q_packet q) \<Longrightarrow> sound_table P (q_compressed_dname_offsets q) nm {} \<Longrightarrow>
        sound_table (P @ bs) offs nm {} \<and> meaning (P @ bs) (length P) (length P + length bs)"
  using assms unfolding grown_def by blast

definition no_bytes :: "byte list \<Rightarrow> nat \<Rightarrow> nat \<Rightarrow> bool" where
  "no_bytes P s e \<longleftrightarrow> s = e"

lemma grown_packet:
  assumes "grown db nm q M q'" "buffer_wf (q_packet q)"
  shows "buffer_wf (q_packet q')" "buf_limit (q_packet q') = buf_limit (q_packet q)"
    "buf_position (q_packet q) \<le> buf_position (q_packet q')"
    "q_maxlen q' = q_maxlen q" "q_reserved_space q' = q_reserved_space q"
    "take (buf_position (q_packet q)) (buf_data (q_packet q')) = take (buf_position (q_packet q)) (buf_data (q_packet q))"
    "length (q_compressed_dname_offsets q') = length (q_compressed_dname_offsets q)"
proof -
  obtain bs offs new data where g:
    "q' = q\<lparr>q_packet := (q_packet q)\<lparr>buf_position := buf_position (q_packet q) + length bs, buf_data := data\<rparr>,
            q_compressed_dname_offsets := offs, q_compressed_dnames := new @ q_compressed_dnames q\<rparr>"
    "length data = length (buf_data (q_packet q))" "buf_position (q_packet q) + length bs \<le> buf_limit (q_packet q)"
    "take (buf_position (q_packet q) + length bs) data = take (buf_position (q_packet q)) (buf_data (q_packet q)) @ bs"
    "pushed db (buf_position (q_packet q)) (buf_position (q_packet q) + length bs) (q_compressed_dname_offsets q) new offs"
    using grownE [OF assms(1)] by metis
  have p: "buf_position (q_packet q) \<le> length (buf_data (q_packet q))" using assms(2) by (auto simp: buffer_wf_unfold)
  show "buffer_wf (q_packet q')" "buf_limit (q_packet q') = buf_limit (q_packet q)"
    "buf_position (q_packet q) \<le> buf_position (q_packet q')"
    "q_maxlen q' = q_maxlen q" "q_reserved_space q' = q_reserved_space q"
    "length (q_compressed_dname_offsets q') = length (q_compressed_dname_offsets q)"
    using assms(2) g(1-3) pushed_length [OF g(5)] by (auto simp: buffer_wf_unfold)
  have "take (buf_position (q_packet q)) (take (buf_position (q_packet q) + length bs) data) =
      take (buf_position (q_packet q)) (buf_data (q_packet q))"
    using p unfolding g(4) by simp
  then show "take (buf_position (q_packet q)) (buf_data (q_packet q')) = take (buf_position (q_packet q)) (buf_data (q_packet q))"
    using g(1) by (simp add: take_take)
qed

lemma pushed_nothing: "pushed db lo hi offs new offs' \<Longrightarrow> hi \<le> lo \<Longrightarrow> new = [] \<and> offs' = offs"
  by (induction rule: pushed.induct) auto

lemma grown_nothing:
  assumes "grown db nm q M q'" "buf_position (q_packet q') = buf_position (q_packet q)"
  shows "q_compressed_dnames q' = q_compressed_dnames q \<and> q_compressed_dname_offsets q' = q_compressed_dname_offsets q"
  by (rule grownE [OF assms(1)]) (use assms(2) pushed_nothing in fastforce)

lemma encodes_grown:
  assumes "encodes db nm {} q m M (Some q')" "room_for q m"
  shows "grown db nm q M q'"
proof -
  obtain bs offs new where e: "Some q' = Some (advanced q bs offs new)" "length bs \<le> m"
    "pushed db (buf_position (q_packet q)) (buf_position (q_packet q) + length bs) (q_compressed_dname_offsets q) new offs"
    "\<And>P. length P = buf_position (q_packet q) \<Longrightarrow> sound_table P (q_compressed_dname_offsets q) nm {} \<Longrightarrow>
        sound_table (P @ bs) offs nm {} \<and> M (P @ bs) (length P) (length P + length bs)"
    using encodesE [OF assms(1)] by blast
  have w: "buf_position (q_packet q) + length bs \<le> length (buf_data (q_packet q))"
    using assms(2) e(2) by (auto simp: room_for_def buffer_wf_unfold)
  show ?thesis
  proof (rule grownI)
    show "q' = q\<lparr>q_packet := (q_packet q)\<lparr>buf_position := buf_position (q_packet q) + length bs,
        buf_data := mem_write (buf_position (q_packet q)) bs (buf_data (q_packet q))\<rparr>,
        q_compressed_dname_offsets := offs, q_compressed_dnames := new @ q_compressed_dnames q\<rparr>"
      using e(1) by (simp add: advanced_def written_def)
    show "length (mem_write (buf_position (q_packet q)) bs (buf_data (q_packet q))) = length (buf_data (q_packet q))"
      using w by (simp add: mem_write_def)
    show "take (buf_position (q_packet q) + length bs) (mem_write (buf_position (q_packet q)) bs (buf_data (q_packet q))) =
        take (buf_position (q_packet q)) (buf_data (q_packet q)) @ bs"
      using w by (simp add: mem_write_def)
  qed (use assms(2) e(2-4) in \<open>simp_all add: room_for_def\<close>)
qed

lemma grown_leftover:
  assumes "buffer_wf (q_packet q)" "length data = length (buf_data (q_packet q))"
    "take (buf_position (q_packet q)) data = take (buf_position (q_packet q)) (buf_data (q_packet q))"
  shows "grown db nm q no_bytes (q\<lparr>q_packet := (q_packet q)\<lparr>buf_data := data\<rparr>\<rparr>)"
  by (rule grownI [where bs = "[]" and offs = "q_compressed_dname_offsets q" and new = "[]" and data = data])
    (use assms in \<open>simp_all add: pu_none no_bytes_def buffer_wf_unfold\<close>)

lemma grown_refl: "buffer_wf (q_packet q) \<Longrightarrow> grown db nm q no_bytes q"
  using grown_leftover [of q "buf_data (q_packet q)"] by simp

lemma grown_weaken: "grown db nm q M q' \<Longrightarrow> (\<And>P s e. M P s e \<Longrightarrow> M' P s e) \<Longrightarrow> grown db nm q M' q'"
  unfolding grown_def by blast

lemma grown_trans:
  assumes g1: "grown db nm q M1 q1" and st: "stable M1" and g2: "grown db nm q1 M2 q2"
  shows "grown db nm q (\<lambda>P s e. \<exists>x. M1 P s x \<and> M2 P x e) q2"
proof (rule grownE [OF g1], rule grownE [OF g2])
  let ?pos = "buf_position (q_packet q)"
  fix bs1 offs1 new1 data1 bs2 offs2 new2 data2
  assume 1: "q1 = q\<lparr>q_packet := (q_packet q)\<lparr>buf_position := ?pos + length bs1, buf_data := data1\<rparr>,
            q_compressed_dname_offsets := offs1, q_compressed_dnames := new1 @ q_compressed_dnames q\<rparr>"
    "length data1 = length (buf_data (q_packet q))" "?pos + length bs1 \<le> buf_limit (q_packet q)"
    "take (?pos + length bs1) data1 = take ?pos (buf_data (q_packet q)) @ bs1"
    "pushed db ?pos (?pos + length bs1) (q_compressed_dname_offsets q) new1 offs1"
    "\<And>P. length P = ?pos \<Longrightarrow> sound_table P (q_compressed_dname_offsets q) nm {} \<Longrightarrow>
        sound_table (P @ bs1) offs1 nm {} \<and> M1 (P @ bs1) (length P) (length P + length bs1)"
  have p1: "buf_position (q_packet q1) = ?pos + length bs1" "buf_data (q_packet q1) = data1"
    "q_compressed_dname_offsets q1 = offs1" "buf_limit (q_packet q1) = buf_limit (q_packet q)" using 1(1) by simp_all
  assume "q2 = q1\<lparr>q_packet := (q_packet q1)\<lparr>buf_position := buf_position (q_packet q1) + length bs2, buf_data := data2\<rparr>,
            q_compressed_dname_offsets := offs2, q_compressed_dnames := new2 @ q_compressed_dnames q1\<rparr>"
    "length data2 = length (buf_data (q_packet q1))" "buf_position (q_packet q1) + length bs2 \<le> buf_limit (q_packet q1)"
    "take (buf_position (q_packet q1) + length bs2) data2 = take (buf_position (q_packet q1)) (buf_data (q_packet q1)) @ bs2"
    "pushed db (buf_position (q_packet q1)) (buf_position (q_packet q1) + length bs2) (q_compressed_dname_offsets q1) new2 offs2"
    "\<And>P. length P = buf_position (q_packet q1) \<Longrightarrow> sound_table P (q_compressed_dname_offsets q1) nm {} \<Longrightarrow>
        sound_table (P @ bs2) offs2 nm {} \<and> M2 (P @ bs2) (length P) (length P + length bs2)"
  note 2 = this [unfolded p1]
  show "grown db nm q (\<lambda>P s e. \<exists>x. M1 P s x \<and> M2 P x e) q2"
  proof (rule grownI [where bs = "bs1 @ bs2"])
    show "q2 = q\<lparr>q_packet := (q_packet q)\<lparr>buf_position := ?pos + length (bs1 @ bs2), buf_data := data2\<rparr>,
            q_compressed_dname_offsets := offs2, q_compressed_dnames := (new2 @ new1) @ q_compressed_dnames q\<rparr>"
      using 1(1) 2(1) by (simp add: add.assoc)
    show "pushed db ?pos (?pos + length (bs1 @ bs2)) (q_compressed_dname_offsets q) (new2 @ new1) offs2"
      by (rule pushed_trans [OF pushed_mono [OF 2(5)] pushed_mono [OF 1(5)]]) simp_all
    fix P assume P: "length P = ?pos" "sound_table P (q_compressed_dname_offsets q) nm {}"
    have m: "sound_table (P @ bs1) offs1 nm {}" "M1 (P @ bs1) (length P) (length P + length bs1)" using 1(6) [OF P] by auto
    have "M1 ((P @ bs1) @ bs2) (length P) (length P + length bs1)" using st m(2) unfolding stable_def by blast
    then show "sound_table (P @ bs1 @ bs2) offs2 nm {} \<and>
        (\<exists>x. M1 (P @ bs1 @ bs2) (length P) x \<and> M2 (P @ bs1 @ bs2) x (length P + length (bs1 @ bs2)))"
      using 2(6) [of "P @ bs1"] m(1) P(1) by (auto simp: add.assoc)
  qed (use 1(2-4) 2(2-4) in \<open>simp_all add: add.assoc\<close>)
qed

lemma grown_settled:
  assumes "grown db nm q M q'" "settled db (buf_position (q_packet q)) (q_compressed_dnames q) (q_compressed_dname_offsets q)"
  shows "settled db (buf_position (q_packet q')) (q_compressed_dnames q') (q_compressed_dname_offsets q')"
  by (rule grownE [OF assms(1)]) (use settled_pushed [OF _ assms(2)] in auto)

text \<open>Truncating at a mark takes all entries and octets behind it away, and no others.\<close>

lemma truncate_grown:
  assumes g: "grown db nm q M q'" and wf: "buffer_wf (q_packet q)"
    and st: "settled db (buf_position (q_packet q)) (q_compressed_dnames q) (q_compressed_dname_offsets q)"
  shows "\<exists>q''. truncate_to db q' (buf_position (q_packet q)) = Some q'' \<and> grown db nm q no_bytes q'' \<and>
    buf_position (q_packet q'') = buf_position (q_packet q)"
proof (rule grownE [OF g])
  let ?pos = "buf_position (q_packet q)"
  fix bs offs new data
  assume 1: "q' = q\<lparr>q_packet := (q_packet q)\<lparr>buf_position := ?pos + length bs, buf_data := data\<rparr>,
            q_compressed_dname_offsets := offs, q_compressed_dnames := new @ q_compressed_dnames q\<rparr>"
    "length data = length (buf_data (q_packet q))" "?pos + length bs \<le> buf_limit (q_packet q)"
    "take (?pos + length bs) data = take ?pos (buf_data (q_packet q)) @ bs"
    "pushed db ?pos (?pos + length bs) (q_compressed_dname_offsets q) new offs"
  have "clear_offsets db ?pos (new @ q_compressed_dnames q) offs = Some (q_compressed_dnames q, q_compressed_dname_offsets q)"
    using clear_pushed [OF 1(5) le_refl] settled_clear [OF st] by simp
  then have "truncate_to db q' ?pos = Some (q\<lparr>q_packet := (q_packet q)\<lparr>buf_data := data\<rparr>\<rparr>)"
    using 1(1,3) by (simp add: truncate_to_def put_packet_def buffer_set_position_def query_clear_dname_offsets_def)
  moreover have "grown db nm q no_bytes (q\<lparr>q_packet := (q_packet q)\<lparr>buf_data := data\<rparr>\<rparr>)"
    using grown_packet(6) [OF g wf] 1(1,2) by (intro grown_leftover wf) simp_all
  ultimately show ?thesis by simp
qed

text \<open>
  The packet has room for one more record of \<open>R\<close> octets behind the part that an answer may fill, as
  the buffers of the server have.
\<close>

definition encodable :: "namedb \<Rightarrow> nat \<Rightarrow> 'c query \<Rightarrow> bool" where
  "encodable db R q \<longleftrightarrow> buffer_wf (q_packet q) \<and> QHEADERSZ \<le> buf_position (q_packet q) \<and>
     settled db (buf_position (q_packet q)) (q_compressed_dnames q) (q_compressed_dname_offsets q) \<and>
     q_reserved_space q \<le> q_maxlen q \<and> buf_position (q_packet q) \<le> q_maxlen q - q_reserved_space q \<and>
     q_maxlen q - q_reserved_space q + R \<le> buf_limit (q_packet q) \<and> q_maxlen q - q_reserved_space q + R \<le> 65536"

lemma encodable_overflow:
  assumes "q_reserved_space q \<le> q_maxlen q" "q_maxlen q - q_reserved_space q \<le> 65536"
  shows "query_overflow q \<longleftrightarrow> q_maxlen q - q_reserved_space q < buf_position (q_packet q)"
proof -
  have "nat ((int (q_maxlen q) - int (q_reserved_space q)) mod 2 ^ 64) = q_maxlen q - q_reserved_space q"
    using assms by (simp add: of_nat_diff [symmetric] nat_mod_as_int del: of_nat_diff)
  then show ?thesis by (simp add: query_overflow_def)
qed

lemma encodable_room: "encodable db R q \<Longrightarrow> m \<le> R \<Longrightarrow> room_for q m"
  by (auto simp: encodable_def room_for_def QHEADERSZ_def)

lemma encodable_grown:
  assumes e: "encodable db R q" and g: "grown db nm q M q'" and o: "\<not> query_overflow q'"
  shows "encodable db R q'"
proof -
  have "buffer_wf (q_packet q)" using e by (simp add: encodable_def)
  note p = grown_packet [OF g this]
  have "buf_position (q_packet q') \<le> q_maxlen q' - q_reserved_space q'"
    using o encodable_overflow [of q'] e p(4,5) by (auto simp: encodable_def)
  then show ?thesis using e p grown_settled [OF g] by (auto simp: encodable_def)
qed

lemma grown_spelled:
  "grown db nm q M q' \<Longrightarrow> rr_spelled db nm (q_compressed_dname_offsets q) owner r ols fs \<Longrightarrow>
    rr_spelled db nm (q_compressed_dname_offsets q') owner r ols fs"
  by (erule grownE) (auto simp: rr_spelled_def intro: spells_pushed fields_of_pushed)

lemma stable_fields [simp]: "stable (fields_here fs)"
proof (induction fs)
  case (Cons f fs)
  then show ?case using stable_field [of f] unfolding stable_def fields_here.simps by blast
qed (simp add: stable_def)

lemma stable_rr [simp]: "stable (rr_here ols ty kl ttl fs)"
  using stable_fields [of fs] stable_name [of ols] bytes_at_appended unfolding stable_def rr_here_def by blast

lemma stable_no_bytes [simp]: "stable no_bytes"
  by (simp add: stable_def no_bytes_def)

lemma packet_encode_rr_grown:
  assumes e: "encodable db R q" and sp: "rr_spelled db nm (q_compressed_dname_offsets q) owner r ols fs" and R: "rr_room ols fs \<le> R"
  shows "\<exists>ok q'. packet_encode_rr db q owner r ttl = Some (ok, q') \<and> encodable db R q' \<and>
    grown db nm q (if ok then rr_here ols (rr_type r) (rr_klass r) ttl fs else no_bytes) q'"
proof -
  have st: "settled db (buf_position (q_packet q)) (q_compressed_dnames q) (q_compressed_dname_offsets q)"
    and ov: "\<not> query_overflow q" and wf: "buffer_wf (q_packet q)"
    using e encodable_overflow [of q] by (auto simp: encodable_def)
  note room = encodable_room [OF e R]
  show ?thesis
  proof (rule packet_encode_rr_spec [OF sp room st ov, of ttl])
    fix q' assume a: "packet_encode_rr db q owner r ttl = Some (True, q')" "\<not> query_overflow q'"
      "encodes db nm {} q (rr_room ols fs) (rr_here ols (rr_type r) (rr_klass r) ttl fs) (Some q')"
    have "grown db nm q (rr_here ols (rr_type r) (rr_klass r) ttl fs) q'" using encodes_grown [OF a(3) room] .
    then show ?thesis using a(1) encodable_grown [OF e _ a(2)] by (intro exI conjI) auto
  next
    fix bs assume f: "length bs \<le> rr_room ols fs"
      "packet_encode_rr db q owner r ttl = Some (False, q\<lparr>q_packet := (written (q_packet q) bs)\<lparr>buf_position := buf_position (q_packet q)\<rparr>\<rparr>)"
      (is "_ = Some (False, ?q')")
    have w: "buf_position (q_packet q) + length bs \<le> length (buf_data (q_packet q))"
      using f(1) room by (auto simp: room_for_def buffer_wf_unfold)
    have "?q' = q\<lparr>q_packet := (q_packet q)\<lparr>buf_data := mem_write (buf_position (q_packet q)) bs (buf_data (q_packet q))\<rparr>\<rparr>"
      by (simp add: written_def)
    moreover have "grown db nm q no_bytes \<dots>"
      by (rule grown_leftover [OF wf]) (use w in \<open>simp_all add: mem_write_def\<close>)
    ultimately have g: "grown db nm q no_bytes ?q'" by (simp only:)
    have "\<not> query_overflow ?q'" using ov by (simp add: query_overflow_def)
    then show ?thesis using f(2) g encodable_grown [OF e g] by (intro exI conjI) auto
  qed
qed

text \<open>A list of records, each with the TTL it is sent with.\<close>

fun encode_list :: "namedb \<Rightarrow> 'c query \<Rightarrow> domain_id \<Rightarrow> (rr \<times> u32) list \<Rightarrow> nat \<Rightarrow> (bool \<times> nat \<times> 'c query) option" where
  "encode_list db q owner [] added = Some (True, added, q)"
| "encode_list db q owner ((r, ttl) # rs) added = do {
     (ok, q) \<leftarrow> packet_encode_rr db q owner r ttl;
     if ok then encode_list db q owner rs (added + 1) else Some (False, added, q) }"

fun recs_here :: "byte list list \<Rightarrow> (rr \<Rightarrow> field list) \<Rightarrow> (rr \<times> u32) list \<Rightarrow> byte list \<Rightarrow> nat \<Rightarrow> nat \<Rightarrow> bool" where
  "recs_here ols F [] P s e \<longleftrightarrow> s = e"
| "recs_here ols F ((r, ttl) # rs) P s e \<longleftrightarrow>
     (\<exists>x. rr_here ols (rr_type r) (rr_klass r) ttl (F r) P s x \<and> recs_here ols F rs P x e)"

lemma stable_recs [simp]: "stable (recs_here ols F rs)"
proof (induction rs)
  case (Cons a rs)
  then show ?case using stable_rr [of ols "rr_type (fst a)" "rr_klass (fst a)" "snd a" "F (fst a)"]
    unfolding stable_def by (cases a) (simp only: recs_here.simps fst_conv snd_conv, blast)
qed (simp add: stable_def)

lemma recs_here_append: "recs_here ols F (xs @ ys) P s e \<longleftrightarrow> (\<exists>x. recs_here ols F xs P s x \<and> recs_here ols F ys P x e)"
proof (induction xs arbitrary: s)
  case (Cons a xs)
  then show ?case by (cases a) (simp, blast)
qed simp

lemma recs_here_Nil: "recs_here ols F [] = no_bytes"
  by (intro ext) (simp add: no_bytes_def)

lemma encode_rrs_list: "encode_rrs db q owner rs added = encode_list db q owner (map (\<lambda>r. (r, rr_ttl r)) rs) added"
  by (induction rs arbitrary: q added) (auto intro!: Option.bind_cong)

lemma encode_sigs_list:
  "\<forall>r \<in> set rs. rr_rrsig_type_covered r \<noteq> None \<Longrightarrow> encode_sigs db q owner ty ttl rs added =
    encode_list db q owner (map (\<lambda>r. (r, case ttl of Some t \<Rightarrow> t | None \<Rightarrow> rr_ttl r))
      (filter (\<lambda>r. rr_rrsig_type_covered r = Some ty) rs)) added"
  by (induction rs arbitrary: q added) (auto intro!: Option.bind_cong)

definition recs_ok :: "namedb \<Rightarrow> (nat \<Rightarrow> byte list list) \<Rightarrow> nat \<Rightarrow> u16 list \<Rightarrow> domain_id \<Rightarrow> byte list list \<Rightarrow> (rr \<Rightarrow> field list) \<Rightarrow>
    (rr \<times> u32) list \<Rightarrow> bool" where
  "recs_ok db nm R offs owner ols F recs \<longleftrightarrow>
     (\<forall>r \<in> fst ` set recs. rr_spelled db nm offs owner r ols (F r) \<and> rr_room ols (F r) \<le> R)"

lemma grown_recs_ok:
  "grown db nm q M q' \<Longrightarrow> recs_ok db nm R (q_compressed_dname_offsets q) owner ols F recs \<Longrightarrow>
    recs_ok db nm R (q_compressed_dname_offsets q') owner ols F recs"
  unfolding recs_ok_def using grown_spelled by blast

lemma encode_list_spec:
  assumes "encodable db R q" "recs_ok db nm R (q_compressed_dname_offsets q) owner ols F recs"
  shows "\<exists>k q'. k \<le> length recs \<and> encode_list db q owner recs added = Some (k = length recs, added + k, q') \<and>
    encodable db R q' \<and> grown db nm q (recs_here ols F (take k recs)) q'"
  using assms
proof (induction recs arbitrary: q added)
  case Nil
  then show ?case using grown_refl [of q db nm] by (auto simp: encodable_def grown_def no_bytes_def)
next
  case (Cons a recs)
  obtain r ttl where a: "a = (r, ttl)" by (cases a)
  have "rr_spelled db nm (q_compressed_dname_offsets q) owner r ols (F r)" "rr_room ols (F r) \<le> R"
    using Cons.prems(2) a by (auto simp: recs_ok_def)
  then obtain ok q1 where q1: "packet_encode_rr db q owner r ttl = Some (ok, q1)" "encodable db R q1"
    "grown db nm q (if ok then rr_here ols (rr_type r) (rr_klass r) ttl (F r) else no_bytes) q1"
    using packet_encode_rr_grown [OF Cons.prems(1)] by blast
  show ?case
  proof (cases ok)
    case False
    then have "grown db nm q (recs_here ols F (take 0 (a # recs))) q1" using q1(3) by (simp add: recs_here_Nil del: recs_here.simps)
    then show ?thesis using q1 False a by (intro exI [of _ 0] exI [of _ q1]) (simp del: recs_here.simps)
  next
    case True
    have "recs_ok db nm R (q_compressed_dname_offsets q1) owner ols F recs"
      using grown_recs_ok [OF q1(3) Cons.prems(2)] by (auto simp: recs_ok_def)
    then obtain k q' where k: "k \<le> length recs" "encode_list db q1 owner recs (added + 1) = Some (k = length recs, added + 1 + k, q')"
      "encodable db R q'" "grown db nm q1 (recs_here ols F (take k recs)) q'"
      using Cons.IH [OF q1(2)] by blast
    have "grown db nm q (rr_here ols (rr_type r) (rr_klass r) ttl (F r)) q1" using q1(3) True by simp
    from grown_trans [OF this _ k(4)] have "grown db nm q (recs_here ols F (take (Suc k) (a # recs))) q'"
      by (rule grown_weaken) (auto simp: a)
    then show ?thesis using k q1(1) True a by (intro exI [of _ "Suc k"] exI [of _ q']) (simp del: recs_here.simps)
  qed
qed

text \<open>The signatures that go with an RRset.\<close>

definition rrset_sigs :: "namedb \<Rightarrow> 'c query \<Rightarrow> domain_id \<Rightarrow> rrset \<Rightarrow> (rr \<times> u32) list option" where
  "rrset_sigs db q owner rset = do {
     ty \<leftarrow> rrset_rrtype rset;
     secure \<leftarrow> (if ed_dnssec_ok (q_edns q) \<noteq> 0 then zone_is_secure db (rs_zone rset) else Some False);
     sigs \<leftarrow> (if secure \<and> ty \<noteq> TYPE_RRSIG then domain_find_rrset db owner (rs_zone rset) TYPE_RRSIG else Some None);
     case sigs of None \<Rightarrow> Some []
     | Some s \<Rightarrow> do {
         sset \<leftarrow> db_rrsets db s;
         assert_c (list_all (\<lambda>r. rr_rrsig_type_covered r \<noteq> None) (rs_rrs sset));
         Some (map (\<lambda>r. (r, if ty = TYPE_SOA then rr_ttl (hd (rs_rrs rset)) else rr_ttl r))
           (filter (\<lambda>r. rr_rrsig_type_covered r = Some ty) (rs_rrs sset))) } }"

definition rrset_robin :: "'c query \<Rightarrow> rr_section \<Rightarrow> nat option \<Rightarrow> bool" where
  "rrset_robin q section robin \<longleftrightarrow> robin \<noteq> None \<and> section = ANSWER_SECTION \<and> q_qtype q \<noteq> TYPE_AXFR \<and> q_qtype q \<noteq> TYPE_IXFR"

definition rrset_records :: "namedb \<Rightarrow> 'c query \<Rightarrow> domain_id \<Rightarrow> rrset \<Rightarrow> rr_section \<Rightarrow> nat option \<Rightarrow> (rr \<times> u32) list option" where
  "rrset_records db q owner rset section robin = do {
     sigs \<leftarrow> rrset_sigs db q owner rset;
     let rrs = rs_rrs rset;
     let start = (if rrset_robin q section robin then the robin mod length rrs else 0);
     Some (map (\<lambda>r. (r, rr_ttl r)) (drop start rrs @ take start rrs) @ sigs) }"

lemma encode_list_append:
  "encode_list db q owner (xs @ ys) n = do {
     (ok, n, q) \<leftarrow> encode_list db q owner xs n;
     if ok then encode_list db q owner ys n else Some (False, n, q) }"
  by (induction db q owner xs n rule: encode_list.induct) (auto simp: Option.bind_eq_Some_conv intro!: Option.bind_cong)

text \<open>What becomes of the records that were encoded.\<close>

definition rrset_outcome :: "namedb \<Rightarrow> nat \<Rightarrow> rr_section \<Rightarrow> nat \<Rightarrow> bool \<Rightarrow> nat option \<Rightarrow> bool \<times> nat \<times> 'c query \<Rightarrow>
    (nat \<times> bool \<times> nat option \<times> 'c query) option" where
  "rrset_outcome db mark section mini done robin = (\<lambda>(all_added, added, q).
     if (\<not> all_added \<or> buf_position (q_packet q) > mini) \<and> \<not> q_tcp q \<and> section \<ge> OPTIONAL_AUTHORITY_SECTION
     then do { q \<leftarrow> truncate_to db q mark; Some (0, True, robin, q) }
     else if \<not> all_added \<and> (section = ANSWER_SECTION \<or> section = AUTHORITY_SECTION)
     then do { q \<leftarrow> truncate_to db q mark; q \<leftarrow> put_packet q (TC_SET (q_packet q)); Some (0, done, robin, q) }
     else Some (added, done, robin, q))"

lemma grown_settings: "grown db nm q M q' \<Longrightarrow> q_edns q' = q_edns q \<and> q_tcp q' = q_tcp q \<and> q_addr q' = q_addr q \<and>
    q_qtype q' = q_qtype q \<and> q_delegation_domain q' = q_delegation_domain q"
  by (erule grownE) simp

lemma recs_ok_append: "recs_ok db nm R offs owner ols F (xs @ ys) \<longleftrightarrow>
    recs_ok db nm R offs owner ols F xs \<and> recs_ok db nm R offs owner ols F ys"
  by (auto simp: recs_ok_def)

lemma packet_encode_rrset_records:
  assumes rset: "db_rrsets db rsid = Some rset" "rs_rrs rset \<noteq> []"
    and recs: "rrset_records db q owner rset section robin = Some recs"
    and e: "encodable db R q" and ok: "recs_ok db nm R (q_compressed_dname_offsets q) owner ols F recs"
  shows "packet_encode_rrset db q owner rsid section mini done robin =
    encode_list db q owner recs 0 \<bind> rrset_outcome db (buf_position (q_packet q)) section mini done
      (if rrset_robin q section robin then map_option Suc robin else robin)"
proof -
  let ?rrs = "rs_rrs rset" and ?mark = "buf_position (q_packet q)"
  define rb where "rb = (if rrset_robin q section robin then map_option Suc robin else robin)"
  define start where "start = (if rrset_robin q section robin then the robin mod length ?rrs else 0)"
  let ?xs = "map (\<lambda>r. (r, rr_ttl r)) (drop start ?rrs @ take start ?rrs)"
  obtain sigs where sigs: "rrset_sigs db q owner rset = Some sigs" "recs = ?xs @ sigs"
    using recs by (auto simp: rrset_records_def start_def Let_def Option.bind_eq_Some_conv)
  obtain ty secure found where ty: "rrset_rrtype rset = Some ty"
    "(if ed_dnssec_ok (q_edns q) \<noteq> 0 then zone_is_secure db (rs_zone rset) else Some False) = Some secure"
    "(if secure \<and> ty \<noteq> TYPE_RRSIG then domain_find_rrset db owner (rs_zone rset) TYPE_RRSIG else Some None) = Some found"
    using sigs(1) by (fastforce simp: rrset_sigs_def Option.bind_eq_Some_conv)
  obtain k q1 where k: "k \<le> length ?xs" "encode_list db q owner ?xs 0 = Some (k = length ?xs, k, q1)"
    "grown db nm q (recs_here ols F (take k ?xs)) q1"
    using encode_list_spec [OF e, of nm owner ols F ?xs 0] ok unfolding sigs(2) recs_ok_append by auto
  note se = grown_settings [OF k(3)]
  obtain a1 n1 qa where two: "encode_rrs db q owner (drop start ?rrs) 0 = Some (a1, n1, qa)"
    "(if a1 then encode_rrs db qa owner (take start ?rrs) n1 else Some (a1, n1, qa)) = Some (k = length ?xs, k, q1)"
    using k(2) unfolding map_append encode_list_append encode_rrs_list by (fastforce simp: Option.bind_eq_Some_conv split: if_splits)
  have lookup: "(if k = length ?xs \<and> ed_dnssec_ok (q_edns q1) \<noteq> 0 then do {
        secure \<leftarrow> zone_is_secure db (rs_zone rset);
        if secure \<and> ty \<noteq> TYPE_RRSIG then domain_find_rrset db owner (rs_zone rset) TYPE_RRSIG else Some None }
      else Some None) = Some (if k = length ?xs then found else None)"
    using ty se by (auto split: if_splits)
  have rest: "(case (if k = length ?xs then found else None) of None \<Rightarrow> Some (k = length ?xs, k, q1)
      | Some s \<Rightarrow> do { sset \<leftarrow> db_rrsets db s;
          encode_sigs db q1 owner ty (if ty = TYPE_SOA then Some (rr_ttl (hd ?rrs)) else None) (rs_rrs sset) k }) =
      encode_list db q owner recs 0"
  proof (cases "k = length ?xs \<and> found \<noteq> None")
    case True
    then obtain s sset where s: "found = Some s" "db_rrsets db s = Some sset" "\<forall>r \<in> set (rs_rrs sset). rr_rrsig_type_covered r \<noteq> None"
      "sigs = map (\<lambda>r. (r, if ty = TYPE_SOA then rr_ttl (hd ?rrs) else rr_ttl r))
           (filter (\<lambda>r. rr_rrsig_type_covered r = Some ty) (rs_rrs sset))"
      using sigs(1) ty by (auto simp: rrset_sigs_def Option.bind_eq_Some_conv list_all_iff split: if_splits)
    have "encode_sigs db q1 owner ty (if ty = TYPE_SOA then Some (rr_ttl (hd ?rrs)) else None) (rs_rrs sset) k =
        encode_list db q1 owner sigs k"
      using s(4) by (cases "ty = TYPE_SOA") (simp_all add: encode_sigs_list [OF s(3)])
    then show ?thesis using True s(1,2) k(2) unfolding sigs(2) encode_list_append by simp
  next
    case False
    have "sigs = []" if "found = None" using sigs(1) ty that by (auto simp: rrset_sigs_def)
    then show ?thesis using False k(2) unfolding sigs(2) encode_list_append by auto
  qed
  have mini: "section \<ge> OPTIONAL_AUTHORITY_SECTION \<Longrightarrow> \<not> (section = ANSWER_SECTION \<or> section = AUTHORITY_SECTION)"
    by (auto simp: section_defs)
  show ?thesis
    unfolding packet_encode_rrset_def Let_def rset(1) Option.bind_lunit rrset_robin_def [symmetric]
    unfolding start_def [symmetric] rb_def [symmetric]
    by (simp only: Option.bind_lunit assert_c_bind length_greater_0_conv rset(2) not_False_eq_True if_True two prod.case ty(1) lookup rest)
      (rule Option.bind_cong, simp, use mini in \<open>auto simp: rrset_outcome_def\<close>)
qed

lemma hdr_get_wf: "buffer_wf b \<Longrightarrow> at < buf_limit b \<Longrightarrow> hdr_get at m b = Some ((buf_data b ! at) AND m)"
  by (simp add: hdr_get_def buffer_at_wf)

lemma hdr_update_wf:
  "buffer_wf b \<Longrightarrow> at < buf_limit b \<Longrightarrow> hdr_update at f b = Some (b\<lparr>buf_data := (buf_data b)[at := f (buf_data b ! at)]\<rparr>)"
  using buffer_wfD(5) [of b] by (simp add: hdr_update_def buffer_at_wf buffer_set_at_def)

text \<open>
  An RRset of the answer or authority section is in the message with all its records and
  signatures, or not at all and the message is marked as truncated. An optional RRset that does not fit is
  left out, except that over TCP as many of its records are sent as fit.
\<close>

lemma packet_encode_rrset_spec:
  assumes rset: "db_rrsets db rsid = Some rset" "rs_rrs rset \<noteq> []"
    and recs: "rrset_records db q owner rset section robin = Some recs"
    and e: "encodable db R q" and ok: "recs_ok db nm R (q_compressed_dname_offsets q) owner ols F recs"
    and sec: "section = ANSWER_SECTION \<or> section = AUTHORITY_SECTION \<or> section \<ge> OPTIONAL_AUTHORITY_SECTION"
  obtains (sent) k done' robin' q' where "packet_encode_rrset db q owner rsid section mini done robin = Some (k, done', robin', q')"
      "k \<le> length recs" "encodable db R q'" "grown db nm q (recs_here ols F (take k recs)) q'"
      "k < length recs \<Longrightarrow> section \<ge> OPTIONAL_AUTHORITY_SECTION \<and> (k = 0 \<or> q_tcp q)"
      "done' \<Longrightarrow> done \<or> section \<ge> OPTIONAL_AUTHORITY_SECTION"
  | (truncated) robin' q1 q' where "packet_encode_rrset db q owner rsid section mini done robin = Some (0, done, robin', q')"
      "encodable db R q1" "grown db nm q no_bytes q1" "put_packet q1 (TC_SET (q_packet q1)) = Some q'"
proof -
  let ?mark = "buf_position (q_packet q)"
  have wf: "buffer_wf (q_packet q)" and st: "settled db ?mark (q_compressed_dnames q) (q_compressed_dname_offsets q)"
    using e by (auto simp: encodable_def)
  obtain k q1 where k: "k \<le> length recs" "encode_list db q owner recs 0 = Some (k = length recs, k, q1)"
    "encodable db R q1" "grown db nm q (recs_here ols F (take k recs)) q1"
    using encode_list_spec [OF e ok, of 0] by auto
  obtain q2 where q2: "truncate_to db q1 ?mark = Some q2" "grown db nm q no_bytes q2" "buf_position (q_packet q2) = ?mark"
    using truncate_grown [OF k(4) wf st] by blast
  have e2: "encodable db R q2"
    using encodable_grown [OF e q2(2)] e encodable_overflow [of q2] grown_packet(4,5) [OF q2(2) wf] q2(3)
    by (auto simp: encodable_def)
  define rb where "rb = (if rrset_robin q section robin then map_option Suc robin else robin)"
  note run = packet_encode_rrset_records [OF rset recs e ok, of mini "done", folded rb_def, unfolded k(2) Option.bind_lunit]
  note se = grown_settings [OF k(4)]
  consider (drop) "(k \<noteq> length recs \<or> buf_position (q_packet q1) > mini) \<and> \<not> q_tcp q1 \<and> section \<ge> OPTIONAL_AUTHORITY_SECTION"
    | (trunc) "k \<noteq> length recs" "section = ANSWER_SECTION \<or> section = AUTHORITY_SECTION" "\<not> section \<ge> OPTIONAL_AUTHORITY_SECTION"
    | (keep) "k = length recs \<or> q_tcp q1 \<and> section \<ge> OPTIONAL_AUTHORITY_SECTION"
      "\<not> ((k \<noteq> length recs \<or> buf_position (q_packet q1) > mini) \<and> \<not> q_tcp q1 \<and> section \<ge> OPTIONAL_AUTHORITY_SECTION)"
    using sec by (auto simp: section_defs)
  then show thesis
  proof cases
    case drop
    then have "packet_encode_rrset db q owner rsid section mini done robin = Some (0, True, rb, q2)"
      using run q2(1) by (simp add: rrset_outcome_def)
    moreover have "grown db nm q (recs_here ols F (take 0 recs)) q2" using q2(2) by (simp add: recs_here_Nil del: recs_here.simps)
    ultimately show thesis using sent e2 drop by blast
  next
    case trunc
    have lim: "2 < buf_limit (q_packet q2)" "buffer_wf (q_packet q2)" using e2 by (auto simp: encodable_def QHEADERSZ_def buffer_wf_unfold)
    then obtain q3 where "put_packet q2 (TC_SET (q_packet q2)) = Some q3"
      by (simp add: TC_SET_def hdr_update_wf put_packet_def)
    moreover from this have "packet_encode_rrset db q owner rsid section mini done robin = Some (0, done, rb, q3)"
      using run trunc q2(1) by (auto simp: rrset_outcome_def)
    ultimately show thesis using truncated e2 q2(2) by blast
  next
    case keep
    then have "packet_encode_rrset db q owner rsid section mini done robin = Some (k, done, rb, q1)"
      using run by (auto simp: rrset_outcome_def section_defs)
    then show thesis using sent [OF _ k(1,3,4)] keep se by auto
  qed
qed

subsection \<open>Encoding the answer\<close>

text \<open>
  \<open>N e\<close> is the name of the owner of an entry of the answer and \<open>F e\<close> gives the fields of its records.
  A segment is an entry with the records of it that are in the message.
\<close>

type_synonym segment = "answer_entry \<times> (rr \<times> u32) list"

fun segs_here :: "(answer_entry \<Rightarrow> byte list list) \<Rightarrow> (answer_entry \<Rightarrow> rr \<Rightarrow> field list) \<Rightarrow> segment list \<Rightarrow> byte list \<Rightarrow> nat \<Rightarrow> nat \<Rightarrow> bool" where
  "segs_here N F [] P s e \<longleftrightarrow> s = e"
| "segs_here N F ((a, recs) # segs) P s e \<longleftrightarrow> (\<exists>x. recs_here (N a) (F a) recs P s x \<and> segs_here N F segs P x e)"

fun segs_count :: "segment list \<Rightarrow> rr_section \<Rightarrow> nat" where
  "segs_count [] s = 0"
| "segs_count ((a, recs) # segs) s = (if ae_section a = s then length recs else 0) + segs_count segs s"

definition entry_records :: "namedb \<Rightarrow> 'c query \<Rightarrow> answer_entry \<Rightarrow> (rr \<times> u32) list \<Rightarrow> bool" where
  "entry_records db q a recs \<longleftrightarrow> (\<exists>rset robin. db_rrsets db (ae_rrset a) = Some rset \<and>
     rrset_records db q (ae_domain a) rset (ae_section a) robin = Some recs)"

definition entry_ok :: "namedb \<Rightarrow> (nat \<Rightarrow> byte list list) \<Rightarrow> nat \<Rightarrow> (answer_entry \<Rightarrow> byte list list) \<Rightarrow> (answer_entry \<Rightarrow> rr \<Rightarrow> field list) \<Rightarrow>
    'c query \<Rightarrow> answer_entry \<Rightarrow> bool" where
  "entry_ok db nm R N F q a \<longleftrightarrow> ANSWER_SECTION \<le> ae_section a \<and>
     (\<exists>rset. db_rrsets db (ae_rrset a) = Some rset \<and> rs_rrs rset \<noteq> [] \<and>
       (\<forall>robin. \<exists>recs. rrset_records db q (ae_domain a) rset (ae_section a) robin = Some recs \<and>
          recs_ok db nm R (q_compressed_dname_offsets q) (ae_domain a) (N a) (F a) recs))"

definition seg_ok :: "namedb \<Rightarrow> 'c query \<Rightarrow> answer_entry list \<Rightarrow> segment \<Rightarrow> bool" where
  "seg_ok db q as seg \<longleftrightarrow> fst seg \<in> set as \<and> (\<exists>recs k. entry_records db q (fst seg) recs \<and> snd seg = take k recs \<and>
     (k < length recs \<longrightarrow> ae_section (fst seg) \<ge> OPTIONAL_AUTHORITY_SECTION))"

lemma segs_here_append: "segs_here N F (xs @ ys) P s e \<longleftrightarrow> (\<exists>x. segs_here N F xs P s x \<and> segs_here N F ys P x e)"
proof (induction xs arbitrary: s)
  case (Cons a xs)
  then show ?case by (cases a) (simp, blast)
qed simp

lemma segs_here_Nil: "segs_here N F [] = no_bytes"
  by (intro ext) (simp add: no_bytes_def)

lemma segs_count_append [simp]: "segs_count (xs @ ys) s = segs_count xs s + segs_count ys s"
  by (induction xs s rule: segs_count.induct) auto

lemma stable_segs [simp]: "stable (segs_here N F segs)"
proof (induction segs)
  case (Cons a segs)
  then show ?case using stable_recs [of "N (fst a)" "F (fst a)" "snd a"]
    unfolding stable_def by (cases a) (simp only: segs_here.simps fst_conv snd_conv, blast)
qed (simp add: stable_def)

lemma settings_records:
  "q_edns q' = q_edns q \<Longrightarrow> q_qtype q' = q_qtype q \<Longrightarrow>
    rrset_records db q' owner rset section robin = rrset_records db q owner rset section robin"
  by (simp add: rrset_records_def rrset_sigs_def rrset_robin_def)

lemma grown_entry_ok: "grown db nm q M q' \<Longrightarrow> entry_ok db nm R N F q a \<Longrightarrow> entry_ok db nm R N F q' a"
  unfolding entry_ok_def using grown_recs_ok [of db nm q M q'] grown_settings [of db nm q M q'] settings_records [of q' q] by metis

lemma grown_entry_records: "grown db nm q M q' \<Longrightarrow> entry_records db q' a recs \<longleftrightarrow> entry_records db q a recs"
  unfolding entry_records_def using grown_settings [of db nm q M q'] settings_records [of q' q] by metis

lemma grown_seg_ok: "grown db nm q M q' \<Longrightarrow> seg_ok db q' as seg \<longleftrightarrow> seg_ok db q as seg"
  unfolding seg_ok_def using grown_entry_records by metis

lemma seg_ok_mono: "seg_ok db q as seg \<Longrightarrow> set as \<subseteq> set bs \<Longrightarrow> seg_ok db q bs seg"
  by (auto simp: seg_ok_def)

lemma TC_grown:
  assumes "encodable db R q" "grown db nm q M q'"
  shows "TC (q_packet q') = TC (q_packet q)"
proof -
  have wf: "buffer_wf (q_packet q)" "12 \<le> buf_position (q_packet q)" using assms(1) by (auto simp: encodable_def QHEADERSZ_def)
  note p = grown_packet [OF assms(2) wf(1)]
  have "take (buf_position (q_packet q)) (buf_data (q_packet q')) ! 2 = take (buf_position (q_packet q)) (buf_data (q_packet q)) ! 2"
    using p(6) by simp
  then show ?thesis
    using wf p(1,2) by (simp add: TC_def hdr_get_wf buffer_wf_unfold)
qed

lemma TC_after_set:
  assumes "encodable db R q" "put_packet q (TC_SET (q_packet q)) = Some q'"
  shows "\<exists>v. TC (q_packet q') = Some v \<and> v \<noteq> 0"
proof -
  let ?b = "q_packet q"
  have wf: "buffer_wf ?b" "2 < buf_limit ?b" "2 < length (buf_data ?b)" using assms(1) by (auto simp: encodable_def QHEADERSZ_def buffer_wf_unfold)
  then have "q_packet q' = ?b\<lparr>buf_data := (buf_data ?b)[2 := buf_data ?b ! 2 OR 2]\<rparr>"
    using assms(2) by (auto simp: TC_SET_def hdr_update_wf put_packet_def)
  moreover have "buffer_wf (?b\<lparr>buf_data := (buf_data ?b)[2 := buf_data ?b ! 2 OR 2]\<rparr>)" using wf(1) by (simp add: buffer_wf_unfold)
  ultimately have "TC (q_packet q') = Some ((buf_data ?b ! 2 OR 2) AND 2)"
    using wf by (simp add: TC_def hdr_get_wf)
  moreover have "(x OR 2) AND 2 = (2 :: byte)" for x by (rule bit_word_eqI) (auto simp: bit_simps)
  ultimately show ?thesis by simp
qed

text \<open>The outcome of a run of the encoder over entries of one section or over several sections.\<close>

definition whole :: "namedb \<Rightarrow> 'c query \<Rightarrow> answer_entry list \<Rightarrow> segment list \<Rightarrow> bool" where
  "whole db q as segs \<longleftrightarrow> (\<forall>a \<in> set as. ae_section a < OPTIONAL_AUTHORITY_SECTION \<longrightarrow>
     (\<exists>recs. entry_records db q a recs \<and> (a, recs) \<in> set segs))"

definition outcome :: "namedb \<Rightarrow> (nat \<Rightarrow> byte list list) \<Rightarrow> nat \<Rightarrow> (answer_entry \<Rightarrow> byte list list) \<Rightarrow> (answer_entry \<Rightarrow> rr \<Rightarrow> field list) \<Rightarrow>
    answer_entry list \<Rightarrow> 'c query \<Rightarrow> segment list \<Rightarrow> 'c query \<Rightarrow> bool" where
  "outcome db nm R N F as q segs q' \<longleftrightarrow> (\<exists>q1. encodable db R q1 \<and> grown db nm q (segs_here N F segs) q1 \<and>
     list_all (seg_ok db q as) segs \<and> (q' = q1 \<and> whole db q as segs \<or> put_packet q1 (TC_SET (q_packet q1)) = Some q'))"

lemma outcome_trans:
  assumes g: "grown db nm q (segs_here N F segs1) q1" and ok: "list_all (seg_ok db q as1) segs1" "whole db q as1 segs1"
    and o: "outcome db nm R N F as2 q1 segs2 q'"
  shows "outcome db nm R N F (as1 @ as2) q (segs1 @ segs2) q'"
proof -
  obtain q2 where q2: "encodable db R q2" "grown db nm q1 (segs_here N F segs2) q2" "list_all (seg_ok db q1 as2) segs2"
    "q' = q2 \<and> whole db q1 as2 segs2 \<or> put_packet q2 (TC_SET (q_packet q2)) = Some q'"
    using o unfolding outcome_def by blast
  have "grown db nm q (segs_here N F (segs1 @ segs2)) q2"
    using grown_trans [OF g _ q2(2)] by (rule grown_weaken) (simp_all add: segs_here_append)
  moreover have "list_all (seg_ok db q (as1 @ as2)) (segs1 @ segs2)"
    using ok(1) q2(3) grown_seg_ok [OF g] seg_ok_mono by (fastforce simp: list_all_iff)
  moreover have "whole db q (as1 @ as2) (segs1 @ segs2)" if "whole db q1 as2 segs2"
    using ok(2) that grown_entry_records [OF g] by (fastforce simp: whole_def)
  ultimately show ?thesis using q2(1,4) unfolding outcome_def by blast
qed

lemma outcome_more:
  assumes "outcome db nm R N F as q segs q'" "set as \<subseteq> set bs"
    "\<forall>a \<in> set bs - set as. ae_section a \<ge> OPTIONAL_AUTHORITY_SECTION \<or> (\<exists>v. TC (q_packet q') = Some v \<and> v \<noteq> 0)"
    "TC (q_packet q) = Some 0" "encodable db R q"
  shows "outcome db nm R N F bs q segs q'"
proof -
  obtain q1 where q1: "encodable db R q1" "grown db nm q (segs_here N F segs) q1" "list_all (seg_ok db q as) segs"
    "q' = q1 \<and> whole db q as segs \<or> put_packet q1 (TC_SET (q_packet q1)) = Some q'"
    using assms(1) unfolding outcome_def by blast
  have "TC (q_packet q1) = Some 0" using TC_grown [OF assms(5) q1(2)] assms(4) by simp
  then have "q' = q1 \<and> whole db q bs segs \<or> put_packet q1 (TC_SET (q_packet q1)) = Some q'"
    using q1(4) assms(2,3) unfolding whole_def by (metis DiffI option.inject linorder_not_le)
  then show ?thesis using q1(1-3) seg_ok_mono [OF _ assms(2)] unfolding outcome_def list_all_iff by blast
qed

lemma encode_section_truncated:
  "TC (q_packet q) = Some v \<Longrightarrow> v \<noteq> 0 \<Longrightarrow> encode_section db s mini es q cnt done robin = Some (cnt, done, robin, q)"
  by (cases es) simp_all

lemma encode_section_spec:
  assumes "encodable db R q" "TC (q_packet q) = Some 0" "\<forall>a \<in> set es. entry_ok db nm R N F q a"
  shows "\<exists>segs done' robin' q'. encode_section db s mini es q cnt done robin =
      Some (cnt + of_nat (segs_count segs s), done', robin', q') \<and>
    outcome db nm R N F (filter (\<lambda>a. ae_section a = s) es) q segs q' \<and> (done' \<longrightarrow> done \<or> s \<ge> OPTIONAL_AUTHORITY_SECTION)"
  using assms
proof (induction es arbitrary: q cnt "done" robin)
  case Nil
  then show ?case using grown_refl [of q db nm]
    by (intro exI [of _ "[]"] exI [of _ "done"] exI [of _ robin] exI [of _ q])
      (auto simp: outcome_def whole_def segs_here_Nil encodable_def simp del: segs_here.simps)
next
  case (Cons a es)
  let ?as = "filter (\<lambda>a. ae_section a = s) es"
  show ?case
  proof (cases "ae_section a = s")
    case False
    then show ?thesis using Cons by simp
  next
    case True
    obtain rset recs where r: "db_rrsets db (ae_rrset a) = Some rset" "rs_rrs rset \<noteq> []"
      "rrset_records db q (ae_domain a) rset s robin = Some recs"
      "recs_ok db nm R (q_compressed_dname_offsets q) (ae_domain a) (N a) (F a) recs" "ANSWER_SECTION \<le> s"
      using Cons.prems(3) True unfolding entry_ok_def list.set by (metis insertI1)
    have sec: "s = ANSWER_SECTION \<or> s = AUTHORITY_SECTION \<or> s \<ge> OPTIONAL_AUTHORITY_SECTION" using r(5) by (auto simp: section_defs)
    have er: "entry_records db q a recs" using r(1,3) True by (auto simp: entry_records_def)
    show ?thesis
    proof (rule packet_encode_rrset_spec [OF r(1-3) Cons.prems(1) r(4) sec, of mini "done"])
      fix k done1 robin1 q1
      assume 1: "packet_encode_rrset db q (ae_domain a) (ae_rrset a) s mini done robin = Some (k, done1, robin1, q1)"
        "k \<le> length recs" "encodable db R q1" "grown db nm q (recs_here (N a) (F a) (take k recs)) q1"
        "k < length recs \<Longrightarrow> s \<ge> OPTIONAL_AUTHORITY_SECTION \<and> (k = 0 \<or> q_tcp q)" "done1 \<Longrightarrow> done \<or> s \<ge> OPTIONAL_AUTHORITY_SECTION"
      have "TC (q_packet q1) = Some 0" "\<forall>a \<in> set es. entry_ok db nm R N F q1 a"
        using TC_grown [OF Cons.prems(1) 1(4)] grown_entry_ok [OF 1(4)] Cons.prems(2,3) by auto
      from Cons.IH [OF 1(3) this] obtain segs done2 robin2 q2 where 2: "encode_section db s mini es q1 (cnt + of_nat k) done1 robin1 =
          Some (cnt + of_nat k + of_nat (segs_count segs s), done2, robin2, q2)"
        "outcome db nm R N F ?as q1 segs q2" "done2 \<longrightarrow> done1 \<or> s \<ge> OPTIONAL_AUTHORITY_SECTION"
        by blast
      have g: "grown db nm q (segs_here N F [(a, take k recs)]) q1" using 1(4) by (rule grown_weaken) simp
      have "seg_ok db q [a] (a, take k recs)" using er 1(5) True unfolding seg_ok_def by auto
      moreover have "whole db q [a] [(a, take k recs)]" using er 1(2,5) True by (cases "k = length recs") (auto simp: whole_def)
      ultimately have "outcome db nm R N F (a # ?as) q ((a, take k recs) # segs) q2"
        using outcome_trans [OF g _ _ 2(2), of "[a]"] by simp
      then show ?thesis using 1(1,2,6) 2(1,3) True Cons.prems(2)
        by (intro exI [of _ "(a, take k recs) # segs"] exI [of _ done2] exI [of _ robin2] exI [of _ q2]) (auto simp: ac_simps)
    next
      fix robin1 q1 q'
      assume 1: "packet_encode_rrset db q (ae_domain a) (ae_rrset a) s mini done robin = Some (0, done, robin1, q')"
        "encodable db R q1" "grown db nm q no_bytes q1" "put_packet q1 (TC_SET (q_packet q1)) = Some q'"
      obtain v where "TC (q_packet q') = Some v" "v \<noteq> 0" using TC_after_set [OF 1(2,4)] by blast
      then have "encode_section db s mini (a # es) q cnt done robin = Some (cnt, done, robin1, q')"
        using 1(1) True Cons.prems(2) encode_section_truncated by simp
      then show ?thesis using 1(2-4) True
        by (intro exI [of _ "[]"] exI [of _ "done"] exI [of _ robin1] exI [of _ q'])
          (auto simp: outcome_def segs_here_Nil simp del: segs_here.simps encode_section.simps)
    qed
  qed
qed

lemma segs_count_none:
  "list_all (seg_ok db q as) segs \<Longrightarrow> \<forall>a \<in> set as. ae_section a \<noteq> s \<Longrightarrow> segs_count segs s = 0"
  by (induction segs s rule: segs_count.induct) (auto simp: seg_ok_def)

lemma outcome_segs: "outcome db nm R N F as q segs q' \<Longrightarrow> list_all (seg_ok db q as) segs"
  by (auto simp: outcome_def)

lemma outcome_cases:
  assumes "outcome db nm R N F as q segs q'" "TC (q_packet q) = Some 0" "encodable db R q"
  obtains (clear) "encodable db R q'" "grown db nm q (segs_here N F segs) q'" "whole db q as segs" "TC (q_packet q') = Some 0"
  | (set) v where "TC (q_packet q') = Some v" "v \<noteq> 0"
proof -
  obtain q1 where q1: "encodable db R q1" "grown db nm q (segs_here N F segs) q1"
    "q' = q1 \<and> whole db q as segs \<or> put_packet q1 (TC_SET (q_packet q1)) = Some q'"
    using assms(1) unfolding outcome_def by blast
  then show thesis using clear set TC_grown [OF assms(3) q1(2)] assms(2) TC_after_set [OF q1(1)] by metis
qed

lemma TC_SET_twice:
  assumes "encodable db R q" "put_packet q (TC_SET (q_packet q)) = Some q'"
  shows "put_packet q' (TC_SET (q_packet q')) = Some q'"
proof -
  let ?b = "q_packet q"
  have wf: "buffer_wf ?b" "2 < buf_limit ?b" "2 < length (buf_data ?b)" using assms(1) by (auto simp: encodable_def QHEADERSZ_def buffer_wf_unfold)
  then have q': "q' = q\<lparr>q_packet := ?b\<lparr>buf_data := (buf_data ?b)[2 := buf_data ?b ! 2 OR 2]\<rparr>\<rparr>"
    using assms(2) by (auto simp: TC_SET_def hdr_update_wf put_packet_def)
  moreover have "buffer_wf (?b\<lparr>buf_data := (buf_data ?b)[2 := buf_data ?b ! 2 OR 2]\<rparr>)" using wf(1) by (simp add: buffer_wf_unfold)
  ultimately show ?thesis using wf by (simp add: TC_SET_def hdr_update_wf put_packet_def or.assoc)
qed

lemma outcome_TC_SET:
  assumes o: "outcome db nm R N F as q segs q'"
  shows "\<exists>q''. put_packet q' (TC_SET (q_packet q')) = Some q'' \<and> outcome db nm R N F as q segs q''"
proof -
  obtain q1 where q1: "encodable db R q1" "grown db nm q (segs_here N F segs) q1" "list_all (seg_ok db q as) segs"
    "q' = q1 \<and> whole db q as segs \<or> put_packet q1 (TC_SET (q_packet q1)) = Some q'"
    using o unfolding outcome_def by blast
  have "buffer_wf (q_packet q1)" "2 < buf_limit (q_packet q1)" using q1(1) by (auto simp: encodable_def QHEADERSZ_def buffer_wf_unfold)
  then have "\<exists>q''. put_packet q1 (TC_SET (q_packet q1)) = Some q''" by (simp add: TC_SET_def hdr_update_wf put_packet_def)
  then show ?thesis using q1 TC_SET_twice [OF q1(1)] unfolding outcome_def by metis
qed

lemma encode_sections_truncated:
  "TC (q_packet q) = Some v \<Longrightarrow> v \<noteq> 0 \<Longrightarrow> encode_sections db ss mini answer q counts robin = Some (counts, robin, q)"
  by (cases ss) simp_all

lemma encode_sections_spec:
  assumes "encodable db R q" "TC (q_packet q) = Some 0" "\<forall>a \<in> set answer. entry_ok db nm R N F q a" "sorted_wrt (<) ss"
    "\<forall>s \<in> set ss. counts s = 0"
  shows "\<exists>segs counts' robin' q'. encode_sections db ss mini answer q counts robin = Some (counts', robin', q') \<and>
    outcome db nm R N F (filter (\<lambda>a. ae_section a \<in> set ss) answer) q segs q' \<and>
    (\<forall>s. counts' s = (if s \<in> set ss then of_nat (segs_count segs s) else counts s))"
  using assms
proof (induction ss arbitrary: q counts robin)
  case Nil
  then show ?case using grown_refl [of q db nm]
    by (intro exI [of _ "[]"] exI [of _ counts] exI [of _ robin] exI [of _ q])
      (auto simp: outcome_def whole_def segs_here_Nil encodable_def simp del: segs_here.simps)
next
  case (Cons s ss)
  let ?as = "filter (\<lambda>a. ae_section a = s) answer" and ?bs = "filter (\<lambda>a. ae_section a \<in> set (s # ss)) answer"
  obtain segs d robin1 q1 where 1: "encode_section db s mini answer q 0 False robin = Some (of_nat (segs_count segs s), d, robin1, q1)"
    "outcome db nm R N F ?as q segs q1" "d \<Longrightarrow> s \<ge> OPTIONAL_AUTHORITY_SECTION"
    using encode_section_spec [OF Cons.prems(1-3), of s mini 0 False robin] by auto
  define counts1 where "counts1 = counts(s := of_nat (segs_count segs s))"
  have c1: "counts1 t = (if t \<in> set (s # ss) then of_nat (segs_count segs t) else counts t)" for t
    using Cons.prems(5) segs_count_none [OF outcome_segs [OF 1(2)], of t] by (auto simp: counts1_def)
  have big: "s < t" if "t \<in> set ss" for t using Cons.prems(4) that by simp
  have nots: "s \<notin> set ss" using big by blast
  note more = outcome_more [OF _ _ _ Cons.prems(2,1), of _ _ _ ?as _ _ ?bs]
  show ?case
  proof (cases d)
    case True
    have "\<exists>q2. (if s = ADDITIONAL_A_SECTION \<and> (of_nat (segs_count segs s) :: u16) = 0 \<and> q_delegation_domain q1 \<noteq> None
        then put_packet q1 (TC_SET (q_packet q1)) else Some q1) = Some q2 \<and> outcome db nm R N F ?as q segs q2"
      using outcome_TC_SET [OF 1(2)] 1(2) by auto
    then obtain q2 where q2: "(if s = ADDITIONAL_A_SECTION \<and> (of_nat (segs_count segs s) :: u16) = 0 \<and> q_delegation_domain q1 \<noteq> None
        then put_packet q1 (TC_SET (q_packet q1)) else Some q1) = Some q2" "outcome db nm R N F ?as q segs q2"
      by blast
    have "outcome db nm R N F ?bs q segs q2"
      by (rule more [OF q2(2)]) (use 1(3) [OF True] big in force)+
    moreover have "encode_sections db (s # ss) mini answer q counts robin = Some (counts1, robin1, q2)"
      using 1(1) q2(1) True Cons.prems(2) by (simp add: counts1_def Let_def)
    ultimately show ?thesis using c1 by blast
  next
    case False
    show ?thesis
    proof (rule outcome_cases [OF 1(2) Cons.prems(2,1)])
      fix v assume v: "TC (q_packet q1) = Some v" "v \<noteq> 0"
      have "outcome db nm R N F ?bs q segs q1"
        by (rule more [OF 1(2)]) (use v in force)+
      moreover have "encode_sections db (s # ss) mini answer q counts robin = Some (counts1, robin1, q1)"
        using 1(1) False Cons.prems(2) encode_sections_truncated [OF v] by (simp add: counts1_def Let_def)
      ultimately show ?thesis using c1 by blast
    next
      assume q1: "encodable db R q1" "grown db nm q (segs_here N F segs) q1" "whole db q ?as segs" "TC (q_packet q1) = Some 0"
      have "\<forall>a \<in> set answer. entry_ok db nm R N F q1 a" using Cons.prems(3) grown_entry_ok [OF q1(2)] by blast
      moreover have "sorted_wrt (<) ss" "\<forall>s \<in> set ss. counts1 s = 0"
        using Cons.prems(4,5) nots by (auto simp: counts1_def)
      ultimately obtain segs2 counts2 robin2 q2 where 2:
        "encode_sections db ss mini answer q1 counts1 robin1 = Some (counts2, robin2, q2)"
        "outcome db nm R N F (filter (\<lambda>a. ae_section a \<in> set ss) answer) q1 segs2 q2"
        "\<forall>s. counts2 s = (if s \<in> set ss then of_nat (segs_count segs2 s) else counts1 s)"
        using Cons.IH [OF q1(1,4), of counts1 robin1] by blast
      have "outcome db nm R N F (?as @ filter (\<lambda>a. ae_section a \<in> set ss) answer) q (segs @ segs2) q2"
        using outcome_trans [OF q1(2) outcome_segs [OF 1(2)] q1(3) 2(2)] .
      then have o: "outcome db nm R N F ?bs q (segs @ segs2) q2"
        by (rule outcome_more [OF _ _ _ Cons.prems(2,1)]) auto
      have "segs_count segs2 s = 0" using segs_count_none [OF outcome_segs [OF 2(2)], of s] nots by auto
      moreover have "segs_count segs t = 0" if "t \<in> set ss" for t
        using segs_count_none [OF outcome_segs [OF 1(2)], of t] that nots by auto
      ultimately have "\<forall>t. counts2 t = (if t \<in> set (s # ss) then of_nat (segs_count (segs @ segs2) t) else counts t)"
        using 2(3) c1 by (auto simp: counts1_def)
      moreover have "encode_sections db (s # ss) mini answer q counts robin = Some (counts2, robin2, q2)"
        using 1(1) 2(1) False Cons.prems(2) by (simp add: counts1_def Let_def)
      ultimately show ?thesis using o by blast
    qed
  qed
qed

lemma drop_mem_write: "at + length d \<le> n \<Longrightarrow> n \<le> length xs \<Longrightarrow> drop n (mem_write at d xs) = drop n xs"
  by (simp add: mem_write_def)

lemma read_u16_write_same [simp]: "at + 2 \<le> length xs \<Longrightarrow> read_uint16 (mem_read at 2 (mem_write at (write_uint16 v) xs)) = v"
  by (simp add: mem_read_write_same [of at xs "write_uint16 v", unfolded length_write_uint])

text \<open>Header updates change nothing behind the header.\<close>

definition same_body :: "buffer \<Rightarrow> buffer \<Rightarrow> bool" where
  "same_body b b' \<longleftrightarrow> (\<exists>d. b' = b\<lparr>buf_data := d\<rparr> \<and> length d = length (buf_data b) \<and> drop QHEADERSZ d = drop QHEADERSZ (buf_data b))"

lemma same_body_refl [simp]: "same_body b b"
  by (auto simp: same_body_def intro!: exI [of _ "buf_data b"])

lemma same_body_trans: "same_body a b \<Longrightarrow> same_body b c \<Longrightarrow> same_body a c"
  unfolding same_body_def by fastforce

lemma same_body_wf: "same_body b b' \<Longrightarrow> buffer_wf b \<Longrightarrow> buffer_wf b'"
  by (auto simp: same_body_def buffer_wf_unfold)

lemma same_body_sel: "same_body b b' \<Longrightarrow> buf_position b' = buf_position b \<and> buf_limit b' = buf_limit b"
  by (auto simp: same_body_def)

lemma hdr_write_u16:
  assumes "buffer_wf b" "QHEADERSZ \<le> buf_limit b" "at + 2 \<le> QHEADERSZ"
  shows "buffer_write_u16_at b at v = Some (b\<lparr>buf_data := mem_write at (write_uint16 v) (buf_data b)\<rparr>)"
    "same_body b (b\<lparr>buf_data := mem_write at (write_uint16 v) (buf_data b)\<rparr>)"
  using assms buffer_wfD(5) [OF assms(1)] by (auto simp: buffer_write_u16_at_def buffer_write_at_wf same_body_def drop_mem_write)

lemma hdr_update_same_body:
  assumes "buffer_wf b" "QHEADERSZ \<le> buf_limit b" "at < QHEADERSZ"
  shows "\<exists>b'. hdr_update at f b = Some b' \<and> same_body b b'"
  using assms by (auto simp: hdr_update_wf same_body_def)

lemma set_counts:
  assumes wf: "buffer_wf b" "QHEADERSZ \<le> buf_limit b"
  obtains b1 b2 b3 where "ANCOUNT_SET b an = Some b1" "NSCOUNT_SET b1 ns = Some b2" "ARCOUNT_SET b2 ar = Some b3" "same_body b b3"
    "ANCOUNT b3 = Some an" "NSCOUNT b3 = Some ns" "ARCOUNT b3 = Some ar" "TC b3 = TC b"
proof -
  let ?d1 = "mem_write 6 (write_uint16 an) (buf_data b)"
  let ?d2 = "mem_write 8 (write_uint16 ns) ?d1"
  let ?d3 = "mem_write 10 (write_uint16 ar) ?d2"
  have len: "12 \<le> length (buf_data b)" using wf by (auto simp: buffer_wf_unfold QHEADERSZ_def)
  have lim: "12 \<le> buf_limit b" using wf(2) by (simp add: QHEADERSZ_def)
  have w: "same_body b (b\<lparr>buf_data := ?d1\<rparr>)" "same_body (b\<lparr>buf_data := ?d1\<rparr>) (b\<lparr>buf_data := ?d2\<rparr>)"
    "same_body (b\<lparr>buf_data := ?d2\<rparr>) (b\<lparr>buf_data := ?d3\<rparr>)"
    using len by (auto simp: same_body_def drop_mem_write QHEADERSZ_def)
  note wfs = same_body_wf [OF w(1) wf(1)] same_body_wf [OF w(2) same_body_wf [OF w(1) wf(1)]]
    same_body_wf [OF w(3) same_body_wf [OF w(2) same_body_wf [OF w(1) wf(1)]]]
  have set: "ANCOUNT_SET b an = Some (b\<lparr>buf_data := ?d1\<rparr>)" "NSCOUNT_SET (b\<lparr>buf_data := ?d1\<rparr>) ns = Some (b\<lparr>buf_data := ?d2\<rparr>)"
    "ARCOUNT_SET (b\<lparr>buf_data := ?d2\<rparr>) ar = Some (b\<lparr>buf_data := ?d3\<rparr>)"
    using hdr_write_u16(1) [OF wf, of 6 an] hdr_write_u16(1) [OF wfs(1), of 8 ns] hdr_write_u16(1) [OF wfs(2), of 10 ar] lim
    by (simp_all add: ANCOUNT_SET_def NSCOUNT_SET_def ARCOUNT_SET_def QHEADERSZ_def)
  have get: "ANCOUNT (b\<lparr>buf_data := ?d3\<rparr>) = Some an" "NSCOUNT (b\<lparr>buf_data := ?d3\<rparr>) = Some ns" "ARCOUNT (b\<lparr>buf_data := ?d3\<rparr>) = Some ar"
    using wfs(3) lim len by (simp_all add: hdr_count_defs buffer_read_u16_at_wf mem_read_write_before)
  have "?d3 ! 2 = buf_data b ! 2" using len by (simp add: nth_mem_write)
  then have "TC (b\<lparr>buf_data := ?d3\<rparr>) = TC b" using wfs(3) wf(1) lim by (simp add: TC_def hdr_get_wf)
  moreover have "same_body b (b\<lparr>buf_data := ?d3\<rparr>)" using w same_body_trans by blast
  ultimately show thesis using that set get by blast
qed

text \<open>The table is right whatever the header is: no name that it knows of reaches into the header.\<close>

definition compression_ok :: "(nat \<Rightarrow> byte list list) \<Rightarrow> 'c query \<Rightarrow> bool" where
  "compression_ok nm q \<longleftrightarrow> (\<forall>h. length h = QHEADERSZ \<longrightarrow>
     sound_table (h @ drop QHEADERSZ (take (buf_position (q_packet q)) (buf_data (q_packet q)))) (q_compressed_dname_offsets q) nm {})"

lemma grown_meaning:
  assumes "encodable db R q" "grown db nm q M q1" "compression_ok nm q" "same_body (q_packet q1) b"
  shows "M (take (buf_position b) (buf_data b)) (buf_position (q_packet q)) (buf_position b)"
proof (rule grownE [OF assms(2)])
  let ?pos = "buf_position (q_packet q)"
  fix bs offs new data
  assume g: "q1 = q\<lparr>q_packet := (q_packet q)\<lparr>buf_position := ?pos + length bs, buf_data := data\<rparr>,
            q_compressed_dname_offsets := offs, q_compressed_dnames := new @ q_compressed_dnames q\<rparr>"
    "length data = length (buf_data (q_packet q))" "?pos + length bs \<le> buf_limit (q_packet q)"
    "take (?pos + length bs) data = take ?pos (buf_data (q_packet q)) @ bs"
    "\<And>P. length P = ?pos \<Longrightarrow> sound_table P (q_compressed_dname_offsets q) nm {} \<Longrightarrow>
        sound_table (P @ bs) offs nm {} \<and> M (P @ bs) (length P) (length P + length bs)"
  have wf: "QHEADERSZ \<le> ?pos" "?pos \<le> length (buf_data (q_packet q))" using assms(1) by (auto simp: encodable_def buffer_wf_unfold)
  obtain d where d: "b = (q_packet q1)\<lparr>buf_data := d\<rparr>" "length d = length data" "drop QHEADERSZ d = drop QHEADERSZ data"
    using assms(4) g(1) by (auto simp: same_body_def)
  define h P where "h = take QHEADERSZ d" and "P = h @ drop QHEADERSZ (take ?pos (buf_data (q_packet q)))"
  have h: "length h = QHEADERSZ" using wf d(2) g(2) by (simp add: h_def)
  have "take (?pos + length bs) d = take QHEADERSZ (take (?pos + length bs) d) @ drop QHEADERSZ (take (?pos + length bs) d)"
    by (rule append_take_drop_id [symmetric])
  also have "\<dots> = h @ drop QHEADERSZ (take (?pos + length bs) data)"
    using wf(1) d(3) by (simp add: h_def drop_take)
  also have "\<dots> = P @ bs" unfolding g(4) P_def using wf by simp
  finally have "take (buf_position b) (buf_data b) = P @ bs" using d(1) g(1) by simp
  moreover have "length P = ?pos" using wf h by (simp add: P_def)
  moreover have "sound_table P (q_compressed_dname_offsets q) nm {}"
    using assms(3) h by (simp add: compression_ok_def P_def)
  ultimately show ?thesis using g(5) [of P] d(1) g(1) by simp
qed

lemma encode_answer_spec:
  assumes e: "encodable db R q" and tc: "TC (q_packet q) = Some 0" and c: "compression_ok nm q"
    and ok: "\<forall>a \<in> set answer. entry_ok db nm R N F q a \<and> ae_section a < RR_SECTION_COUNT"
  obtains segs robin' q' where "encode_answer db q answer robin = Some (robin', q')" "buffer_wf (q_packet q')"
    "buf_position (q_packet q') \<le> q_maxlen q - q_reserved_space q"
    "segs_here N F segs (take (buf_position (q_packet q')) (buf_data (q_packet q'))) (buf_position (q_packet q)) (buf_position (q_packet q'))"
    "list_all (seg_ok db q answer) segs"
    "ANCOUNT (q_packet q') = Some (of_nat (segs_count segs ANSWER_SECTION))"
    "NSCOUNT (q_packet q') = Some (of_nat (segs_count segs AUTHORITY_SECTION + segs_count segs OPTIONAL_AUTHORITY_SECTION))"
    "ARCOUNT (q_packet q') = Some (of_nat (segs_count segs ADDITIONAL_A_SECTION + segs_count segs ADDITIONAL_AAAA_SECTION +
       segs_count segs ADDITIONAL_OTHER_SECTION))"
    "TC (q_packet q') = Some 0 \<Longrightarrow> whole db q answer segs"
proof -
  let ?ss = "[ANSWER_SECTION..<RR_SECTION_COUNT]"
  define mini where "mini = (if is_in6 (q_addr q) then IPV6_MINIMAL_RESPONSE_SIZE else IPV4_MINIMAL_RESPONSE_SIZE)"
  have "\<forall>a \<in> set answer. entry_ok db nm R N F q a" using ok by blast
  from encode_sections_spec [OF e tc this, of ?ss "\<lambda>_. 0" mini robin] obtain segs counts robin' q1 where s:
    "encode_sections db ?ss mini answer q (\<lambda>_. 0) robin = Some (counts, robin', q1)"
    "outcome db nm R N F (filter (\<lambda>a. ae_section a \<in> set ?ss) answer) q segs q1"
    "\<And>s. s \<in> set ?ss \<Longrightarrow> counts s = of_nat (segs_count segs s)"
    by (auto simp: sorted_wrt_upt)
  have "filter (\<lambda>a. ae_section a \<in> set ?ss) answer = answer" using ok by (auto simp: filter_id_conv entry_ok_def)
  with s(2) obtain q0 where q0: "encodable db R q0" "grown db nm q (segs_here N F segs) q0" "list_all (seg_ok db q answer) segs"
    "q1 = q0 \<and> whole db q answer segs \<or> put_packet q0 (TC_SET (q_packet q0)) = Some q1"
    unfolding outcome_def by auto
  have wf: "buffer_wf (q_packet q)" using e by (simp add: encodable_def)
  have wf0: "buffer_wf (q_packet q0)" "QHEADERSZ \<le> buf_limit (q_packet q0)"
    using q0(1) by (auto simp: encodable_def buffer_wf_unfold)
  have sb: "same_body (q_packet q0) (q_packet q1)"
    using q0(4) hdr_update_same_body [OF wf0, of 2 "\<lambda>v. v OR 0x02"] by (auto simp: TC_SET_def put_packet_def QHEADERSZ_def)
  have wf1: "buffer_wf (q_packet q1)" "QHEADERSZ \<le> buf_limit (q_packet q1)" using same_body_wf [OF sb] same_body_sel [OF sb] wf0 by auto
  show thesis
  proof (rule set_counts [OF wf1, of "counts ANSWER_SECTION" "counts AUTHORITY_SECTION + counts OPTIONAL_AUTHORITY_SECTION"
        "counts ADDITIONAL_A_SECTION + counts ADDITIONAL_AAAA_SECTION + counts ADDITIONAL_OTHER_SECTION"])
    fix b1 b2 b3
    assume b: "ANCOUNT_SET (q_packet q1) (counts ANSWER_SECTION) = Some b1"
      "NSCOUNT_SET b1 (counts AUTHORITY_SECTION + counts OPTIONAL_AUTHORITY_SECTION) = Some b2"
      "ARCOUNT_SET b2 (counts ADDITIONAL_A_SECTION + counts ADDITIONAL_AAAA_SECTION + counts ADDITIONAL_OTHER_SECTION) = Some b3"
      "same_body (q_packet q1) b3" "ANCOUNT b3 = Some (counts ANSWER_SECTION)"
      "NSCOUNT b3 = Some (counts AUTHORITY_SECTION + counts OPTIONAL_AUTHORITY_SECTION)"
      "ARCOUNT b3 = Some (counts ADDITIONAL_A_SECTION + counts ADDITIONAL_AAAA_SECTION + counts ADDITIONAL_OTHER_SECTION)"
      "TC b3 = TC (q_packet q1)"
    let ?q = "q1\<lparr>q_packet := b3\<rparr>"
    have sb3: "same_body (q_packet q0) b3" using same_body_trans [OF sb b(4)] .
    have run: "encode_answer db q answer robin = Some (robin', ?q)"
      using s(1) b(1-3) by (simp add: encode_answer_def Let_def mini_def put_packet_def)
    have pos: "buf_position b3 = buf_position (q_packet q0)" using same_body_sel [OF sb3] by simp
    have max: "buf_position (q_packet q0) \<le> q_maxlen q - q_reserved_space q"
      using q0(1) grown_packet(4,5) [OF q0(2) wf] by (auto simp: encodable_def)
    have tc0: "whole db q answer segs" if "TC b3 = Some 0"
      using q0(4) that b(8) TC_after_set [OF q0(1)] by auto
    note cnt = s(3) [of ANSWER_SECTION] s(3) [of AUTHORITY_SECTION] s(3) [of OPTIONAL_AUTHORITY_SECTION]
      s(3) [of ADDITIONAL_A_SECTION] s(3) [of ADDITIONAL_AAAA_SECTION] s(3) [of ADDITIONAL_OTHER_SECTION]
    have "buffer_wf b3" using same_body_wf [OF b(4) wf1(1)] .
    moreover have "segs_here N F segs (take (buf_position b3) (buf_data b3)) (buf_position (q_packet q)) (buf_position b3)"
      by (rule grown_meaning [OF e q0(2) c sb3])
    ultimately show thesis
      using that [OF run, of segs] max pos q0(3) b(5-7) cnt tc0 by (simp add: section_defs)
  qed
qed

subsection \<open>Names of the database\<close>

text \<open>
  \<open>nm\<close> gives the names of the domains of the database by their numbers, the table has an entry for every
  number and the offsets in it fit into a pointer.
\<close>

definition numbered :: "namedb \<Rightarrow> (nat \<Rightarrow> byte list list) \<Rightarrow> u16 list \<Rightarrow> bool" where
  "numbered db nm offs \<longleftrightarrow> (\<forall>ls d. named db ls d \<longrightarrow> (\<exists>n. domain_number db d = Some n \<and> 0 < n \<and> n < length offs \<and>
     nm n = ls \<and> unat (offs ! n) \<le> MAX_COMPRESSION_OFFSET))"

lemma named_spells: "db_ok db \<Longrightarrow> numbered db nm offs \<Longrightarrow> named db ls d \<Longrightarrow> spells db nm offs d ls"
proof (induction ls arbitrary: d)
  case Nil
  then show ?case using named_parent(1) by (intro sp_root) blast
next
  case (Cons l ls)
  obtain p where p: "domain_parent db d = Some (Some p)" "named db ls p" using named_parent(2) [OF Cons.prems(1,3)] by blast
  obtain n where n: "domain_number db d = Some n" "0 < n" "n < length offs" "nm n = l # ls" "unat (offs ! n) \<le> MAX_COMPRESSION_OFFSET"
    using Cons.prems(2,3) unfolding numbered_def by blast
  show ?case
  proof (cases "offs ! n = 0")
    case False
    then show ?thesis using sp_pointer [OF p(1) n(1,3) False n(5), of nm] n(4) by simp
  next
    case True
    have "valid_label l" using named_valid [OF Cons.prems(3)] by (simp add: valid_labels_def)
    moreover have "dname_name (dname_of (l # ls)) = of_nat (length l) # l @ wire ls" by simp
    ultimately show ?thesis
      using sp_label [OF p(1) n(1-3) True named_dname(1) [OF Cons.prems(1,3)]] Cons.IH [OF Cons.prems(1,2) p(2)] n(4) by blast
  qed
qed

text \<open>A name that was written into a packet is read back by \<open>dname_make_from_packet\<close>.\<close>

lemma encoded_name_decodes:
  assumes db: "db_ok db" "numbered db nm (q_compressed_dname_offsets q)" "named db ls d"
    and t: "sound_table (take (buf_position (q_packet q)) (buf_data (q_packet q))) (q_compressed_dname_offsets q) nm {}"
    and room: "room_for q 256" and max: "buf_limit (q_packet q) \<le> MAX_PACKET_SIZE"
  shows "\<exists>q'. encode_dname db q d = Some q' \<and>
    dname_make_from_packet ((q_packet q')\<lparr>buf_position := buf_position (q_packet q)\<rparr>) True norm =
      Some (Some (dname_of (norm_labels norm ls)), q_packet q')"
proof -
  let ?pos = "buf_position (q_packet q)"
  have v: "length (wire ls) \<le> MAXDOMAINLEN" using named_valid [OF db(3)] by (simp add: valid_labels_def)
  have r: "room_for q (length (wire ls) + 1)" using room v by (simp add: room_for_def MAXDOMAINLEN_def)
  have enc: "encodes db nm {} q (length (wire ls) + 1) (name_here ls) (encode_dname db q d)"
    by (rule encode_dname_spec [OF named_spells [OF db] r]) simp
  obtain bs offs new where e: "encode_dname db q d = Some (advanced q bs offs new)" "length bs \<le> length (wire ls) + 1"
    "pushed db ?pos (?pos + length bs) (q_compressed_dname_offsets q) new offs"
    "\<And>P. length P = ?pos \<Longrightarrow> sound_table P (q_compressed_dname_offsets q) nm {} \<Longrightarrow>
        sound_table (P @ bs) offs nm {} \<and> name_here ls (P @ bs) (length P) (length P + length bs)"
    using encodesE [OF enc] by blast
  let ?p = "q_packet (advanced q bs offs new)"
  have wf: "buffer_wf (q_packet q)" "?pos + length bs \<le> buf_limit (q_packet q)" using r e(2) by (auto simp: room_for_def)
  then have len: "?pos + length bs \<le> length (buf_data (q_packet q))" by (auto simp: buffer_wf_unfold)
  obtain k where "name_at True (take ?pos (buf_data (q_packet q)) @ bs) ?pos k ls (?pos + length bs)"
    using e(4) [OF _ t] len by (auto simp: name_here_def)
  moreover have tk: "take (?pos + length bs) (take (buf_limit ?p) (buf_data ?p)) = take ?pos (buf_data (q_packet q)) @ bs"
    using len wf(2) take_mem_write_end [of ?pos "buf_data (q_packet q)" bs] by (simp add: min_def)
  ultimately have "name_at True (take (buf_limit ?p) (buf_data ?p)) ?pos k ls (?pos + length bs)"
    using name_at_append append_take_drop_id by metis
  then have "dname_make_from_packet (?p\<lparr>buf_position := ?pos\<rparr>) True norm =
      Some (Some (dname_of (norm_labels norm ls)), ?p\<lparr>buf_position := ?pos, buf_position := ?pos + length bs\<rparr>)"
    using wf max v by (intro dname_make_from_packet_name_at) (auto simp: buffer_wf_unfold)
  moreover have "?p\<lparr>buf_position := ?pos, buf_position := ?pos + length bs\<rparr> = ?p" by (simp add: written_def)
  ultimately show ?thesis using e(1) by (intro exI [of _ "advanced q bs offs new"]) simp
qed

subsection \<open>The list of RRsets\<close>

text \<open>
  An answer has an RRset under an owner at most once, in the first section of those that it was added
  to, and the number of RRsets is limited.
\<close>

definition answer_ok :: "namedb \<Rightarrow> answer \<Rightarrow> bool" where
  "answer_ok db as \<longleftrightarrow> distinct (map (\<lambda>a. (domain_number db (ae_domain a), ae_rrset a)) as) \<and> length as \<le> MAXRRSPP \<and>
     (\<forall>a \<in> set as. domain_number db (ae_domain a) \<noteq> None \<and> ANSWER_SECTION \<le> ae_section a \<and> ae_section a < RR_SECTION_COUNT)"

lemma answer_find_None:
  "answer_find db as n r i = Some None \<Longrightarrow> (Some n, r) \<notin> set (map (\<lambda>a. (domain_number db (ae_domain a), ae_rrset a)) as)"
  by (induction as arbitrary: i) (auto simp: Option.bind_eq_Some_conv split: if_splits)

lemma answer_find_Some:
  "answer_find db as n r i = Some (Some k) \<Longrightarrow> i \<le> k \<and> k - i < length as \<and>
    domain_number db (ae_domain (as ! (k - i))) = Some n \<and> ae_rrset (as ! (k - i)) = r"
proof (induction as arbitrary: i)
  case (Cons a as)
  have step: "answer_find db as n r (i + 1) = Some (Some k) \<Longrightarrow> ?case"
    using Cons.IH [of "i + 1"] by (auto simp: nth_Cons' Suc_diff_le)
  show ?case
  proof (cases "ae_rrset a = r")
    case True
    then obtain m where "domain_number db (ae_domain a) = Some m" "m = n \<and> k = i \<or> answer_find db as n r (i + 1) = Some (Some k)"
      using Cons.prems by (auto simp: Option.bind_eq_Some_conv split: if_splits)
    then show ?thesis using step True by auto
  next
    case False
    then show ?thesis using step Cons.prems by simp
  qed
qed simp

lemma answer_find_total:
  "\<forall>a \<in> set as. domain_number db (ae_domain a) \<noteq> None \<Longrightarrow> \<exists>f. answer_find db as n r i = Some f"
  by (induction as arbitrary: i) auto

lemma answer_add_rrset_spec:
  assumes ok: "answer_ok db as" and n: "domain_number db d = Some n" and s: "ANSWER_SECTION \<le> s" "s < RR_SECTION_COUNT"
  obtains (new) "answer_add_rrset db as s d r = Some (True, as @ [\<lparr>ae_section = s, ae_domain = d, ae_rrset = r\<rparr>])"
      "length as < MAXRRSPP" "answer_ok db (as @ [\<lparr>ae_section = s, ae_domain = d, ae_rrset = r\<rparr>])"
  | (full) "answer_add_rrset db as s d r = Some (False, as)" "length as = MAXRRSPP"
  | (moved) i where "answer_add_rrset db as s d r = Some (True, as[i := (as ! i)\<lparr>ae_section := s\<rparr>])" "i < length as"
      "s < ae_section (as ! i)" "domain_number db (ae_domain (as ! i)) = Some n" "ae_rrset (as ! i) = r"
      "answer_ok db (as[i := (as ! i)\<lparr>ae_section := s\<rparr>])"
  | (kept) i where "answer_add_rrset db as s d r = Some (False, as)" "i < length as" "ae_section (as ! i) \<le> s"
      "domain_number db (ae_domain (as ! i)) = Some n" "ae_rrset (as ! i) = r"
proof -
  obtain f where f: "answer_find db as n r 0 = Some f" using answer_find_total ok unfolding answer_ok_def by metis
  have run: "answer_add_rrset db as s d r = (case f of
       Some i \<Rightarrow> (if s < ae_section (as ! i) then Some (True, as[i := (as ! i)\<lparr>ae_section := s\<rparr>]) else Some (False, as))
     | None \<Rightarrow> (if length as \<ge> MAXRRSPP then Some (False, as)
                else Some (True, as @ [\<lparr>ae_section = s, ae_domain = d, ae_rrset = r\<rparr>])))"
    using n s f by (simp add: answer_add_rrset_def)
  show thesis
  proof (cases f)
    case None
    then have "(Some n, r) \<notin> set (map (\<lambda>a. (domain_number db (ae_domain a), ae_rrset a)) as)" using answer_find_None f by blast
    then show thesis using run None ok n s new full by (cases "length as \<ge> MAXRRSPP") (auto simp: answer_ok_def)
  next
    case (Some i)
    then have i: "i < length as" "domain_number db (ae_domain (as ! i)) = Some n" "ae_rrset (as ! i) = r"
      using answer_find_Some [of db as n r 0 i] f by auto
    have "map (\<lambda>a. (domain_number db (ae_domain a), ae_rrset a)) (as[i := (as ! i)\<lparr>ae_section := s\<rparr>]) =
        map (\<lambda>a. (domain_number db (ae_domain a), ae_rrset a)) as"
      using i(1) by (intro nth_equalityI) (auto simp: nth_list_update)
    moreover have "set (as[i := (as ! i)\<lparr>ae_section := s\<rparr>]) \<subseteq> insert ((as ! i)\<lparr>ae_section := s\<rparr>) (set as)"
      by (rule set_update_subset_insert)
    ultimately have "answer_ok db (as[i := (as ! i)\<lparr>ae_section := s\<rparr>])" using ok s i by (auto simp: answer_ok_def)
    then show thesis using run Some i moved kept by (cases "s < ae_section (as ! i)") auto
  qed
qed

end
