(* ===== verification/Rrl.thy ===== *)
theory Rrl
  imports Encode
begin

text \<open>
  Response rate limiting (\<open>rrl.c\<close>, \<open>rrl.h\<close>) and the hash function it uses (\<open>lookup3.c\<close>).

  The host is little-endian, so a word that is loaded from an address or written to the buffer that is
  hashed has its least significant octet first. The time is an argument; the difference of two time
  stamps is taken modulo \<open>2 ^ 32\<close> and read as a signed number. Log messages are left out. The
  random number of \<open>rrl_slip\<close> is an argument.
\<close>

unbundle bit_operations_syntax

subsection \<open>The hash function\<close>

definition rot :: "u32 \<Rightarrow> nat \<Rightarrow> u32" where
  "rot x k = push_bit k x OR drop_bit (32 - k) x"

definition mix :: "u32 \<times> u32 \<times> u32 \<Rightarrow> u32 \<times> u32 \<times> u32" where
  "mix abc = (case abc of (a, b, c) \<Rightarrow>
     let a = (a - c) XOR rot c 4; c = c + b;
         b = (b - a) XOR rot a 6; a = a + c;
         c = (c - b) XOR rot b 8; b = b + a;
         a = (a - c) XOR rot c 16; c = c + b;
         b = (b - a) XOR rot a 19; a = a + c;
         c = (c - b) XOR rot b 4; b = b + a
     in (a, b, c))"

definition final_mix :: "u32 \<times> u32 \<times> u32 \<Rightarrow> u32" where
  "final_mix abc = (case abc of (a, b, c) \<Rightarrow>
     let c = (c XOR b) - rot b 14;
         a = (a XOR c) - rot c 11;
         b = (b XOR a) - rot a 25;
         c = (c XOR b) - rot b 16;
         a = (a XOR c) - rot c 4;
         b = (b XOR a) - rot a 14
     in (c XOR b) - rot b 24)"

text \<open>Up to four octets, the first one least significant.\<close>

definition le_word :: "byte list \<Rightarrow> u32" where
  "le_word bs = foldr (\<lambda>x w. ucast x OR push_bit 8 w) (take 4 bs) 0"

definition add_block :: "byte list \<Rightarrow> u32 \<times> u32 \<times> u32 \<Rightarrow> u32 \<times> u32 \<times> u32" where
  "add_block k abc = (case abc of (a, b, c) \<Rightarrow> (a + le_word k, b + le_word (drop 4 k), c + le_word (drop 8 k)))"

function hash_blocks :: "byte list \<Rightarrow> u32 \<times> u32 \<times> u32 \<Rightarrow> u32" where
  "hash_blocks k abc =
     (if length k > 12 then hash_blocks (drop 12 k) (mix (add_block k abc))
      else if k = [] then snd (snd abc)
      else final_mix (add_block k abc))"
  by pat_completeness auto
termination by (relation "measure (\<lambda>(k, abc). length k)") auto

declare hash_blocks.simps [simp del]

definition hashlittle :: "u32 \<Rightarrow> byte list \<Rightarrow> u32 \<Rightarrow> u32" where
  "hashlittle raninit key initval =
     (let a = raninit + of_nat (length key) + initval in hash_blocks key (a, a, a))"

subsection \<open>The buckets\<close>

definition rrl_type_nxdomain :: u16 where "rrl_type_nxdomain = 0x01"
definition rrl_type_error :: u16 where "rrl_type_error = 0x02"
definition rrl_type_referral :: u16 where "rrl_type_referral = 0x04"
definition rrl_type_any :: u16 where "rrl_type_any = 0x08"
definition rrl_type_wildcard :: u16 where "rrl_type_wildcard = 0x10"
definition rrl_type_nodata :: u16 where "rrl_type_nodata = 0x20"
definition rrl_type_dnskey :: u16 where "rrl_type_dnskey = 0x40"
definition rrl_type_positive :: u16 where "rrl_type_positive = 0x80"
definition rrl_type_rrsig :: u16 where "rrl_type_rrsig = 0x100"
definition rrl_type_all :: u16 where "rrl_type_all = 0x1ff"
definition rrl_ip6 :: u16 where "rrl_ip6 = 0x8000"

lemmas rrl_type_defs = rrl_type_nxdomain_def rrl_type_error_def rrl_type_referral_def rrl_type_any_def
  rrl_type_wildcard_def rrl_type_nodata_def rrl_type_dnskey_def rrl_type_positive_def rrl_type_rrsig_def rrl_type_all_def

record rrl_bucket =
  bk_source :: u64
  bk_rate :: u32
  bk_hash :: u32
  bk_counter :: u32
  bk_stamp :: u32
  bk_flags :: u16

definition zero_bucket :: rrl_bucket where
  "zero_bucket = \<lparr>bk_source = 0, bk_rate = 0, bk_hash = 0, bk_counter = 0, bk_stamp = 0, bk_flags = 0\<rparr>"

record rrl_state =
  rrl_array :: "rrl_bucket list"
  rrl_array_size :: nat
  rrl_ratelimit :: u32
  rrl_slip_ratio :: byte
  rrl_ipv4_prefixlen :: byte
  rrl_ipv6_prefixlen :: byte
  rrl_ipv6_mask :: u64
  rrl_whitelist_ratelimit :: u32
  rrl_maps :: "rrl_bucket list list"

definition RRL_BUCKETS :: nat where "RRL_BUCKETS = 1000000"
definition RRL_LIMIT :: u32 where "RRL_LIMIT = 400"
definition RRL_SLIP :: byte where "RRL_SLIP = 2"
definition RRL_IPV4_PREFIX_LENGTH :: byte where "RRL_IPV4_PREFIX_LENGTH = 24"
definition RRL_IPV6_PREFIX_LENGTH :: byte where "RRL_IPV6_PREFIX_LENGTH = 64"
definition RRL_WLIST_LIMIT :: u32 where "RRL_WLIST_LIMIT = 4000"

definition htonl :: "u32 \<Rightarrow> u32" where "htonl w = le_word (write_uint32 w)"

text \<open>A shift of a 32-bit number by 32 places or more is undefined.\<close>

definition shift_ones :: "nat \<Rightarrow> u32 option" where
  "shift_ones n = do { assert_c (n < 32); Some (push_bit n 0xffffffff) }"

definition rrl_mmap_init :: "nat \<Rightarrow> nat \<Rightarrow> nat \<Rightarrow> nat \<Rightarrow> nat \<Rightarrow> nat \<Rightarrow> nat \<Rightarrow> rrl_state \<Rightarrow> rrl_state option" where
  "rrl_mmap_init numch numbuck lm wlm sm plf pls st = do {
     let size = (if numbuck \<noteq> 0 then numbuck else rrl_array_size st);
     mask \<leftarrow> (if pls \<le> 32 then do { w \<leftarrow> shift_ones (32 - pls); Some (push_bit 32 (ucast (htonl w)) :: u64) }
              else do { assert_c (pls \<le> 64); w \<leftarrow> shift_ones (64 - pls); Some (ucast (htonl w) OR push_bit 32 0xffffffff) });
     Some (st\<lparr>rrl_array_size := size, rrl_ratelimit := of_nat (lm * 2), rrl_slip_ratio := of_nat sm,
              rrl_ipv4_prefixlen := of_nat plf, rrl_ipv6_prefixlen := of_nat pls, rrl_ipv6_mask := mask,
              rrl_whitelist_ratelimit := of_nat (wlm * 2),
              rrl_maps := replicate numch (replicate size zero_bucket)\<rparr>) }"

definition rrl_set_limit :: "nat \<Rightarrow> nat \<Rightarrow> nat \<Rightarrow> rrl_state \<Rightarrow> rrl_state" where
  "rrl_set_limit lm wlm sm st = st\<lparr>rrl_ratelimit := of_nat (lm * 2), rrl_whitelist_ratelimit := of_nat (wlm * 2),
     rrl_slip_ratio := of_nat sm\<rparr>"

definition rrl_init :: "nat \<Rightarrow> rrl_state \<Rightarrow> rrl_state" where
  "rrl_init ch st = st\<lparr>rrl_array :=
     (if ch \<ge> length (rrl_maps st) then replicate (rrl_array_size st) zero_bucket else rrl_maps st ! ch)\<rparr>"

text \<open>The first eight octets of an address as a 64-bit number.\<close>

definition le_word64 :: "byte list \<Rightarrow> u64" where
  "le_word64 bs = ucast (le_word bs) OR push_bit 32 (ucast (le_word (drop 4 bs)))"

definition rrl_get_source :: "rrl_state \<Rightarrow> 'c query \<Rightarrow> (u64 \<times> u16) option" where
  "rrl_get_source st q = (case q_addr q of
     sockaddr_in a _ \<Rightarrow> do {
       assert_c (unat (rrl_ipv4_prefixlen st) \<le> 32);
       w \<leftarrow> shift_ones (32 - unat (rrl_ipv4_prefixlen st));
       Some (ucast (le_word a AND htonl w), 0) }
   | sockaddr_in6 a _ \<Rightarrow> Some (le_word64 a AND rrl_ipv6_mask st, rrl_ip6))"

definition rrlstr2type :: "string \<Rightarrow> u16" where
  "rrlstr2type s =
     (if s = ''nxdomain'' then rrl_type_nxdomain
      else if s = ''error'' then rrl_type_error
      else if s = ''referral'' then rrl_type_referral
      else if s = ''any'' then rrl_type_any
      else if s = ''wildcard'' then rrl_type_wildcard
      else if s = ''nodata'' then rrl_type_nodata
      else if s = ''dnskey'' then rrl_type_dnskey
      else if s = ''positive'' then rrl_type_positive
      else if s = ''rrsig'' then rrl_type_rrsig
      else if s = ''all'' then rrl_type_all
      else 0)"

definition rrltype2str :: "u16 \<Rightarrow> string" where
  "rrltype2str c = (let t = c AND 0x0fff in
     if t = rrl_type_nxdomain then ''nxdomain''
     else if t = rrl_type_error then ''error''
     else if t = rrl_type_referral then ''referral''
     else if t = rrl_type_any then ''any''
     else if t = rrl_type_wildcard then ''wildcard''
     else if t = rrl_type_nodata then ''nodata''
     else if t = rrl_type_dnskey then ''dnskey''
     else if t = rrl_type_positive then ''positive''
     else if t = rrl_type_rrsig then ''rrsig''
     else if t = rrl_type_all then ''all''
     else ''unknown'')"

definition RCODE_OK :: byte where "RCODE_OK = 0"
definition RCODE_NXDOMAIN :: byte where "RCODE_NXDOMAIN = 3"

text \<open>The name that a class of answers is counted under, if there is one.\<close>

definition apex_name :: "namedb \<Rightarrow> 'c query \<Rightarrow> byte list option option" where
  "apex_name db q = (case q_zone q of None \<Rightarrow> Some None
     | Some z \<Rightarrow> do {
         zn \<leftarrow> db_zones db z;
         case zone_apex zn of None \<Rightarrow> Some None
         | Some d \<Rightarrow> do { dn \<leftarrow> domain_dname db d; Some (Some (dname_name dn)) } })"

definition rrl_classify :: "namedb \<Rightarrow> 'c query \<Rightarrow> (u16 \<times> byte list option) option" where
  "rrl_classify db q = do {
     rcode \<leftarrow> RCODE (q_packet q);
     let qname = map_option dname_name (q_qname q);
     if rcode = RCODE_NXDOMAIN then do { d \<leftarrow> apex_name db q; Some (rrl_type_nxdomain, d) }
     else if rcode \<noteq> RCODE_OK then do { d \<leftarrow> apex_name db q; Some (rrl_type_error, d) }
     else case q_delegation_domain q of
       Some dd \<Rightarrow> do { dn \<leftarrow> domain_dname db dd; Some (rrl_type_referral, Some (dname_name dn)) }
     | None \<Rightarrow>
       if q_qtype q = TYPE_ANY then Some (rrl_type_any, qname)
       else if q_qtype q = TYPE_RRSIG then Some (rrl_type_rrsig, qname)
       else case q_wildcard_domain q of
         Some wd \<Rightarrow> do { dn \<leftarrow> domain_dname db wd; Some (rrl_type_wildcard, Some (dname_name dn)) }
       | None \<Rightarrow> do {
           an \<leftarrow> ANCOUNT (q_packet q);
           if an = 0 then do { d \<leftarrow> apex_name db q; Some (rrl_type_nodata, d) }
           else if q_qtype q = TYPE_DNSKEY then Some (rrl_type_dnskey, qname)
           else Some (rrl_type_positive, qname) } }"

text \<open>
  The result is \<open>None\<close> for the limit 0. The octets of the source and of the class are stored with
  the least significant one first.
\<close>

definition examine_query :: "u32 \<Rightarrow> namedb \<Rightarrow> rrl_state \<Rightarrow> 'c query \<Rightarrow> (u32 \<times> u64 \<times> u16 \<times> u32) option option" where
  "examine_query raninit db st q = do {
     (source, c2) \<leftarrow> rrl_get_source st q;
     (c, dname) \<leftarrow> rrl_classify db q;
     wl \<leftarrow> (case q_zone q of None \<Rightarrow> Some 0 | Some z \<Rightarrow> map_option zone_rrl_whitelist (db_zones db z));
     let lm = (if wl AND c \<noteq> 0 then rrl_whitelist_ratelimit st else rrl_ratelimit st);
     if lm = 0 then Some None
     else do {
       let c = c OR c2;
       let buf = rev (write_uint64 source) @ rev (write_uint16 c);
       let key = (case dname of Some d \<Rightarrow> if length d \<le> MAXDOMAINLEN then buf @ d else buf | None \<Rightarrow> buf);
       Some (Some (hashlittle raninit key 0x267fcd16, source, c, lm)) } }"

definition rrl_attenuate_bucket :: "rrl_bucket \<Rightarrow> nat \<Rightarrow> rrl_bucket" where
  "rrl_attenuate_bucket b elapsed =
     (if elapsed > 16 then b\<lparr>bk_rate := 0\<rparr>
      else b\<lparr>bk_rate := drop_bit elapsed (bk_rate b) + drop_bit (elapsed - 1) (bk_counter b)\<rparr>)"

definition bucket_rate :: "rrl_bucket \<Rightarrow> u32" where
  "bucket_rate b = (if bk_counter b > drop_bit 1 (bk_rate b) then bk_counter b + drop_bit 1 (bk_rate b) else bk_rate b)"

definition bucket_update :: "rrl_bucket \<Rightarrow> u32 \<Rightarrow> u64 \<Rightarrow> u16 \<Rightarrow> u32 \<Rightarrow> u32 \<times> rrl_bucket" where
  "bucket_update b hash source flags now =
     (if bk_source b \<noteq> source \<or> bk_flags b \<noteq> flags \<or> bk_hash b \<noteq> hash
      then (1, \<lparr>bk_source = source, bk_rate = 0, bk_hash = hash, bk_counter = 1, bk_stamp = now, bk_flags = flags\<rparr>)
      else
        let elapsed = sint (now - bk_stamp b);
            b = (if elapsed = 1
                 then b\<lparr>bk_rate := drop_bit 1 (bk_rate b) + bk_counter b, bk_counter := 1, bk_stamp := now\<rparr>
                 else if elapsed > 0
                 then (rrl_attenuate_bucket b (nat elapsed))\<lparr>bk_counter := 1, bk_stamp := now\<rparr>
                 else if now \<noteq> bk_stamp b
                 then b\<lparr>bk_rate := 0, bk_counter := 1, bk_stamp := now\<rparr>
                 else b\<lparr>bk_counter := bk_counter b + 1\<rparr>)
        in (bucket_rate b, b))"

definition rrl_update :: "rrl_state \<Rightarrow> u32 \<Rightarrow> u64 \<Rightarrow> u16 \<Rightarrow> u32 \<Rightarrow> (u32 \<times> rrl_state) option" where
  "rrl_update st hash source flags now = do {
     assert_c (rrl_array_size st \<noteq> 0);
     let i = unat hash mod rrl_array_size st;
     assert_c (i < length (rrl_array st));
     let (rate, b) = bucket_update (rrl_array st ! i) hash source flags now;
     Some (rate, st\<lparr>rrl_array := (rrl_array st)[i := b]\<rparr>) }"

definition rrl_process_query :: "u32 \<Rightarrow> namedb \<Rightarrow> u32 \<Rightarrow> 'c query \<Rightarrow> rrl_state \<Rightarrow> (bool \<times> rrl_state) option" where
  "rrl_process_query raninit db now q st =
     (if rrl_ratelimit st = 0 \<and> rrl_whitelist_ratelimit st = 0 then Some (False, st)
      else do {
        r \<leftarrow> examine_query raninit db st q;
        case r of None \<Rightarrow> Some (False, st)
        | Some (hash, source, flags, lm) \<Rightarrow> do {
            (rate, st) \<leftarrow> rrl_update st hash source flags now;
            Some (rate \<ge> lm, st) } })"

datatype query_state = QUERY_PROCESSED | QUERY_DISCARDED | QUERY_IN_AXFR

definition rrl_slip :: "nat \<Rightarrow> rrl_state \<Rightarrow> 'c query \<Rightarrow> (query_state \<times> 'c query) option" where
  "rrl_slip random st q =
     (if rrl_slip_ratio st > 0 \<and> (rrl_slip_ratio st = 1 \<or> random mod unat (rrl_slip_ratio st) = 0) then do {
        p \<leftarrow> TC_SET (q_packet q);
        p \<leftarrow> ANCOUNT_SET p 0;
        p \<leftarrow> NSCOUNT_SET p 0;
        p \<leftarrow> ARCOUNT_SET p 0;
        p \<leftarrow> buffer_set_position p (case q_qname q of Some d \<Rightarrow> QHEADERSZ + 4 + name_size d | None \<Rightarrow> QHEADERSZ);
        Some (QUERY_PROCESSED, q\<lparr>q_packet := p\<rparr>) }
      else Some (QUERY_DISCARDED, q))"

subsection \<open>Sources that stay below the limit\<close>

text \<open>Events are the hash, source, flags and time of the answers in the order in which they are counted.\<close>

type_synonym rrl_event = "u32 \<times> u64 \<times> u16 \<times> u32"

fun rrl_run :: "rrl_state \<Rightarrow> rrl_event list \<Rightarrow> (u32 list \<times> rrl_state) option" where
  "rrl_run st [] = Some ([], st)"
| "rrl_run st ((hash, source, flags, now) # es) = do {
     (r, st) \<leftarrow> rrl_update st hash source flags now;
     (rs, st) \<leftarrow> rrl_run st es;
     Some (r # rs, st) }"

definition bucket_event :: "rrl_bucket \<Rightarrow> rrl_event" where
  "bucket_event b = (bk_hash b, bk_source b, bk_flags b, bk_stamp b)"

lemma unat_halve: "unat (drop_bit k (w :: u32)) = unat w div 2 ^ k"
  unfolding unat_drop_bit_eq by (rule drop_bit_eq_div)

lemma unat_add_u32: "unat (a :: u32) + unat b < 2 ^ 32 \<Longrightarrow> unat (a + b) = unat a + unat b"
  by (subst unat_add_lem [THEN iffD1]) simp_all

lemma sint_zero_iff: "sint (w :: u32) = 0 \<longleftrightarrow> w = 0"
  by (metis signed_0 signed_word_eqI)

lemma bucket_update_event:
  "bucket_event (snd (bucket_update b hash source flags now)) = (hash, source, flags, now)"
  by (auto simp: bucket_update_def bucket_event_def rrl_attenuate_bucket_def Let_def)

lemma bucket_counter:
  "bk_counter (snd (bucket_update b hash source flags now)) =
     (if bucket_event b = (hash, source, flags, now) then bk_counter b + 1 else 1)"
  by (auto simp: bucket_update_def bucket_event_def rrl_attenuate_bucket_def Let_def sint_zero_iff)

lemma bucket_rate_bound:
  assumes "unat (bk_rate b) \<le> 2 * n" "unat (bk_counter b) \<le> n" "2 * n < 2 ^ 32"
  shows "unat (bucket_rate b) \<le> 2 * n"
proof -
  have "unat (bk_counter b) + unat (drop_bit 1 (bk_rate b)) \<le> 2 * n" using assms(1,2) by (simp add: unat_halve)
  then show ?thesis using assms unat_add_u32 [of "bk_counter b" "drop_bit 1 (bk_rate b)"] by (simp add: bucket_rate_def)
qed

lemma attenuate_bound:
  assumes "unat (bk_rate b) \<le> 2 * n" "unat (bk_counter b) \<le> n" "2 * n < 2 ^ 32" "2 \<le> e"
  shows "unat (bk_rate (rrl_attenuate_bucket b e)) \<le> 2 * n"
proof -
  have "unat (bk_rate b) div 2 ^ e \<le> unat (bk_rate b) div 2"
    using div_le_mono2 [of 2 "2 ^ e" "unat (bk_rate b)"] power_increasing [of 1 e "2 :: nat"] assms(4) by simp
  also have "\<dots> \<le> n" using assms(1) by linarith
  finally have "unat (drop_bit e (bk_rate b)) + unat (drop_bit (e - 1) (bk_counter b)) \<le> 2 * n"
    using assms(2) div_le_dividend [of "unat (bk_counter b)" "2 ^ (e - 1)"] unfolding unat_halve by linarith
  then show ?thesis using assms(3) unat_add_u32 [of "drop_bit e (bk_rate b)" "drop_bit (e - 1) (bk_counter b)"]
    by (simp add: rrl_attenuate_bucket_def)
qed

lemma bucket_update_bound:
  assumes b: "unat (bk_rate b) \<le> 2 * n" "unat (bk_counter b) \<le> n" and n: "2 * n < 2 ^ 32" "1 \<le> n"
    and c: "bucket_event b = (hash, source, flags, now) \<Longrightarrow> unat (bk_counter b) + 1 \<le> n"
  shows "unat (fst (bucket_update b hash source flags now)) \<le> 2 * n"
    "unat (bk_rate (snd (bucket_update b hash source flags now))) \<le> 2 * n"
proof -
  let ?b = "snd (bucket_update b hash source flags now)"
  have "unat (drop_bit 1 (bk_rate b)) + unat (bk_counter b) \<le> 2 * n" using b by (simp add: unat_halve)
  then have half: "unat (drop_bit 1 (bk_rate b) + bk_counter b) \<le> 2 * n"
    using unat_add_u32 [of "drop_bit 1 (bk_rate b)" "bk_counter b"] n by simp
  have att: "unat (bk_rate (rrl_attenuate_bucket b (nat e))) \<le> 2 * n" if "e \<noteq> 1" "e > 0" for e
    using attenuate_bound [OF b n(1), of "nat e"] that by simp
  show r: "unat (bk_rate ?b) \<le> 2 * n"
    using half att b by (auto simp: bucket_update_def Let_def)
  have "unat (bk_counter ?b) \<le> n"
    unfolding bucket_counter using c n unat_add_u32 [of "bk_counter b" 1] by auto
  from bucket_rate_bound [OF r this n(1)] show "unat (fst (bucket_update b hash source flags now)) \<le> 2 * n"
    using n by (auto simp: bucket_update_def Let_def split: if_splits)
qed

definition rrl_ready :: "rrl_state \<Rightarrow> bool" where
  "rrl_ready st \<longleftrightarrow> 0 < rrl_array_size st \<and> length (rrl_array st) = rrl_array_size st"

text \<open>The counter of a bucket counts no more than the events of its kind so far.\<close>

definition buckets_ok :: "nat \<Rightarrow> rrl_event list \<Rightarrow> rrl_state \<Rightarrow> bool" where
  "buckets_ok n h st \<longleftrightarrow> (\<forall>b \<in> set (rrl_array st). unat (bk_rate b) \<le> 2 * n \<and> unat (bk_counter b) \<le> count_list h (bucket_event b))"

lemma rrl_update_ready:
  assumes "rrl_ready st"
  obtains i where "i < length (rrl_array st)"
    "rrl_update st hash source flags now = Some (fst (bucket_update (rrl_array st ! i) hash source flags now),
       st\<lparr>rrl_array := (rrl_array st)[i := snd (bucket_update (rrl_array st ! i) hash source flags now)]\<rparr>)"
    "rrl_ready (st\<lparr>rrl_array := (rrl_array st)[i := snd (bucket_update (rrl_array st ! i) hash source flags now)]\<rparr>)"
    "i = unat hash mod rrl_array_size st"
  using assms by (auto simp: rrl_update_def rrl_ready_def Let_def split: prod.splits)

lemma rrl_run_bounded:
  assumes "rrl_ready st" "buckets_ok n h st" "\<forall>e. count_list (h @ es) e \<le> n" "2 * n < 2 ^ 32"
  shows "\<exists>rs st'. rrl_run st es = Some (rs, st') \<and> length rs = length es \<and> (\<forall>r \<in> set rs. unat r \<le> 2 * n)"
  using assms
proof (induction es arbitrary: st h)
  case (Cons e es)
  obtain hash source flags now where e: "e = (hash, source, flags, now)" by (cases e)
  obtain i where i: "i < length (rrl_array st)"
    "rrl_update st hash source flags now = Some (fst (bucket_update (rrl_array st ! i) hash source flags now),
       st\<lparr>rrl_array := (rrl_array st)[i := snd (bucket_update (rrl_array st ! i) hash source flags now)]\<rparr>)"
    "rrl_ready (st\<lparr>rrl_array := (rrl_array st)[i := snd (bucket_update (rrl_array st ! i) hash source flags now)]\<rparr>)"
    using rrl_update_ready [OF Cons.prems(1)] by metis
  let ?b = "rrl_array st ! i" and ?u = "bucket_update (rrl_array st ! i) hash source flags now"
  let ?st = "st\<lparr>rrl_array := (rrl_array st)[i := snd ?u]\<rparr>"
  have b: "unat (bk_rate ?b) \<le> 2 * n" "unat (bk_counter ?b) \<le> count_list h (bucket_event ?b)"
    using Cons.prems(2) i(1) by (auto simp: buckets_ok_def)
  have cnt: "count_list h x \<le> n" "count_list h e + 1 \<le> n" for x
    using Cons.prems(3) [rule_format, of x] Cons.prems(3) [rule_format, of e] by simp_all
  have le: "unat (bk_counter ?b) \<le> n" using le_trans [OF b(2) cnt(1)] .
  have eq: "unat (bk_counter ?b) + 1 \<le> n" if "bucket_event ?b = (hash, source, flags, now)" using b(2) cnt(2) that e by simp
  have n1: "1 \<le> n" using cnt(2) by simp
  note bd = bucket_update_bound [OF b(1) le Cons.prems(4) n1 eq]
  have "unat (bk_counter (snd ?u)) \<le> count_list (h @ [e]) (bucket_event (snd ?u))"
    using b(2) eq Cons.prems(4) unat_add_u32 [of "bk_counter ?b" 1] unfolding bucket_counter bucket_update_event by (auto simp: e)
  moreover have "buckets_ok n (h @ [e]) st" using Cons.prems(2) by (fastforce simp: buckets_ok_def)
  ultimately have "buckets_ok n (h @ [e]) ?st"
    using bd(2) unfolding buckets_ok_def by (auto dest!: subsetD [OF set_update_subset_insert])
  from Cons.IH [OF i(3) this] Cons.prems(3,4) obtain rs st' where "rrl_run ?st es = Some (rs, st')" "length rs = length es" "\<forall>r \<in> set rs. unat r \<le> 2 * n"
    by auto
  then show ?case using i(2) e bd(1) by auto
qed simp

lemma zero_buckets_ok: "set (rrl_array st) \<subseteq> {zero_bucket} \<Longrightarrow> buckets_ok n [] st"
  by (auto simp: buckets_ok_def zero_bucket_def)

subsection \<open>Sources above the limit\<close>

lemma bucket_rate_counter: "unat (bk_counter b) < 2 ^ 31 \<Longrightarrow> unat (bk_counter b) \<le> unat (bucket_rate b)"
proof -
  assume c: "unat (bk_counter b) < 2 ^ 31"
  have "unat (bk_rate b) < 2 ^ 32" using unsigned_less [of "bk_rate b"] by simp
  then have "unat (bk_counter b) + unat (drop_bit 1 (bk_rate b)) < 2 ^ 32" using c by (simp add: unat_halve)
  then show ?thesis using unat_add_u32 [of "bk_counter b" "drop_bit 1 (bk_rate b)"]
    by (auto simp: bucket_rate_def word_less_nat_alt unat_halve)
qed

lemma rrl_burst:
  assumes "rrl_ready st" "k + m < 2 ^ 31"
    "k \<noteq> 0 \<Longrightarrow> bucket_event (rrl_array st ! (unat hash mod rrl_array_size st)) = (hash, source, flags, now)"
    "bucket_event (rrl_array st ! (unat hash mod rrl_array_size st)) = (hash, source, flags, now) \<Longrightarrow>
      k \<le> unat (bk_counter (rrl_array st ! (unat hash mod rrl_array_size st))) \<and>
      unat (bk_counter (rrl_array st ! (unat hash mod rrl_array_size st))) + m < 2 ^ 31"
  shows "\<exists>rs st'. rrl_run st (replicate m (hash, source, flags, now)) = Some (rs, st') \<and> length rs = m \<and>
    (\<forall>j < m. k + j + 1 \<le> unat (rs ! j))"
  using assms
proof (induction m arbitrary: st k)
  case (Suc m)
  let ?i = "unat hash mod rrl_array_size st"
  let ?b = "rrl_array st ! ?i"
  let ?u = "bucket_update ?b hash source flags now"
  let ?st = "st\<lparr>rrl_array := (rrl_array st)[?i := snd ?u]\<rparr>"
  have i: "?i < length (rrl_array st)" "rrl_update st hash source flags now = Some (fst ?u, ?st)" "rrl_ready ?st"
    using rrl_update_ready [OF Suc.prems(1)] by metis+
  have nb: "rrl_array ?st ! (unat hash mod rrl_array_size ?st) = snd ?u" using i(1) by simp
  have c: "k + 1 \<le> unat (bk_counter (snd ?u)) \<and> unat (bk_counter (snd ?u)) + m < 2 ^ 31"
    using Suc.prems(2-4) unat_add_u32 [of "bk_counter ?b" 1] unfolding bucket_counter by auto
  have "unat (bk_counter (snd ?u)) \<le> unat (fst ?u)"
    using bucket_rate_counter [of "snd ?u"] c by (auto simp: bucket_update_def Let_def split: if_splits)
  then have fst: "k + 1 \<le> unat (fst ?u)" using c by linarith
  obtain rs st' where r: "rrl_run ?st (replicate m (hash, source, flags, now)) = Some (rs, st')" "length rs = m"
    "\<forall>j < m. k + 1 + j + 1 \<le> unat (rs ! j)"
    using Suc.IH [OF i(3), of "k + 1"] Suc.prems(2) c unfolding nb bucket_update_event by auto
  have "\<forall>j < Suc m. k + j + 1 \<le> unat ((fst ?u # rs) ! j)" using fst r(3) by (auto simp: nth_Cons' less_Suc_eq_0_disj)
  then show ?case using i(2) r(1,2) by simp
qed simp

subsection \<open>Source networks\<close>

lemma bit_le_word:
  "bit (le_word [a, b, c, d]) n \<longleftrightarrow> (if n < 8 then bit a n else if n < 16 then bit b (n - 8)
     else if n < 24 then bit c (n - 16) else n < 32 \<and> bit d (n - 24))"
proof -
  have hi: "\<not> bit x m" if "8 \<le> m" for x :: byte and m using that bit_imp_le_length [of x m] by auto
  show ?thesis
  proof (cases "n < 8")
    case True
    then show ?thesis by (simp add: le_word_def bit_simps)
  next
    case f1: False
    show ?thesis
    proof (cases "n < 16")
      case True
      then show ?thesis using f1 hi by (auto simp: le_word_def bit_simps)
    next
      case f2: False
      then show ?thesis using hi by (cases "n < 24") (auto simp: le_word_def bit_simps)
    qed
  qed
qed

lemma le_word_and: "le_word [a, b, c, d] AND le_word [a', b', c', d'] = le_word [a AND a', b AND b', c AND c', d AND d']"
  by (rule bit_word_eqI) (simp add: bit_and_iff bit_le_word)

lemma le_word_inject: "le_word [a, b, c, d] = le_word [a', b', c', d'] \<longleftrightarrow> a = a' \<and> b = b' \<and> c = c' \<and> d = d'"
proof
  assume e: "le_word [a, b, c, d] = le_word [a', b', c', d']"
  have b: "bit (le_word [a, b, c, d]) n = bit (le_word [a', b', c', d']) n" for n using e by simp
  have "bit a n = bit a' n" "bit b n = bit b' n" "bit c n = bit c' n" "bit d n = bit d' n" if "n < 8" for n
    using b [of n] b [of "n + 8"] b [of "n + 16"] b [of "n + 24"] that by (simp_all add: bit_le_word)
  then show "a = a' \<and> b = b' \<and> c = c' \<and> d = d'" by (auto intro!: bit_word_eqI)
qed simp

lemma htonl_and: "htonl (x AND y) = htonl x AND htonl y"
  by (rule bit_word_eqI) (auto simp: htonl_def write_uint32_def bit_and_iff bit_le_word bit_simps)

lemma htonl_inject: "htonl x = htonl y \<longleftrightarrow> x = y"
proof
  assume "htonl x = htonl y"
  then have "write_uint32 x = write_uint32 y" by (simp add: htonl_def write_uint32_def le_word_inject)
  then show "x = y" by (metis read_write_uint32)
qed simp

lemma le_word_network: "length a = 4 \<Longrightarrow> le_word a = htonl (read_uint32 a)"
proof -
  assume "length a = 4"
  then obtain x0 x1 x2 x3 where a: "a = [x0, x1, x2, x3]"
    by (auto simp: eval_nat_numeral length_Suc_conv)
  have hi: "\<not> bit x (m + n)" if "8 \<le> m" for x :: byte and m n using that bit_imp_le_length [of x "m + n"] by auto
  have "write_uint32 (read_uint32 a) = a"
    unfolding a write_uint32_def read_uint32_def by (simp; intro conjI; rule bit_word_eqI; auto simp: bit_simps hi)
  then show ?thesis by (simp add: htonl_def)
qed

lemma and_prefix: "x AND push_bit k 0xffffffff = y AND push_bit k 0xffffffff \<longleftrightarrow> drop_bit k x = drop_bit k (y :: u32)"
proof
  have m: "(0xffffffff :: u32) = -1" by simp
  assume e: "x AND push_bit k 0xffffffff = y AND push_bit k 0xffffffff"
  have "bit x (k + n) = bit y (k + n)" if "k + n < 32" for n
  proof -
    have "bit (x AND push_bit k 0xffffffff) (k + n) = bit (y AND push_bit k 0xffffffff) (k + n)" using e by simp
    then show ?thesis using that unfolding m by (simp add: bit_simps)
  qed
  moreover have "\<not> bit z (k + n)" if "\<not> k + n < 32" for z :: u32 and n using that bit_imp_le_length [of z "k + n"] by auto
  ultimately have "bit x (k + n) = bit y (k + n)" for n by (cases "k + n < 32") auto
  then show "drop_bit k x = drop_bit k y" by (intro bit_word_eqI) (simp add: bit_drop_bit_eq)
next
  have m: "(0xffffffff :: u32) = -1" by simp
  assume "drop_bit k x = drop_bit k y"
  then have "bit x (k + n) = bit y (k + n)" for n by (metis bit_drop_bit_eq comp_apply)
  then have "bit x n = bit y n" if "k \<le> n" for n using that by (metis le_add_diff_inverse)
  then show "x AND push_bit k 0xffffffff = y AND push_bit k 0xffffffff"
    unfolding m by (intro bit_word_eqI) (auto simp: bit_simps)
qed

text \<open>Two IPv4 addresses share their buckets exactly when they agree in the prefix.\<close>

lemma rrl_source_ipv4:
  assumes "length a = 4" "length a' = 4" "1 \<le> unat (rrl_ipv4_prefixlen st)" "unat (rrl_ipv4_prefixlen st) \<le> 32"
    "q_addr q = sockaddr_in a p" "q_addr q' = sockaddr_in a' p'"
  shows "\<exists>s s'. rrl_get_source st q = Some (s, 0) \<and> rrl_get_source st q' = Some (s', 0) \<and>
    (s = s' \<longleftrightarrow> drop_bit (32 - unat (rrl_ipv4_prefixlen st)) (read_uint32 a) = drop_bit (32 - unat (rrl_ipv4_prefixlen st)) (read_uint32 a'))"
proof -
  let ?k = "32 - unat (rrl_ipv4_prefixlen st)" and ?m = "push_bit (32 - unat (rrl_ipv4_prefixlen st)) 0xffffffff :: u32"
  have s: "rrl_get_source st q = Some (ucast (htonl (read_uint32 a AND ?m)), 0)"
    "rrl_get_source st q' = Some (ucast (htonl (read_uint32 a' AND ?m)), 0)"
    using assms by (simp_all add: rrl_get_source_def shift_ones_def le_word_network htonl_and)
  have "(ucast (x :: u32) :: u64) = ucast y \<longleftrightarrow> x = y" for x y
  proof
    assume e: "(ucast x :: u64) = ucast y"
    show "x = y"
    proof (rule bit_word_eqI)
      fix n assume "n < LENGTH(32)"
      moreover have "bit (ucast x :: u64) n = bit (ucast y :: u64) n" using e by simp
      ultimately show "bit x n = bit y n" by (simp add: bit_simps)
    qed
  qed simp
  then show ?thesis using s by (simp add: htonl_inject and_prefix)
qed

text \<open>
  The mask for IPv6 is the intended one for the default prefix length 64. For the length 48 it leaves out the
  third and fourth octet of the address instead of the seventh and eighth.
\<close>

lemma rrl_ipv6_mask_64: "\<exists>st'. rrl_mmap_init ch n lm wlm sm plf 64 st = Some st' \<and> rrl_ipv6_mask st' = -1"
  by (simp add: rrl_mmap_init_def shift_ones_def htonl_def write_uint32_def le_word_def Let_def)

lemma rrl_ipv6_mask_48: "\<exists>st'. rrl_mmap_init ch n lm wlm sm plf 48 st = Some st' \<and> rrl_ipv6_mask st' = 0xffffffff0000ffff"
  by (simp add: rrl_mmap_init_def shift_ones_def htonl_def write_uint32_def le_word_def Let_def)

lemma rrl_ipv6_48_networks:
  "le_word64 [0x20, 1, 0x0d, 0xb8, 0, 0, 0, 0] AND 0xffffffff0000ffff = le_word64 [0x20, 1, 0xff, 0xff, 0, 0, 0, 0] AND 0xffffffff0000ffff"
  "le_word64 [0x20, 1, 0x0d, 0xb8, 0, 0, 0, 1] AND 0xffffffff0000ffff \<noteq> le_word64 [0x20, 1, 0x0d, 0xb8, 0, 0, 0, 2] AND 0xffffffff0000ffff"
  by (simp_all add: le_word64_def le_word_def)

lemma rrl_type_text:
  "\<forall>t \<in> {rrl_type_nxdomain, rrl_type_error, rrl_type_referral, rrl_type_any, rrl_type_wildcard, rrl_type_nodata,
     rrl_type_dnskey, rrl_type_positive, rrl_type_rrsig, rrl_type_all}. rrlstr2type (rrltype2str t) = t"
  by (simp add: rrlstr2type_def rrltype2str_def rrl_type_defs)

end
