(* ===== verification/Query_Answer.thy ===== *)
theory Query_Answer
  imports Encode_Answer Rrl
begin

text \<open>
  The construction of an answer (\<open>query.c\<close>, from \<open>query_get_tempdomain\<close> to \<open>answer_query\<close>), in the
  configuration without NSEC3 and without the radix tree.

  While an answer is built, temporary domains and RRsets are allocated: they are entered in the
  database with a fresh identifier and are in no tree (\<open>dom_temp\<close>, which stands for \<open>node.parent == NULL\<close>).
  Their field \<open>wildcard_child_closest_match\<close> is the domain itself; for the domains of \<open>query_get_tempdomain\<close> the code
  leaves the field zero, and it is never read.
  The functions pass on the database, the query and the list of RRsets as one record.

  In \<open>query.c\<close> the functions \<open>answer_domain\<close>, \<open>answer_authoritative\<close> and \<open>answer_lookup_zone\<close> call each other
  to follow a CNAME or DNAME. Here the first two return where to go on, and \<open>answer_lookup_zone\<close> recurses.
\<close>

unbundle bit_operations_syntax

definition EXTRA_DOMAIN_NUMBERS :: nat where "EXTRA_DOMAIN_NUMBERS = 1024"
definition RCODE_SERVFAIL :: byte where "RCODE_SERVFAIL = 2"
definition RCODE_REFUSE :: byte where "RCODE_REFUSE = 5"
definition RCODE_YXDOMAIN :: byte where "RCODE_YXDOMAIN = 6"

record 'c work =
  w_db :: namedb
  w_q :: "'c query"
  w_answer :: answer

definition on_packet :: "(buffer \<Rightarrow> buffer option) \<Rightarrow> 'c work \<Rightarrow> 'c work option" where
  "on_packet f w = do { q \<leftarrow> put_packet (w_q w) (f (q_packet (w_q w))); Some (w\<lparr>w_q := q\<rparr>) }"

definition new_domain :: "domain \<Rightarrow> 'c work \<Rightarrow> domain_id \<times> 'c work" where
  "new_domain dm w = (db_next (w_db w),
     w\<lparr>w_db := (w_db w)\<lparr>db_domains := (db_domains (w_db w))(db_next (w_db w) \<mapsto> dm), db_next := db_next (w_db w) + 1\<rparr>\<rparr>)"

definition new_rrset :: "rrset \<Rightarrow> 'c work \<Rightarrow> rrset_id \<times> 'c work" where
  "new_rrset rs w = (db_next (w_db w),
     w\<lparr>w_db := (w_db w)\<lparr>db_rrsets := (db_rrsets (w_db w))(db_next (w_db w) \<mapsto> rs), db_next := db_next (w_db w) + 1\<rparr>\<rparr>)"

text \<open>The number of the next temporary domain, or \<open>None\<close> when there are no more.\<close>

definition query_get_tempdomain :: "'c query \<Rightarrow> nat option \<times> 'c query" where
  "query_get_tempdomain q =
     (if q_number_temporary_domains q \<ge> EXTRA_DOMAIN_NUMBERS then (None, q)
      else (Some (q_compressed_dname_offsets_size q + q_number_temporary_domains q),
            q\<lparr>q_number_temporary_domains := q_number_temporary_domains q + 1\<rparr>))"

definition domain_is_existing :: "namedb \<Rightarrow> domain_id \<Rightarrow> bool option" where
  "domain_is_existing db d = map_option dom_is_existing (db_domains db d)"

text \<open>\<open>while (!match->is_existing) match = match->parent\<close>; it is a failure when there is no parent.\<close>

function existing_above :: "namedb \<Rightarrow> domain_id \<Rightarrow> domain_id option" where
  "existing_above db d = do {
     e \<leftarrow> domain_is_existing db d;
     if e then Some d
     else do {
       p \<leftarrow> domain_parent db d;
       case p of None \<Rightarrow> None | Some p \<Rightarrow> existing_above db p } }"
  by pat_completeness auto
termination
  by (relation "measure (\<lambda>(db, d). domain_labels db d)") (auto simp: domain_parent_labels)

declare existing_above.simps [simp del]

subsection \<open>Covering NSEC records\<close>

function real_domain :: "namedb \<Rightarrow> domain_id \<Rightarrow> domain_id option" where
  "real_domain db d = do {
     dm \<leftarrow> db_domains db d;
     if dom_temp dm then do {
       p \<leftarrow> domain_parent db d;
       case p of None \<Rightarrow> None | Some p \<Rightarrow> real_domain db p }
     else Some d }"
  by pat_completeness auto
termination
  by (relation "measure (\<lambda>(db, d). domain_labels db d)") (auto simp: domain_parent_labels)

declare real_domain.simps [simp del]

fun nsec_before :: "nat \<Rightarrow> namedb \<Rightarrow> zone_id \<Rightarrow> domain_id option \<Rightarrow> (domain_id \<times> rrset_id) option option" where
  "nsec_before 0 db z d = None"
| "nsec_before (Suc n) db z None = Some None"
| "nsec_before (Suc n) db z (Some d) = do {
     r \<leftarrow> domain_find_rrset db d z TYPE_NSEC;
     case r of Some r \<Rightarrow> Some (Some (d, r))
     | None \<Rightarrow>
       if zone_apex_is db z d then Some None
       else do { p \<leftarrow> domain_previous db d; nsec_before n db z p } }"

text \<open>The walk to preceding names ends after at most as many steps as there are names.\<close>

definition find_covering_nsec :: "namedb \<Rightarrow> domain_id \<Rightarrow> zone_id \<Rightarrow> (domain_id \<times> rrset_id) option option" where
  "find_covering_nsec db closest_match z = do {
     d \<leftarrow> real_domain db closest_match;
     nsec_before (rb_count (dt_names (db_table db)) + 2) db z (Some d) }"

subsection \<open>Adding RRsets\<close>

definition default_additional_rr_types :: "(u16 \<times> rr_section) list" where
  "default_additional_rr_types = [(TYPE_A, ADDITIONAL_A_SECTION), (TYPE_AAAA, ADDITIONAL_AAAA_SECTION)]"

definition swap_aaaa_additional_rr_types :: "(u16 \<times> rr_section) list" where
  "swap_aaaa_additional_rr_types = [(TYPE_AAAA, ADDITIONAL_A_SECTION), (TYPE_A, ADDITIONAL_AAAA_SECTION)]"

definition rt_additional_rr_types :: "(u16 \<times> rr_section) list" where
  "rt_additional_rr_types = [(TYPE_A, ADDITIONAL_A_SECTION), (TYPE_AAAA, ADDITIONAL_AAAA_SECTION),
     (TYPE_X25, ADDITIONAL_OTHER_SECTION), (TYPE_ISDN, ADDITIONAL_OTHER_SECTION)]"

definition w_add_rrset :: "rr_section \<Rightarrow> domain_id \<Rightarrow> rrset_id \<Rightarrow> 'c work \<Rightarrow> (bool \<times> 'c work) option" where
  "w_add_rrset section d r w = do {
     (added, a) \<leftarrow> answer_add_rrset (w_db w) (w_answer w) section d r;
     Some (added, w\<lparr>w_answer := a\<rparr>) }"

fun add_types :: "domain_id \<Rightarrow> zone_id \<Rightarrow> (u16 \<times> rr_section) list \<Rightarrow> 'c work \<Rightarrow> 'c work option" where
  "add_types d z [] w = Some w"
| "add_types d z ((ty, section) # ts) w = do {
     r \<leftarrow> domain_find_rrset (w_db w) d z ty;
     w \<leftarrow> (case r of None \<Rightarrow> Some w | Some r \<Rightarrow> do { (_, w) \<leftarrow> w_add_rrset section d r w; Some w });
     add_types d z ts w }"

definition rdata_domain :: "rr \<Rightarrow> nat \<Rightarrow> domain_id option" where
  "rdata_domain r i = (case mem_get (rr_rdatas r) i of Some (atom_domain d) \<Rightarrow> Some d | _ \<Rightarrow> None)"

text \<open>The temporary domain for a name that a wildcard stands for.\<close>

definition additional_temp :: "domain_id \<Rightarrow> domain_id \<Rightarrow> domain_id \<Rightarrow> 'c work \<Rightarrow> (domain_id \<times> 'c work) option" where
  "additional_temp additional match wc w = do {
     am \<leftarrow> db_domains (w_db w) additional;
     wm \<leftarrow> db_domains (w_db w) wc;
     Some (new_domain \<lparr>dom_dname = dom_dname am, dom_parent = Some match,
       dom_wildcard_child_closest_match = db_next (w_db w), dom_rrsets = dom_rrsets wm, dom_number = dom_number am,
       dom_usage = 0, dom_is_existing = dom_is_existing wm, dom_is_apex = False, dom_temp = True\<rparr> w) }"

fun add_additional_loop :: "rr list \<Rightarrow> nat \<Rightarrow> bool \<Rightarrow> (u16 \<times> rr_section) list \<Rightarrow> 'c work \<Rightarrow> 'c work option" where
  "add_additional_loop [] i allow_glue types w = Some w"
| "add_additional_loop (r # rs) i allow_glue types w = do {
     additional \<leftarrow> rdata_domain r i;
     z \<leftarrow> q_zone (w_q w);
     glue \<leftarrow> (if \<not> allow_glue then domain_is_glue (w_db w) additional z else Some False);
     if glue then add_additional_loop rs i allow_glue types w
     else do {
       match \<leftarrow> existing_above (w_db w) additional;
       wc \<leftarrow> (if additional \<noteq> match then domain_wildcard_child (w_db w) match else Some None);
       (d, w) \<leftarrow> (case wc of None \<Rightarrow> Some (additional, w) | Some wc \<Rightarrow> additional_temp additional match wc w);
       w \<leftarrow> add_types d z types w;
       add_additional_loop rs i allow_glue types w } }"

definition add_additional_rrsets :: "rrset_id \<Rightarrow> nat \<Rightarrow> bool \<Rightarrow> (u16 \<times> rr_section) list \<Rightarrow> 'c work \<Rightarrow> 'c work option" where
  "add_additional_rrsets master i allow_glue types w = do {
     rset \<leftarrow> db_rrsets (w_db w) master;
     ty \<leftarrow> rrset_rrtype rset;
     assert_c (rdata_atom_is_domain ty i);
     add_additional_loop (rs_rrs rset) i allow_glue types w }"

definition answer_needs_ns :: "'c query \<Rightarrow> bool" where
  "answer_needs_ns q \<longleftrightarrow> q_qtype q \<noteq> TYPE_DNSKEY \<and> q_qtype q \<noteq> TYPE_DS"

text \<open>The switch of \<open>add_rrset\<close>: the index of the rdata with a name, whether glue is allowed, and the types to add.\<close>

definition additional_for :: "sockaddr \<Rightarrow> u16 \<Rightarrow> (nat \<times> bool \<times> (u16 \<times> rr_section) list) option" where
  "additional_for addr ty =
     (if ty = TYPE_NS then Some (0, True, if is_in6 addr then swap_aaaa_additional_rr_types else default_additional_rr_types)
      else if ty = TYPE_MB then Some (0, False, default_additional_rr_types)
      else if ty = TYPE_MX \<or> ty = TYPE_KX then Some (1, False, default_additional_rr_types)
      else if ty = TYPE_RT then Some (1, False, rt_additional_rr_types)
      else if ty = TYPE_SRV then Some (3, False, default_additional_rr_types)
      else None)"

text \<open>The first argument is the option \<open>minimal-responses\<close>.\<close>

definition add_rrset :: "bool \<Rightarrow> rr_section \<Rightarrow> domain_id \<Rightarrow> rrset_id \<Rightarrow> 'c work \<Rightarrow> (bool \<times> 'c work) option" where
  "add_rrset minimal section owner r w = do {
     rset \<leftarrow> db_rrsets (w_db w) r;
     c \<leftarrow> rrset_rrclass rset;
     assert_c (c = CLASS_IN);
     (result, w) \<leftarrow> w_add_rrset section owner r w;
     if minimal \<and> section \<noteq> AUTHORITY_SECTION \<and> q_qtype (w_q w) \<noteq> TYPE_NS then Some (result, w)
     else do {
       ty \<leftarrow> rrset_rrtype rset;
       w \<leftarrow> (case additional_for (q_addr (w_q w)) ty of
               Some (i, allow_glue, types) \<Rightarrow> add_additional_rrsets r i allow_glue types w
             | None \<Rightarrow> Some w);
       Some (result, w) } }"

subsection \<open>Synthesizing a CNAME\<close>

text \<open>
  The temporary domains for the \<open>n\<close> names below \<open>parent\<close> that have \<open>base + 1\<close> and more labels of \<open>name\<close>. The result is the
  last domain, or \<open>None\<close> when there are no more temporary domains.
\<close>

fun temp_chain :: "nat \<Rightarrow> nat \<Rightarrow> dname \<Rightarrow> bool \<Rightarrow> domain_id \<Rightarrow> 'c work \<Rightarrow> (domain_id option \<times> 'c work) option" where
  "temp_chain 0 base name source lastparent w = Some (Some lastparent, w)"
| "temp_chain (Suc n) base name source lastparent w =
     (case query_get_tempdomain (w_q w) of
        (None, q) \<Rightarrow> Some (None, w\<lparr>w_q := q\<rparr>)
      | (Some number, q) \<Rightarrow> do {
          dn \<leftarrow> dname_partial_copy (Some name) (base + 1);
          dn \<leftarrow> dn;
          number \<leftarrow> (if source then do {
              qn \<leftarrow> q_qname q;
              c \<leftarrow> dname_compare dn qn;
              Some (if c = 0 then 0 else number) } else Some number);
          let (d, w) = new_domain \<lparr>dom_dname = dn, dom_parent = Some lastparent,
             dom_wildcard_child_closest_match = db_next (w_db w), dom_rrsets = [], dom_number = number,
             dom_usage = 0, dom_is_existing = source, dom_is_apex = False, dom_temp = True\<rparr> (w\<lparr>w_q := q\<rparr>);
          temp_chain n (base + 1) name source d w })"

text \<open>The CNAME record itself.\<close>

definition cname_rrset :: "zone_id \<Rightarrow> domain_id \<Rightarrow> domain_id \<Rightarrow> u32 \<Rightarrow> rrset" where
  "cname_rrset z cname_domain cname_dest ttl = \<lparr>rs_zone = z, rs_rrs = [\<lparr>rr_owner = cname_domain,
     rr_rdatas = [atom_domain cname_dest], rr_ttl = ttl, rr_type = TYPE_CNAME, rr_klass = CLASS_IN\<rparr>]\<rparr>"

definition add_cname :: "bool \<Rightarrow> domain_id \<Rightarrow> domain_id \<Rightarrow> u32 \<Rightarrow> 'c work \<Rightarrow> ((nat \<times> domain_id) \<times> 'c work) option" where
  "add_cname minimal cname_domain cname_dest ttl w = do {
     z \<leftarrow> q_zone (w_q w);
     let (rset, w) = new_rrset (cname_rrset z cname_domain cname_dest ttl) w;
     (_, w) \<leftarrow> add_rrset minimal ANSWER_SECTION cname_domain rset w;
     n \<leftarrow> domain_number (w_db w) cname_dest;
     Some ((n, cname_dest), w) }"

text \<open>The result is 0 on an error, or the number of the domain for \<open>to_name\<close>, and that domain.\<close>

definition query_synthesize_cname ::
  "bool \<Rightarrow> dname \<Rightarrow> dname \<Rightarrow> domain_id \<Rightarrow> domain_id \<Rightarrow> domain_id \<Rightarrow> u32 \<Rightarrow> 'c work \<Rightarrow> ((nat \<times> domain_id) \<times> 'c work) option" where
  "query_synthesize_cname minimal from_name to_name src to_closest_encloser to_closest_match ttl w = do {
     sn \<leftarrow> domain_dname (w_db w) src;
     (cname_domain, w) \<leftarrow> temp_chain (label_count from_name - label_count sn) (label_count sn) from_name True src w;
     case cname_domain of None \<Rightarrow> Some ((0, to_closest_match), w)
     | Some cname_domain \<Rightarrow> do {
         tn \<leftarrow> domain_dname (w_db w) to_closest_encloser;
         (cname_dest, w) \<leftarrow> temp_chain (label_count to_name - label_count tn) (label_count tn) to_name False to_closest_encloser w;
         case cname_dest of None \<Rightarrow> Some ((0, to_closest_match), w)
         | Some cname_dest \<Rightarrow> add_cname minimal cname_domain cname_dest ttl w } }"

subsection \<open>The kinds of answers\<close>

definition w_zone :: "'c work \<Rightarrow> (zone_id \<times> zone) option" where
  "w_zone w = do { z \<leftarrow> q_zone (w_q w); zn \<leftarrow> db_zones (w_db w) z; Some (z, zn) }"

definition answer_delegation :: "bool \<Rightarrow> 'c work \<Rightarrow> 'c work option" where
  "answer_delegation minimal w = do {
     dd \<leftarrow> q_delegation_domain (w_q w);
     dr \<leftarrow> q_delegation_rrset (w_q w);
     w \<leftarrow> on_packet (if q_cname_count (w_q w) = 0 then AA_CLR else AA_SET) w;
     (_, w) \<leftarrow> add_rrset minimal AUTHORITY_SECTION dd dr w;
     if ed_dnssec_ok (q_edns (w_q w)) = 0 then Some w
     else do {
       (z, zn) \<leftarrow> w_zone w;
       if \<not> zone_is_secure_flag zn then Some w
       else do {
         ds \<leftarrow> domain_find_rrset (w_db w) dd z TYPE_DS;
         case ds of Some r \<Rightarrow> do { (_, w) \<leftarrow> add_rrset minimal AUTHORITY_SECTION dd r w; Some w }
         | None \<Rightarrow> do {
             nsec \<leftarrow> domain_find_rrset (w_db w) dd z TYPE_NSEC;
             case nsec of Some r \<Rightarrow> do { (_, w) \<leftarrow> add_rrset minimal AUTHORITY_SECTION dd r w; Some w }
             | None \<Rightarrow> Some w } } } }"

definition answer_soa :: "bool \<Rightarrow> 'c work \<Rightarrow> 'c work option" where
  "answer_soa minimal w =
     (if q_qclass (w_q w) \<noteq> CLASS_ANY then do {
        (z, zn) \<leftarrow> w_zone w;
        apex \<leftarrow> zone_apex zn;
        r \<leftarrow> zone_soa_nx_rrset zn;
        (_, w) \<leftarrow> add_rrset minimal AUTHORITY_SECTION apex r w;
        Some w }
      else Some w)"

definition add_covering_nsec :: "bool \<Rightarrow> domain_id \<Rightarrow> zone_id \<Rightarrow> 'c work \<Rightarrow> 'c work option" where
  "add_covering_nsec minimal d z w = do {
     r \<leftarrow> find_covering_nsec (w_db w) d z;
     case r of None \<Rightarrow> Some w
     | Some (nd, nr) \<Rightarrow> do { (_, w) \<leftarrow> add_rrset minimal AUTHORITY_SECTION nd nr w; Some w } }"

definition answer_nodata :: "bool \<Rightarrow> domain_id \<Rightarrow> 'c work \<Rightarrow> 'c work option" where
  "answer_nodata minimal original w = do {
     w \<leftarrow> (if q_cname_count (w_q w) = 0 then answer_soa minimal w else Some w);
     if ed_dnssec_ok (q_edns (w_q w)) = 0 then Some w
     else do {
       (z, zn) \<leftarrow> w_zone w;
       if zone_is_secure_flag zn then add_covering_nsec minimal original z w else Some w } }"

definition answer_nxdomain :: "bool \<Rightarrow> 'c work \<Rightarrow> 'c work option" where
  "answer_nxdomain minimal w = do {
     w \<leftarrow> on_packet (\<lambda>p. RCODE_SET p RCODE_NXDOMAIN) w;
     answer_soa minimal w }"

text \<open>Where to go on with the lookup: the number, whether the match is exact, closest match and encloser, and the name.\<close>

record follow =
  fo_number :: nat
  fo_exact :: bool
  fo_closest_match :: domain_id
  fo_closest_encloser :: domain_id
  fo_qname :: dname

fun add_any :: "bool \<Rightarrow> domain_id \<Rightarrow> zone_id \<Rightarrow> bool \<Rightarrow> rrset_id list \<Rightarrow> nat \<Rightarrow> 'c work \<Rightarrow> (nat \<times> 'c work) option" where
  "add_any minimal d z skip_sigs [] added w = Some (added, w)"
| "add_any minimal d z skip_sigs (r # rs) added w = do {
     rset \<leftarrow> db_rrsets (w_db w) r;
     ty \<leftarrow> (if rs_zone rset = z \<and> skip_sigs then rrset_rrtype rset else Some 0);
     if rs_zone rset = z \<and> \<not> (skip_sigs \<and> ty = TYPE_RRSIG) then do {
       (_, w) \<leftarrow> add_rrset minimal ANSWER_SECTION d r w;
       add_any minimal d z skip_sigs rs (added + 1) w }
     else add_any minimal d z skip_sigs rs added w }"

text \<open>The NS RRset of the zone, for the authority section.\<close>

definition add_zone_ns :: "bool \<Rightarrow> zone \<Rightarrow> 'c work \<Rightarrow> 'c work option" where
  "add_zone_ns minimal zn w =
     (if q_qclass (w_q w) \<noteq> CLASS_ANY \<and> zone_ns_rrset zn \<noteq> None \<and> answer_needs_ns (w_q w) \<and> \<not> minimal
      then do {
        apex \<leftarrow> zone_apex zn;
        ns \<leftarrow> zone_ns_rrset zn;
        (_, w) \<leftarrow> add_rrset minimal OPTIONAL_AUTHORITY_SECTION apex ns w;
        Some w }
      else Some w)"

definition count_cname :: "'c work \<Rightarrow> 'c work" where
  "count_cname w = w\<lparr>w_q := (w_q w)\<lparr>q_cname_count := q_cname_count (w_q w) + 1\<rparr>\<rparr>"

definition answer_domain :: "bool \<Rightarrow> domain_id \<Rightarrow> domain_id \<Rightarrow> 'c work \<Rightarrow> (follow option \<times> 'c work) option" where
  "answer_domain minimal d original w = do {
     (z, zn) \<leftarrow> w_zone w;
     dm \<leftarrow> db_domains (w_db w) d;
     if q_qtype (w_q w) = TYPE_ANY then do {
       (added, w) \<leftarrow> add_any minimal d z (ed_dnssec_ok (q_edns (w_q w)) \<noteq> 0 \<and> zone_is_secure_flag zn) (dom_rrsets dm) 0 w;
       w \<leftarrow> (if added = 0 then answer_nodata minimal original w else add_zone_ns minimal zn w);
       Some (None, w) }
     else do {
       r \<leftarrow> domain_find_rrset (w_db w) d z (q_qtype (w_q w));
       case r of
         Some r \<Rightarrow> do {
           (_, w) \<leftarrow> add_rrset minimal ANSWER_SECTION d r w;
           w \<leftarrow> add_zone_ns minimal zn w;
           Some (None, w) }
       | None \<Rightarrow> do {
           r \<leftarrow> domain_find_rrset (w_db w) d z TYPE_CNAME;
           case r of
             Some r \<Rightarrow> do {
               (added, w) \<leftarrow> add_rrset minimal ANSWER_SECTION d r w;
               rset \<leftarrow> db_rrsets (w_db w) r;
               rr0 \<leftarrow> mem_get (rs_rrs rset) 0;
               if added then do {
                 cm \<leftarrow> rdata_domain rr0 0;
                 n \<leftarrow> domain_number (w_db w) cm;
                 dn \<leftarrow> domain_dname (w_db w) cm;
                 Some (Some \<lparr>fo_number = n, fo_exact = True, fo_closest_match = cm, fo_closest_encloser = cm, fo_qname = dn\<rparr>,
                       count_cname w) }
               else Some (None, w) }
           | None \<Rightarrow> do { w \<leftarrow> answer_nodata minimal original w; Some (None, w) } } } }"

text \<open>The answer for a name below a DNAME, first what comes after the DNAME has been added.\<close>

definition follow_dname :: "bool \<Rightarrow> dname \<Rightarrow> dname option \<Rightarrow> domain_id \<Rightarrow> u32 \<Rightarrow> 'c work \<Rightarrow> (follow option \<times> 'c work) option" where
  "follow_dname minimal name newname src ttl w =
     (case newname of
        None \<Rightarrow> do { w \<leftarrow> on_packet (\<lambda>p. RCODE_SET p RCODE_YXDOMAIN) w; Some (None, w) }
      | Some newname \<Rightarrow> do {
          (exact, cm, ce) \<leftarrow> namedb_lookup (w_db w) newname;
          ((newnum, cm), w) \<leftarrow> query_synthesize_cname minimal name newname src ce cm ttl w;
          if newnum = 0 then Some (None, w)
          else Some (Some \<lparr>fo_number = newnum, fo_exact = (cm = ce), fo_closest_match = cm, fo_closest_encloser = ce,
                           fo_qname = newname\<rparr>, w) })"

definition answer_dname :: "bool \<Rightarrow> follow \<Rightarrow> domain_id \<Rightarrow> rrset_id \<Rightarrow> 'c work \<Rightarrow> (follow option \<times> 'c work) option" where
  "answer_dname minimal fo ce r w = do {
     rset \<leftarrow> db_rrsets (w_db w) r;
     rr0 \<leftarrow> mem_get (rs_rrs rset) 0;
     dest \<leftarrow> rdata_domain rr0 0;
     name \<leftarrow> (if fo_number fo \<noteq> 0 then domain_dname (w_db w) (fo_closest_match fo) else Some (fo_qname fo));
     (added, w) \<leftarrow> add_rrset minimal ANSWER_SECTION ce r w;
     if \<not> added then Some (None, w)
     else do {
       sn \<leftarrow> domain_dname (w_db w) ce;
       dn \<leftarrow> domain_dname (w_db w) dest;
       newname \<leftarrow> dname_replace name sn dn;
       follow_dname minimal name newname ce (rr_ttl rr0) (count_cname w) } }"

text \<open>The temporary domain for a name that a wildcard stands for; its number is that of the name.\<close>

definition wildcard_temp :: "nat \<Rightarrow> domain_id \<Rightarrow> domain_id \<Rightarrow> 'c work \<Rightarrow> (domain_id \<times> 'c work) option" where
  "wildcard_temp number ce wc w = do {
     wm \<leftarrow> db_domains (w_db w) wc;
     Some (new_domain \<lparr>dom_dname = dom_dname wm, dom_parent = Some ce, dom_wildcard_child_closest_match = db_next (w_db w),
       dom_rrsets = dom_rrsets wm, dom_number = number, dom_usage = 0, dom_is_existing = dom_is_existing wm,
       dom_is_apex = False, dom_temp = True\<rparr> w) }"

text \<open>The domain that matches, if there is one, and the original domain: a wildcard when the match comes from it.\<close>

definition match_domain :: "follow \<Rightarrow> bool \<Rightarrow> domain_id \<Rightarrow> 'c work \<Rightarrow> ((domain_id option \<times> domain_id) \<times> 'c work) option" where
  "match_domain fo exact ce w =
     (if exact then Some ((Some (fo_closest_match fo), fo_closest_match fo), w)
      else do {
        wc \<leftarrow> domain_wildcard_child (w_db w) ce;
        case wc of
          None \<Rightarrow> Some ((None, fo_closest_match fo), w)
        | Some wc \<Rightarrow> do {
            (m, w) \<leftarrow> wildcard_temp (fo_number fo) ce wc (w\<lparr>w_q := (w_q w)\<lparr>q_wildcard_domain := Some wc\<rparr>\<rparr>);
            Some ((Some m, wc), w) } })"

text \<open>The NSEC records that prove that there is no closer match, and no wildcard.\<close>

definition add_denial :: "bool \<Rightarrow> follow \<Rightarrow> domain_id \<Rightarrow> domain_id option \<Rightarrow> zone_id \<Rightarrow> zone \<Rightarrow> 'c work \<Rightarrow> 'c work option" where
  "add_denial minimal fo ce match z zn w =
     (if ed_dnssec_ok (q_edns (w_q w)) \<noteq> 0 \<and> zone_is_secure_flag zn then do {
        w \<leftarrow> (if match \<noteq> Some ce then add_covering_nsec minimal (fo_closest_match fo) z w else Some w);
        if match = None then do {
          cem \<leftarrow> db_domains (w_db w) ce;
          add_covering_nsec minimal (dom_wildcard_child_closest_match cem) z w }
        else Some w }
      else Some w)"

definition answer_authoritative :: "bool \<Rightarrow> follow \<Rightarrow> 'c work \<Rightarrow> (follow option \<times> 'c work) option" where
  "answer_authoritative minimal fo w = do {
     (z, zn) \<leftarrow> w_zone w;
     above \<leftarrow> find_dname_above (w_db w) (fo_closest_encloser fo) z;
     let ce = (case above of Some d \<Rightarrow> d | None \<Rightarrow> fo_closest_encloser fo);
     let exact = (above = None \<and> fo_exact fo);
     dname_r \<leftarrow> (if exact then Some None else domain_find_rrset (w_db w) ce z TYPE_DNAME);
     case dname_r of
       Some r \<Rightarrow> answer_dname minimal fo ce r w
     | None \<Rightarrow> do {
         ((match, original), w) \<leftarrow> match_domain fo exact ce w;
         w \<leftarrow> add_denial minimal fo ce match z zn w;
         case match of
           Some m \<Rightarrow> answer_domain minimal m original w
         | None \<Rightarrow> do { w \<leftarrow> answer_nxdomain minimal w; Some (None, w) } } }"

definition set_rcode_first :: "byte \<Rightarrow> 'c work \<Rightarrow> 'c work option" where
  "set_rcode_first rc w = (if q_cname_count (w_q w) = 0 then on_packet (\<lambda>p. RCODE_SET p rc) w else Some w)"

definition set_zone :: "zone_id option \<Rightarrow> 'c work \<Rightarrow> 'c work" where
  "set_zone z w = w\<lparr>w_q := (w_q w)\<lparr>q_zone := z\<rparr>\<rparr>"

definition set_delegation :: "domain_id option \<Rightarrow> rrset_id option \<Rightarrow> 'c work \<Rightarrow> 'c work" where
  "set_delegation d r w = w\<lparr>w_q := (w_q w)\<lparr>q_delegation_domain := d, q_delegation_rrset := r\<rparr>\<rparr>"

definition set_aa :: "'c work \<Rightarrow> 'c work option" where
  "set_aa w = on_packet (if q_qclass (w_q w) = CLASS_ANY then AA_CLR else AA_SET) w"

text \<open>The delegation above the closest encloser, unless there is a DNAME above the delegation.\<close>

definition find_delegation :: "domain_id \<Rightarrow> zone_id \<Rightarrow> 'c work \<Rightarrow> (domain_id option \<times> 'c work) option" where
  "find_delegation ce z w = do {
     ns \<leftarrow> domain_find_ns_rrsets (w_db w) ce z;
     above \<leftarrow> (case ns of None \<Rightarrow> Some None | Some (d, _) \<Rightarrow> find_dname_above (w_db w) d z);
     let dd = (if above \<noteq> None then None else map_option fst ns);
     Some (dd, set_delegation dd (case ns of Some (_, r) \<Rightarrow> Some r | None \<Rightarrow> q_delegation_rrset (w_q w)) w) }"

text \<open>One round of \<open>answer_lookup_zone\<close>, first the part after the zone has been determined.\<close>

definition answer_in_zone :: "bool \<Rightarrow> follow \<Rightarrow> 'c work \<Rightarrow> (follow option \<times> 'c work) option" where
  "answer_in_zone minimal fo w = do {
     (z, zn) \<leftarrow> w_zone w;
     let ce = fo_closest_encloser fo;
     if zone_has_request_xfr zn \<and> \<not> zone_is_ok zn
     then do { w \<leftarrow> set_rcode_first RCODE_SERVFAIL w; Some (None, w) }
     else if fo_exact fo \<and> q_qtype (w_q w) = TYPE_DS \<and> zone_apex zn = Some ce
     then do { w \<leftarrow> set_aa w; w \<leftarrow> answer_nodata minimal ce w; Some (None, w) }
     else do {
       (dd, w) \<leftarrow> find_delegation ce z w;
       if dd = None \<or> fo_exact fo \<and> q_qtype (w_q w) = TYPE_DS \<and> dd = Some ce
       then do { w \<leftarrow> set_aa w; answer_authoritative minimal fo w }
       else do { w \<leftarrow> answer_delegation minimal w; Some (None, w) } } }"

definition lookup_zone_step :: "bool \<Rightarrow> follow \<Rightarrow> 'c work \<Rightarrow> (follow option \<times> 'c work) option" where
  "lookup_zone_step minimal fo w = do {
     zo \<leftarrow> domain_find_zone (w_db w) (fo_closest_encloser fo);
     case zo of
       None \<Rightarrow> do { w \<leftarrow> set_rcode_first RCODE_REFUSE (set_zone None w); Some (None, w) }
     | Some z \<Rightarrow> do {
         zn \<leftarrow> db_zones (w_db w) z;
         if zone_apex zn = None \<or> zone_soa_rrset zn = None
         then do { w \<leftarrow> set_rcode_first RCODE_SERVFAIL (set_zone (Some z) w); Some (None, w) }
         else do {
           ex \<leftarrow> domain_is_existing (w_db w) (fo_closest_encloser fo);
           ce \<leftarrow> existing_above (w_db w) (fo_closest_encloser fo);
           let fo = fo\<lparr>fo_exact := (ex \<and> fo_exact fo), fo_closest_encloser := ce\<rparr>;
           pz \<leftarrow> (if fo_exact fo \<and> q_qtype (w_q w) = TYPE_DS \<and> zone_apex zn = Some ce
                  then domain_find_parent_zone (w_db w) z else Some None);
           answer_in_zone minimal fo (set_zone (Some (case pz of Some p \<Rightarrow> p | None \<Rightarrow> z)) w) } } }"

subsection \<open>Following CNAMEs and DNAMEs ends\<close>

text \<open>Every RRset that is added makes this number smaller: there is a bound on the RRsets, and each moves to lower sections only.\<close>

definition answer_measure :: "answer \<Rightarrow> nat" where
  "answer_measure as = (MAXRRSPP - length as) * RR_SECTION_COUNT + sum_list (map ae_section as)"

lemma answer_measure_move:
  assumes "i < length as" "s < ae_section (as ! i)"
  shows "answer_measure (as[i := (as ! i)\<lparr>ae_section := s\<rparr>]) < answer_measure as"
proof -
  have "sum_list (map ae_section as) = sum_list (map ae_section (take i as)) + (ae_section (as ! i) + sum_list (map ae_section (drop (Suc i) as)))"
    using arg_cong [OF id_take_nth_drop [OF assms(1)], of "\<lambda>l. sum_list (map ae_section l)"] by simp
  moreover have "sum_list (map ae_section (as[i := (as ! i)\<lparr>ae_section := s\<rparr>])) =
      sum_list (map ae_section (take i as)) + (s + sum_list (map ae_section (drop (Suc i) as)))"
    using assms(1) by (simp add: upd_conv_take_nth_drop)
  ultimately show ?thesis using assms by (simp add: answer_measure_def)
qed

lemma answer_measure_add:
  assumes "length as < MAXRRSPP" "s < RR_SECTION_COUNT"
  shows "answer_measure (as @ [\<lparr>ae_section = s, ae_domain = d, ae_rrset = r\<rparr>]) < answer_measure as"
proof -
  obtain k where k: "MAXRRSPP - length as = Suc k" using assms(1) by (metis Suc_diff_Suc)
  then have "MAXRRSPP - Suc (length as) = k" by simp
  then show ?thesis using k assms(2) by (simp add: answer_measure_def)
qed

lemma w_add_rrset_cases:
  assumes "w_add_rrset s d r w = Some (added, w')"
  obtains (same) "\<not> added" "w' = w"
  | (new) "added" "length (w_answer w) < MAXRRSPP" "s < RR_SECTION_COUNT"
      "w' = w\<lparr>w_answer := w_answer w @ [\<lparr>ae_section = s, ae_domain = d, ae_rrset = r\<rparr>]\<rparr>"
  | (moved) i where "added" "i < length (w_answer w)" "s < ae_section (w_answer w ! i)" "ae_rrset (w_answer w ! i) = r"
      "w' = w\<lparr>w_answer := (w_answer w)[i := (w_answer w ! i)\<lparr>ae_section := s\<rparr>]\<rparr>"
proof -
  obtain a where a: "answer_add_rrset (w_db w) (w_answer w) s d r = Some (added, a)" "w' = w\<lparr>w_answer := a\<rparr>"
    using assms by (auto simp: w_add_rrset_def Option.bind_eq_Some_conv)
  then obtain n f where f: "s < RR_SECTION_COUNT" "answer_find (w_db w) (w_answer w) n r 0 = Some f"
    "Some (added, a) = (case f of
       Some i \<Rightarrow> (if s < ae_section (w_answer w ! i) then Some (True, (w_answer w)[i := (w_answer w ! i)\<lparr>ae_section := s\<rparr>])
         else Some (False, w_answer w))
     | None \<Rightarrow> (if length (w_answer w) \<ge> MAXRRSPP then Some (False, w_answer w)
         else Some (True, w_answer w @ [\<lparr>ae_section = s, ae_domain = d, ae_rrset = r\<rparr>])))"
    unfolding answer_add_rrset_def by (auto simp: Option.bind_eq_Some_conv assert_c_def split: if_splits)
  show thesis
  proof (cases f)
    case None
    then show thesis using f(1,3) a(2) same new by (auto split: if_splits)
  next
    case (Some i)
    then have "i < length (w_answer w)" "ae_rrset (w_answer w ! i) = r" using answer_find_Some f(2) by fastforce+
    then show thesis using Some f(3) a(2) same moved by (auto split: if_splits)
  qed
qed

lemma w_add_rrset_measure:
  assumes "w_add_rrset s d r w = Some (added, w')"
  shows "answer_measure (w_answer w') \<le> answer_measure (w_answer w)"
    "added \<Longrightarrow> answer_measure (w_answer w') < answer_measure (w_answer w)"
  using assms by (auto elim!: w_add_rrset_cases intro: answer_measure_add answer_measure_move less_imp_le [OF answer_measure_add] less_imp_le [OF answer_measure_move])

text \<open>
  What the construction of an answer leaves alone: the domains and RRsets there are, the table and the zones, all of the
  query but the zone, delegation, counters and header, and the packet after the header. Only RRsets of \<open>R\<close> are added
  to the answer section.
\<close>

definition answer_rrsets :: "answer \<Rightarrow> rrset_id set" where
  "answer_rrsets as = {ae_rrset e | e. e \<in> set as \<and> ae_section e = ANSWER_SECTION}"

definition steady :: "'c query \<Rightarrow> 'c query" where
  "steady q = q\<lparr>q_packet := buffer_create (\<lambda>_. 0) 0, q_zone := None, q_delegation_domain := None, q_delegation_rrset := None,
     q_cname_count := 0, q_number_temporary_domains := 0, q_wildcard_domain := None\<rparr>"

definition db_fresh :: "namedb \<Rightarrow> bool" where
  "db_fresh db \<longleftrightarrow> (\<forall>i \<ge> db_next db. db_domains db i = None \<and> db_rrsets db i = None)"

definition db_kept :: "namedb \<Rightarrow> namedb \<Rightarrow> bool" where
  "db_kept db db' \<longleftrightarrow> db_next db \<le> db_next db' \<and> db_table db' = db_table db \<and> db_zones db' = db_zones db \<and>
     db_zonetree db' = db_zonetree db \<and>
     (\<forall>i < db_next db. db_domains db' i = db_domains db i \<and> db_rrsets db' i = db_rrsets db i) \<and> (db_fresh db \<longrightarrow> db_fresh db')"

definition kept :: "rrset_id set \<Rightarrow> 'c work \<Rightarrow> 'c work \<Rightarrow> bool" where
  "kept R w w' \<longleftrightarrow> answer_rrsets (w_answer w') \<subseteq> answer_rrsets (w_answer w) \<union> R \<and> answer_measure (w_answer w') \<le> answer_measure (w_answer w) \<and> db_kept (w_db w) (w_db w') \<and>
     steady (w_q w') = steady (w_q w) \<and> same_body (q_packet (w_q w)) (q_packet (w_q w'))"

lemma kept_refl [simp]: "kept R w w"
  by (simp add: kept_def db_kept_def)

lemma kept_trans: "kept R u v \<Longrightarrow> kept R v w \<Longrightarrow> kept R u w"
  by (fastforce simp: kept_def db_kept_def intro: same_body_trans)

lemma hdr_update_body: "hdr_update at f b = Some b' \<Longrightarrow> at < QHEADERSZ \<Longrightarrow> same_body b b'"
  by (auto simp: hdr_update_def buffer_at_def buffer_set_at_def same_body_def Option.bind_eq_Some_conv assert_c_def split: if_splits)

lemma on_packet_kept:
  assumes "on_packet f w = Some w'" "\<And>b b'. f b = Some b' \<Longrightarrow> same_body b b'"
  shows "kept R w w'"
  using assms by (auto simp: on_packet_def put_packet_def kept_def db_kept_def steady_def Option.bind_eq_Some_conv)

lemma flags_body:
  "AA_SET b = Some b' \<Longrightarrow> same_body b b'" "AA_CLR b = Some b' \<Longrightarrow> same_body b b'" "RCODE_SET b rc = Some b' \<Longrightarrow> same_body b b'"
  unfolding AA_SET_def AA_CLR_def RCODE_SET_def by (erule hdr_update_body, simp add: QHEADERSZ_def)+

lemma new_domain_kept: "new_domain dm w = (d, w') \<Longrightarrow> kept R w w'"
  by (auto simp: new_domain_def kept_def db_kept_def db_fresh_def)

lemma new_rrset_kept: "new_rrset rs w = (r, w') \<Longrightarrow> kept R w w'"
  by (auto simp: new_rrset_def kept_def db_kept_def db_fresh_def)

lemma w_add_rrset_kept:
  assumes "w_add_rrset s d r w = Some (added, w')" "s \<noteq> ANSWER_SECTION \<or> r \<in> R"
  shows "kept R w w'"
proof -
  have "answer_rrsets (w_answer w') \<subseteq> answer_rrsets (w_answer w) \<union> R" using assms
  proof (cases rule: w_add_rrset_cases [OF assms(1)])
    case (3 i)
    then show ?thesis using assms(2) set_update_subset_insert [of "w_answer w" i "(w_answer w ! i)\<lparr>ae_section := s\<rparr>"]
      by (auto simp: answer_rrsets_def)
  qed (auto simp: answer_rrsets_def)
  moreover have "w_db w' = w_db w \<and> w_q w' = w_q w" by (cases rule: w_add_rrset_cases [OF assms(1)]) simp_all
  ultimately show ?thesis using w_add_rrset_measure(1) [OF assms(1)] by (simp add: kept_def db_kept_def)
qed

lemma add_types_kept: "add_types d z ts w = Some w' \<Longrightarrow> ANSWER_SECTION \<notin> snd ` set ts \<Longrightarrow> kept R w w'"
proof (induction ts arbitrary: w)
  case (Cons t ts)
  then obtain ty sc r v where v: "t = (ty, sc)" "(case r of None \<Rightarrow> Some w | Some r \<Rightarrow> do { (_, w) \<leftarrow> w_add_rrset sc d r w; Some w }) = Some v"
    "add_types d z ts v = Some w'" by (cases t) (auto simp: Option.bind_eq_Some_conv)
  have "kept R w v" using v(1,2) Cons.prems(2)
    by (auto simp: Option.bind_eq_Some_conv split: option.splits intro: w_add_rrset_kept)
  then show ?case using Cons.IH [OF v(3)] Cons.prems(2) by (auto intro: kept_trans)
qed simp

lemma additional_temp_kept: "additional_temp a m c w = Some (d, w') \<Longrightarrow> kept R w w'"
  by (auto simp: additional_temp_def Option.bind_eq_Some_conv intro: new_domain_kept)

lemma add_additional_loop_kept:
  "add_additional_loop rs i g ts w = Some w' \<Longrightarrow> ANSWER_SECTION \<notin> snd ` set ts \<Longrightarrow> kept R w w'"
proof (induction rs arbitrary: w)
  case (Cons r rs)
  then obtain a z glue where g: "(if glue then add_additional_loop rs i g ts w
     else do {
       match \<leftarrow> existing_above (w_db w) a;
       wc \<leftarrow> (if a \<noteq> match then domain_wildcard_child (w_db w) match else Some None);
       (d, w) \<leftarrow> (case wc of None \<Rightarrow> Some (a, w) | Some wc \<Rightarrow> additional_temp a match wc w);
       w \<leftarrow> add_types d z ts w;
       add_additional_loop rs i g ts w }) = Some w'"
    by (auto simp: Option.bind_eq_Some_conv)
  show ?case
  proof (cases glue)
    case True
    then show ?thesis using g Cons.IH Cons.prems(2) by simp
  next
    case False
    then obtain m wc d u v where v: "(case wc of None \<Rightarrow> Some (a, w) | Some wc \<Rightarrow> additional_temp a m wc w) = Some (d, u)"
      "add_types d z ts u = Some v" "add_additional_loop rs i g ts v = Some w'"
      using g by (auto simp: Option.bind_eq_Some_conv)
    have "kept R w u" using v(1) by (auto split: option.splits intro: additional_temp_kept)
    then show ?thesis using add_types_kept [OF v(2) Cons.prems(2)] Cons.IH [OF v(3) Cons.prems(2)] by (blast intro: kept_trans)
  qed
qed simp

lemma add_additional_rrsets_kept:
  "add_additional_rrsets m i g ts w = Some w' \<Longrightarrow> ANSWER_SECTION \<notin> snd ` set ts \<Longrightarrow> kept R w w'"
  by (auto simp: add_additional_rrsets_def Option.bind_eq_Some_conv intro: add_additional_loop_kept split: if_splits)

lemma additional_for_sections: "additional_for a ty = Some (i, g, ts) \<Longrightarrow> ANSWER_SECTION \<notin> snd ` set ts"
  by (auto simp: additional_for_def default_additional_rr_types_def swap_aaaa_additional_rr_types_def rt_additional_rr_types_def
      section_defs split: if_splits)

lemma additional_kept:
  "additional_for a ty = Some (i, g, ts) \<Longrightarrow> add_additional_rrsets r i g ts w = Some w' \<Longrightarrow> kept R w w'"
  by (rule add_additional_rrsets_kept [OF _ additional_for_sections])

lemma add_rrset_kept:
  assumes "add_rrset minimal s d r w = Some (added, w')"
  shows "s \<noteq> ANSWER_SECTION \<or> r \<in> R \<Longrightarrow> kept R w w'"
    "added \<Longrightarrow> answer_measure (w_answer w') < answer_measure (w_answer w)"
proof -
  obtain v where v: "w_add_rrset s d r w = Some (added, v)" "kept R v w'" for R
    using assms unfolding add_rrset_def
    by (auto simp: Option.bind_eq_Some_conv split: if_splits option.splits) (metis additional_kept)+
  show "s \<noteq> ANSWER_SECTION \<or> r \<in> R \<Longrightarrow> kept R w w'" using w_add_rrset_kept [OF v(1)] v(2) by (blast intro: kept_trans)
  show "added \<Longrightarrow> answer_measure (w_answer w') < answer_measure (w_answer w)"
    using w_add_rrset_measure(2) [OF v(1)] v(2) by (fastforce simp: kept_def)
qed

lemma tempdomain_kept: "query_get_tempdomain (w_q w) = (n, q) \<Longrightarrow> kept R w (w\<lparr>w_q := q\<rparr>)"
  by (auto simp: query_get_tempdomain_def kept_def db_kept_def steady_def split: if_splits)

lemma temp_chain_kept: "temp_chain n base name source p w = Some (d, w') \<Longrightarrow> kept R w w'"
proof (induction n arbitrary: base p w)
  case (Suc n)
  obtain x q where q: "query_get_tempdomain (w_q w) = (x, q)" by fastforce
  show ?case
  proof (cases x)
    case None
    then show ?thesis using Suc.prems q tempdomain_kept [OF q] by auto
  next
    case (Some k)
    then obtain dm e u where u: "new_domain dm (w\<lparr>w_q := q\<rparr>) = (e, u)" "temp_chain n (base + 1) name source e u = Some (d, w')"
      using Suc.prems q by (fastforce simp: Option.bind_eq_Some_conv Let_def case_prod_beta prod_eq_iff)
    show ?thesis using tempdomain_kept [OF q] new_domain_kept [OF u(1)] Suc.IH [OF u(2)] by (blast intro: kept_trans)
  qed
qed simp

text \<open>
  The types in the answer section: the type that was asked for, CNAME and DNAME, and every type for a query of type ANY.
\<close>

definition asked :: "'c work \<Rightarrow> rrset_id \<Rightarrow> bool" where
  "asked w r \<longleftrightarrow> (\<exists>rs t. db_rrsets (w_db w) r = Some rs \<and> rrset_rrtype rs = Some t \<and>
     (q_qtype (w_q w) = TYPE_ANY \<or> t \<in> {q_qtype (w_q w), TYPE_CNAME, TYPE_DNAME}))"

definition answers :: "'c work \<Rightarrow> 'c work \<Rightarrow> bool" where
  "answers w w' \<longleftrightarrow> (\<exists>R. kept R w w' \<and> (db_fresh (w_db w) \<longrightarrow> (\<forall>r \<in> R. asked w' r)))"

lemma kept_mono: "kept R w w' \<Longrightarrow> R \<subseteq> R' \<Longrightarrow> kept R' w w'"
  by (auto simp: kept_def)

lemma steady_fields:
  "q_qtype (steady q) = q_qtype q"
  "q_qclass (steady q) = q_qclass q"
  "q_qname (steady q) = q_qname q"
  "q_edns (steady q) = q_edns q"
  "q_addr (steady q) = q_addr q"
  "q_maxlen (steady q) = q_maxlen q"
  "q_reserved_space (steady q) = q_reserved_space q"
  "q_tsig (steady q) = q_tsig q"
  "q_tsig_prepare_it (steady q) = q_tsig_prepare_it q"
  "q_tsig_update_it (steady q) = q_tsig_update_it q"
  "q_tsig_sign_it (steady q) = q_tsig_sign_it q"
  "q_tcp (steady q) = q_tcp q"
  "q_opcode (steady q) = q_opcode q"
  "q_compressed_dnames (steady q) = q_compressed_dnames q"
  "q_compressed_dname_offsets (steady q) = q_compressed_dname_offsets q"
  "q_compressed_dname_offsets_size (steady q) = q_compressed_dname_offsets_size q"
  by (simp_all add: steady_def)

lemma steady_sel:
  assumes "steady q = steady q'"
  shows "q_qtype q = q_qtype q'"
    "q_qclass q = q_qclass q'"
    "q_qname q = q_qname q'"
    "q_edns q = q_edns q'"
    "q_addr q = q_addr q'"
    "q_maxlen q = q_maxlen q'"
    "q_reserved_space q = q_reserved_space q'"
    "q_tsig q = q_tsig q'"
    "q_tsig_prepare_it q = q_tsig_prepare_it q'"
    "q_tsig_update_it q = q_tsig_update_it q'"
    "q_tsig_sign_it q = q_tsig_sign_it q'"
    "q_tcp q = q_tcp q'"
    "q_opcode q = q_opcode q'"
    "q_compressed_dnames q = q_compressed_dnames q'"
    "q_compressed_dname_offsets q = q_compressed_dname_offsets q'"
    "q_compressed_dname_offsets_size q = q_compressed_dname_offsets_size q'"
  using assms by (metis steady_fields)+

lemma asked_kept:
  assumes "asked w r" "kept R w w'" "db_fresh (w_db w)"
  shows "asked w' r"
proof -
  have "r < db_next (w_db w)" using assms(1,3) by (metis asked_def db_fresh_def not_le option.distinct(1))
  then have "db_rrsets (w_db w') r = db_rrsets (w_db w) r" using assms(2) by (simp add: kept_def db_kept_def)
  moreover have "q_qtype (w_q w') = q_qtype (w_q w)" using assms(2) by (auto simp: kept_def intro: steady_sel)
  ultimately show ?thesis using assms(1) by (simp add: asked_def)
qed

lemma answers_refl [simp]: "answers w w"
  unfolding answers_def by (rule exI [of _ "{}"]) simp

lemma answers_trans:
  assumes "answers u v" "answers v w"
  shows "answers u w"
proof -
  obtain R R' where R: "kept R u v" "db_fresh (w_db u) \<longrightarrow> (\<forall>r \<in> R. asked v r)"
    "kept R' v w" "db_fresh (w_db v) \<longrightarrow> (\<forall>r \<in> R'. asked w r)"
    using assms by (auto simp: answers_def)
  have "kept (R \<union> R') u w" using R(1,3) by (blast intro: kept_mono kept_trans)
  moreover have "db_fresh (w_db u) \<longrightarrow> (\<forall>r \<in> R \<union> R'. asked w r)"
    using R by (auto simp: kept_def db_kept_def intro: asked_kept)
  ultimately show ?thesis unfolding answers_def by blast
qed

lemma kept_answers: "kept {} w w' \<Longrightarrow> answers w w'"
  unfolding answers_def by (rule exI [of _ "{}"]) simp

lemma add_rrset_answers:
  assumes "add_rrset minimal s d r w = Some (added, w')" "s \<noteq> ANSWER_SECTION \<or> asked w r"
  shows "answers w w'"
proof (cases "s = ANSWER_SECTION")
  case True
  then have k: "kept {r} w w'" using add_rrset_kept(1) [OF assms(1), of "{r}"] by simp
  then show ?thesis unfolding answers_def using True assms(2) asked_kept [OF _ k] by (intro exI [of _ "{r}"]) auto
next
  case False
  then show ?thesis using add_rrset_kept(1) [OF assms(1)] by (blast intro: kept_answers)
qed

lemma answers_measure: "answers w w' \<Longrightarrow> answer_measure (w_answer w') \<le> answer_measure (w_answer w)"
  by (auto simp: answers_def kept_def)

lemma answers_same: "answers w w' \<Longrightarrow> steady (w_q w') = steady (w_q w) \<and> same_body (q_packet (w_q w)) (q_packet (w_q w')) \<and>
    db_kept (w_db w) (w_db w')"
  by (auto simp: answers_def kept_def)

lemma find_rrset_where_Some:
  "find_rrset_where db test rs = Some (Some r) \<Longrightarrow> r \<in> set rs \<and> (\<exists>rset. db_rrsets db r = Some rset \<and> test rset = Some True)"
  by (induction rs) (auto simp: Option.bind_eq_Some_conv split: if_splits)

lemma domain_find_rrset_Some:
  assumes "domain_find_rrset db d z ty = Some (Some r)"
  shows "\<exists>rset. db_rrsets db r = Some rset \<and> rs_zone rset = z \<and> rrset_rrtype rset = Some ty"
proof -
  obtain dm :: domain where "find_rrset_where db (\<lambda>rs. if rs_zone rs = z then do { t \<leftarrow> rrset_rrtype rs; Some (t = ty) } else Some False)
      (dom_rrsets dm) = Some (Some r)" using assms by (auto simp: domain_find_rrset_def Option.bind_eq_Some_conv)
  from find_rrset_where_Some [OF this] show ?thesis by (auto simp: Option.bind_eq_Some_conv split: if_splits)
qed

lemma asked_found:
  assumes "domain_find_rrset (w_db w) d z ty = Some (Some r)" "ty \<in> {q_qtype (w_q w), TYPE_CNAME, TYPE_DNAME}"
  shows "asked w r"
  using domain_find_rrset_Some [OF assms(1)] assms(2) by (auto simp: asked_def)

lemma answer_section_distinct [simp]:
  "AUTHORITY_SECTION \<noteq> ANSWER_SECTION" "OPTIONAL_AUTHORITY_SECTION \<noteq> ANSWER_SECTION"
  by (simp_all add: section_defs)

lemma on_packet_answers:
  assumes "on_packet f w = Some w'" "f = AA_SET \<or> f = AA_CLR \<or> (\<exists>rc. f = (\<lambda>p. RCODE_SET p rc))"
  shows "answers w w'"
  using assms by (blast intro: kept_answers on_packet_kept flags_body)

text \<open>Changes of the query that the frame allows.\<close>

lemma query_answers:
  assumes "steady q = steady (w_q w)" "q_packet q = q_packet (w_q w)"
  shows "answers w (w\<lparr>w_q := q\<rparr>)"
  using assms by (intro kept_answers) (simp add: kept_def db_kept_def)

text \<open>
  The proofs for the functions that build the answer go through the code from the first statement to the last: \<open>ans\<close>
  says that a run that starts in \<open>w\<close> stays in the frame.
\<close>

definition ans :: "('r \<Rightarrow> 'c work) \<Rightarrow> 'c work \<Rightarrow> 'r option \<Rightarrow> bool" where
  "ans f w x \<longleftrightarrow> (\<forall>y. x = Some y \<longrightarrow> answers w (f y))"

lemma ansD: "ans f w x \<Longrightarrow> x = Some y \<Longrightarrow> answers w (f y)"
  by (simp add: ans_def)

lemma ans_Some: "answers w (f y) \<Longrightarrow> ans f w (Some y)"
  by (simp add: ans_def)

lemma ans_None: "ans f w None"
  by (simp add: ans_def)

lemma ans_value: "(\<And>a. x = Some a \<Longrightarrow> ans f w (g a)) \<Longrightarrow> ans f w (x \<bind> g)"
  by (auto simp: ans_def Option.bind_eq_Some_conv)

lemma ans_step1:
  assumes "ans (\<lambda>w. w) w x" "\<And>v. x = Some v \<Longrightarrow> answers w v \<Longrightarrow> ans f v (g v)"
  shows "ans f w (x \<bind> g)"
  using assms by (force simp: ans_def Option.bind_eq_Some_conv intro: answers_trans)

lemma ans_step2:
  assumes "ans snd w x" "\<And>r v. x = Some (r, v) \<Longrightarrow> answers w v \<Longrightarrow> ans f v (g r v)"
  shows "ans f w (x \<bind> (\<lambda>(r, v). g r v))"
  using assms by (force simp: ans_def Option.bind_eq_Some_conv intro: answers_trans)

lemma ans_from: "answers w v \<Longrightarrow> ans f v x \<Longrightarrow> ans f w x"
  by (auto simp: ans_def intro: answers_trans)

lemma ans_if: "(b \<Longrightarrow> ans f w x) \<Longrightarrow> (\<not> b \<Longrightarrow> ans f w y) \<Longrightarrow> ans f w (if b then x else y)"
  by simp

lemma ans_option: "(o' = None \<Longrightarrow> ans f w x) \<Longrightarrow> (\<And>a. o' = Some a \<Longrightarrow> ans f w (y a)) \<Longrightarrow> ans f w (case o' of None \<Rightarrow> x | Some a \<Rightarrow> y a)"
  by (simp split: option.splits)

lemma ans_pair: "(\<And>a b. p = (a, b) \<Longrightarrow> ans f w (g a b)) \<Longrightarrow> ans f w (case p of (a, b) \<Rightarrow> g a b)"
  by (simp split: prod.splits)

lemma ans_pair_of: "(\<And>a b. p = (a, b) \<Longrightarrow> ans f w (g a b v)) \<Longrightarrow> ans f w ((case p of (a, b) \<Rightarrow> g a b) v)"
  by (simp split: prod.splits)

lemma ans_add_rrset:
  assumes "s \<noteq> ANSWER_SECTION \<or> asked w r"
  shows "ans snd w (add_rrset minimal s d r w)"
  using assms by (auto simp: ans_def intro: add_rrset_answers)

lemma ans_on_packet:
  assumes "f = AA_SET \<or> f = AA_CLR \<or> (\<exists>rc. f = (\<lambda>p. RCODE_SET p rc))"
  shows "ans (\<lambda>w. w) w (on_packet f w)"
  using assms by (auto simp: ans_def intro: on_packet_answers)

lemma ans_temp_chain: "ans snd w (temp_chain n b nm sr p w)"
  by (auto simp: ans_def intro: kept_answers temp_chain_kept)

lemmas ans_control = ans_if ans_option ans_pair ans_pair_of ans_Some ans_None

lemma ans_add_cname: "ans snd w (add_cname minimal d f ttl w)"
proof -
  have "answers w w'" if a: "add_cname minimal d f ttl w = Some (x, w')" for x w'
  proof -
    obtain z r t b where t: "new_rrset (cname_rrset z d f ttl) w = (r, t)" "add_rrset minimal ANSWER_SECTION d r t = Some (b, w')"
      using a by (fastforce simp: add_cname_def Option.bind_eq_Some_conv case_prod_beta Let_def prod_eq_iff)
    have "asked t r" using t(1) by (auto simp: new_rrset_def asked_def cname_rrset_def rrset_rrtype_def)
    then show ?thesis
      using new_rrset_kept [OF t(1)] add_rrset_answers [OF t(2)] by (blast intro: answers_trans kept_answers)
  qed
  then show ?thesis by (auto simp: ans_def)
qed

lemma ans_synthesize: "ans snd w (query_synthesize_cname minimal fr to src ce cm ttl w)"
  unfolding query_synthesize_cname_def
  by ((rule ans_step2 [OF ans_temp_chain] ans_add_cname ans_control ans_value | simp)+)

lemma ans_delegation: "ans (\<lambda>w. w) w (answer_delegation minimal w)"
  unfolding answer_delegation_def
  by ((rule ans_step1 [OF ans_on_packet] ans_step2 [OF ans_add_rrset] ans_control ans_value | simp)+)

lemma ans_soa: "ans (\<lambda>w. w) w (answer_soa minimal w)"
  unfolding answer_soa_def
  by ((rule ans_step2 [OF ans_add_rrset] ans_control ans_value | simp)+)

lemma ans_covering_nsec: "ans (\<lambda>w. w) w (add_covering_nsec minimal d z w)"
  unfolding add_covering_nsec_def
  by ((rule ans_step2 [OF ans_add_rrset] ans_control ans_value | simp)+)

lemma ans_nodata: "ans (\<lambda>w. w) w (answer_nodata minimal d w)"
proof -
  have s: "ans (\<lambda>w. w) w (if q_cname_count (w_q w) = 0 then answer_soa minimal w else Some w)"
    by (simp add: ans_soa ans_Some)
  show ?thesis unfolding answer_nodata_def
    by ((rule ans_step1 [OF s] ans_covering_nsec ans_control ans_value | simp)+)
qed

lemma ans_nxdomain: "ans (\<lambda>w. w) w (answer_nxdomain minimal w)"
  unfolding answer_nxdomain_def by (rule ans_step1 [OF ans_on_packet] ans_soa | blast)+

lemma ans_add_any:
  assumes "q_qtype (w_q w) = TYPE_ANY"
  shows "ans snd w (add_any minimal d z skip rs n w)"
  using assms
proof (induction rs arbitrary: n w)
  case (Cons r rs)
  have t: "rrset_rrtype rset \<noteq> None" if "rrset_rrclass rset = Some c" for rset c
    using that by (simp add: rrset_rrtype_def rrset_rrclass_def split: list.splits)
  have a: "ans snd w (add_rrset minimal ANSWER_SECTION d r w)"
  proof -
    have "asked w r" if "add_rrset minimal ANSWER_SECTION d r w = Some y" for y
      using that t Cons.prems by (fastforce simp: add_rrset_def asked_def Option.bind_eq_Some_conv)
    then show ?thesis unfolding ans_def by (auto intro: add_rrset_answers)
  qed
  show ?case using Cons.prems unfolding add_any.simps
    by (auto intro!: ans_value ans_if ans_step2 [OF a] Cons.IH dest!: answers_same dest: steady_sel(1))
qed (simp add: ans_Some)

lemma count_cname_answers: "answers w (count_cname w)"
  unfolding count_cname_def by (rule query_answers) (simp_all add: steady_def)

lemma ans_zone_ns: "ans (\<lambda>w. w) w (add_zone_ns minimal zn w)"
  unfolding add_zone_ns_def
  by ((rule ans_step2 [OF ans_add_rrset] ans_control ans_value | simp)+)

text \<open>A lookup goes on only after an RRset has been added.\<close>

definition goes_on :: "nat \<Rightarrow> (follow option \<times> 'c work) option \<Rightarrow> bool" where
  "goes_on m x \<longleftrightarrow> (\<forall>fo w'. x = Some (Some fo, w') \<longrightarrow> answer_measure (w_answer w') < m)"

lemma goes_on_simps [simp]:
  "goes_on m None" "goes_on m (Some (None, w))" "goes_on m (Some (Some fo, w)) \<longleftrightarrow> answer_measure (w_answer w) < m"
  by (simp_all add: goes_on_def)

lemma goes_on_bind: "(\<And>a. x = Some a \<Longrightarrow> goes_on m (g a)) \<Longrightarrow> goes_on m (x \<bind> g)"
  by (auto simp: goes_on_def Option.bind_eq_Some_conv)

lemma goes_on_if: "(b \<Longrightarrow> goes_on m x) \<Longrightarrow> (\<not> b \<Longrightarrow> goes_on m y) \<Longrightarrow> goes_on m (if b then x else y)"
  by simp

lemma goes_on_option:
  "(o' = None \<Longrightarrow> goes_on m x) \<Longrightarrow> (\<And>a. o' = Some a \<Longrightarrow> goes_on m (y a)) \<Longrightarrow> goes_on m (case o' of None \<Rightarrow> x | Some a \<Rightarrow> y a)"
  by (simp split: option.splits)

lemma goes_on_pair: "(\<And>a b. p = (a, b) \<Longrightarrow> goes_on m (g a b)) \<Longrightarrow> goes_on m (case p of (a, b) \<Rightarrow> g a b)"
  by (simp split: prod.splits)

lemmas goes_on_control = goes_on_if goes_on_option goes_on_pair goes_on_bind

lemma goes_on_le: "goes_on m x \<Longrightarrow> m \<le> m' \<Longrightarrow> goes_on m' x"
  by (fastforce simp: goes_on_def)

lemma ans_domain: "ans snd w (answer_domain minimal d original w)"
proof -
  have c: "ans (\<lambda>w. w) w (if b then answer_nodata minimal original w else add_zone_ns minimal zn w)" for b zn and w :: "'a work"
    by (simp add: ans_nodata ans_zone_ns)
  have q: "ans snd w (Some (x, count_cname w))" for x and w :: "'a work"
    by (rule ans_Some) (simp add: count_cname_answers)
  show ?thesis unfolding answer_domain_def
    by ((rule q ans_step2 [OF ans_add_any] ans_step1 [OF c] ans_step1 [OF ans_nodata] ans_step1 [OF ans_zone_ns]
         ans_step2 [OF ans_add_rrset] ans_control ans_value | simp add: asked_found)+)
qed

lemma goes_on_domain: "goes_on (answer_measure (w_answer w)) (answer_domain minimal d original w)"
  unfolding answer_domain_def by (auto intro!: goes_on_control simp: count_cname_def dest: add_rrset_kept(2))

lemma ans_follow_dname: "ans snd w (follow_dname minimal name newname src ttl w)"
  unfolding follow_dname_def
  by ((rule ans_step2 [OF ans_synthesize] ans_step1 [OF ans_on_packet] ans_control ans_value | simp | blast)+)

lemma ans_dname:
  assumes "domain_find_rrset (w_db w) ce z TYPE_DNAME = Some (Some r)"
  shows "ans snd w (answer_dname minimal fo ce r w)"
proof -
  have a: "asked w r" using assms by (rule asked_found) simp
  show ?thesis unfolding answer_dname_def
    by ((rule ans_step2 [OF ans_add_rrset] ans_from [OF count_cname_answers ans_follow_dname] ans_control ans_value | simp add: a)+)
qed

lemma goes_on_dname: "goes_on (answer_measure (w_answer w)) (answer_dname minimal fo ce r w)"
proof -
  have f: "goes_on m (follow_dname minimal name newname src ttl (count_cname v))" if "answer_measure (w_answer v) < m"
    for name newname src ttl m and v :: "'a work"
    using that ansD [OF ans_synthesize] answers_measure [OF ansD [OF ans_synthesize]]
    by (fastforce simp: follow_dname_def count_cname_def intro!: goes_on_control)
  show ?thesis unfolding answer_dname_def by (auto intro!: goes_on_control f dest: add_rrset_kept(2))
qed

lemma ans_match_domain: "ans snd w (match_domain fo exact ce w)"
proof -
  have "answers w v" if "wildcard_temp n ce c (w\<lparr>w_q := (w_q w)\<lparr>q_wildcard_domain := x\<rparr>\<rparr>) = Some (m, v)" for n c x m v
  proof -
    have "answers (w\<lparr>w_q := (w_q w)\<lparr>q_wildcard_domain := x\<rparr>\<rparr>) v"
      using that by (auto simp: wildcard_temp_def Option.bind_eq_Some_conv intro: kept_answers new_domain_kept)
    moreover have "answers w (w\<lparr>w_q := (w_q w)\<lparr>q_wildcard_domain := x\<rparr>\<rparr>)" by (rule query_answers) (simp_all add: steady_def)
    ultimately show ?thesis by (blast intro: answers_trans)
  qed
  then show ?thesis by (auto simp: match_domain_def ans_def Option.bind_eq_Some_conv split: if_splits option.splits)
qed

lemma ans_denial: "ans (\<lambda>w. w) w (add_denial minimal fo ce match z zn w)"
proof -
  have c: "ans (\<lambda>w. w) w (if b then add_covering_nsec minimal d z w else Some w)" for b d and w :: "'a work"
    by (simp add: ans_covering_nsec ans_Some)
  show ?thesis unfolding add_denial_def by ((rule ans_step1 [OF c] ans_covering_nsec ans_control ans_value | simp)+)
qed

lemma ans_authoritative: "ans snd w (answer_authoritative minimal fo w)"
  unfolding answer_authoritative_def Let_def
  by ((rule ans_step2 [OF ans_match_domain] ans_step1 [OF ans_denial] ans_step1 [OF ans_nxdomain] ans_domain ans_dname
       ans_control ans_value | simp split: if_splits)+)

lemma goes_on_authoritative: "goes_on (answer_measure (w_answer w)) (answer_authoritative minimal fo w)"
  unfolding answer_authoritative_def Let_def
  by (auto intro!: goes_on_control goes_on_dname goes_on_le [OF goes_on_domain] answers_measure
      dest!: ansD [OF ans_match_domain] ansD [OF ans_denial] intro: answers_trans)

lemma ans_set_aa: "ans (\<lambda>w. w) w (set_aa w)"
  unfolding set_aa_def by (rule ans_on_packet) simp

lemma set_zone_answers: "answers w (set_zone z w)"
  unfolding set_zone_def by (rule query_answers) (simp_all add: steady_def)

lemma ans_rcode_first: "ans (\<lambda>w. w) w (set_rcode_first rc w)"
  unfolding set_rcode_first_def by (rule ans_control ans_on_packet | blast | simp)+

lemma ans_find_delegation: "ans snd w (find_delegation ce z w)"
proof -
  have "answers w (set_delegation d r w)" for d r unfolding set_delegation_def by (rule query_answers) (simp_all add: steady_def)
  then show ?thesis by (auto simp: find_delegation_def ans_def Option.bind_eq_Some_conv Let_def)
qed

lemma ans_in_zone: "ans snd w (answer_in_zone minimal fo w)"
  unfolding answer_in_zone_def Let_def
  by ((rule ans_step1 [OF ans_rcode_first] ans_step1 [OF ans_set_aa] ans_step1 [OF ans_nodata] ans_step1 [OF ans_delegation]
       ans_step2 [OF ans_find_delegation] ans_authoritative ans_control ans_value | simp)+)

lemma ans_lookup_step: "ans snd w (lookup_zone_step minimal fo w)"
proof -
  have z: "ans f w x" if "ans f (set_zone y w) x" for f :: "'b \<Rightarrow> 'a work" and x y using that set_zone_answers by (rule ans_from [rotated])
  have r: "ans (\<lambda>w. w) w (set_rcode_first rc (set_zone y w))" for rc y by (rule z ans_rcode_first)+
  have i: "ans snd w (answer_in_zone minimal fo (set_zone y w))" for fo y by (rule z ans_in_zone)+
  show ?thesis unfolding lookup_zone_step_def Let_def by ((rule ans_step1 [OF r] i ans_control ans_value | simp)+)
qed

lemma goes_on_in_zone: "goes_on (answer_measure (w_answer w)) (answer_in_zone minimal fo w)"
  unfolding answer_in_zone_def Let_def
  by (auto intro!: goes_on_control goes_on_le [OF goes_on_authoritative] answers_measure
      dest!: ansD [OF ans_set_aa] ansD [OF ans_find_delegation] intro: answers_trans)

lemma goes_on_step: "goes_on (answer_measure (w_answer w)) (lookup_zone_step minimal fo w)"
proof -
  have "goes_on (answer_measure (w_answer w)) (answer_in_zone minimal fo' (set_zone y w))" for fo' y
    by (rule goes_on_le [OF goes_on_in_zone]) (simp add: set_zone_def)
  then show ?thesis unfolding lookup_zone_step_def Let_def by (auto intro!: goes_on_control)
qed

text \<open>
  \<open>answer_lookup_zone\<close> with the calls that follow a CNAME or DNAME; after such a call the zone is the one from before it.
\<close>

function answer_lookup_zone :: "bool \<Rightarrow> follow \<Rightarrow> 'c work \<Rightarrow> 'c work option" where
  "answer_lookup_zone minimal fo w = do {
     (next, v) \<leftarrow> lookup_zone_step minimal fo w;
     case next of
       None \<Rightarrow> Some v
     | Some fo' \<Rightarrow> do { u \<leftarrow> answer_lookup_zone minimal fo' v; Some (set_zone (q_zone (w_q v)) u) } }"
  by pat_completeness auto
termination
  by (relation "measure (\<lambda>(minimal, fo, w). answer_measure (w_answer w))") (auto intro: goes_on_step [unfolded goes_on_def, rule_format])

declare answer_lookup_zone.simps [simp del]

lemma ans_lookup_zone: "ans (\<lambda>w. w) w (answer_lookup_zone minimal fo w)"
proof (induction minimal fo w rule: answer_lookup_zone.induct)
  case (1 minimal fo w)
  show ?case
    by (subst answer_lookup_zone.simps) (rule ans_step2 [OF ans_lookup_step] ans_control ans_step1 [OF 1] set_zone_answers | simp)+
qed

definition answer_query :: "bool \<Rightarrow> namedb \<Rightarrow> nat option \<Rightarrow> 'c query \<Rightarrow> (nat option \<times> 'c query) option" where
  "answer_query minimal db round_robin q = do {
     qn \<leftarrow> q_qname q;
     (exact, cm, ce) \<leftarrow> namedb_lookup db qn;
     w \<leftarrow> answer_lookup_zone minimal \<lparr>fo_number = 0, fo_exact = exact, fo_closest_match = cm, fo_closest_encloser = ce, fo_qname = qn\<rparr>
            \<lparr>w_db = db, w_q = q, w_answer = answer_init\<rparr>;
     cen \<leftarrow> domain_dname (w_db w) ce;
     off \<leftarrow> mem_get (label_offsets qn) (label_count cen - 1);
     q \<leftarrow> query_add_compression_domain (w_db w) (w_q w) ce (ucast off + of_nat QHEADERSZ);
     (round_robin, q) \<leftarrow> encode_answer (w_db w) q (w_answer w) round_robin;
     q \<leftarrow> query_clear_compression_tables (w_db w) q;
     Some (round_robin, q) }"

end
