(* ===== verification/Acl.thy ===== *)
theory Acl
  imports Rrl
begin

text \<open>
  Access control lists (\<open>options.c\<close>: checking an incoming query against a list, matching of addresses
  and keys, and reading an entry of the configuration).

  The unions for addresses are lists of 16 octets, of which an IPv4 address uses the first four. They are
  compared as 32-bit words loaded on a little-endian host. The conversions \<open>inet_pton\<close> of the C library are
  parameters.
\<close>

unbundle bit_operations_syntax

datatype acl_range = acl_range_single | acl_range_mask | acl_range_subnet | acl_range_minmax

record key_options =
  ko_name :: string
  ko_algorithm :: string
  ko_secret :: string
  ko_tsig_key :: "tsig_key option"

record acl_options =
  acl_is_ipv6 :: bool
  acl_port :: nat
  acl_addr :: "byte list"
  acl_mask :: "byte list"
  acl_rangetype :: acl_range
  acl_nokey :: bool
  acl_blocked :: bool
  acl_key_name :: "string option"
  acl_key_options :: "key_options option"

definition key_options_equal :: "key_options \<Rightarrow> key_options \<Rightarrow> bool" where
  "key_options_equal p q \<longleftrightarrow> ko_name p = ko_name q \<and> ko_algorithm p = ko_algorithm q \<and> ko_secret p = ko_secret q"

subsection \<open>Matching addresses\<close>

definition word_at :: "byte list \<Rightarrow> nat \<Rightarrow> u32 option" where
  "word_at a i = do { assert_c (4 * i + 4 \<le> length a); Some (le_word (take 4 (drop (4 * i) a))) }"

fun match_mask_loop :: "byte list \<Rightarrow> byte list \<Rightarrow> byte list \<Rightarrow> nat \<Rightarrow> nat \<Rightarrow> bool option" where
  "match_mask_loop a b m i 0 = Some True"
| "match_mask_loop a b m i (Suc n) = do {
     x \<leftarrow> word_at a i; y \<leftarrow> word_at b i; w \<leftarrow> word_at m i;
     if x AND w \<noteq> y AND w then Some False else match_mask_loop a b m (i + 1) n }"

definition acl_addr_match_mask :: "byte list \<Rightarrow> byte list \<Rightarrow> byte list \<Rightarrow> nat \<Rightarrow> bool option" where
  "acl_addr_match_mask a b m sz = do { assert_c (sz mod 4 = 0); match_mask_loop a b m 0 (sz div 4) }"

fun match_range_loop :: "byte list \<Rightarrow> byte list \<Rightarrow> byte list \<Rightarrow> bool \<Rightarrow> bool \<Rightarrow> nat \<Rightarrow> nat \<Rightarrow> bool option" where
  "match_range_loop lo x hi checkmin checkmax i 0 = Some True"
| "match_range_loop lo x hi checkmin checkmax i (Suc n) = do {
     l \<leftarrow> word_at lo i; w \<leftarrow> word_at x i; h \<leftarrow> word_at hi i;
     if checkmin \<and> l > w then Some False
     else if checkmax \<and> h < w then Some False
     else
       let checkmin = (checkmin \<and> l = w); checkmax = (checkmax \<and> h = w) in
       if \<not> checkmin \<and> \<not> checkmax then Some True
       else match_range_loop lo x hi checkmin checkmax (i + 1) n }"

definition acl_addr_match_range :: "byte list \<Rightarrow> byte list \<Rightarrow> byte list \<Rightarrow> nat \<Rightarrow> bool option" where
  "acl_addr_match_range lo x hi sz = do { assert_c (sz mod 4 = 0); match_range_loop lo x hi True True 0 (sz div 4) }"

definition acl_addr_matches_iphost :: "nat \<Rightarrow> acl_options \<Rightarrow> byte list \<Rightarrow> nat \<Rightarrow> bool option" where
  "acl_addr_matches_iphost sz acl a port =
     (if acl_port acl \<noteq> 0 \<and> acl_port acl \<noteq> port then Some False
      else case acl_rangetype acl of
        acl_range_mask \<Rightarrow> acl_addr_match_mask (acl_addr acl) a (acl_mask acl) sz
      | acl_range_subnet \<Rightarrow> acl_addr_match_mask (acl_addr acl) a (acl_mask acl) sz
      | acl_range_minmax \<Rightarrow> acl_addr_match_range (acl_addr acl) a (acl_mask acl) sz
      | acl_range_single \<Rightarrow> do {
          assert_c (sz \<le> length a \<and> sz \<le> length (acl_addr acl));
          Some (take sz a = take sz (acl_addr acl)) })"

definition acl_addr_matches_ipv6host :: "acl_options \<Rightarrow> byte list \<Rightarrow> nat \<Rightarrow> bool option" where
  "acl_addr_matches_ipv6host = acl_addr_matches_iphost 16"

definition acl_addr_matches_ipv4host :: "acl_options \<Rightarrow> byte list \<Rightarrow> nat \<Rightarrow> bool option" where
  "acl_addr_matches_ipv4host = acl_addr_matches_iphost 4"

text \<open>
  \<open>host->addr\<close> holds a bare address, but is read as a socket address: the IPv4 address of a \<open>sockaddr_in\<close>
  is at offset 4 and the IPv6 address of a \<open>sockaddr_in6\<close> at offset 8, which extends into \<open>range_mask\<close>, the
  next member of the structure.
\<close>

definition acl_addr_matches_host :: "acl_options \<Rightarrow> acl_options \<Rightarrow> bool option" where
  "acl_addr_matches_host acl host =
     (let mem = acl_addr host @ acl_mask host in
      if acl_is_ipv6 acl then
        (if \<not> acl_is_ipv6 host then Some False else acl_addr_matches_ipv6host acl (take 16 (drop 8 mem)) (acl_port host))
      else
        (if acl_is_ipv6 host then Some False else acl_addr_matches_ipv4host acl (take 4 (drop 4 mem)) (acl_port host)))"

definition acl_addr_matches :: "acl_options \<Rightarrow> 'c query \<Rightarrow> bool option" where
  "acl_addr_matches acl q =
     (if acl_is_ipv6 acl then
        (case q_addr q of sockaddr_in6 a port \<Rightarrow> acl_addr_matches_ipv6host acl a (unat port) | sockaddr_in _ _ \<Rightarrow> Some False)
      else
        (case q_addr q of sockaddr_in a port \<Rightarrow> acl_addr_matches_ipv4host acl a (unat port) | sockaddr_in6 _ _ \<Rightarrow> Some False))"

definition acl_same_host :: "acl_options \<Rightarrow> acl_options \<Rightarrow> bool" where
  "acl_same_host a b =
     (if acl_is_ipv6 a \<noteq> acl_is_ipv6 b then False
      else if acl_port a \<noteq> acl_port b then False
      else if acl_rangetype a \<noteq> acl_rangetype b then False
      else
        let sz = (if acl_is_ipv6 a then 16 else 4) in
        if take sz (acl_addr a) \<noteq> take sz (acl_addr b) then False
        else if acl_rangetype a \<noteq> acl_range_single \<and> take sz (acl_mask a) \<noteq> take sz (acl_mask b) then False
        else True)"

subsection \<open>Matching keys and checking a list\<close>

definition acl_key_matches :: "acl_options \<Rightarrow> 'c query \<Rightarrow> bool option" where
  "acl_key_matches acl q =
     (if acl_blocked acl then Some True
      else if acl_nokey acl then Some (tr_status (q_tsig q) = TSIG_NOT_PRESENT)
      else if tr_status (q_tsig q) \<noteq> TSIG_OK then Some False
      else if tr_error_code (q_tsig q) \<noteq> TSIG_ERROR_NOERROR then Some False
      else do {
        ko \<leftarrow> acl_key_options acl;
        case ko_tsig_key ko of None \<Rightarrow> Some False
        | Some k \<Rightarrow> do {
            kn \<leftarrow> tr_key_name (q_tsig q);
            c \<leftarrow> dname_compare kn (tk_name k);
            if c \<noteq> 0 then Some False
            else do {
              alg \<leftarrow> tr_algorithm (q_tsig q);
              if tsig_strlowercmp (ta_short_name alg) (ko_algorithm ko) \<noteq> 0 \<and>
                 (take 5 (ta_short_name alg) \<noteq> ''hmac-'' \<or> tsig_strlowercmp (drop 5 (ta_short_name alg)) (ko_algorithm ko) \<noteq> 0)
              then Some False else Some True } } })"

definition acl_matches :: "acl_options \<Rightarrow> 'c query \<Rightarrow> bool option" where
  "acl_matches acl q = do {
     a \<leftarrow> acl_addr_matches acl q;
     if a then acl_key_matches acl q else Some False }"

text \<open>The result is the number of the entry, or -1, and the entry that is the reason.\<close>

fun acl_check_loop :: "acl_options list \<Rightarrow> 'c query \<Rightarrow> int \<Rightarrow> (int \<times> acl_options) option \<Rightarrow> (int \<times> acl_options option) option" where
  "acl_check_loop [] q number match = Some (case match of None \<Rightarrow> (-1, None) | Some (n, a) \<Rightarrow> (n, Some a))"
| "acl_check_loop (acl # rest) q number match = do {
     m \<leftarrow> acl_matches acl q;
     if m then
       (if acl_blocked acl then Some (-1, Some acl)
        else acl_check_loop rest q (number + 1) (case match of None \<Rightarrow> Some (number, acl) | Some x \<Rightarrow> Some x))
     else acl_check_loop rest q (number + 1) match }"

definition acl_check_incoming :: "acl_options list \<Rightarrow> 'c query \<Rightarrow> (int \<times> acl_options option) option" where
  "acl_check_incoming acl q = acl_check_loop acl q 0 None"

fun acl_find_num :: "acl_options list \<Rightarrow> int \<Rightarrow> acl_options option" where
  "acl_find_num [] num = None"
| "acl_find_num (a # as) num = (if num = 0 then Some a else acl_find_num as (num - 1))"

subsection \<open>Reading an entry\<close>

fun parse_acl_is_ipv6 :: "string \<Rightarrow> bool" where
  "parse_acl_is_ipv6 [] = False"
| "parse_acl_is_ipv6 (c # cs) = (if c = CHR ''.'' then False else if c = CHR '':'' then True else parse_acl_is_ipv6 cs)"

text \<open>\<open>strchr\<close>: the text before and behind the first occurrence.\<close>

fun split_at :: "char \<Rightarrow> string \<Rightarrow> (string \<times> string) option" where
  "split_at c [] = None"
| "split_at c (x # xs) = (if x = c then Some ([], xs) else map_option (\<lambda>(a, b). (x # a, b)) (split_at c xs))"

definition parse_acl_range_type :: "string \<Rightarrow> acl_range \<times> string \<times> string option" where
  "parse_acl_range_type ip =
     (case split_at (CHR ''&'') ip of Some (a, m) \<Rightarrow> (acl_range_mask, a, Some m)
      | None \<Rightarrow> (case split_at (CHR ''/'') ip of Some (a, m) \<Rightarrow> (acl_range_subnet, a, Some m)
      | None \<Rightarrow> (case split_at (CHR ''-'') ip of Some (a, m) \<Rightarrow> (acl_range_minmax, a, Some m)
      | None \<Rightarrow> (acl_range_single, ip, None))))"

definition is_space :: "char \<Rightarrow> bool" where
  "is_space c \<longleftrightarrow> c \<in> {CHR '' '', CHR 0x09, CHR 0x0A, CHR 0x0B, CHR 0x0C, CHR 0x0D}"

text \<open>The number as a \<open>long\<close>, converted to an \<open>int\<close>.\<close>

definition atoi :: "string \<Rightarrow> int" where
  "atoi s = (let s = dropWhile is_space s;
       v = (case s of [] \<Rightarrow> 0
            | c # cs \<Rightarrow> if c = CHR ''-'' then - int (fst (strtol_digits 0 cs))
                        else if c = CHR ''+'' then int (fst (strtol_digits 0 cs))
                        else int (fst (strtol_digits 0 s)))
     in sint (of_int v :: u32))"

definition subnet_shifts :: "byte list" where
  "subnet_shifts = [0x0, 0x80, 0xc0, 0xe0, 0xf0, 0xf8, 0xfc, 0xfe, 0xff]"

function fill_subnet :: "byte list \<Rightarrow> nat \<Rightarrow> nat \<Rightarrow> byte list option" where
  "fill_subnet m i bits =
     (if bits \<ge> 8 then do { assert_c (i < length m); fill_subnet (m[i := 0xff]) (i + 1) (bits - 8) }
      else if bits > 0 then do { assert_c (i < length m); Some (m[i := subnet_shifts ! bits]) }
      else Some m)"
  by pat_completeness auto
termination by (relation "measure (\<lambda>(m, i, bits). bits)") auto

declare fill_subnet.simps [simp del]

text \<open>The result is the mask and whether an error was reported.\<close>

definition parse_acl_range_subnet :: "string \<Rightarrow> byte list \<Rightarrow> int \<Rightarrow> (byte list \<times> bool) option" where
  "parse_acl_range_subnet p m maxbits =
     (let bits = atoi p in
      if bits = 0 \<and> p \<noteq> ''0'' then Some (m, True)
      else if bits < 0 \<or> bits > maxbits then Some (m, True)
      else do { m \<leftarrow> fill_subnet m 0 (nat bits); Some (m, False) })"

text \<open>
  \<open>pton4\<close> and \<open>pton6\<close> convert the text of an address to octets. The result is the entry and the number of
  errors reported. An address is stored over the first octets of the union.
\<close>

definition store_addr :: "byte list option \<Rightarrow> byte list \<Rightarrow> byte list" where
  "store_addr a old = (case a of None \<Rightarrow> old | Some bs \<Rightarrow> bs @ drop (length bs) old)"

definition parse_acl_info ::
  "(string \<Rightarrow> byte list option) \<Rightarrow> (string \<Rightarrow> byte list option) \<Rightarrow> string \<Rightarrow> string \<Rightarrow> (acl_options \<times> nat) option" where
  "parse_acl_info pton4 pton6 ip key = do {
     let zero = replicate 16 0;
     let (ip, port, e1) = (case split_at (CHR ''@'') (rev ip) of
           None \<Rightarrow> (ip, 0, 0)
         | Some (p, i) \<Rightarrow> if atoi (rev p) = 0 then (rev i, 0, 1 :: nat) else (rev i, unat (of_int (atoi (rev p)) :: u32), 0));
     let (rangetype, ip, p) = parse_acl_range_type ip;
     let is6 = parse_acl_is_ipv6 ip;
     let pton = (if is6 then pton6 else pton4);
     let e2 = (if pton ip = None then 1 else 0);
     let addr = store_addr (pton ip) zero;
     (m, e3) \<leftarrow> (case p of None \<Rightarrow> Some (zero, 0)
       | Some p \<Rightarrow>
           if rangetype = acl_range_subnet then do {
             (m, err) \<leftarrow> parse_acl_range_subnet p zero (if is6 then 128 else 32);
             Some (m, if err then 1 else 0) }
           else Some (store_addr (pton p) zero, if pton p = None then 1 else 0));
     Some (\<lparr>acl_is_ipv6 = is6, acl_port = port, acl_addr = addr, acl_mask = m, acl_rangetype = rangetype,
            acl_nokey = (key = ''NOKEY''), acl_blocked = (key \<noteq> ''NOKEY'' \<and> key = ''BLOCKED''),
            acl_key_name = (if key = ''NOKEY'' \<or> key = ''BLOCKED'' then None else Some key), acl_key_options = None\<rparr>,
           e1 + e2 + e3) }"

subsection \<open>Subnets\<close>

text \<open>Bit \<open>j\<close> of an address, the most significant bit of the first octet being the first.\<close>

definition addr_bit :: "byte list \<Rightarrow> nat \<Rightarrow> bool" where
  "addr_bit a j = bit (a ! (j div 8)) (7 - j mod 8)"

lemma word_at_list:
  assumes "4 * i + 4 \<le> length a"
  shows "word_at a i = Some (le_word [a ! (4 * i), a ! (4 * i + 1), a ! (4 * i + 2), a ! (4 * i + 3)])"
proof -
  have "take 4 (drop (4 * i) a) = [a ! (4 * i), a ! (4 * i + 1), a ! (4 * i + 2), a ! (4 * i + 3)]"
    using assms by (intro nth_equalityI) (auto simp: less_Suc_eq eval_nat_numeral nth_Cons')
  then show ?thesis using assms by (simp add: word_at_def)
qed

lemma match_mask_loop_spec:
  assumes "4 * (i + n) \<le> length a" "4 * (i + n) \<le> length b" "4 * (i + n) \<le> length m"
  shows "match_mask_loop a b m i n = Some (\<forall>k. 4 * i \<le> k \<longrightarrow> k < 4 * (i + n) \<longrightarrow> a ! k AND m ! k = b ! k AND m ! k)"
  using assms
proof (induction n arbitrary: i)
  case (Suc n)
  define P where "P = (\<lambda>k. a ! k AND m ! k = b ! k AND m ! k)"
  have IH: "match_mask_loop a b m (i + 1) n = Some (\<forall>k. 4 * (i + 1) \<le> k \<longrightarrow> k < 4 * (i + 1 + n) \<longrightarrow> P k)"
    unfolding P_def using Suc.prems by (intro Suc.IH) simp_all
  have split: "(\<forall>k. 4 * i \<le> k \<longrightarrow> k < 4 * (i + Suc n) \<longrightarrow> P k) \<longleftrightarrow>
      P (4 * i) \<and> P (4 * i + 1) \<and> P (4 * i + 2) \<and> P (4 * i + 3) \<and> (\<forall>k. 4 * (i + 1) \<le> k \<longrightarrow> k < 4 * (i + 1 + n) \<longrightarrow> P k)"
    (is "?l = ?r") for P
  proof
    assume l: ?l
    show ?r using l [rule_format, of "4 * i"] l [rule_format, of "4 * i + 1"] l [rule_format, of "4 * i + 2"] l [rule_format, of "4 * i + 3"]
      l by auto
  next
    assume r: ?r
    show ?l
    proof (intro allI impI)
      fix k assume "4 * i \<le> k" "k < 4 * (i + Suc n)"
      then consider "k = 4 * i" | "k = 4 * i + 1" | "k = 4 * i + 2" | "k = 4 * i + 3" | "4 * (i + 1) \<le> k" "k < 4 * (i + 1 + n)"
        by force
      then show "P k" using r by cases simp_all
    qed
  qed
  define w where "w = (\<lambda>x :: byte list. le_word [x ! (4 * i), x ! (4 * i + 1), x ! (4 * i + 2), x ! (4 * i + 3)])"
  have ws: "word_at a i = Some (w a)" "word_at b i = Some (w b)" "word_at m i = Some (w m)"
    using Suc.prems by (simp_all add: word_at_list w_def)
  have "w a AND w m = w b AND w m \<longleftrightarrow> P (4 * i) \<and> P (4 * i + 1) \<and> P (4 * i + 2) \<and> P (4 * i + 3)"
    by (simp add: w_def le_word_and le_word_inject P_def)
  then have "match_mask_loop a b m i (Suc n) = Some (\<forall>k. 4 * i \<le> k \<longrightarrow> k < 4 * (i + Suc n) \<longrightarrow> P k)"
    unfolding split [of P] using ws IH by auto
  then show ?case by (simp add: P_def)
qed simp

lemma acl_addr_match_mask_spec:
  assumes "sz mod 4 = 0" "sz \<le> length a" "sz \<le> length b" "sz \<le> length m"
  shows "acl_addr_match_mask a b m sz = Some (\<forall>k < sz. a ! k AND m ! k = b ! k AND m ! k)"
proof -
  have "4 * (sz div 4) = sz" using assms(1) by auto
  then show ?thesis using match_mask_loop_spec [of 0 "sz div 4" a b m] assms by (simp add: acl_addr_match_mask_def)
qed

lemma subnet_shift_bit: "0 < n \<Longrightarrow> n < 8 \<Longrightarrow> k < 8 \<Longrightarrow> bit (subnet_shifts ! n) (7 - k) \<longleftrightarrow> k < n"
proof -
  assume "0 < n" "n < 8" "k < 8"
  then have "n \<in> {1, 2, 3, 4, 5, 6, 7}" "k \<in> {0, 1, 2, 3, 4, 5, 6, 7}" by auto
  then show ?thesis by (elim insertE emptyE) (simp_all add: subnet_shifts_def)
qed

lemma fill_subnet_spec:
  assumes "i * 8 + bits \<le> length m * 8" "\<forall>k. i \<le> k \<longrightarrow> k < length m \<longrightarrow> m ! k = 0"
  shows "\<exists>m'. fill_subnet m i bits = Some m' \<and> length m' = length m \<and>
    (\<forall>j < length m * 8. addr_bit m' j = (if j < i * 8 then addr_bit m j else j < i * 8 + bits))"
  using assms
proof (induction m i bits rule: fill_subnet.induct)
  case (1 m i bits)
  show ?case
  proof (cases "bits \<ge> 8")
    case True
    have "\<exists>m'. fill_subnet (m[i := 0xff]) (i + 1) (bits - 8) = Some m' \<and> length m' = length (m[i := 0xff]) \<and>
        (\<forall>j < length (m[i := 0xff]) * 8. addr_bit m' j = (if j < (i + 1) * 8 then addr_bit (m[i := 0xff]) j else j < (i + 1) * 8 + (bits - 8)))"
      using 1 True by (intro 1(1)) (auto simp: assert_c_def)
    then obtain m' where m': "fill_subnet (m[i := 0xff]) (i + 1) (bits - 8) = Some m'" "length m' = length m"
      "\<And>j. j < length m * 8 \<Longrightarrow> addr_bit m' j = (if j < (i + 1) * 8 then addr_bit (m[i := 0xff]) j else j < (i + 1) * 8 + (bits - 8))"
      by auto
    have ff: "addr_bit (m[i := 0xff]) j = (if j < i * 8 then addr_bit m j else True)" if "j < (i + 1) * 8" for j
    proof (cases "j < i * 8")
      case True
      then have "j div 8 \<noteq> i" by auto
      then show ?thesis using True by (simp add: addr_bit_def)
    next
      case False
      then have "j div 8 = i" using that by (intro div_nat_eqI) auto
      moreover have "bit (0xff :: byte) (7 - j mod 8)"
      proof -
        have "(0xff :: byte) = mask 8" by (simp add: mask_eq_exp_minus_1)
        then show ?thesis unfolding \<open>0xff = mask 8\<close> by (simp add: bit_mask_iff del: mask_numeral)
      qed
      moreover have "i < length m" using 1(2) True by auto
      ultimately show ?thesis using False by (simp add: addr_bit_def bit_minus_1_iff)
    qed
    have "fill_subnet m i bits = Some m'" using m'(1) True 1(2) by (subst fill_subnet.simps) auto
    moreover have "\<forall>j < length m * 8. addr_bit m' j = (if j < i * 8 then addr_bit m j else j < i * 8 + bits)"
      using m'(3) ff True by (auto simp: algebra_simps)
    ultimately show ?thesis using m'(2) by blast
  next
    case False
    have zero: "\<not> addr_bit m j" if "i * 8 \<le> j" "j < length m * 8" for j
    proof -
      have "i \<le> j div 8" "j div 8 < length m" using that by auto
      then show ?thesis using 1(3) by (simp add: addr_bit_def)
    qed
    show ?thesis
    proof (cases "bits = 0")
      case True
      then show ?thesis using zero by (subst fill_subnet.simps) auto
    next
      case f: False
      have i: "i < length m" using 1(2) f by auto
      have "addr_bit (m[i := subnet_shifts ! bits]) j = (if j < i * 8 then addr_bit m j else j < i * 8 + bits)" if j: "j < length m * 8" for j
      proof (cases "j div 8 = i")
        case True
        obtain r where r: "j = i * 8 + r" "r = j mod 8" "r < 8"
          using that [of "j mod 8"] True by auto
        have "addr_bit (m[i := subnet_shifts ! bits]) j \<longleftrightarrow> r < bits"
          using True i f False subnet_shift_bit [of bits r] r(2,3) by (simp add: addr_bit_def)
        then show ?thesis using r(1) by auto
      next
        case g: False
        then have "addr_bit (m[i := subnet_shifts ! bits]) j = addr_bit m j" by (simp add: addr_bit_def)
        moreover have "j < i * 8 \<or> i * 8 + 8 \<le> j" using g by (metis div_nat_eqI linorder_not_less mult.commute mult_Suc_right add.commute)
        ultimately show ?thesis using zero [of j] j False by auto
      qed
      then show ?thesis using i f False by (subst fill_subnet.simps) auto
    qed
  qed
qed

text \<open>Under the mask for \<open>n\<close> bits two addresses match exactly when their first \<open>n\<close> bits agree.\<close>

lemma byte_mask_eq: "(x :: byte) AND m = y AND m \<longleftrightarrow> (\<forall>k < 8. bit m (7 - k) \<longrightarrow> bit x (7 - k) = bit y (7 - k))"
proof
  assume e: "x AND m = y AND m"
  have "bit (x AND m) i = bit (y AND m) i" for i using e by simp
  then show "\<forall>k < 8. bit m (7 - k) \<longrightarrow> bit x (7 - k) = bit y (7 - k)" by (auto simp: bit_and_iff)
next
  assume r: "\<forall>k < 8. bit m (7 - k) \<longrightarrow> bit x (7 - k) = bit y (7 - k)"
  show "x AND m = y AND m"
  proof (rule bit_word_eqI)
    fix i assume "i < LENGTH(8)"
    then show "bit (x AND m) i = bit (y AND m) i" using r [rule_format, of "7 - i"] by (auto simp: bit_and_iff)
  qed
qed

lemma subnet_match:
  assumes sz: "sz mod 4 = 0" "sz \<le> 16" "sz \<le> length a" "sz \<le> length b" and n: "n \<le> sz * 8"
  shows "\<exists>m. fill_subnet (replicate 16 0) 0 n = Some m \<and>
    acl_addr_match_mask a b m sz = Some (\<forall>j < n. addr_bit a j = addr_bit b j)"
proof -
  obtain m where m: "fill_subnet (replicate 16 0) 0 n = Some m" "length m = 16" "\<And>j. j < 128 \<Longrightarrow> addr_bit m j = (j < n)"
    using fill_subnet_spec [of 0 n "replicate 16 0"] sz(2) n by auto
  have bits: "bit (m ! k) (7 - r) = (k * 8 + r < n)" if "k < 16" "r < 8" for k r
    using m(3) [of "k * 8 + r"] that by (simp add: addr_bit_def)
  have "(\<forall>k < sz. a ! k AND m ! k = b ! k AND m ! k) = (\<forall>j < n. addr_bit a j = addr_bit b j)" (is "?l = ?r")
  proof
    assume l: ?l
    show ?r
    proof (intro allI impI)
      fix j assume j: "j < n"
      have d: "j div 8 < sz" "j mod 8 < 8" "j = j div 8 * 8 + j mod 8" using j n by auto
      have "bit (m ! (j div 8)) (7 - j mod 8)" using bits [of "j div 8" "j mod 8"] d j sz(2) by simp
      then show "addr_bit a j = addr_bit b j" using l d(1,2) unfolding byte_mask_eq addr_bit_def by blast
    qed
  next
    assume r: ?r
    have "bit (a ! k) (7 - i) = bit (b ! k) (7 - i)" if "k < sz" "i < 8" "bit (m ! k) (7 - i)" for k i
      using r [rule_format, of "k * 8 + i"] bits [of k i] that sz(2) by (simp add: addr_bit_def)
    then show ?l unfolding byte_mask_eq by blast
  qed
  then show ?thesis using m(1,2) acl_addr_match_mask_spec [of sz a b m] sz by auto
qed

lemma atoi_decimal: "n < 2 ^ 31 \<Longrightarrow> atoi (decimal n) = int n"
proof -
  assume n: "n < 2 ^ 31"
  obtain c cs where d: "decimal n = c # cs" using decimal_nonempty by (cases "decimal n") auto
  then have c: "is_digit c" using decimal_digits [of n] by simp
  have sp: "\<not> is_space c" "c \<noteq> CHR ''-''" "c \<noteq> CHR ''+''" using c by (auto simp: is_digit_def is_space_def)
  have "strtol_digits 0 (decimal n) = (n, [])" using n by (intro strtol_decimal) simp
  then have "atoi (decimal n) = sint (of_int (int n) :: u32)" using d sp by (simp add: atoi_def)
  also have "\<dots> = int n" using n by (simp add: signed_take_bit_int_eq_self signed_of_nat)
  finally show ?thesis .
qed

lemma parse_subnet:
  assumes "n \<le> 128" "int n \<le> maxbits"
  shows "\<exists>m. parse_acl_range_subnet (decimal n) (replicate 16 0) maxbits = Some (m, False) \<and> fill_subnet (replicate 16 0) 0 n = Some m"
proof -
  have "atoi (decimal n) = int n" using assms(1) by (intro atoi_decimal) simp
  moreover have "char_of (48 :: nat) = CHR ''0''" using char_of_char [of "CHR ''0''", where 'a = nat] by simp
  moreover from this have "decimal 0 = ''0''" by (simp add: decimal.simps digit_char_def)
  moreover obtain m where "fill_subnet (replicate 16 0) 0 n = Some m" using fill_subnet_spec [of 0 n "replicate 16 0"] assms(1) by auto
  ultimately show ?thesis using assms(2) by (cases "n = 0") (auto simp: parse_acl_range_subnet_def Let_def)
qed

subsection \<open>What a list decides\<close>

definition acl_verdict :: "acl_options list \<Rightarrow> 'c query \<Rightarrow> int \<times> acl_options option" where
  "acl_verdict acl q =
     (case find (\<lambda>a. acl_matches a q = Some True \<and> acl_blocked a) acl of
        Some a \<Rightarrow> (-1, Some a)
      | None \<Rightarrow> (case find (\<lambda>(i, a). acl_matches a q = Some True) (List.enumerate 0 acl) of
          Some (i, a) \<Rightarrow> (int i, Some a)
        | None \<Rightarrow> (-1, None)))"

lemma acl_check_loop_spec:
  assumes "\<forall>a \<in> set acl. acl_matches a q \<noteq> None"
  shows "acl_check_loop acl q (int n) match = Some
     (case find (\<lambda>a. acl_matches a q = Some True \<and> acl_blocked a) acl of
        Some a \<Rightarrow> (-1, Some a)
      | None \<Rightarrow> (case match of Some (i, a) \<Rightarrow> (i, Some a)
        | None \<Rightarrow> (case find (\<lambda>(i, a). acl_matches a q = Some True) (List.enumerate n acl) of
            Some (i, a) \<Rightarrow> (int i, Some a)
          | None \<Rightarrow> (-1, None))))"
  using assms
proof (induction acl arbitrary: n match)
  case (Cons a acl)
  then obtain m where m: "acl_matches a q = Some m" by auto
  have IH: "acl_check_loop acl q (int n + 1) match = Some
     (case find (\<lambda>a. acl_matches a q = Some True \<and> acl_blocked a) acl of
        Some a \<Rightarrow> (-1, Some a)
      | None \<Rightarrow> (case match of Some (i, a) \<Rightarrow> (i, Some a)
        | None \<Rightarrow> (case find (\<lambda>(i, a). acl_matches a q = Some True) (List.enumerate (Suc n) acl) of
            Some (i, a) \<Rightarrow> (int i, Some a)
          | None \<Rightarrow> (-1, None))))" for match
    using Cons.IH [of "Suc n" match] Cons.prems by (simp add: add.commute)
  show ?case using m by (cases match) (auto simp: IH split: option.splits)
qed (simp split: option.splits)

lemma acl_check_incoming_verdict:
  "\<forall>a \<in> set acl. acl_matches a q \<noteq> None \<Longrightarrow> acl_check_incoming acl q = Some (acl_verdict acl q)"
  using acl_check_loop_spec [of acl q 0 None] by (simp add: acl_check_incoming_def acl_verdict_def split: option.splits)

lemma acl_key_matches_keyed:
  assumes "acl_key_matches a q = Some True" "\<not> acl_blocked a"
  shows "if acl_nokey a then tr_status (q_tsig q) = TSIG_NOT_PRESENT
    else tr_status (q_tsig q) = TSIG_OK \<and> tr_error_code (q_tsig q) = TSIG_ERROR_NOERROR \<and>
      (\<exists>ko k kn. acl_key_options a = Some ko \<and> ko_tsig_key ko = Some k \<and> tr_key_name (q_tsig q) = Some kn \<and>
         dname_compare kn (tk_name k) = Some 0)"
  using assms by (auto simp: acl_key_matches_def Option.bind_eq_Some_conv split: if_splits option.splits)

text \<open>An address and the same address as a host entry do not match, because the host is read at an offset.\<close>

lemma acl_host_mismatch:
  assumes "acl_is_ipv6 a = False" "acl_port a = 0" "acl_rangetype a = acl_range_single" "acl_addr a = [192, 0, 2, 1] @ replicate 12 0"
    "acl_mask a = replicate 16 0"
  shows "acl_addr_matches_host a a = Some False"
  using assms by (simp add: acl_addr_matches_host_def acl_addr_matches_ipv4host_def acl_addr_matches_iphost_def Let_def eval_nat_numeral)

text \<open>The range 10.0.0.1 to 10.0.1.0 leaves 10.0.0.2 out, because the words are compared in the order of the host.\<close>

lemma acl_range_host_order: "acl_addr_match_range [10, 0, 0, 1] [10, 0, 0, 2] [10, 0, 1, 0] 4 = Some False"
  by (simp add: acl_addr_match_range_def word_at_def le_word_def)

end
