(* ===== verification/Axfr.thy ===== *)
theory Axfr
  imports Query_Answer Acl
begin

text \<open>
  Zone transfers (\<open>axfr.c\<close>), and the parts of \<open>nsd.h\<close> and \<open>query.c\<close> they share with the other kinds of queries.

  The record \<open>nsd\<close> has the fields of \<open>struct nsd\<close> and of the options that processing a query uses. The search for the
  options of a zone is a field, as is the outcome of writing to the socket of the parent process; what is
  written there is kept in \<open>n_passed\<close>. Statistics and log messages are left out.
\<close>

unbundle bit_operations_syntax

record zone_options =
  zo_allow_notify :: "acl_options list"
  zo_request_xfr :: "acl_options list"
  zo_provide_xfr :: "acl_options list"

record 'c nsd =
  n_db :: namedb
  n_zone_options :: "dname \<Rightarrow> zone_options option"
  n_this_child :: bool
  n_identity :: "byte list"
  n_version :: "byte list"
  n_hide_version :: bool
  n_nsid :: "byte list"
  n_edns_ipv4 :: edns_data
  n_edns_ipv6 :: edns_data
  n_ipv4_edns_size :: nat
  n_ipv6_edns_size :: nat
  n_minimal_responses :: bool
  n_round_robin :: "nat option"
  n_err_limit_time :: u64
  n_err_limit_count :: u32
  n_tsig :: "'c tsig_state"
  n_ipc_ok :: bool
  n_passed :: "(byte list \<times> int \<times> int) list"

definition RCODE_FORMAT :: byte where "RCODE_FORMAT = 1"
definition RCODE_IMPL :: byte where "RCODE_IMPL = 4"
definition RCODE_NOTAUTH :: byte where "RCODE_NOTAUTH = 9"

definition AXFR_MAX_MESSAGE_LEN :: nat where "AXFR_MAX_MESSAGE_LEN = MAX_COMPRESSION_OFFSET"
definition AXFR_TSIG_SIGN_EVERY_NTH :: nat where "AXFR_TSIG_SIGN_EVERY_NTH = 96"

definition edit_packet :: "(buffer \<Rightarrow> buffer option) \<Rightarrow> 'c query \<Rightarrow> 'c query option" where
  "edit_packet f q = put_packet q (f (q_packet q))"

definition query_prepare_response :: "'c tsig_state \<Rightarrow> 'c query \<Rightarrow> 'c query option" where
  "query_prepare_response st q = do {
     p \<leftarrow> buffer_set_position (q_packet q) (buf_limit (q_packet q));
     p \<leftarrow> buffer_set_limit p (buf_capacity p);
     flags \<leftarrow> FLAGS p;
     p \<leftarrow> FLAGS_SET p ((flags AND 0x0100) OR 0x8000);
     Some (q\<lparr>q_packet := p, q_reserved_space := edns_reserved_space (q_edns q) + tsig_reserved_space st (q_tsig q)\<rparr>) }"

subsection \<open>The loops over the zone\<close>

text \<open>The RRsets of a domain from the current one on.\<close>

definition rrsets_from :: "namedb \<Rightarrow> domain_id \<Rightarrow> rrset_id \<Rightarrow> rrset_id list option" where
  "rrsets_from db d r = do { dm \<leftarrow> db_domains db d; Some (dropWhile (\<lambda>x. x \<noteq> r) (dom_rrsets dm)) }"

text \<open>The flag is false when a record did not fit.\<close>

fun axfr_rrs :: "namedb \<Rightarrow> domain_id \<Rightarrow> rr list \<Rightarrow> 'c query \<Rightarrow> u16 \<Rightarrow> (bool \<times> u16 \<times> 'c query) option" where
  "axfr_rrs db d [] q total_added = Some (True, total_added, q)"
| "axfr_rrs db d (r # rs) q total_added = do {
     (added, q) \<leftarrow> packet_encode_rr db q d r (rr_ttl r);
     if \<not> added then Some (False, total_added, q)
     else axfr_rrs db d rs (q\<lparr>q_axfr_current_rr := q_axfr_current_rr q + 1\<rparr>) (total_added + 1) }"

fun axfr_rrsets :: "namedb \<Rightarrow> zone_id \<Rightarrow> rrset_id option \<Rightarrow> domain_id \<Rightarrow> rrset_id list \<Rightarrow> 'c query \<Rightarrow> u16 \<Rightarrow> (bool \<times> u16 \<times> 'c query) option" where
  "axfr_rrsets db z soa d [] q total_added = Some (True, total_added, q)"
| "axfr_rrsets db z soa d (r # rs) q total_added = do {
     rset \<leftarrow> db_rrsets db r;
     (ok, total_added, q) \<leftarrow> (if Some r \<noteq> soa \<and> rs_zone rset = z
                        then axfr_rrs db d (drop (q_axfr_current_rr q) (rs_rrs rset)) q total_added
                        else Some (True, total_added, q));
     if \<not> ok then Some (False, total_added, q)
     else axfr_rrsets db z soa d rs
            (q\<lparr>q_axfr_current_rrset := (case rs of [] \<Rightarrow> None | n # _ \<Rightarrow> Some n), q_axfr_current_rr := 0\<rparr>) total_added }"

text \<open>The first argument bounds the number of domains; there are no more than names in the table.\<close>

fun axfr_domains :: "nat \<Rightarrow> namedb \<Rightarrow> zone_id \<Rightarrow> rrset_id option \<Rightarrow> dname \<Rightarrow> 'c query \<Rightarrow> u16 \<Rightarrow> (bool \<times> u16 \<times> 'c query) option" where
  "axfr_domains 0 db z soa apex q total_added = None"
| "axfr_domains (Suc n) db z soa apex q total_added =
     (case q_axfr_current_domain q of
        None \<Rightarrow> Some (True, total_added, q)
      | Some d \<Rightarrow> do {
          dn \<leftarrow> domain_dname db d;
          sub \<leftarrow> dname_is_subdomain dn apex;
          if \<not> sub then Some (True, total_added, q)
          else do {
            q \<leftarrow> (case q_axfr_current_rrset q of
                    Some _ \<Rightarrow> Some q
                  | None \<Rightarrow> do {
                      r \<leftarrow> domain_find_any_rrset db d z;
                      Some (q\<lparr>q_axfr_current_rrset := r, q_axfr_current_rr := 0\<rparr>) });
            rs \<leftarrow> (case q_axfr_current_rrset q of None \<Rightarrow> Some [] | Some r \<Rightarrow> rrsets_from db d r);
            (ok, total_added, q) \<leftarrow> axfr_rrsets db z soa d rs q total_added;
            if \<not> ok then Some (False, total_added, q)
            else do {
              next \<leftarrow> domain_next db d;
              axfr_domains n db z soa apex (q\<lparr>q_axfr_current_domain := next\<rparr>) total_added } } })"

subsection \<open>The messages of a transfer\<close>

definition axfr_soa :: "namedb \<Rightarrow> zone \<Rightarrow> 'c query \<Rightarrow> (bool \<times> 'c query) option" where
  "axfr_soa db zn q = do {
     soa \<leftarrow> zone_soa_rrset zn;
     rset \<leftarrow> db_rrsets db soa;
     assert_c (length (rs_rrs rset) = 1);
     apex \<leftarrow> zone_apex zn;
     packet_encode_rr db q apex (rs_rrs rset ! 0) (rr_ttl (rs_rrs rset ! 0)) }"

text \<open>
  The first message of a transfer: the result is \<^term>\<open>None\<close> inside when there is no such zone. That the first SOA record does not
  fit aborts the server.
\<close>

definition axfr_start :: "namedb \<Rightarrow> 'c query \<Rightarrow> (zone_id option \<times> 'c query) option" where
  "axfr_start db q = do {
     qn \<leftarrow> q_qname q;
     (exact, cm, ce) \<leftarrow> namedb_lookup db qn;
     zo \<leftarrow> domain_find_zone db ce;
     let q = q\<lparr>q_axfr_zone := zo\<rparr>;
     zn \<leftarrow> (case zo of None \<Rightarrow> Some None | Some z \<Rightarrow> do { zn \<leftarrow> db_zones db z; Some (Some zn) });
     case (zo, zn) of
       (Some z, Some zn) \<Rightarrow>
         if \<not> exact \<or> zone_apex zn \<noteq> Some ce \<or> zone_soa_rrset zn = None
         then do { q \<leftarrow> edit_packet (\<lambda>p. RCODE_SET p RCODE_NOTAUTH) q; Some (None, q) }
         else do {
           let q = q\<lparr>q_axfr_current_domain := Some ce, q_axfr_current_rrset := None, q_axfr_current_rr := 0,
                     q_tsig_sign_it := (if tr_status (q_tsig q) = TSIG_OK then True else q_tsig_sign_it q)\<rparr>;
           q \<leftarrow> query_add_compression_domain db q ce (of_nat QHEADERSZ);
           (added, q) \<leftarrow> axfr_soa db zn q;
           assert_c added;
           Some (Some z, q) }
     | _ \<Rightarrow> do { q \<leftarrow> edit_packet (\<lambda>p. RCODE_SET p RCODE_NOTAUTH) q; Some (None, q) } }"

text \<open>A later message has no question and no EDNS record.\<close>

definition axfr_continue :: "'c tsig_state \<Rightarrow> 'c query \<Rightarrow> 'c query option" where
  "axfr_continue st q = do {
     let q = q\<lparr>q_edns := (q_edns q)\<lparr>ed_status := EDNS_NOT_PRESENT\<rparr>\<rparr>;
     q \<leftarrow> edit_packet (\<lambda>p. buffer_set_limit p QHEADERSZ) q;
     q \<leftarrow> edit_packet (\<lambda>p. QDCOUNT_SET p 0) q;
     query_prepare_response st q }"

text \<open>The records of the message, the closing SOA record when the zone is complete, and the header.\<close>

definition axfr_fill :: "namedb \<Rightarrow> zone_id \<Rightarrow> zone \<Rightarrow> 'c query \<Rightarrow> u16 \<Rightarrow> (u16 \<times> 'c query) option" where
  "axfr_fill db z zn q total_added = do {
     apex \<leftarrow> zone_apex zn;
     an \<leftarrow> domain_dname db apex;
     (ok, total_added, q) \<leftarrow> axfr_domains (rb_count (dt_names (db_table db)) + 1) db z (zone_soa_rrset zn) an q total_added;
     if \<not> ok then Some (total_added, q)
     else do {
       (added, q) \<leftarrow> axfr_soa db zn q;
       if added then Some (total_added + 1, q\<lparr>q_tsig_sign_it := True, q_axfr_is_done := True\<rparr>) else Some (total_added, q) } }"

definition axfr_header :: "'c query \<Rightarrow> u16 \<Rightarrow> 'c query option" where
  "axfr_header q total_added = do {
     q \<leftarrow> edit_packet AA_SET q;
     q \<leftarrow> edit_packet (\<lambda>p. ANCOUNT_SET p total_added) q;
     q \<leftarrow> edit_packet (\<lambda>p. NSCOUNT_SET p 0) q;
     q \<leftarrow> edit_packet (\<lambda>p. ARCOUNT_SET p 0) q;
     Some (if tr_status (q_tsig q) = TSIG_OK \<and> tr_updates_since_last_prepare (q_tsig q) \<ge> AXFR_TSIG_SIGN_EVERY_NTH
           then q\<lparr>q_tsig_sign_it := True\<rparr> else q) }"

definition query_axfr :: "'c nsd \<Rightarrow> 'c query \<Rightarrow> (query_state \<times> 'c query) option" where
  "query_axfr nsd q =
     (if q_axfr_is_done q then Some (QUERY_PROCESSED, q)
      else do {
        let db = n_db nsd;
        let q = q\<lparr>q_maxlen := min (q_maxlen q) AXFR_MAX_MESSAGE_LEN\<rparr>;
        assert_c (\<not> query_overflow q);
        let q = q\<lparr>q_tsig_prepare_it := q_tsig_sign_it q, q_tsig_update_it := True, q_tsig_sign_it := False\<rparr>;
        (zo, total_added, q) \<leftarrow>
          (case q_axfr_zone q of
             None \<Rightarrow> do { (zo, q) \<leftarrow> axfr_start db q; Some (zo, 1, q) }
           | Some z \<Rightarrow> do { q \<leftarrow> axfr_continue (n_tsig nsd) q; Some (Some z, 0, q) });
        case zo of
          None \<Rightarrow> Some (QUERY_PROCESSED, q)
        | Some z \<Rightarrow> do {
            zn \<leftarrow> db_zones db z;
            (total_added, q) \<leftarrow> axfr_fill db z zn q total_added;
            q \<leftarrow> axfr_header q total_added;
            q \<leftarrow> query_clear_compression_tables db q;
            Some (QUERY_IN_AXFR, q) } })"

definition answer_axfr_ixfr :: "'c nsd \<Rightarrow> 'c query \<Rightarrow> (query_state \<times> 'c query) option" where
  "answer_axfr_ixfr nsd q =
     (if q_qtype q = TYPE_AXFR \<and> q_tcp q then do {
        qn \<leftarrow> q_qname q;
        case n_zone_options nsd qn of
          None \<Rightarrow> do { q \<leftarrow> edit_packet (\<lambda>p. RCODE_SET p RCODE_NOTAUTH) q; Some (QUERY_PROCESSED, q) }
        | Some zo \<Rightarrow> do {
            (i, why) \<leftarrow> acl_check_incoming (zo_provide_xfr zo) q;
            if i = -1 then do { q \<leftarrow> edit_packet (\<lambda>p. RCODE_SET p RCODE_REFUSE) q; Some (QUERY_PROCESSED, q) }
            else query_axfr nsd q } }
      else if q_qtype q = TYPE_AXFR \<or> q_qtype q = TYPE_IXFR
      then do { q \<leftarrow> edit_packet (\<lambda>p. RCODE_SET p RCODE_IMPL) q; Some (QUERY_PROCESSED, q) }
      else Some (QUERY_DISCARDED, q))"

end
