(* ===== verification/Query.thy ===== *)
theory Query
  imports Axfr
begin

text \<open>
  Processing a query (\<open>query.c\<close>): parsing and checking it, TSIG and EDNS, notifies, the CHAOS class, the dispatch to
  zone transfers and answers, and the records that are added at the end.

  The first argument \<open>now\<close> of the functions is the time. A result is the state, the query with its packet, and the server.
  In the configuration for Linux \<open>IPV6_MTU\<close> is defined, so that \<open>process_edns\<close> has no limit for IPv6 of its own.
\<close>

unbundle bit_operations_syntax

datatype nsd_rc = NSD_RC_DISCARD | NSD_RC_OK | NSD_RC_FORMAT | NSD_RC_SERVFAIL | NSD_RC_NXDOMAIN | NSD_RC_IMPL | NSD_RC_REFUSE
  | NSD_RC_NOTAUTH

fun rcode_of :: "nsd_rc \<Rightarrow> byte" where
  "rcode_of NSD_RC_DISCARD = 255"
| "rcode_of NSD_RC_OK = RCODE_OK"
| "rcode_of NSD_RC_FORMAT = RCODE_FORMAT"
| "rcode_of NSD_RC_SERVFAIL = RCODE_SERVFAIL"
| "rcode_of NSD_RC_NXDOMAIN = RCODE_NXDOMAIN"
| "rcode_of NSD_RC_IMPL = RCODE_IMPL"
| "rcode_of NSD_RC_REFUSE = RCODE_REFUSE"
| "rcode_of NSD_RC_NOTAUTH = RCODE_NOTAUTH"

definition OPCODE_QUERY :: byte where "OPCODE_QUERY = 0"
definition OPCODE_NOTIFY :: byte where "OPCODE_NOTIFY = 4"
definition ERROR_RATELIMIT :: u32 where "ERROR_RATELIMIT = 100"
definition UDP_MAX_MESSAGE_LEN :: nat where "UDP_MAX_MESSAGE_LEN = 512"

definition AD_CLR :: "buffer \<Rightarrow> buffer option" where "AD_CLR = hdr_update 3 (\<lambda>v. v AND NOT 0x20)"

type_synonym 'c served = "query_state \<times> 'c query \<times> 'c nsd"

subsection \<open>Errors\<close>

definition query_error :: "'c query \<Rightarrow> nsd_rc \<Rightarrow> (query_state \<times> 'c query) option" where
  "query_error q rcode =
     (if rcode = NSD_RC_DISCARD then Some (QUERY_DISCARDED, q)
      else do {
        p \<leftarrow> buffer_clear (q_packet q);
        p \<leftarrow> QR_SET p;
        p \<leftarrow> AD_CLR p;
        p \<leftarrow> RCODE_SET p (rcode_of rcode);
        p \<leftarrow> QDCOUNT_SET p 0;
        p \<leftarrow> ANCOUNT_SET p 0;
        p \<leftarrow> NSCOUNT_SET p 0;
        p \<leftarrow> ARCOUNT_SET p 0;
        p \<leftarrow> buffer_set_position p QHEADERSZ;
        Some (QUERY_PROCESSED, q\<lparr>q_packet := p\<rparr>) })"

definition query_ratelimit_err :: "u64 \<Rightarrow> 'c nsd \<Rightarrow> bool \<times> 'c nsd" where
  "query_ratelimit_err now nsd =
     (if n_err_limit_time nsd = now
      then (n_err_limit_count nsd > ERROR_RATELIMIT, nsd\<lparr>n_err_limit_count := n_err_limit_count nsd + 1\<rparr>)
      else (False, nsd\<lparr>n_err_limit_time := now, n_err_limit_count := 1\<rparr>))"

definition with_nsd :: "'c nsd \<Rightarrow> (query_state \<times> 'c query) option \<Rightarrow> 'c served option" where
  "with_nsd nsd r = map_option (\<lambda>(s, q). (s, q, nsd)) r"

definition query_formerr :: "u64 \<Rightarrow> 'c nsd \<Rightarrow> 'c query \<Rightarrow> 'c served option" where
  "query_formerr now nsd q = do {
     opcode \<leftarrow> OPCODE (q_packet q);
     let (limited, nsd) = query_ratelimit_err now nsd;
     if limited then Some (QUERY_DISCARDED, q, nsd)
     else do {
       flags \<leftarrow> FLAGS (q_packet q);
       q \<leftarrow> edit_packet (\<lambda>p. FLAGS_SET p (flags AND 0x0100)) q;
       q \<leftarrow> edit_packet (\<lambda>p. OPCODE_SET p opcode) q;
       with_nsd nsd (query_error q NSD_RC_FORMAT) } }"

text \<open>Opcodes that are not implemented.\<close>

definition query_notimpl :: "u64 \<Rightarrow> 'c nsd \<Rightarrow> 'c query \<Rightarrow> 'c served option" where
  "query_notimpl now nsd q =
     (let (limited, nsd) = query_ratelimit_err now nsd in
      if limited then Some (QUERY_DISCARDED, q, nsd) else with_nsd nsd (query_error q NSD_RC_IMPL))"

subsection \<open>The query structure\<close>

definition query_reset :: "'c query \<Rightarrow> nat \<Rightarrow> bool \<Rightarrow> 'c query option" where
  "query_reset q maxlen is_tcp = do {
     p \<leftarrow> buffer_clear (q_packet q);
     Some (q\<lparr>q_maxlen := maxlen, q_reserved_space := 0, q_packet := p, q_edns := edns_init_record,
       q_tsig := tsig_init_record (q_tsig q) None None, q_tsig_prepare_it := True, q_tsig_update_it := True, q_tsig_sign_it := True,
       q_tcp := is_tcp, q_qname := None, q_qtype := 0, q_qclass := 0, q_zone := None, q_opcode := 0, q_cname_count := 0,
       q_delegation_domain := None, q_delegation_rrset := None, q_compressed_dnames := [], q_number_temporary_domains := 0,
       q_axfr_is_done := False, q_axfr_zone := None, q_axfr_current_domain := None, q_axfr_current_rrset := None,
       q_axfr_current_rr := 0, q_wildcard_domain := None\<rparr>) }"

text \<open>The name is always the query name in the packet, at offset \<open>at\<close>; the other case of \<open>query_addtxt\<close> is not used.\<close>

definition query_addtxt :: "'c query \<Rightarrow> nat \<Rightarrow> u16 \<Rightarrow> u32 \<Rightarrow> byte list \<Rightarrow> 'c query option" where
  "query_addtxt q at klass ttl txt = do {
     assert_c (length txt \<le> 255 \<and> at \<le> buf_position (q_packet q));
     p \<leftarrow> buffer_write_u16 (q_packet q) (0xc000 OR of_nat at);
     p \<leftarrow> buffer_write_u16 p TYPE_TXT;
     p \<leftarrow> buffer_write_u16 p klass;
     p \<leftarrow> buffer_write_u32 p ttl;
     p \<leftarrow> buffer_write_u16 p (of_nat (length txt) + 1);
     p \<leftarrow> buffer_write_u8 p (of_nat (length txt));
     p \<leftarrow> buffer_write p txt;
     Some (q\<lparr>q_packet := p\<rparr>) }"

definition process_query_section :: "'c query \<Rightarrow> (bool \<times> 'c query) option" where
  "process_query_section q = do {
     p \<leftarrow> buffer_set_position (q_packet q) QHEADERSZ;
     (r, p) \<leftarrow> packet_read_query_section p;
     case r of
       None \<Rightarrow> Some (False, q\<lparr>q_packet := p\<rparr>)
     | Some (qnamebuf, qtype, qclass) \<Rightarrow> do {
         qname \<leftarrow> dname_make qnamebuf True;
         Some (True, q\<lparr>q_packet := p, q_qtype := qtype, q_qclass := qclass, q_qname := qname\<rparr>) } }"

definition process_edns :: "'c nsd \<Rightarrow> 'c query \<Rightarrow> (nsd_rc \<times> 'c query) option" where
  "process_edns nsd q =
     (case ed_status (q_edns q) of
        EDNS_ERROR \<Rightarrow> Some (NSD_RC_FORMAT, q)
      | EDNS_NOT_PRESENT \<Rightarrow> Some (NSD_RC_OK, q)
      | EDNS_OK \<Rightarrow> do {
          let edns_size = (if is_in6 (q_addr q) then n_ipv6_edns_size nsd else n_ipv4_edns_size nsd);
          let q = (if \<not> q_tcp q \<and> ed_maxlen (q_edns q) > UDP_MAX_MESSAGE_LEN
                   then q\<lparr>q_maxlen := (if ed_maxlen (q_edns q) < edns_size then ed_maxlen (q_edns q) else edns_size)\<rparr>
                   else q);
          p \<leftarrow> buffer_set_position (q_packet q) (ed_position (q_edns q));
          p \<leftarrow> buffer_set_limit p (ed_position (q_edns q));
          ar \<leftarrow> ARCOUNT p;
          p \<leftarrow> ARCOUNT_SET p (ar - 1);
          Some (NSD_RC_OK, q\<lparr>q_packet := p\<rparr>) })"

definition process_tsig :: "u64 \<Rightarrow> 'c tsig_state \<Rightarrow> 'c query \<Rightarrow> (nsd_rc \<times> 'c query) option" where
  "process_tsig now st q =
     (case tr_status (q_tsig q) of
        TSIG_ERROR \<Rightarrow> Some (NSD_RC_FORMAT, q)
      | TSIG_NOT_PRESENT \<Rightarrow> Some (NSD_RC_OK, q)
      | TSIG_OK \<Rightarrow> do {
          (ok, t) \<leftarrow> tsig_from_query now st (q_tsig q);
          if \<not> ok then Some (NSD_RC_NOTAUTH, q\<lparr>q_tsig := t\<rparr>)
          else do {
            p \<leftarrow> buffer_set_limit (q_packet q) (tr_position t);
            ar \<leftarrow> ARCOUNT p;
            p \<leftarrow> ARCOUNT_SET p (ar - 1);
            t \<leftarrow> tsig_prepare t;
            t \<leftarrow> tsig_update t p (buf_limit p);
            (ok, t) \<leftarrow> tsig_verify t;
            Some (if ok then NSD_RC_OK else NSD_RC_NOTAUTH, q\<lparr>q_tsig := t, q_packet := p\<rparr>) } })"

subsection \<open>Notifies and the CHAOS class\<close>

text \<open>
  An admitted notify is passed on with the numbers of the entries of the two access control lists. The flags
  in the reply are set in the packet as it was received.
\<close>

definition notify_reply :: "'c query \<Rightarrow> 'c query option" where
  "notify_reply q = do {
     p \<leftarrow> QR_SET (q_packet q);
     p \<leftarrow> AA_SET p;
     p \<leftarrow> ANCOUNT_SET p 0;
     p \<leftarrow> NSCOUNT_SET p 0;
     p \<leftarrow> ARCOUNT_SET p 0;
     p \<leftarrow> RCODE_SET p RCODE_OK;
     let pos = buf_position p;
     p \<leftarrow> buffer_clear p;
     p \<leftarrow> buffer_set_position p pos;
     Some (q\<lparr>q_packet := p\<rparr>) }"

definition answer_notify :: "u64 \<Rightarrow> 'c nsd \<Rightarrow> 'c query \<Rightarrow> 'c served option" where
  "answer_notify now nsd q = do {
     qn \<leftarrow> q_qname q;
     case n_zone_options nsd qn of
       None \<Rightarrow> with_nsd nsd (query_error q NSD_RC_NXDOMAIN)
     | Some zo \<Rightarrow>
         if \<not> n_this_child nsd then with_nsd nsd (query_error q NSD_RC_SERVFAIL)
         else do {
           ((found, t), p) \<leftarrow> tsig_find_rr (q_tsig q) (q_packet q);
           let q = q\<lparr>q_tsig := t, q_packet := p\<rparr>;
           if \<not> found then with_nsd nsd (query_error q NSD_RC_FORMAT)
           else do {
             (rc, q) \<leftarrow> process_tsig now (n_tsig nsd) q;
             if rc \<noteq> NSD_RC_OK then with_nsd nsd (query_error q rc)
             else do {
               (acl_num, why) \<leftarrow> acl_check_incoming (zo_allow_notify zo) q;
               if acl_num = -1 then with_nsd nsd (query_error q NSD_RC_REFUSE)
               else do {
                 (acl_num_xfr, _) \<leftarrow> acl_check_incoming (zo_request_xfr zo) q;
                 if buf_limit (q_packet q) > MAX_PACKET_SIZE then with_nsd nsd (query_error q NSD_RC_SERVFAIL)
                 else if \<not> n_ipc_ok nsd then with_nsd nsd (query_error q NSD_RC_SERVFAIL)
                 else do {
                   let nsd = nsd\<lparr>n_passed := n_passed nsd @ [(take (buf_limit (q_packet q)) (buf_data (q_packet q)), acl_num, acl_num_xfr)]\<rparr>;
                   q \<leftarrow> notify_reply q;
                   Some (QUERY_PROCESSED, q, nsd) } } } } } }"

definition chaos_id_names :: "byte list list" where
  "chaos_id_names = [[2, 0x69, 0x64, 6, 0x73, 0x65, 0x72, 0x76, 0x65, 0x72, 0],
     [8, 0x68, 0x6f, 0x73, 0x74, 0x6e, 0x61, 0x6d, 0x65, 4, 0x62, 0x69, 0x6e, 0x64, 0]]"

definition chaos_version_names :: "byte list list" where
  "chaos_version_names = [[7, 0x76, 0x65, 0x72, 0x73, 0x69, 0x6f, 0x6e, 6, 0x73, 0x65, 0x72, 0x76, 0x65, 0x72, 0],
     [7, 0x76, 0x65, 0x72, 0x73, 0x69, 0x6f, 0x6e, 4, 0x62, 0x69, 0x6e, 0x64, 0]]"

definition add_chaos_txt :: "'c query \<Rightarrow> byte list \<Rightarrow> 'c query option" where
  "add_chaos_txt q txt = do {
     q \<leftarrow> query_addtxt q QHEADERSZ CLASS_CH 0 txt;
     an \<leftarrow> ANCOUNT (q_packet q);
     edit_packet (\<lambda>p. ANCOUNT_SET p (an + 1)) q }"

definition answer_chaos :: "'c nsd \<Rightarrow> 'c query \<Rightarrow> (query_state \<times> 'c query) option" where
  "answer_chaos nsd q = do {
     q \<leftarrow> edit_packet AA_CLR q;
     qn \<leftarrow> q_qname q;
     q \<leftarrow> (if q_qtype q = TYPE_ANY \<or> q_qtype q = TYPE_TXT then
             if dname_name qn \<in> set chaos_id_names then add_chaos_txt q (n_identity nsd)
             else if dname_name qn \<in> set chaos_version_names \<and> \<not> n_hide_version nsd then add_chaos_txt q (n_version nsd)
             else edit_packet (\<lambda>p. RCODE_SET p RCODE_REFUSE) q
           else edit_packet (\<lambda>p. RCODE_SET p RCODE_REFUSE) q);
     Some (QUERY_PROCESSED, q) }"

subsection \<open>Processing a query\<close>

text \<open>A TSIG record, if there is one next. The flag is false on a format error; the number is that of the records left.\<close>

definition parse_tsig :: "u16 \<Rightarrow> 'c query \<Rightarrow> (bool \<times> u16 \<times> 'c query) option" where
  "parse_tsig arcount q = do {
     ((ok, t), p) \<leftarrow> tsig_parse_rr (q_tsig q) (q_packet q);
     Some (ok, if ok \<and> tr_status t \<noteq> TSIG_NOT_PRESENT then arcount - 1 else arcount, q\<lparr>q_tsig := t, q_packet := p\<rparr>) }"

definition parse_edns :: "nat \<Rightarrow> u16 \<Rightarrow> 'c query \<Rightarrow> (u16 \<times> 'c query) option" where
  "parse_edns nsid_len arcount q = do {
     ((ok, e), p) \<leftarrow> edns_parse_record nsid_len (q_edns q) (q_packet q);
     Some (if ok then arcount - 1 else arcount, q\<lparr>q_edns := e, q_packet := p\<rparr>) }"

definition parse_additional :: "nat \<Rightarrow> 'c query \<Rightarrow> (bool \<times> 'c query) option" where
  "parse_additional nsid_len q = do {
     ar \<leftarrow> ARCOUNT (q_packet q);
     (ok, ar, q) \<leftarrow> (if ar > 0 then parse_tsig ar q else Some (True, ar, q));
     if \<not> ok then Some (False, q)
     else do {
       (ar, q) \<leftarrow> (if ar > 0 then parse_edns nsid_len ar q else Some (ar, q));
       (ok, ar, q) \<leftarrow> (if ar > 0 \<and> tr_status (q_tsig q) = TSIG_NOT_PRESENT then parse_tsig ar q else Some (True, ar, q));
       Some (ok \<and> \<not> ar > 0, q) } }"

text \<open>The checks of the question and of the counts; the flag is false on a format error.\<close>

definition check_sections :: "'c query \<Rightarrow> (bool \<times> 'c query) option" where
  "check_sections q = do {
     qd \<leftarrow> QDCOUNT (q_packet q);
     if qd \<noteq> 1 then do { q \<leftarrow> edit_packet (\<lambda>p. FLAGS_SET p 0) q; Some (False, q) }
     else do {
       an \<leftarrow> ANCOUNT (q_packet q);
       ns \<leftarrow> NSCOUNT (q_packet q);
       if an \<noteq> 0 \<or> q_qtype q \<noteq> TYPE_IXFR \<and> ns \<noteq> 0 then Some (False, q)
       else if q_qtype q = TYPE_IXFR \<and> ns > 0 then do {
         (ok, p) \<leftarrow> repeat_read (packet_skip_rr False) (unat ns) (q_packet q);
         Some (ok, q\<lparr>q_packet := p\<rparr>) }
       else Some (True, q) } }"

text \<open>
  What is done before the answer is constructed: the result is the outcome when the query has been dealt with, and otherwise
  the query that is to be answered.
\<close>

definition query_prepare :: "u64 \<Rightarrow> 'c nsd \<Rightarrow> 'c query \<Rightarrow> ('c served + 'c query) option" where
  "query_prepare now nsd q = do {
     q \<leftarrow> edit_packet (\<lambda>p. buffer_set_limit p (buf_position p)) q;
     (rc, q) \<leftarrow> process_tsig now (n_tsig nsd) q;
     if rc \<noteq> NSD_RC_OK then map_option Inl (with_nsd nsd (query_error q rc))
     else do {
       (rc, q) \<leftarrow> process_edns nsd q;
       if rc \<noteq> NSD_RC_OK then map_option Inl (with_nsd nsd (query_error q NSD_RC_OK))
       else do {
         q \<leftarrow> query_prepare_response (n_tsig nsd) q;
         Some (Inr q) } } }"

definition query_parse :: "u64 \<Rightarrow> 'c nsd \<Rightarrow> 'c query \<Rightarrow> ('c served + 'c query) option" where
  "query_parse now nsd q =
     (if buf_limit (q_packet q) < QHEADERSZ then Some (Inl (QUERY_DISCARDED, q, nsd))
      else do {
        qr \<leftarrow> QR (q_packet q);
        if qr \<noteq> 0 then Some (Inl (QUERY_DISCARDED, q, nsd))
        else do {
          opcode \<leftarrow> OPCODE (q_packet q);
          let q = q\<lparr>q_opcode := opcode\<rparr>;
          if opcode \<noteq> OPCODE_QUERY \<and> opcode \<noteq> OPCODE_NOTIFY then map_option Inl (query_notimpl now nsd q)
          else do {
            rcode \<leftarrow> RCODE (q_packet q);
            (ok, q) \<leftarrow> (if rcode \<noteq> RCODE_OK then Some (False, q) else process_query_section q);
            if \<not> ok then map_option Inl (query_formerr now nsd q)
            else if opcode = OPCODE_NOTIFY then map_option Inl (answer_notify now nsd q)
            else do {
              (ok, q) \<leftarrow> check_sections q;
              if \<not> ok then map_option Inl (query_formerr now nsd q)
              else do {
                (ok, q) \<leftarrow> parse_additional (length (n_nsid nsd)) q;
                if \<not> ok then map_option Inl (query_formerr now nsd q)
                else query_prepare now nsd q } } } } })"

text \<open>The query that is to be answered: by class, then zone transfers, then everything else.\<close>

definition query_answer :: "'c nsd \<Rightarrow> 'c query \<Rightarrow> 'c served option" where
  "query_answer nsd q =
     (if q_qclass q \<noteq> CLASS_IN \<and> q_qclass q \<noteq> CLASS_ANY then
        if q_qclass q = CLASS_CH then with_nsd nsd (answer_chaos nsd q)
        else with_nsd nsd (query_error q NSD_RC_REFUSE)
      else do {
        (state, q) \<leftarrow> answer_axfr_ixfr nsd q;
        if state = QUERY_PROCESSED \<or> state = QUERY_IN_AXFR then Some (state, q, nsd)
        else do {
          (robin, q) \<leftarrow> answer_query (n_minimal_responses nsd) (n_db nsd) (n_round_robin nsd) q;
          Some (QUERY_PROCESSED, q, nsd\<lparr>n_round_robin := robin\<rparr>) } })"

definition query_process :: "u64 \<Rightarrow> 'c nsd \<Rightarrow> 'c query \<Rightarrow> 'c served option" where
  "query_process now nsd q = do {
     r \<leftarrow> query_parse now nsd q;
     case r of Inl x \<Rightarrow> Some x | Inr q \<Rightarrow> query_answer nsd q }"

subsection \<open>The records at the end of the packet\<close>

definition more_additional :: "'c query \<Rightarrow> 'c query option" where
  "more_additional q = do {
     ar \<leftarrow> ARCOUNT (q_packet q);
     edit_packet (\<lambda>p. ARCOUNT_SET p (ar + 1)) q }"

text \<open>The \<open>DO\<close> flag is the top bit of octet 7 of the fixed part of the OPT record.\<close>

definition opt_flags :: "edns_record \<Rightarrow> byte list \<Rightarrow> byte list option" where
  "opt_flags e opt = do { assert_c (7 < length opt); Some (opt[7 := (if ed_dnssec_ok e \<noteq> 0 then 0x80 else 0)]) }"

text \<open>The result has the constant data with the flag that was written.\<close>

definition add_opt :: "edns_data \<Rightarrow> byte list \<Rightarrow> 'c query \<Rightarrow> (edns_data \<times> 'c query) option" where
  "add_opt edns nsid q =
     (case ed_status (q_edns q) of
        EDNS_NOT_PRESENT \<Rightarrow> Some (edns, q)
      | EDNS_OK \<Rightarrow> do {
          opt \<leftarrow> opt_flags (q_edns q) (ed_ok edns);
          p \<leftarrow> buffer_write (q_packet q) (take OPT_LEN opt);
          av \<leftarrow> (if ed_opt_reserved_space (q_edns q) = 0 then Some False
                 else buffer_available p (2 + ed_opt_reserved_space (q_edns q)));
          p \<leftarrow> (if \<not> av then buffer_write p (take OPT_RDATA (ed_rdata_none edns))
                else do {
                  p \<leftarrow> buffer_write_u16 p (of_nat (ed_opt_reserved_space (q_edns q)));
                  if ed_nsid_flag (q_edns q) then do {
                    p \<leftarrow> buffer_write p (take OPT_HDR (ed_nsid edns));
                    buffer_write p nsid }
                  else Some p });
          q \<leftarrow> more_additional (q\<lparr>q_packet := p\<rparr>);
          Some (edns\<lparr>ed_ok := opt\<rparr>, q) }
      | EDNS_ERROR \<Rightarrow> do {
          opt \<leftarrow> opt_flags (q_edns q) (ed_error edns);
          p \<leftarrow> buffer_write (q_packet q) (take OPT_LEN opt);
          p \<leftarrow> buffer_write p (take OPT_RDATA (ed_rdata_none edns));
          q \<leftarrow> more_additional (q\<lparr>q_packet := p\<rparr>);
          Some (edns\<lparr>ed_error := opt\<rparr>, q) })"

definition add_tsig :: "u64 \<Rightarrow> 'c query \<Rightarrow> 'c query option" where
  "add_tsig now q =
     (let t = q_tsig q in
      if tr_status t = TSIG_NOT_PRESENT then Some q
      else if tr_status t = TSIG_ERROR \<or> tr_error_code t \<noteq> TSIG_ERROR_NOERROR then do {
        t \<leftarrow> tsig_error_reply t;
        p \<leftarrow> tsig_append_rr t (q_packet q);
        more_additional (q\<lparr>q_tsig := t, q_packet := p\<rparr>) }
      else do {
        t \<leftarrow> (if q_tsig_prepare_it q then tsig_prepare t else Some t);
        t \<leftarrow> (if q_tsig_update_it q then tsig_update t (q_packet q) (buf_position (q_packet q)) else Some t);
        if q_tsig_sign_it q then do {
          t \<leftarrow> tsig_sign now t;
          p \<leftarrow> tsig_append_rr t (q_packet q);
          more_additional (q\<lparr>q_tsig := t, q_packet := p\<rparr>) }
        else Some (q\<lparr>q_tsig := t\<rparr>) })"

definition query_add_optional :: "u64 \<Rightarrow> 'c nsd \<Rightarrow> 'c query \<Rightarrow> ('c query \<times> 'c nsd) option" where
  "query_add_optional now nsd q = do {
     rcode \<leftarrow> RCODE (q_packet q);
     if rcode = RCODE_FORMAT then Some (q, nsd)
     else do {
       let in6 = is_in6 (q_addr q);
       (edns, q) \<leftarrow> add_opt (if in6 then n_edns_ipv6 nsd else n_edns_ipv4 nsd) (n_nsid nsd) q;
       q \<leftarrow> add_tsig now q;
       Some (q, if in6 then nsd\<lparr>n_edns_ipv6 := edns\<rparr> else nsd\<lparr>n_edns_ipv4 := edns\<rparr>) } }"

end
