(* ===== verification/Query_Spec.thy ===== *)
theory Query_Spec
  imports Query
begin

text \<open>
  What processing a query does with any packet: every parser goes forward and stays inside the packet, no check
  fails an assertion, errors have the form of an error reply, and a query that is to be answered has been prepared for it.
\<close>

unbundle bit_operations_syntax

subsection \<open>Parsers that go forward\<close>

lemma wf_dname_dname_of: "valid_labels ls \<Longrightarrow> wf_dname (dname_of ls)"
  by (auto simp: wf_dname_def)

definition parses :: "nat \<Rightarrow> ('r \<Rightarrow> nat \<Rightarrow> bool) \<Rightarrow> buffer \<Rightarrow> ('r \<times> buffer) option \<Rightarrow> bool" where
  "parses s P b r \<longleftrightarrow> (\<exists>x q. r = Some (x, b\<lparr>buf_position := q\<rparr>) \<and> s \<le> q \<and> q \<le> buf_limit b \<and> P x q)"

lemma parsesE:
  assumes "parses s P b r"
  obtains x q where "r = Some (x, b\<lparr>buf_position := q\<rparr>)" "s \<le> q" "q \<le> buf_limit b" "P x q"
  using assms by (auto simp: parses_def)

lemma parses_Some: "s \<le> q \<Longrightarrow> q \<le> buf_limit b \<Longrightarrow> P x q \<Longrightarrow> parses s P b (Some (x, b\<lparr>buf_position := q\<rparr>))"
  by (auto simp: parses_def)

lemma parses_same: "s \<le> buf_position b \<Longrightarrow> buf_position b \<le> buf_limit b \<Longrightarrow> P x (buf_position b) \<Longrightarrow> parses s P b (Some (x, b))"
  using parses_Some [of s "buf_position b" b P x] by simp

lemma parses_bind:
  assumes "parses s' Q b m" "\<And>x q. s' \<le> q \<Longrightarrow> q \<le> buf_limit b \<Longrightarrow> Q x q \<Longrightarrow> parses s P b (f (x, b\<lparr>buf_position := q\<rparr>))"
  shows "parses s P b (m \<bind> f)"
  using assms(1) by (rule parsesE) (simp add: assms(2))

lemma parses_position [simp]: "parses s P (b\<lparr>buf_position := q\<rparr>) r = parses s P b r"
  by (simp add: parses_def)

lemma parses_from: "parses s' P b r \<Longrightarrow> s \<le> s' \<Longrightarrow> parses s P b r"
  by (fastforce simp: parses_def)

lemma name_parses:
  assumes "packet_ok b" "q \<le> buf_limit b"
    "\<And>q'. q' \<le> buf_limit b \<Longrightarrow> parses s P b (f (None, b\<lparr>buf_position := q'\<rparr>))"
    "\<And>ls q'. valid_labels ls \<Longrightarrow> q \<le> q' \<Longrightarrow> q' \<le> buf_limit b \<Longrightarrow> parses s P b (f (Some (dname_of ls), b\<lparr>buf_position := q'\<rparr>))"
  shows "parses s P b (dname_make_from_packet (b\<lparr>buf_position := q\<rparr>) ap norm \<bind> f)"
proof -
  have ok: "buffer_wf (b\<lparr>buf_position := q\<rparr>)" "buf_limit (b\<lparr>buf_position := q\<rparr>) \<le> MAX_PACKET_SIZE"
    using assms(1,2) by (auto simp: packet_ok_def)
  show ?thesis
  proof (cases rule: dname_make_from_packet_cases [OF ok, of ap norm])
    case (1 k ls e)
    then show ?thesis using name_at_end [OF 1(1)] assms(4) [of "norm_labels norm ls" e] by simp
  next
    case (2 q')
    then show ?thesis using assms(3) by simp
  qed
qed

definition tsig_complete :: "'c tsig_record \<Rightarrow> bool" where
  "tsig_complete t \<longleftrightarrow> (case tr_key_name t of None \<Rightarrow> False | Some n \<Rightarrow> wf_dname n) \<and>
     (case tr_algorithm_name t of None \<Rightarrow> False | Some n \<Rightarrow> wf_dname n) \<and>
     (case tr_mac_data t of None \<Rightarrow> False | Some m \<Rightarrow> length m = unat (tr_mac_size t)) \<and>
     (case tr_other_data t of None \<Rightarrow> False | Some m \<Rightarrow> length m = unat (tr_other_size t))"

lemma tsig_complete_sendable: "tsig_complete t \<Longrightarrow> \<exists>kl al mac od. tsig_sendable t kl al mac od"
  by (auto simp: tsig_complete_def tsig_sendable_def wf_dname_def split: option.splits)

text \<open>What is known of a TSIG record that has been parsed.\<close>

definition tsig_parsed :: "'c tsig_record \<Rightarrow> nat \<Rightarrow> bool \<times> 'c tsig_record \<Rightarrow> nat \<Rightarrow> bool" where
  "tsig_parsed t start r q \<longleftrightarrow> (case r of (ok, t') \<Rightarrow>
     tr_position t' = start \<and> tr_algorithm t' = tr_algorithm t \<and> tr_key t' = tr_key t \<and>
     tr_prior_mac_size t' = tr_prior_mac_size t \<and> tr_prior_mac_data t' = tr_prior_mac_data t \<and>
     (tr_status t' = TSIG_ERROR \<longrightarrow> \<not> ok) \<and> (ok \<longrightarrow> tr_key_name t' \<noteq> None) \<and>
     (tr_status t' = TSIG_OK \<longrightarrow> ok \<and> tsig_complete t'))"

lemma tsig_parse_rr_parses:
  assumes "packet_ok b"
  shows "parses (buf_position b) (tsig_parsed t (buf_position b)) b (tsig_parse_rr t b)"
proof -
  have b: "buf_position b \<le> buf_limit b" using packet_ok_bounds(1) [OF assms] .
  have l: "length (mem_read at k (buf_data b)) = k" if "at + k \<le> buf_limit b" for at k
    using that packet_ok_bounds(2) [OF assms] by simp
  note n = name_parses [OF assms, of "buf_position b", simplified, OF b]
  show ?thesis unfolding tsig_parse_rr_def Let_def
    by (rule n)
      (use assms b in \<open>auto simp: packet_exec l packet_ok_bounds tsig_parsed_def tsig_complete_def
        wf_dname_dname_of intro!: parses_Some name_parses parses_same\<close>)
qed

text \<open>An OPT record: its position, and the space for the options.\<close>

definition edns_parsed :: "nat \<Rightarrow> edns_record \<Rightarrow> nat \<Rightarrow> bool \<times> edns_record \<Rightarrow> nat \<Rightarrow> bool" where
  "edns_parsed nsid_len e start r q \<longleftrightarrow> (case r of (ok, e') \<Rightarrow> ed_position e' = start \<and>
     (ed_status e' \<noteq> ed_status e \<longrightarrow> ok) \<and> (edns_room nsid_len e \<longrightarrow> edns_room nsid_len e'))"

lemma edns_loop_parses:
  assumes "packet_ok b" "q + n \<le> buf_limit b" "s \<le> q"
    "\<And>ok e' q'. s \<le> q' \<Longrightarrow> q' \<le> buf_limit b \<Longrightarrow> ed_status e' = ed_status e \<Longrightarrow> ed_position e' = ed_position e \<Longrightarrow>
       (edns_room nsid_len e \<longrightarrow> edns_room nsid_len e') \<Longrightarrow> parses s P b (f ((ok, e'), b\<lparr>buf_position := q'\<rparr>))"
  shows "parses s P b (edns_option_loop nsid_len n (b\<lparr>buf_position := q\<rparr>) e \<bind> f)"
proof -
  have "buffer_wf (b\<lparr>buf_position := q\<rparr>)" using assms(1,2) by (simp add: packet_ok_def)
  then obtain ok e' q' where r: "edns_option_loop nsid_len n (b\<lparr>buf_position := q\<rparr>) e = Some ((ok, e'), b\<lparr>buf_position := q'\<rparr>)"
    "q' \<le> q + n" "ed_status e' = ed_status e" "ed_position e' = ed_position e" "q \<le> q'" "edns_room nsid_len e \<longrightarrow> edns_room nsid_len e'"
    using edns_option_loop_wf [of "b\<lparr>buf_position := q\<rparr>" n nsid_len e] assms(2) by auto
  then show ?thesis using assms(2,3) assms(4) [of q' e' ok] by simp
qed

lemma edns_room_update [simp]:
  "edns_room n (e\<lparr>ed_status := x\<rparr>) = edns_room n e" "edns_room n (e\<lparr>ed_maxlen := m\<rparr>) = edns_room n e"
  "edns_room n (e\<lparr>ed_dnssec_ok := d\<rparr>) = edns_room n e" "edns_room n (e\<lparr>ed_position := m\<rparr>) = edns_room n e"
  by (simp_all add: edns_room_def)

lemma edns_parse_record_parses:
  assumes "packet_ok b"
  shows "parses (buf_position b) (edns_parsed nsid_len e (buf_position b)) b (edns_parse_record nsid_len e b)"
proof -
  have b: "buf_position b \<le> buf_limit b" using packet_ok_bounds(1) [OF assms] .
  show ?thesis unfolding edns_parse_record_def Let_def
    using assms b
    by (auto simp: packet_exec OPT_LEN_def OPT_RDATA_def edns_parsed_def intro!: parses_Some parses_same edns_loop_parses)
qed

lemma packet_skip_dname_parses:
  assumes "packet_ok b"
  shows "parses (buf_position b) (\<lambda>_ _. True) b (packet_skip_dname b)"
  using assms
proof (induction "buf_limit b - buf_position b" arbitrary: b rule: less_induct)
  case less
  let ?n = "unat (buf_data b ! buf_position b)"
  have "parses (buf_position b) (\<lambda>_ _. True) b (packet_skip_dname (b\<lparr>buf_position := buf_position b + ?n + 1\<rparr>))"
    if "buf_position b + ?n + 1 \<le> buf_limit b"
    by (rule parses_from [of "buf_position b + ?n + 1"])
      (use less.hyps [of "b\<lparr>buf_position := buf_position b + ?n + 1\<rparr>"] less.prems that in simp_all)
  then show ?case
    using less.prems packet_ok_bounds(1) [OF less.prems]
    by (subst packet_skip_dname_wf) (auto simp: Let_def not_le Suc_le_eq intro: parses_Some parses_same)
qed

lemma packet_skip_rr_parses:
  assumes "packet_ok b"
  shows "parses (buf_position b) (\<lambda>_ _. True) b (packet_skip_rr qs b)"
  unfolding packet_skip_rr_def
  by (rule parses_bind [OF packet_skip_dname_parses [OF assms]])
    (use assms in \<open>auto simp: packet_exec intro!: parses_Some\<close>)

lemma repeat_skip_parses:
  assumes "packet_ok b"
  shows "parses (buf_position b) (\<lambda>_ _. True) b (repeat_read (packet_skip_rr qs) n b)"
  using assms
proof (induction n arbitrary: b)
  case 0
  then show ?case by (simp add: parses_same packet_ok_bounds)
next
  case (Suc n)
  show ?case unfolding repeat_read.simps
  proof (rule parses_bind [OF packet_skip_rr_parses [OF Suc.prems]])
    fix ok q
    assume q: "buf_position b \<le> q" "q \<le> buf_limit b"
    have "parses q (\<lambda>_ _. True) b (repeat_read (packet_skip_rr qs) n (b\<lparr>buf_position := q\<rparr>))"
      using Suc.IH [of "b\<lparr>buf_position := q\<rparr>"] Suc.prems q by simp
    then show "parses (buf_position b) (\<lambda>_ _. True) b (case (ok, b\<lparr>buf_position := q\<rparr>) of (ok, packet) \<Rightarrow>
        if \<not> ok then Some (False, packet) else repeat_read (packet_skip_rr qs) n packet)"
      using q by (auto intro: parses_from parses_Some)
  qed
qed

subsection \<open>Error replies\<close>

lemma byte_no_bit_8: "\<not> bit (x :: byte) 8"
  using bit_imp_le_length [of x 8] by auto

definition header_room :: "'c query \<Rightarrow> bool" where
  "header_room q \<longleftrightarrow> buffer_wf (q_packet q) \<and> QHEADERSZ \<le> buf_capacity (q_packet q)"

lemma header_bytes:
  assumes "QHEADERSZ \<le> length d"
  obtains h0 h1 h2 h3 h4 h5 h6 h7 h8 h9 h10 h11 r where "d = [h0, h1, h2, h3, h4, h5, h6, h7, h8, h9, h10, h11] @ r"
proof -
  have "\<exists>x y. xs = x # y \<and> n \<le> length y" if "Suc n \<le> length xs" for n and xs :: "'a list"
    using that by (cases xs) auto
  then have "\<exists>h0 h1 h2 h3 h4 h5 h6 h7 h8 h9 h10 h11 r. d = [h0, h1, h2, h3, h4, h5, h6, h7, h8, h9, h10, h11] @ r"
    using assms unfolding QHEADERSZ_def by (simp add: numeral_nat) metis
  then show thesis using that by blast
qed

definition error_data :: "byte \<Rightarrow> byte list \<Rightarrow> byte list" where
  "error_data rcode d = take 2 d @ [d ! 2 OR 0x80, (d ! 3 AND NOT 0x2f) OR rcode] @ replicate 8 0 @ drop QHEADERSZ d"

lemma replicate_8: "replicate 8 x = [x, x, x, x, x, x, x, x]"
  by (simp add: numeral_nat)

lemma query_error_spec:
  assumes "header_room q" "rc \<noteq> NSD_RC_DISCARD"
  shows "query_error q rc = Some (QUERY_PROCESSED,
    q\<lparr>q_packet := \<lparr>buf_position = QHEADERSZ, buf_limit = buf_capacity (q_packet q), buf_capacity = buf_capacity (q_packet q),
       buf_data = error_data (rcode_of rc) (buf_data (q_packet q)), buf_fixed = buf_fixed (q_packet q)\<rparr>\<rparr>)"
proof -
  obtain pos lim cap d f where p: "q_packet q = \<lparr>buf_position = pos, buf_limit = lim, buf_capacity = cap, buf_data = d, buf_fixed = f\<rparr>"
    by (cases "q_packet q")
  have w: "pos \<le> lim" "lim \<le> cap" "length d = cap" "cap < 2 ^ 64" "QHEADERSZ \<le> length d"
    using assms(1) by (auto simp: header_room_def p buffer_wf_unfold)
  obtain h0 h1 h2 h3 h4 h5 h6 h7 h8 h9 h10 h11 r where d: "d = [h0, h1, h2, h3, h4, h5, h6, h7, h8, h9, h10, h11] @ r"
    using header_bytes [OF w(5)] .
  have n: "(h3 AND -33) AND -16 = h3 AND -48" by (simp add: and.assoc)
  show ?thesis using w assms(2) unfolding p
    by (simp add: query_error_def p d buffer_clear_def buffer_invariant_def QR_SET_def AD_CLR_def RCODE_SET_def hdr_update_wf
        buffer_wf_unfold QDCOUNT_SET_def ANCOUNT_SET_def NSCOUNT_SET_def ARCOUNT_SET_def buffer_write_u16_at_def buffer_write_at_wf
        mem_write_def write_uint16_def buffer_set_position_def error_data_def QHEADERSZ_def n replicate_8)
qed

text \<open>An error reply as it is written over a packet, and its fields.\<close>

definition reply_packet :: "byte list \<Rightarrow> buffer \<Rightarrow> buffer" where
  "reply_packet d p = \<lparr>buf_position = QHEADERSZ, buf_limit = buf_capacity p, buf_capacity = buf_capacity p, buf_data = d, buf_fixed = buf_fixed p\<rparr>"

definition formerr_data :: "byte list \<Rightarrow> byte list" where
  "formerr_data d = take 2 d @ [(d ! 2 AND 0x79) OR 0x80, RCODE_FORMAT] @ replicate 8 0 @ drop QHEADERSZ d"

lemma formerr_flags:
  assumes "header_room q" "QHEADERSZ \<le> buf_limit (q_packet q)"
  shows "\<exists>oc fl q1 q2. OPCODE (q_packet q) = Some oc \<and> FLAGS (q_packet q) = Some fl \<and>
    edit_packet (\<lambda>p. FLAGS_SET p (fl AND 0x0100)) q = Some q1 \<and> edit_packet (\<lambda>p. OPCODE_SET p oc) q1 = Some q2 \<and>
    q2 = q\<lparr>q_packet := (q_packet q)\<lparr>buf_data := take 2 (buf_data (q_packet q)) @ [buf_data (q_packet q) ! 2 AND 0x79, 0] @
       drop 4 (buf_data (q_packet q))\<rparr>\<rparr>"
proof -
  obtain pos lim cap d f where p: "q_packet q = \<lparr>buf_position = pos, buf_limit = lim, buf_capacity = cap, buf_data = d, buf_fixed = f\<rparr>"
    by (cases "q_packet q")
  have w: "pos \<le> lim" "lim \<le> cap" "length d = cap" "cap < 2 ^ 64" "QHEADERSZ \<le> length d" "QHEADERSZ \<le> lim"
    using assms by (auto simp: header_room_def p buffer_wf_unfold)
  obtain h0 h1 h2 h3 h4 h5 h6 h7 h8 h9 h10 h11 r where d: "d = [h0, h1, h2, h3, h4, h5, h6, h7, h8, h9, h10, h11] @ r"
    using header_bytes [OF w(5)] .
  have wf: "buffer_wf (q_packet q)" using assms(1) by (simp add: header_room_def)
  have oc: "OPCODE (q_packet q) = Some (drop_bit 3 (h2 AND 0x78))"
    using wf w by (simp add: OPCODE_def p d hdr_get_wf QHEADERSZ_def)
  have fl: "FLAGS (q_packet q) = Some (read_uint16 [h2, h3])"
    using wf w by (simp add: FLAGS_def p d buffer_read_u16_at_wf QHEADERSZ_def mem_read_def)
  have b: "write_uint16 (read_uint16 [h2, h3] AND 0x0100) = [h2 AND 1, 0]"
    unfolding write_uint16_def read_uint16_def by (simp; intro conjI byte_eqI) (simp_all add: bit_simps byte_no_bit_8)
  have o: "((h2 AND 1) AND NOT 0x78) OR push_bit 3 (drop_bit 3 (h2 AND 0x78)) = h2 AND 0x79"
    by (rule byte_eqI) (simp_all add: bit_simps)
  let ?r = "[h4, h5, h6, h7, h8, h9, h10, h11] @ r"
  let ?q1 = "q\<lparr>q_packet := (q_packet q)\<lparr>buf_data := [h0, h1, h2 AND 1, 0] @ ?r\<rparr>\<rparr>"
  have dd: "buf_data (q_packet q) = [h0, h1, h2, h3] @ ?r" by (simp add: p d)
  have 1: "edit_packet (\<lambda>p. FLAGS_SET p (read_uint16 [h2, h3] AND 0x0100)) q = Some ?q1"
    unfolding edit_packet_def put_packet_def FLAGS_SET_def using hdr_write_u16(1) [OF wf assms(2), of 2 "read_uint16 [h2, h3] AND 0x0100"]
    by (simp add: b mem_write_def dd QHEADERSZ_def)
  have wf1: "buffer_wf (q_packet ?q1)" using wf by (simp add: buffer_wf_unfold dd)
  have 2: "edit_packet (\<lambda>p. OPCODE_SET p (drop_bit 3 (h2 AND 0x78))) ?q1 =
      Some (q\<lparr>q_packet := (q_packet q)\<lparr>buf_data := [h0, h1, h2 AND 0x79, 0] @ ?r\<rparr>\<rparr>)"
    unfolding edit_packet_def put_packet_def OPCODE_SET_def
    using hdr_update_wf [OF wf1, of 2 "\<lambda>v. v AND NOT 0x78 OR push_bit 3 (drop_bit 3 (h2 AND 0x78))"] assms(2) o
    by (simp add: QHEADERSZ_def)
  show ?thesis using oc fl 1 2 unfolding dd by fastforce
qed

lemma formerr_spec:
  assumes "header_room q" "QHEADERSZ \<le> buf_limit (q_packet q)" "query_ratelimit_err now nsd = (limited, nsd')"
  shows "query_formerr now nsd q = Some (if limited then (QUERY_DISCARDED, q, nsd')
    else (QUERY_PROCESSED, q\<lparr>q_packet := reply_packet (formerr_data (buf_data (q_packet q))) (q_packet q)\<rparr>, nsd'))"
proof -
  let ?d = "buf_data (q_packet q)"
  let ?q = "q\<lparr>q_packet := (q_packet q)\<lparr>buf_data := take 2 ?d @ [?d ! 2 AND 0x79, 0] @ drop 4 ?d\<rparr>\<rparr>"
  obtain oc fl q1 where h: "OPCODE (q_packet q) = Some oc" "FLAGS (q_packet q) = Some fl"
    "edit_packet (\<lambda>p. FLAGS_SET p (fl AND 0x0100)) q = Some q1" "edit_packet (\<lambda>p. OPCODE_SET p oc) q1 = Some ?q"
    using formerr_flags [OF assms(1,2)] by blast
  have len: "QHEADERSZ \<le> length ?d" using assms(1) by (auto simp: header_room_def buffer_wf_unfold)
  have "header_room ?q" using assms(1) len by (auto simp: header_room_def buffer_wf_unfold QHEADERSZ_def)
  then have e: "query_error ?q NSD_RC_FORMAT = Some (QUERY_PROCESSED, ?q\<lparr>q_packet := reply_packet (error_data RCODE_FORMAT (buf_data (q_packet ?q))) (q_packet q)\<rparr>)"
    using query_error_spec [of ?q NSD_RC_FORMAT] by (simp add: reply_packet_def)
  have "error_data RCODE_FORMAT (buf_data (q_packet ?q)) = formerr_data ?d"
    using len by (simp add: error_data_def formerr_data_def nth_append min_def QHEADERSZ_def)
  then show ?thesis using h e assms(3) by (simp add: query_formerr_def with_nsd_def)
qed

lemma notimpl_spec:
  assumes "header_room q" "query_ratelimit_err now nsd = (limited, nsd')"
  shows "query_notimpl now nsd q = Some (if limited then (QUERY_DISCARDED, q, nsd')
    else (QUERY_PROCESSED, q\<lparr>q_packet := reply_packet (error_data RCODE_IMPL (buf_data (q_packet q))) (q_packet q)\<rparr>, nsd'))"
  using query_error_spec [OF assms(1), of NSD_RC_IMPL] assms(2) by (simp add: query_notimpl_def with_nsd_def reply_packet_def)

subsection \<open>Parsing a query\<close>

text \<open>A query whose packet has just been received.\<close>

definition received :: "'c query \<Rightarrow> bool" where
  "received q \<longleftrightarrow> packet_ok (q_packet q) \<and> QHEADERSZ < buf_capacity (q_packet q) \<and> tr_status (q_tsig q) = TSIG_NOT_PRESENT \<and>
     tr_algorithm (q_tsig q) = None \<and> tr_key (q_tsig q) = None \<and> q_edns q = edns_init_record"

lemma received_header: "received q \<Longrightarrow> header_room q"
  by (simp add: received_def header_room_def packet_ok_def)

lemma process_query_section_spec:
  assumes "packet_ok p" "QHEADERSZ < buf_capacity p" "QHEADERSZ \<le> buf_limit p" "q_packet q = p"
  obtains "process_query_section q = Some (False, q\<lparr>q_packet := p\<lparr>buf_position := QHEADERSZ\<rparr>\<rparr>)"
  | k ls e where "name_at False (take (buf_limit p) (buf_data p)) QHEADERSZ k ls e" "valid_labels ls"
      "QHEADERSZ < e" "e + 4 \<le> buf_limit p"
      "process_query_section q = Some (True, q\<lparr>q_packet := p\<lparr>buf_position := e + 4\<rparr>, q_qtype := read_uint16 (mem_read e 2 (buf_data p)),
        q_qclass := read_uint16 (mem_read (e + 2) 2 (buf_data p)), q_qname := Some (dname_of (norm_labels True ls))\<rparr>)"
proof -
  let ?p = "p\<lparr>buf_position := QHEADERSZ\<rparr>" and ?P = "take (buf_limit p) (buf_data p)"
  have wf: "buffer_wf ?p" "QHEADERSZ < length (buf_data p)" using assms by (auto simp: packet_ok_def buffer_wf_unfold)
  have set: "buffer_set_position (q_packet q) QHEADERSZ = Some ?p" using assms(3,4) by (simp add: buffer_set_position_def)
  show thesis
  proof (cases "\<exists>k ls e. name_at False ?P QHEADERSZ k ls e \<and> length (wire ls) \<le> MAXDOMAINLEN \<and> e + 4 \<le> buf_limit p")
    case True
    then obtain k ls e where na: "name_at False ?P QHEADERSZ k ls e" "length (wire ls) \<le> MAXDOMAINLEN" "e + 4 \<le> buf_limit p" by blast
    then have v: "valid_labels ls" using name_at_valid [OF na(1)] by (simp add: valid_labels_def)
    have "packet_read_query_section ?p = Some (Some (wire ls, read_uint16 (mem_read e 2 (buf_data p)),
        read_uint16 (mem_read (e + 2) 2 (buf_data p))), p\<lparr>buf_position := e + 4\<rparr>)"
      using packet_read_query_section_spec [OF wf(1)] wf(2) na by auto
    then show thesis using that(2) [OF na(1) v _ na(3)] name_at_end [OF na(1)] dname_make_of_wire [OF v, of "[]" True] set
      by (simp add: process_query_section_def)
  next
    case False
    then have "packet_read_query_section ?p = Some (None, ?p)"
      using packet_read_query_section_spec [OF wf(1)] wf(2) by auto
    then show thesis using that(1) set by (simp add: process_query_section_def)
  qed
qed

text \<open>A packet that differs in the header only, which still has the ID.\<close>

definition header_only :: "buffer \<Rightarrow> buffer \<Rightarrow> bool" where
  "header_only p p' \<longleftrightarrow> buffer_wf p' \<and> QHEADERSZ \<le> buf_limit p' \<and> buf_capacity p' = buf_capacity p \<and> buf_fixed p' = buf_fixed p \<and>
     take 2 (buf_data p') = take 2 (buf_data p) \<and> drop QHEADERSZ (buf_data p') = drop QHEADERSZ (buf_data p)"

lemma header_only_room: "header_only p (q_packet q') \<Longrightarrow> header_room q'"
  by (auto simp: header_only_def header_room_def buffer_wf_unfold)

lemma header_only_position: "buffer_wf p \<Longrightarrow> QHEADERSZ \<le> buf_limit p \<Longrightarrow> x \<le> buf_limit p \<Longrightarrow> header_only p (p\<lparr>buf_position := x\<rparr>)"
  by (simp add: header_only_def)

lemma header_only_trans: "header_only p p' \<Longrightarrow> header_only p' p'' \<Longrightarrow> header_only p p''"
  by (simp add: header_only_def)

text \<open>The parts of a query that the parsers of the sections leave alone, and how far they have got.\<close>

lemma check_sections_spec:
  assumes "packet_ok (q_packet q)" "QHEADERSZ \<le> buf_limit (q_packet q)" "QHEADERSZ \<le> buf_position (q_packet q)"
  obtains q' where "check_sections q = Some (False, q')" "header_only (q_packet q) (q_packet q')"
  | x where "check_sections q = Some (True, q\<lparr>q_packet := (q_packet q)\<lparr>buf_position := x\<rparr>\<rparr>)" "buf_position (q_packet q) \<le> x"
      "x \<le> buf_limit (q_packet q)" "QDCOUNT (q_packet q) = Some 1"
proof -
  let ?p = "q_packet q"
  have wf: "buffer_wf ?p" "buf_limit ?p \<le> buf_capacity ?p" using assms(1) by (auto simp: packet_ok_def buffer_wf_unfold)
  obtain qd an ns ar where c: "QDCOUNT ?p = Some qd" "ANCOUNT ?p = Some an" "NSCOUNT ?p = Some ns" "ARCOUNT ?p = Some ar"
    using hdr_counts_wf [OF assms(1,2)] by auto
  show thesis
  proof (cases "qd = 1")
    case False
    have "edit_packet (\<lambda>p. FLAGS_SET p 0) q = Some (q\<lparr>q_packet := ?p\<lparr>buf_data := mem_write 2 (write_uint16 0) (buf_data ?p)\<rparr>\<rparr>)"
      using hdr_write_u16(1) [OF wf(1) assms(2), of 2 0] by (simp add: edit_packet_def put_packet_def FLAGS_SET_def QHEADERSZ_def)
    then have "check_sections q = Some (False, q\<lparr>q_packet := ?p\<lparr>buf_data := mem_write 2 (write_uint16 0) (buf_data ?p)\<rparr>\<rparr>)"
      using False c by (simp add: check_sections_def)
    moreover have "12 \<le> length (buf_data ?p)" using wf assms(2) by (simp add: buffer_wf_unfold QHEADERSZ_def)
    then have "header_only ?p (?p\<lparr>buf_data := mem_write 2 (write_uint16 0) (buf_data ?p)\<rparr>)"
      using wf assms(2) by (simp add: header_only_def buffer_wf_unfold drop_mem_write QHEADERSZ_def take_mem_write)
    ultimately show thesis by (intro that(1) [of "q\<lparr>q_packet := ?p\<lparr>buf_data := mem_write 2 (write_uint16 0) (buf_data ?p)\<rparr>\<rparr>"]) simp_all
  next
    case qd: True
    show thesis
    proof (cases "an \<noteq> 0 \<or> q_qtype q \<noteq> TYPE_IXFR \<and> ns \<noteq> 0")
      case True
      have "header_only ?p ?p" using wf(1) assms(2) by (simp add: header_only_def)
      moreover have "check_sections q = Some (False, q)" using True qd c by (simp add: check_sections_def)
      ultimately show thesis using that(1) by blast
    next
      case False
      then show thesis
      proof (cases "q_qtype q = TYPE_IXFR \<and> ns > 0")
        case True
        obtain ok x where x: "repeat_read (packet_skip_rr False) (unat ns) ?p = Some (ok, ?p\<lparr>buf_position := x\<rparr>)"
          "buf_position ?p \<le> x" "x \<le> buf_limit ?p" using repeat_skip_parses [OF assms(1)] by (rule parsesE)
        then have "check_sections q = Some (ok, q\<lparr>q_packet := ?p\<lparr>buf_position := x\<rparr>\<rparr>)"
          using False True qd c by (simp add: check_sections_def)
        moreover have "header_only ?p (?p\<lparr>buf_position := x\<rparr>)" using header_only_position wf(1) assms(2) x(3) .
        ultimately show thesis
          using that(1) [of "q\<lparr>q_packet := ?p\<lparr>buf_position := x\<rparr>\<rparr>"] that(2) [of x] x(2,3) assms(2) c(1) qd by (cases ok) simp_all
      next
        case no: False
        then have "check_sections q = Some (True, q)" using False qd c by (auto simp: check_sections_def)
        then show thesis using that(2) [of "buf_position ?p"] packet_ok_bounds(1) [OF assms(1)] c qd by simp
      qed
    qed
  qed
qed

text \<open>
  After the additional section: where the records were, and what is known of them. A TSIG record that is not the first
  record comes after the OPT record.
\<close>

definition additional_parsed :: "nat \<Rightarrow> nat \<Rightarrow> 'c query \<Rightarrow> nat \<Rightarrow> bool" where
  "additional_parsed nsid_len start q x \<longleftrightarrow>
     tr_status (q_tsig q) \<noteq> TSIG_ERROR \<and>
     (tr_status (q_tsig q) = TSIG_OK \<longrightarrow> tsig_complete (q_tsig q) \<and> start \<le> tr_position (q_tsig q) \<and> tr_position (q_tsig q) \<le> x \<and>
        tr_algorithm (q_tsig q) = None \<and> tr_key (q_tsig q) = None) \<and>
     (ed_status (q_edns q) \<noteq> EDNS_NOT_PRESENT \<longrightarrow> start \<le> ed_position (q_edns q) \<and> ed_position (q_edns q) \<le> x) \<and>
     edns_room nsid_len (q_edns q)"

lemma parse_tsig_spec:
  assumes "packet_ok (q_packet q)"
  obtains ok t x where
    "parse_tsig ar q = Some (ok, if ok \<and> tr_status t \<noteq> TSIG_NOT_PRESENT then ar - 1 else ar, q\<lparr>q_tsig := t, q_packet := (q_packet q)\<lparr>buf_position := x\<rparr>\<rparr>)"
    "buf_position (q_packet q) \<le> x" "x \<le> buf_limit (q_packet q)" "tsig_parsed (q_tsig q) (buf_position (q_packet q)) (ok, t) x"
    "tsig_parse_rr (q_tsig q) (q_packet q) = Some ((ok, t), (q_packet q)\<lparr>buf_position := x\<rparr>)"
proof -
  obtain r x where r: "tsig_parse_rr (q_tsig q) (q_packet q) = Some (r, (q_packet q)\<lparr>buf_position := x\<rparr>)"
    "buf_position (q_packet q) \<le> x" "x \<le> buf_limit (q_packet q)" "tsig_parsed (q_tsig q) (buf_position (q_packet q)) r x"
    using tsig_parse_rr_parses [OF assms] by (rule parsesE)
  then show thesis using that by (cases r) (simp add: parse_tsig_def)
qed

lemma parse_edns_spec:
  assumes "packet_ok (q_packet q)"
  obtains ok e x where
    "parse_edns n ar q = Some (if ok then ar - 1 else ar, q\<lparr>q_edns := e, q_packet := (q_packet q)\<lparr>buf_position := x\<rparr>\<rparr>)"
    "buf_position (q_packet q) \<le> x" "x \<le> buf_limit (q_packet q)" "edns_parsed n (q_edns q) (buf_position (q_packet q)) (ok, e) x"
proof -
  obtain r x where r: "edns_parse_record n (q_edns q) (q_packet q) = Some (r, (q_packet q)\<lparr>buf_position := x\<rparr>)"
    "buf_position (q_packet q) \<le> x" "x \<le> buf_limit (q_packet q)" "edns_parsed n (q_edns q) (buf_position (q_packet q)) r x"
    using edns_parse_record_parses [OF assms] by (rule parsesE)
  then show thesis using that by (cases r) (simp add: parse_edns_def)
qed

text \<open>A TSIG record that is followed by another record.\<close>

definition tsig_leads :: "'c query \<Rightarrow> bool" where
  "tsig_leads q \<longleftrightarrow> (case (ARCOUNT (q_packet q), tsig_parse_rr (q_tsig q) (q_packet q)) of
     (Some ar, Some ((ok, t), _)) \<Rightarrow> ar > 1 \<and> tr_status t \<noteq> TSIG_NOT_PRESENT
   | _ \<Rightarrow> False)"

lemma edns_init_room [simp]: "edns_room n edns_init_record"
  by (simp add: edns_room_def edns_init_record_def)

lemma u16_one: "0 < (a :: u16) \<Longrightarrow> \<not> 1 < a \<Longrightarrow> a = 1"
  by (simp add: word_less_nat_alt word_unat_eq_iff)

lemma parse_additional_spec:
  assumes ok: "packet_ok (q_packet q)" "QHEADERSZ \<le> buf_limit (q_packet q)" and lead: "\<not> tsig_leads q"
    and t: "tr_status (q_tsig q) = TSIG_NOT_PRESENT" "tr_algorithm (q_tsig q) = None" "tr_key (q_tsig q) = None"
    and e: "q_edns q = edns_init_record"
  obtains b t e x where "parse_additional n q = Some (b, q\<lparr>q_tsig := t, q_edns := e, q_packet := (q_packet q)\<lparr>buf_position := x\<rparr>\<rparr>)"
    "buf_position (q_packet q) \<le> x" "x \<le> buf_limit (q_packet q)"
    "b \<longrightarrow> additional_parsed n (buf_position (q_packet q)) (q\<lparr>q_tsig := t, q_edns := e\<rparr>) x \<and>
       (tr_status t = TSIG_OK \<longrightarrow> ed_status e \<noteq> EDNS_NOT_PRESENT \<longrightarrow> ed_position e \<le> tr_position t)"
proof -
  let ?p = "q_packet q"
  have b: "buf_position ?p \<le> buf_limit ?p" using packet_ok_bounds(1) [OF ok(1)] .
  obtain ar where ar: "ARCOUNT ?p = Some ar" using hdr_counts_wf [OF ok] by auto
  show thesis
  proof (cases "ar > 0")
    case False
    then have "parse_additional n q = Some (True, q)" using ar by (simp add: parse_additional_def)
    then show thesis using that [where b = "True" and t = "q_tsig q" and e = "q_edns q" and x = "buf_position ?p"] b t e by (simp add: additional_parsed_def edns_init_record_def edns_room_def)
  next
    case pos: True
    obtain ok1 t1 x1 where 1: "parse_tsig ar q = Some (ok1, if ok1 \<and> tr_status t1 \<noteq> TSIG_NOT_PRESENT then ar - 1 else ar,
        q\<lparr>q_tsig := t1, q_packet := ?p\<lparr>buf_position := x1\<rparr>\<rparr>)" "buf_position ?p \<le> x1" "x1 \<le> buf_limit ?p"
      "tsig_parsed (q_tsig q) (buf_position ?p) (ok1, t1) x1" "tsig_parse_rr (q_tsig q) ?p = Some ((ok1, t1), ?p\<lparr>buf_position := x1\<rparr>)"
      using parse_tsig_spec [OF ok(1)] .
    let ?q1 = "q\<lparr>q_tsig := t1, q_packet := ?p\<lparr>buf_position := x1\<rparr>\<rparr>"
    show thesis
    proof (cases "ok1 \<and> tr_status t1 = TSIG_NOT_PRESENT")
      case False
      have ar1: "tr_status t1 \<noteq> TSIG_NOT_PRESENT \<Longrightarrow> ar - 1 = 0"
        using lead ar 1(5) pos u16_one [of ar] by (auto simp: tsig_leads_def)
      have "parse_additional n q = Some (ok1, ?q1)"
        using ar pos 1(1) False ar1 by (auto simp: parse_additional_def)
      then show thesis using that [where b = "ok1" and t = t1 and e = "q_edns q" and x = x1] 1(2-4) False t e
        by (cases "tr_status t1") (auto simp: tsig_parsed_def additional_parsed_def edns_init_record_def edns_room_def)
    next
      case np: True
      have ok': "packet_ok (q_packet ?q1)" using ok(1) 1(3) by simp
      obtain ok2 e2 x2 where r2: "parse_edns n ar ?q1 = Some (if ok2 then ar - 1 else ar,
          ?q1\<lparr>q_edns := e2, q_packet := (q_packet ?q1)\<lparr>buf_position := x2\<rparr>\<rparr>)" "buf_position (q_packet ?q1) \<le> x2"
        "x2 \<le> buf_limit (q_packet ?q1)" "edns_parsed n (q_edns ?q1) (buf_position (q_packet ?q1)) (ok2, e2) x2"
        using parse_edns_spec [OF ok'] .
      then have 2: "parse_edns n ar ?q1 = Some (if ok2 then ar - 1 else ar,
          ?q1\<lparr>q_edns := e2, q_packet := ?p\<lparr>buf_position := x2\<rparr>\<rparr>)" "x1 \<le> x2" "x2 \<le> buf_limit ?p"
        "edns_parsed n (q_edns q) x1 (ok2, e2) x2" by simp_all
      let ?q2 = "?q1\<lparr>q_edns := e2, q_packet := ?p\<lparr>buf_position := x2\<rparr>\<rparr>"
      let ?ar = "if ok2 then ar - 1 else ar"
      have e2: "ed_status e2 \<noteq> EDNS_NOT_PRESENT \<longrightarrow> ed_position e2 = x1" "edns_room n e2"
        using 2(4) e by (auto simp: edns_parsed_def)
      show thesis
      proof (cases "?ar > 0")
        case False
        then have "parse_additional n q = Some (True, ?q2)" using ar pos 1(1) np 2(1) by (simp add: parse_additional_def)
        then show thesis using that [where b = "True" and t = t1 and e = e2 and x = x2] 1(2,3) 2(2,3) np e2 by (simp add: additional_parsed_def)
      next
        case more: True
        have ok2': "packet_ok (q_packet ?q2)" using ok(1) 2(3) by simp
        obtain ok3 t3 x3 where r3: "parse_tsig ?ar ?q2 = Some (ok3, if ok3 \<and> tr_status t3 \<noteq> TSIG_NOT_PRESENT then ?ar - 1 else ?ar,
            ?q2\<lparr>q_tsig := t3, q_packet := (q_packet ?q2)\<lparr>buf_position := x3\<rparr>\<rparr>)" "buf_position (q_packet ?q2) \<le> x3"
          "x3 \<le> buf_limit (q_packet ?q2)" "tsig_parsed (q_tsig ?q2) (buf_position (q_packet ?q2)) (ok3, t3) x3"
          "tsig_parse_rr (q_tsig ?q2) (q_packet ?q2) = Some ((ok3, t3), (q_packet ?q2)\<lparr>buf_position := x3\<rparr>)"
          using parse_tsig_spec [OF ok2'] .
        then have 3: "parse_tsig ?ar ?q2 = Some (ok3, if ok3 \<and> tr_status t3 \<noteq> TSIG_NOT_PRESENT then ?ar - 1 else ?ar,
            q\<lparr>q_tsig := t3, q_edns := e2, q_packet := ?p\<lparr>buf_position := x3\<rparr>\<rparr>)" "x2 \<le> x3" "x3 \<le> buf_limit ?p" "tsig_parsed t1 x2 (ok3, t3) x3"
          by simp_all
        let ?q3 = "q\<lparr>q_tsig := t3, q_edns := e2, q_packet := ?p\<lparr>buf_position := x3\<rparr>\<rparr>"
        let ?b = "ok3 \<and> \<not> (if ok3 \<and> tr_status t3 \<noteq> TSIG_NOT_PRESENT then ?ar - 1 else ?ar) > 0"
        have "parse_additional n q = Some (?b, ?q3)"
          using ar pos 1(1) np 2(1) more 3(1) by (simp add: parse_additional_def)
        moreover have "additional_parsed n (buf_position ?p) (q\<lparr>q_tsig := t3, q_edns := e2\<rparr>) x3" if ok3
          using that 3(2-4) 2(2) 1(2,4) e2 t by (auto simp: additional_parsed_def tsig_parsed_def)
        moreover have "ed_status e2 \<noteq> EDNS_NOT_PRESENT \<Longrightarrow> ed_position e2 \<le> tr_position t3"
          using 3(4) 2(2) e2 by (auto simp: tsig_parsed_def)
        moreover have "buf_position ?p \<le> x3" using 1(2) 2(2) 3(2) by linarith
        ultimately show thesis using that [where b = "?b" and t = t3 and e = e2 and x = x3] 3(3) by blast
      qed
    qed
  qed
qed

end
