(* ===== verification/Query_Total.thy ===== *)
theory Query_Total
  imports Query_Spec
begin

text \<open>
  Processing a query never fails an assertion before the answer is constructed, and the query that is to be
  answered has been prepared. The rate of error replies, and what it takes for a notify to be passed on and for a zone
  transfer to start.
\<close>

unbundle bit_operations_syntax

subsection \<open>The rate of errors\<close>

text \<open>Queries that end in an error: at their times, as a format error or as an opcode that is not implemented.\<close>

type_synonym 'c failure = "u64 \<times> bool \<times> 'c query"

definition fail_query :: "'c failure \<Rightarrow> 'c nsd \<Rightarrow> 'c served option" where
  "fail_query e nsd = (case e of (now, format, q) \<Rightarrow> if format then query_formerr now nsd q else query_notimpl now nsd q)"

fun fail_queries :: "'c failure list \<Rightarrow> 'c nsd \<Rightarrow> query_state list option" where
  "fail_queries [] nsd = Some []"
| "fail_queries (e # es) nsd = do {
     (s, _, nsd) \<leftarrow> fail_query e nsd;
     ss \<leftarrow> fail_queries es nsd;
     Some (s # ss) }"

definition replies_at :: "u64 \<Rightarrow> 'c failure list \<Rightarrow> query_state list \<Rightarrow> nat" where
  "replies_at t es ss = length (filter (\<lambda>(e, s). fst e = t \<and> s = QUERY_PROCESSED) (zip es ss))"

definition failures_at :: "u64 \<Rightarrow> 'c failure list \<Rightarrow> nat" where
  "failures_at t es = length (filter (\<lambda>e. fst e = t) es)"

definition parsed_header :: "'c query \<Rightarrow> bool" where
  "parsed_header q \<longleftrightarrow> header_room q \<and> QHEADERSZ \<le> buf_limit (q_packet q)"

lemma fail_query_spec:
  assumes "parsed_header (snd (snd e))" "query_ratelimit_err (fst e) nsd = (limited, nsd')"
  shows "\<exists>q'. fail_query e nsd = Some (if limited then QUERY_DISCARDED else QUERY_PROCESSED, q', nsd')"
  using assms formerr_spec [of "snd (snd e)" "fst e" nsd limited nsd'] notimpl_spec [of "snd (snd e)" "fst e" nsd limited nsd']
  by (auto simp: fail_query_def parsed_header_def split: prod.splits)

lemma fail_queries_count:
  assumes "\<forall>e \<in> set es. parsed_header (snd (snd e))" "sorted (n_err_limit_time nsd # map fst es)"
    "unat (n_err_limit_count nsd) + length es < 2 ^ 32"
  shows "\<exists>ss. fail_queries es nsd = Some ss \<and> length ss = length es \<and>
    (\<forall>t. replies_at t es ss = min (failures_at t es) (if t = n_err_limit_time nsd then 101 - unat (n_err_limit_count nsd) else 101))"
  using assms
proof (induction es arbitrary: nsd)
  case Nil
  then show ?case by (simp add: replies_at_def failures_at_def)
next
  case (Cons e es)
  obtain limited nsd' where r: "query_ratelimit_err (fst e) nsd = (limited, nsd')" by fastforce
  obtain q' where f: "fail_query e nsd = Some (if limited then QUERY_DISCARDED else QUERY_PROCESSED, q', nsd')"
    using fail_query_spec [OF _ r] Cons.prems(1) by auto
  have nsd': "n_err_limit_time nsd' = fst e"
    "unat (n_err_limit_count nsd') = (if n_err_limit_time nsd = fst e then unat (n_err_limit_count nsd) + 1 else 1)"
    "limited \<longleftrightarrow> n_err_limit_time nsd = fst e \<and> 100 < unat (n_err_limit_count nsd)"
    using r Cons.prems(3)
    by (auto simp: query_ratelimit_err_def ERROR_RATELIMIT_def word_less_nat_alt unat_word_ariths split: if_splits)
  have s: "sorted (n_err_limit_time nsd' # map fst es)" "unat (n_err_limit_count nsd') + length es < 2 ^ 32"
    using Cons.prems(2,3) nsd'(1,2) by auto
  obtain ss where ss: "fail_queries es nsd' = Some ss" "length ss = length es"
    "\<And>t. replies_at t es ss = min (failures_at t es) (if t = n_err_limit_time nsd' then 101 - unat (n_err_limit_count nsd') else 101)"
    using Cons.IH [OF _ s] Cons.prems(1) by auto
  let ?s = "if limited then QUERY_DISCARDED else QUERY_PROCESSED"
  have c: "replies_at t (e # es) (?s # ss) = (if fst e = t \<and> \<not> limited then 1 else 0) + replies_at t es ss"
    "failures_at t (e # es) = (if fst e = t then 1 else 0) + failures_at t es" for t
    by (auto simp: replies_at_def failures_at_def)
  have n: "failures_at t es = 0" if "t < fst e" for t
    using that Cons.prems(2) by (auto simp: failures_at_def filter_empty_conv)
  have o: "n_err_limit_time nsd = fst e \<or> n_err_limit_time nsd < fst e" using Cons.prems(2) by auto
  have "replies_at t (e # es) (?s # ss) =
      min (failures_at t (e # es)) (if t = n_err_limit_time nsd then 101 - unat (n_err_limit_count nsd) else 101)" for t
    unfolding c ss(3) using nsd' o n [of t] by (cases "n_err_limit_time nsd = fst e") (auto simp: min_def)
  then show ?case using f ss(1,2) by simp
qed

lemma fail_queries_rate:
  assumes "\<forall>e \<in> set es. parsed_header (snd (snd e))" "sorted (map fst es)" "n_err_limit_time nsd \<notin> set (map fst es)" "length es < 2 ^ 32"
  shows "\<exists>ss. fail_queries es nsd = Some ss \<and> (\<forall>t. replies_at t es ss = min (failures_at t es) 101)"
proof (cases es)
  case Nil
  then show ?thesis by (simp add: replies_at_def failures_at_def)
next
  case (Cons e es')
  let ?nsd = "nsd\<lparr>n_err_limit_time := fst e, n_err_limit_count := 0\<rparr>"
  have "query_ratelimit_err (fst e) nsd = query_ratelimit_err (fst e) ?nsd"
    using assms(3) Cons by (simp add: query_ratelimit_err_def ERROR_RATELIMIT_def)
  then have "fail_query e nsd = fail_query e ?nsd"
    by (cases e) (simp add: fail_query_def query_formerr_def query_notimpl_def)
  then have "fail_queries es nsd = fail_queries es ?nsd" by (simp add: Cons)
  then show ?thesis using fail_queries_count [of es ?nsd] assms Cons by auto
qed

subsection \<open>What a query can bring about\<close>

lemma with_nsd_nsd: "with_nsd nsd r = Some (s, q, nsd') \<Longrightarrow> nsd' = nsd"
  by (auto simp: with_nsd_def)

lemma query_ratelimit_passed: "n_passed (snd (query_ratelimit_err now nsd)) = n_passed nsd"
  by (simp add: query_ratelimit_err_def)

lemma query_formerr_passed: "query_formerr now nsd q = Some (s, q', nsd') \<Longrightarrow> n_passed nsd' = n_passed nsd"
  using query_ratelimit_passed [of now nsd]
  by (cases "query_ratelimit_err now nsd") (auto simp: query_formerr_def Option.bind_eq_Some_conv Let_def split: if_splits prod.splits dest!: with_nsd_nsd)

lemma query_notimpl_passed: "query_notimpl now nsd q = Some (s, q', nsd') \<Longrightarrow> n_passed nsd' = n_passed nsd"
  using query_ratelimit_passed [of now nsd]
  by (auto simp: query_notimpl_def Let_def split: if_splits prod.splits dest!: with_nsd_nsd)

lemma query_answer_passed: "query_answer nsd q = Some (s, q', nsd') \<Longrightarrow> n_passed nsd' = n_passed nsd"
  by (auto simp: query_answer_def Option.bind_eq_Some_conv split: if_splits dest!: with_nsd_nsd)

lemma query_error_state: "query_error q rc = Some (s, q') \<Longrightarrow> s \<noteq> QUERY_IN_AXFR"
  by (auto simp: query_error_def Option.bind_eq_Some_conv split: if_splits)

text \<open>An entry of an access control list that admits a query.\<close>

definition signed_by :: "acl_options \<Rightarrow> 'c query \<Rightarrow> bool" where
  "signed_by a q \<longleftrightarrow> tr_status (q_tsig q) = TSIG_OK \<and> tr_error_code (q_tsig q) = TSIG_ERROR_NOERROR \<and>
     (\<exists>ko k kn. acl_key_options a = Some ko \<and> ko_tsig_key ko = Some k \<and> tr_key_name (q_tsig q) = Some kn \<and> dname_compare kn (tk_name k) = Some 0)"

definition admitted_by :: "acl_options list \<Rightarrow> 'c query \<Rightarrow> acl_options \<Rightarrow> bool" where
  "admitted_by acl q a \<longleftrightarrow> a \<in> set acl \<and> acl_addr_matches a q = Some True \<and>
     (if acl_nokey a then tr_status (q_tsig q) = TSIG_NOT_PRESENT else signed_by a q) \<and>
     (\<forall>b \<in> set acl. acl_blocked b \<longrightarrow> acl_matches b q = Some False)"

lemma acl_check_loop_admits:
  "acl_check_loop acl q n match = Some (i, w) \<Longrightarrow> i \<noteq> -1 \<Longrightarrow>
    (\<forall>b \<in> set acl. acl_blocked b \<longrightarrow> acl_matches b q = Some False) \<and>
    (\<exists>a. w = Some a \<and> (match = Some (i, a) \<or> a \<in> set acl \<and> \<not> acl_blocked a \<and> acl_matches a q = Some True))"
proof (induction acl arbitrary: n match)
  case Nil
  then show ?case by (auto split: option.splits)
next
  case (Cons a acl)
  obtain m where m: "acl_matches a q = Some m" using Cons.prems(1) by (cases "acl_matches a q") auto
  then show ?case
    using Cons.prems Cons.IH [of "n + 1" "if m then case match of None \<Rightarrow> Some (n, a) | Some x \<Rightarrow> Some x else match"]
    by (cases m; cases match; cases "acl_blocked a") auto
qed

lemma acl_check_incoming_admits:
  assumes "acl_check_incoming acl q = Some (i, w)" "i \<noteq> -1"
  shows "\<exists>a. w = Some a \<and> admitted_by acl q a"
proof -
  obtain a where a: "w = Some a" "a \<in> set acl" "\<not> acl_blocked a" "acl_matches a q = Some True"
    "\<forall>b \<in> set acl. acl_blocked b \<longrightarrow> acl_matches b q = Some False"
    using acl_check_loop_admits [of acl q 0 None i w] assms by (auto simp: acl_check_incoming_def)
  then have "acl_addr_matches a q = Some True" "acl_key_matches a q = Some True"
    by (auto simp: acl_matches_def Option.bind_eq_Some_conv split: if_splits)
  then show ?thesis using a acl_key_matches_keyed [of a q] by (auto simp: admitted_by_def signed_by_def)
qed

text \<open>A notify that has been passed on, and why.\<close>

definition notify_admitted :: "u64 \<Rightarrow> 'c nsd \<Rightarrow> 'c query \<Rightarrow> byte list \<times> int \<times> int \<Rightarrow> bool" where
  "notify_admitted now nsd q m \<longleftrightarrow> (\<exists>qn zo t p q2 i j w w'. q_qname q = Some qn \<and> n_zone_options nsd qn = Some zo \<and>
     tsig_find_rr (q_tsig q) (q_packet q) = Some ((True, t), p) \<and>
     process_tsig now (n_tsig nsd) (q\<lparr>q_tsig := t, q_packet := p\<rparr>) = Some (NSD_RC_OK, q2) \<and>
     acl_check_incoming (zo_allow_notify zo) q2 = Some (i, Some w) \<and> admitted_by (zo_allow_notify zo) q2 w \<and>
     acl_check_incoming (zo_request_xfr zo) q2 = Some (j, w') \<and>
     m = (take (buf_limit (q_packet q2)) (buf_data (q_packet q2)), i, j))"

lemma answer_notify_passed:
  assumes "answer_notify now nsd q = Some (s, q', nsd')" "n_passed nsd' \<noteq> n_passed nsd"
  shows "\<exists>m. n_passed nsd' = n_passed nsd @ [m] \<and> notify_admitted now nsd q m"
proof -
  have "\<exists>qn zo t p q2 i j w w'. q_qname q = Some qn \<and> n_zone_options nsd qn = Some zo \<and>
     tsig_find_rr (q_tsig q) (q_packet q) = Some ((True, t), p) \<and>
     process_tsig now (n_tsig nsd) (q\<lparr>q_tsig := t, q_packet := p\<rparr>) = Some (NSD_RC_OK, q2) \<and>
     acl_check_incoming (zo_allow_notify zo) q2 = Some (i, w) \<and> i \<noteq> -1 \<and> acl_check_incoming (zo_request_xfr zo) q2 = Some (j, w') \<and>
     n_passed nsd' = n_passed nsd @ [(take (buf_limit (q_packet q2)) (buf_data (q_packet q2)), i, j)]"
    using assms by (auto simp: answer_notify_def Option.bind_eq_Some_conv Let_def split: if_splits option.splits dest!: with_nsd_nsd)
  then show ?thesis unfolding notify_admitted_def by (metis acl_check_incoming_admits)
qed

subsection \<open>Removing records from the end\<close>

definition drop_record :: "nat \<Rightarrow> buffer \<Rightarrow> buffer" where
  "drop_record n p = p\<lparr>buf_position := min (buf_position p) n, buf_limit := n,
     buf_data := mem_write 10 (write_uint16 (read_uint16 (mem_read 10 2 (buf_data p)) - 1)) (buf_data p)\<rparr>"

text \<open>The packet ends at \<open>n\<close>, and only the number of additional records may differ before that.\<close>

definition cut :: "nat \<Rightarrow> buffer \<Rightarrow> buffer \<Rightarrow> bool" where
  "cut n p p' \<longleftrightarrow> buffer_wf p' \<and> buf_limit p' = n \<and> buf_capacity p' = buf_capacity p \<and> buf_fixed p' = buf_fixed p \<and>
     take 10 (buf_data p') = take 10 (buf_data p) \<and> drop QHEADERSZ (buf_data p') = drop QHEADERSZ (buf_data p)"

lemma cut_trans: "cut m p p' \<Longrightarrow> cut n p' p'' \<Longrightarrow> cut n p p''"
  by (simp add: cut_def)

lemma cut_refl: "buffer_wf p \<Longrightarrow> cut (buf_limit p) p p"
  by (simp add: cut_def)

lemma drop_record_exec:
  assumes "buffer_wf p" "QHEADERSZ \<le> n" "n \<le> buf_limit p"
  shows "buffer_set_limit p n \<bind> (\<lambda>p. ARCOUNT p \<bind> (\<lambda>ar. ARCOUNT_SET p (ar - 1) \<bind> f)) = f (drop_record n p)"
    "cut n p (drop_record n p)"
proof -
  let ?p = "p\<lparr>buf_position := min (buf_position p) n, buf_limit := n\<rparr>"
  have wf: "buffer_wf ?p" using assms by (auto simp: buffer_wf_unfold)
  have "buffer_set_limit p n = Some ?p"
    using assms by (auto simp: buffer_set_limit_def buffer_wf_unfold buffer_invariant_def min_def)
  moreover have "ARCOUNT ?p = Some (read_uint16 (mem_read 10 2 (buf_data p)))"
    using wf assms(2) by (simp add: hdr_count_defs buffer_read_u16_at_wf QHEADERSZ_def)
  moreover have "ARCOUNT_SET ?p v = Some (?p\<lparr>buf_data := mem_write 10 (write_uint16 v) (buf_data p)\<rparr>)" for v
    using hdr_write_u16(1) [OF wf, of 10 v] assms(2) by (simp add: ARCOUNT_SET_def QHEADERSZ_def)
  ultimately show "buffer_set_limit p n \<bind> (\<lambda>p. ARCOUNT p \<bind> (\<lambda>ar. ARCOUNT_SET p (ar - 1) \<bind> f)) = f (drop_record n p)"
    by (simp add: drop_record_def)
  show "cut n p (drop_record n p)" using assms
    by (auto simp: cut_def drop_record_def buffer_wf_unfold drop_mem_write QHEADERSZ_def mem_write_def)
qed

lemma process_edns_spec:
  assumes "buffer_wf (q_packet q)"
    "ed_status (q_edns q) \<noteq> EDNS_NOT_PRESENT \<Longrightarrow> QHEADERSZ \<le> ed_position (q_edns q) \<and> ed_position (q_edns q) \<le> buf_limit (q_packet q)"
  obtains rc m p n where "process_edns nsd q = Some (rc, q\<lparr>q_maxlen := m, q_packet := p\<rparr>)" "cut n (q_packet q) p"
    "if ed_status (q_edns q) = EDNS_OK then n = ed_position (q_edns q) else p = q_packet q"
    "rc = (if ed_status (q_edns q) = EDNS_ERROR then NSD_RC_FORMAT else NSD_RC_OK)"
    "m = (if ed_status (q_edns q) = EDNS_OK \<and> \<not> q_tcp q \<and> UDP_MAX_MESSAGE_LEN < ed_maxlen (q_edns q)
        then min (ed_maxlen (q_edns q)) (if is_in6 (q_addr q) then n_ipv6_edns_size nsd else n_ipv4_edns_size nsd) else q_maxlen q)"
proof (cases "ed_status (q_edns q) = EDNS_OK")
  case False
  then show thesis using that [where rc = "if ed_status (q_edns q) = EDNS_ERROR then NSD_RC_FORMAT else NSD_RC_OK" and m = "q_maxlen q" and p = "q_packet q"]
      cut_refl [OF assms(1)] by (cases "ed_status (q_edns q)") (auto simp: process_edns_def)
next
  case True
  let ?n = "ed_position (q_edns q)" and ?p = "q_packet q"
  let ?m = "if \<not> q_tcp q \<and> UDP_MAX_MESSAGE_LEN < ed_maxlen (q_edns q)
        then min (ed_maxlen (q_edns q)) (if is_in6 (q_addr q) then n_ipv6_edns_size nsd else n_ipv4_edns_size nsd) else q_maxlen q"
  have n: "QHEADERSZ \<le> ?n" "?n \<le> buf_limit ?p" using True assms(2) by auto
  let ?p' = "?p\<lparr>buf_position := ?n\<rparr>"
  have wf: "buffer_wf ?p'" "buffer_set_position ?p ?n = Some ?p'" using assms(1) n by (auto simp: buffer_set_position_def)
  note d = drop_record_exec [OF wf(1) n(1)] 
  have "process_edns nsd q = Some (NSD_RC_OK, q\<lparr>q_maxlen := ?m, q_packet := drop_record ?n ?p'\<rparr>)"
    using True wf(2) n by (simp add: process_edns_def Let_def min_def d(1))
  moreover have "cut ?n ?p (drop_record ?n ?p')" using d(2) n by (simp add: cut_def)
  ultimately show thesis using that True by simp
qed

subsection \<open>Checking a signature\<close>

text \<open>The MAC of a message is that of the bytes before the TSIG record and of the TSIG variables, with a key of the table.\<close>

definition authentic :: "('c tsig_algorithm \<Rightarrow> byte list \<Rightarrow> byte list \<Rightarrow> byte list) \<Rightarrow> 'c tsig_state \<Rightarrow> 'c tsig_record \<Rightarrow> buffer \<Rightarrow> bool" where
  "authentic H st t p \<longleftrightarrow> (\<exists>kn an alg k vs. tr_key_name t = Some kn \<and> tr_algorithm_name t = Some an \<and>
     find_algorithm (ts_algorithm_table st) an = Some alg \<and> tsig_find_key st kn = Some k \<and> tsig_variables t False = Some vs \<and>
     tr_mac_data t = Some (H alg (tk_data k)
       (write_uint16 (tr_original_query_id t) @ mem_read 2 (buf_limit p - 2) (buf_data p) @ vs)))"

lemma find_algorithm_in: "find_algorithm as an = Some alg \<Longrightarrow> alg \<in> set as"
  by (induction as) (auto split: if_splits)

lemma tsig_complete_variables: "tsig_complete t \<Longrightarrow> \<exists>vs. tsig_variables t b = Some vs"
  using tsig_sendable_other [of t] tsig_complete_sendable [of t]
  by (auto simp: tsig_variables_def tsig_sendable_def)

lemma tsig_variables_response [simp]:
  "tsig_variables (t\<lparr>tr_response_count := n\<rparr>) b = tsig_variables t b"
  "tsig_variables (t\<lparr>tr_updates_since_last_prepare := n\<rparr>) b = tsig_variables t b"
  "tsig_variables (t\<lparr>tr_algorithm := a\<rparr>) b = tsig_variables t b"
  "tsig_variables (t\<lparr>tr_key := k\<rparr>) b = tsig_variables t b"
  "tsig_variables (t\<lparr>tr_prior_mac_size := n\<rparr>) b = tsig_variables t b"
  by (simp_all add: tsig_variables_def tsig_timers_def other_bytes_def)

lemma tsig_verify_total:
  assumes a: "absorbed alg k bs t" and v: "tsig_variables t (tr_response_count t > 1) = Some vs"
    and m: "tr_mac_data t = Some mac" "length mac = unat (tr_mac_size t)"
  obtains ok c d e where "tsig_verify t = Some (ok, t\<lparr>tr_context := c, tr_prior_mac_data := d, tr_prior_mac_size := length d, tr_error_code := e\<rparr>)"
    "\<forall>H. hmac_incremental alg H \<longrightarrow> ok \<longrightarrow> mac = H (tk_data k) (bs @ vs)" "ok \<longrightarrow> e = tr_error_code t"
proof -
  have c: "t\<lparr>tr_context := Some (the (tr_context t))\<rparr> = t" using a by (auto simp: absorbed_def)
  obtain c where d: "tsig_digest_variables t (tr_response_count t > 1) = Some (t\<lparr>tr_context := Some c\<rparr>)"
    "absorbed alg k (bs @ vs) (t\<lparr>tr_context := Some c\<rparr>)"
    using tsig_digest_variables_absorbs [where tsig = t and c = "the (tr_context t)", unfolded c, OF a v]
    by (auto simp: absorbs_def)
  have alg: "tr_algorithm t = Some alg" using a by (simp add: absorbed_def)
  let ?d = "hmac_final alg c"
  let ?ok = "length mac = length ?d \<and> bytes_cmp mac ?d = 0"
  have r: "tsig_verify t = Some (?ok, t\<lparr>tr_context := Some c, tr_prior_mac_data := ?d, tr_prior_mac_size := length ?d,
      tr_error_code := (if ?ok then tr_error_code t else TSIG_ERROR_BADSIG)\<rparr>)"
    unfolding tsig_verify_def using d(1) m alg by (auto simp: tsig_hmac_final_def memcmp_def unat_eq_0)
  have "mac = H (tk_data k) (bs @ vs)" if "hmac_incremental alg H" "?ok" for H
  proof -
    have "?d = H (tk_data k) (bs @ vs)" using d(2) that(1) by (auto simp: absorbed_def hmac_incremental_def)
    then show ?thesis using that(2) bytes_cmp_eq by metis
  qed
  then show thesis using that [OF r] by simp
qed

text \<open>What is known of a TSIG record when it is checked.\<close>

definition tsig_located :: "nat \<Rightarrow> 'c tsig_record \<Rightarrow> bool" where
  "tsig_located lim t \<longleftrightarrow> tr_status t \<noteq> TSIG_ERROR \<and>
     (tr_status t = TSIG_OK \<longrightarrow> tsig_complete t \<and> QHEADERSZ \<le> tr_position t \<and> tr_position t \<le> lim \<and> tr_algorithm t = None \<and> tr_key t = None)"

definition hmacs_incremental :: "('c tsig_algorithm \<Rightarrow> byte list \<Rightarrow> byte list \<Rightarrow> byte list) \<Rightarrow> 'c tsig_state \<Rightarrow> bool" where
  "hmacs_incremental H st \<longleftrightarrow> (\<forall>alg \<in> set (ts_algorithm_table st). hmac_incremental alg (H alg))"

lemma tsig_from_query_spec:
  assumes "tr_status t = TSIG_OK" "tsig_complete t" "tr_algorithm t = None" "tr_key t = None"
  obtains t' where "tsig_from_query now st t = Some (False, t')" "tr_status t' = TSIG_OK"
  | kn an alg k where "tsig_from_query now st t = Some (True, t\<lparr>tr_algorithm := Some alg, tr_key := Some k, tr_response_count := 0, tr_prior_mac_size := 0\<rparr>)"
      "tr_key_name t = Some kn" "tr_algorithm_name t = Some an" "find_algorithm (ts_algorithm_table st) an = Some alg" "tsig_find_key st kn = Some k"
proof -
  obtain kn an where n: "tr_key_name t = Some kn" "tr_algorithm_name t = Some an"
    using assms(2) by (auto simp: tsig_complete_def split: option.splits)
  let ?r = "tsig_from_query now st t"
  have "(\<exists>t'. ?r = Some (False, t') \<and> tr_status t' = TSIG_OK) \<or>
    (\<exists>alg k. ?r = Some (True, t\<lparr>tr_algorithm := Some alg, tr_key := Some k, tr_response_count := 0, tr_prior_mac_size := 0\<rparr>) \<and>
       find_algorithm (ts_algorithm_table st) an = Some alg \<and> tsig_find_key st kn = Some k)"
    using n assms(1,3,4) by (simp add: tsig_from_query_def Let_def split: option.split)
  then show thesis using that n by metis
qed

lemma process_tsig_spec:
  assumes wf: "buffer_wf (q_packet q)" "QHEADERSZ \<le> buf_limit (q_packet q)" and t: "tsig_located (buf_limit (q_packet q)) (q_tsig q)"
  obtains rc t p n where "process_tsig now st q = Some (rc, q\<lparr>q_tsig := t, q_packet := p\<rparr>)" "cut n (q_packet q) p" "rc \<in> {NSD_RC_OK, NSD_RC_NOTAUTH}"
    "QHEADERSZ \<le> n" "if rc = NSD_RC_OK \<and> tr_status t = TSIG_OK then n = tr_position (q_tsig q) else n \<le> buf_limit (q_packet q)"
    "rc = NSD_RC_OK \<longrightarrow> tr_status t \<noteq> TSIG_OK \<longrightarrow> p = q_packet q"
    "tr_status t = tr_status (q_tsig q)"
    "\<forall>H. rc = NSD_RC_OK \<longrightarrow> tr_status t = TSIG_OK \<longrightarrow> hmacs_incremental H st \<longrightarrow> authentic H st t p"
proof (cases "tr_status (q_tsig q) = TSIG_OK")
  case False
  then have "process_tsig now st q = Some (NSD_RC_OK, q\<lparr>q_tsig := q_tsig q, q_packet := q_packet q\<rparr>)"
    using t by (cases "tr_status (q_tsig q)") (auto simp: process_tsig_def tsig_located_def)
  then show thesis using that [where t = "q_tsig q" and p = "q_packet q" and n = "buf_limit (q_packet q)"] False cut_refl [OF wf(1)] wf(2) by simp
next
  case st: True
  let ?t = "q_tsig q" and ?n = "tr_position (q_tsig q)"
  have c: "tsig_complete ?t" "QHEADERSZ \<le> ?n" "?n \<le> buf_limit (q_packet q)" "tr_algorithm ?t = None" "tr_key ?t = None"
    using t st by (auto simp: tsig_located_def)
  show thesis
  proof (cases rule: tsig_from_query_spec [OF st c(1,4,5), of now "st :: 'a tsig_state"])
    case (1 t')
    then have "process_tsig now st q = Some (NSD_RC_NOTAUTH, q\<lparr>q_tsig := t', q_packet := q_packet q\<rparr>)"
      using st by (simp add: process_tsig_def)
    then show thesis using that [where t = t' and p = "q_packet q" and n = "buf_limit (q_packet q)"] cut_refl [OF wf(1)] wf(2) 1(2) st by simp
  next
    case (2 kn an alg k)
    let ?t1 = "?t\<lparr>tr_algorithm := Some alg, tr_key := Some k, tr_response_count := 0, tr_prior_mac_size := 0\<rparr>"
    let ?p = "drop_record ?n (q_packet q)"
    note d = drop_record_exec [OF wf(1) c(2,3)]
    obtain c1 where p: "tsig_prepare ?t1 = Some (?t1\<lparr>tr_context := Some c1, tr_updates_since_last_prepare := 0\<rparr>)"
      "absorbed alg k [] (?t1\<lparr>tr_context := Some c1, tr_updates_since_last_prepare := 0\<rparr>)"
      using tsig_prepare_spec [of ?t1 alg k] by (auto simp: prior_mac_bytes_def)
    let ?t2 = "?t1\<lparr>tr_context := Some c1, tr_updates_since_last_prepare := 0\<rparr>"
    have lim: "buf_limit ?p = ?n" "buffer_wf ?p" using d(2) by (auto simp: cut_def)
    then have lim2: "2 \<le> ?n" "QHEADERSZ \<le> buf_limit ?p" using c(2) by (auto simp: QHEADERSZ_def)
    obtain c2 r where u: "tsig_update ?t2 ?p ?n = Some (?t2\<lparr>tr_context := Some c2, tr_response_count := r, tr_updates_since_last_prepare := 1\<rparr>)"
      "absorbed alg k (write_uint16 (tr_original_query_id ?t) @ mem_read 2 (?n - 2) (buf_data ?p)) (?t2\<lparr>tr_context := Some c2\<rparr>)" "r \<le> 1"
      using tsig_update_spec [OF p(2) lim(2) lim2(1) _ lim2(2)] lim(1) by (auto split: if_splits)
    let ?t3 = "?t2\<lparr>tr_context := Some c2, tr_response_count := r, tr_updates_since_last_prepare := 1\<rparr>"
    obtain vs where vs: "tsig_variables ?t False = Some vs" using tsig_complete_variables [OF c(1)] by blast
    obtain mac where mac: "tr_mac_data ?t = Some mac" "length mac = unat (tr_mac_size ?t)"
      using c(1) by (auto simp: tsig_complete_def split: option.splits)
    have a3: "absorbed alg k (write_uint16 (tr_original_query_id ?t) @ mem_read 2 (?n - 2) (buf_data ?p)) ?t3"
      using u(2) by (simp add: absorbed_def)
    have v3: "tsig_variables ?t3 (tr_response_count ?t3 > 1) = Some vs" using vs u(3) by simp
    have mac3: "tr_mac_data ?t3 = Some mac" "length mac = unat (tr_mac_size ?t3)" using mac by simp_all
    obtain ok c3 dd e where v: "tsig_verify ?t3 = Some (ok, ?t3\<lparr>tr_context := c3, tr_prior_mac_data := dd, tr_prior_mac_size := length dd, tr_error_code := e\<rparr>)"
      "\<forall>H. hmac_incremental alg H \<longrightarrow> ok \<longrightarrow>
         mac = H (tk_data k) ((write_uint16 (tr_original_query_id ?t) @ mem_read 2 (?n - 2) (buf_data ?p)) @ vs)" "ok \<longrightarrow> e = tr_error_code ?t3"
      using tsig_verify_total [OF a3 v3 mac3] .
    let ?t4 = "?t3\<lparr>tr_context := c3, tr_prior_mac_data := dd, tr_prior_mac_size := length dd, tr_error_code := e\<rparr>"
    have pt: "process_tsig now st q = Some (if ok then NSD_RC_OK else NSD_RC_NOTAUTH, q\<lparr>q_tsig := ?t4, q_packet := ?p\<rparr>)"
      using 2(1) st p(1) u(1) v(1) lim(1) by (simp add: process_tsig_def d(1))
    have au: "authentic H st ?t4 ?p" if "ok" "hmacs_incremental H st" for H
    proof -
      have h: "hmac_incremental alg (H alg)" using that(2) find_algorithm_in [OF 2(4)] by (simp add: hmacs_incremental_def)
      have "tsig_variables ?t4 False = tsig_variables ?t False" using v(3) that(1) by (simp add: tsig_variables_def tsig_timers_def other_bytes_def)
      then have "tsig_variables ?t4 False = Some vs" using vs by simp
      then show ?thesis using v(2) h that(1) 2 mac(1) lim(1) by (simp add: authentic_def)
    qed
    have st4: "tr_status ?t4 = TSIG_OK" using st by simp
    show thesis
      by (rule that [OF pt d(2)]) (use c(2,3) st st4 au in \<open>auto split: if_splits\<close>)
  qed
qed

subsection \<open>Error replies\<close>

definition error_reply :: "byte \<Rightarrow> buffer \<Rightarrow> buffer \<Rightarrow> bool" where
  "error_reply rcode p p' \<longleftrightarrow> buffer_wf p' \<and> buf_position p' = QHEADERSZ \<and> buf_limit p' = buf_capacity p \<and>
     take 2 (buf_data p') = take 2 (buf_data p) \<and> drop QHEADERSZ (buf_data p') = drop QHEADERSZ (buf_data p) \<and>
     QR p' = Some 0x80 \<and> RCODE p' = Some rcode \<and> mem_read 4 8 (buf_data p') = replicate 8 0"

lemma reply_packet_error:
  assumes "header_only p p'" "d = take 2 (buf_data p') @ [x, y] @ replicate 8 0 @ drop QHEADERSZ (buf_data p')" "x AND 0x80 = 0x80" "y AND 0xf = rcode"
  shows "error_reply rcode p (reply_packet d p')"
proof -
  have l: "QHEADERSZ \<le> length (buf_data p')" using assms(1) by (auto simp: header_only_def buffer_wf_unfold)
  have "length d = length (buf_data p')" using l by (simp add: assms(2) QHEADERSZ_def)
  then have wf: "buffer_wf (reply_packet d p')" using assms(1)
    by (simp add: header_only_def buffer_wf_unfold reply_packet_def)
  have n: "d ! 2 = x" "d ! 3 = y" "mem_read 4 8 d = replicate 8 0" "take 2 d = take 2 (buf_data p')"
      "drop QHEADERSZ d = drop QHEADERSZ (buf_data p')"
    using l by (auto simp: assms(2) nth_append QHEADERSZ_def mem_read_def min_def)
  have "QHEADERSZ \<le> buf_limit (reply_packet d p')" using assms(1) by (auto simp: reply_packet_def header_only_def buffer_wf_unfold)
  then have "QR (reply_packet d p') = Some 0x80" "RCODE (reply_packet d p') = Some rcode"
    using wf n(1,2) assms(3,4) by (simp_all add: QR_def RCODE_def hdr_get_wf QHEADERSZ_def) (simp_all add: reply_packet_def)
  then show ?thesis using wf n(3-5) assms(1) by (simp add: error_reply_def reply_packet_def header_only_def)
qed

lemma or_high_bit: "(x OR 0x80) AND 0x80 = (0x80 :: byte)"
  by (rule byte_eqI) (simp_all add: bit_simps)

lemma or_low_nibble: "rcode AND 0xf = rcode \<Longrightarrow> ((x AND NOT 0x2f) OR rcode) AND 0xf = (rcode :: byte)"
proof -
  have "((x AND NOT 0x2f) OR (r AND 0xf)) AND 0xf = r AND 0xf" for r :: byte by (rule byte_eqI) (simp_all add: bit_simps)
  then show "rcode AND 0xf = rcode \<Longrightarrow> ?thesis" by metis
qed

lemma error_data_reply:
  "header_only p p' \<Longrightarrow> rcode AND 0xf = rcode \<Longrightarrow> error_reply rcode p (reply_packet (error_data rcode (buf_data p')) p')"
  by (rule reply_packet_error [OF _ error_data_def or_high_bit or_low_nibble])

lemma formerr_data_reply: "header_only p p' \<Longrightarrow> error_reply RCODE_FORMAT p (reply_packet (formerr_data (buf_data p')) p')"
  by (rule reply_packet_error) (auto simp: formerr_data_def or_high_bit RCODE_FORMAT_def)

text \<open>The outcome of a query that is not answered: it is dropped, or it gets an error reply.\<close>

definition dealt_with :: "buffer \<Rightarrow> 'c served \<Rightarrow> bool" where
  "dealt_with p r \<longleftrightarrow> (case r of (s, q', nsd') \<Rightarrow> s = QUERY_DISCARDED \<or>
     s = QUERY_PROCESSED \<and> (\<exists>rcode \<in> {RCODE_OK, RCODE_FORMAT, RCODE_IMPL, RCODE_NOTAUTH}. error_reply rcode p (q_packet q')))"

lemma formerr_dealt:
  assumes "header_only p (q_packet q)"
  shows "\<exists>r. query_formerr now nsd q = Some r \<and> dealt_with p r"
proof -
  obtain limited nsd' where "query_ratelimit_err now nsd = (limited, nsd')" by fastforce
  from formerr_spec [OF header_only_room [OF assms] _ this] formerr_data_reply [OF assms] assms
  show ?thesis by (auto simp: dealt_with_def header_only_def)
qed

lemma notimpl_dealt:
  assumes "header_only p (q_packet q)"
  shows "\<exists>r. query_notimpl now nsd q = Some r \<and> dealt_with p r"
proof -
  obtain limited nsd' where "query_ratelimit_err now nsd = (limited, nsd')" by fastforce
  from notimpl_spec [OF header_only_room [OF assms] this] error_data_reply [OF assms, of RCODE_IMPL]
  show ?thesis by (auto simp: dealt_with_def RCODE_IMPL_def)
qed

lemma query_error_dealt:
  assumes "header_only p (q_packet q)" "rc \<in> {NSD_RC_OK, NSD_RC_NOTAUTH}"
  shows "\<exists>r. with_nsd nsd (query_error q rc) = Some r \<and> dealt_with p r"
  using query_error_spec [OF header_only_room [OF assms(1)], of rc] error_data_reply [OF assms(1), of "rcode_of rc"] assms(2)
  by (auto simp: dealt_with_def with_nsd_def reply_packet_def RCODE_NOTAUTH_def RCODE_OK_def)

subsection \<open>A query that is to be answered\<close>

definition answer_maxlen :: "'c nsd \<Rightarrow> 'c query \<Rightarrow> nat" where
  "answer_maxlen nsd q = (if ed_status (q_edns q) = EDNS_OK \<and> \<not> q_tcp q \<and> UDP_MAX_MESSAGE_LEN < ed_maxlen (q_edns q)
     then min (ed_maxlen (q_edns q)) (if is_in6 (q_addr q) then n_ipv6_edns_size nsd else n_ipv4_edns_size nsd) else q_maxlen q)"

definition prepared :: "'c nsd \<Rightarrow> nat \<Rightarrow> 'c query \<Rightarrow> 'c query \<Rightarrow> bool" where
  "prepared nsd start q q' \<longleftrightarrow>
     (let p = q_packet q; p' = q_packet q' in
      buffer_wf p' \<and> buf_limit p' = buf_capacity p \<and> buf_capacity p' = buf_capacity p \<and> start \<le> buf_position p' \<and> buf_position p' \<le> buf_limit p \<and>
      take 2 (buf_data p') = take 2 (buf_data p) \<and> drop QHEADERSZ (buf_data p') = drop QHEADERSZ (buf_data p) \<and>
      buf_data p' ! 2 = (buf_data p ! 2 AND 1) OR 0x80 \<and> buf_data p' ! 3 = 0 \<and>
      q_reserved_space q' = edns_reserved_space (q_edns q') + tsig_reserved_space (n_tsig nsd) (q_tsig q') \<and>
      edns_room (length (n_nsid nsd)) (q_edns q') \<and> ed_status (q_edns q') \<noteq> EDNS_ERROR \<and> tr_status (q_tsig q') \<noteq> TSIG_ERROR \<and>
      q_maxlen q' = answer_maxlen nsd (q\<lparr>q_edns := q_edns q'\<rparr>) \<and>
      (\<forall>H. tr_status (q_tsig q') = TSIG_OK \<longrightarrow> hmacs_incremental H (n_tsig nsd) \<longrightarrow>
         (\<exists>m n. cut n p m \<and> authentic H (n_tsig nsd) (q_tsig q') m)))"

lemma prepared_from:
  assumes "prepared nsd x q q'" "e \<le> x" "q_packet q = (q_packet q0)\<lparr>buf_position := y\<rparr>" "q_addr q = q_addr q0" "q_tcp q = q_tcp q0" "q_maxlen q = q_maxlen q0"
  shows "prepared nsd e q0 q'"
proof -
  have "cut n (q_packet q0) m = cut n (q_packet q) m" for n m by (simp add: cut_def assms(3))
  moreover have "answer_maxlen nsd (q0\<lparr>q_edns := ed\<rparr>) = answer_maxlen nsd (q\<lparr>q_edns := ed\<rparr>)" for ed
    by (simp add: answer_maxlen_def assms(4-6))
  ultimately show ?thesis using assms(1,2) by (auto simp: prepared_def Let_def assms(3))
qed

lemma cut_header_only: "cut n p p' \<Longrightarrow> QHEADERSZ \<le> n \<Longrightarrow> header_only p p'"
proof -
  assume c: "cut n p p'" and n: "QHEADERSZ \<le> n"
  have "take 2 (take 10 (buf_data p')) = take 2 (take 10 (buf_data p))" using c by (simp add: cut_def del: take_take)
  then show "header_only p p'" using c n by (simp add: cut_def header_only_def)
qed

lemma cut_nth:
  assumes "cut n p p'" "i < 10"
  shows "buf_data p' ! i = buf_data p ! i"
proof -
  have "take 10 (buf_data p') ! i = take 10 (buf_data p) ! i" using assms(1) by (simp add: cut_def)
  then show ?thesis using assms(2) by simp
qed

lemma response_flags: "write_uint16 ((read_uint16 [a, b] AND 0x0100) OR 0x8000) = [(a AND 1) OR 0x80, 0]"
  unfolding write_uint16_def read_uint16_def by (simp; intro conjI byte_eqI) (simp_all add: bit_simps byte_no_bit_8)

lemma query_prepare_response_spec:
  assumes "buffer_wf (q_packet q)" "QHEADERSZ \<le> buf_limit (q_packet q)" and p: "p = q_packet q"
  shows "query_prepare_response st q = Some (q\<lparr>q_packet := \<lparr>buf_position = buf_limit p, buf_limit = buf_capacity p, buf_capacity = buf_capacity p,
       buf_data = take 2 (buf_data p) @ [(buf_data p ! 2 AND 1) OR 0x80, 0] @ drop 4 (buf_data p), buf_fixed = buf_fixed p\<rparr>,
     q_reserved_space := edns_reserved_space (q_edns q) + tsig_reserved_space st (q_tsig q)\<rparr>)"
proof -
  let ?p1 = "p\<lparr>buf_position := buf_limit p\<rparr>" and ?p2 = "p\<lparr>buf_position := buf_limit p, buf_limit := buf_capacity p\<rparr>"
  have w: "buffer_wf p" "QHEADERSZ \<le> buf_limit p" "buf_limit p \<le> buf_capacity p" "length (buf_data p) = buf_capacity p"
    using assms by (auto simp: buffer_wf_unfold)
  have 1: "buffer_set_position p (buf_limit p) = Some ?p1" "buffer_set_limit ?p1 (buf_capacity p) = Some ?p2"
    using w by (auto simp: buffer_set_position_def buffer_set_limit_def buffer_wf_unfold buffer_invariant_def)
  have wf2: "buffer_wf ?p2" using w(1) by (simp add: buffer_wf_unfold)
  have rd: "mem_read 2 2 (buf_data p) = [buf_data p ! 2, buf_data p ! 3]"
    using w by (intro nth_equalityI) (auto simp: QHEADERSZ_def mem_read_def less_Suc_eq numeral_2_eq_2 numeral_3_eq_3)
  have 2: "FLAGS ?p2 = Some (read_uint16 [buf_data p ! 2, buf_data p ! 3])"
    using wf2 w rd by (simp add: FLAGS_def buffer_read_u16_at_wf QHEADERSZ_def)
  have 3: "FLAGS_SET ?p2 v = Some (?p2\<lparr>buf_data := mem_write 2 (write_uint16 v) (buf_data p)\<rparr>)" for v
    using hdr_write_u16(1) [OF wf2, of 2 v] w by (simp add: FLAGS_SET_def QHEADERSZ_def)
  show ?thesis using 1 2 3 by (simp add: query_prepare_response_def p [symmetric] response_flags mem_write_def)
qed

lemma query_prepare_spec:
  assumes wf: "buffer_wf (q_packet q)" "QHEADERSZ \<le> start" "start \<le> buf_position (q_packet q)"
    and a: "additional_parsed (length (n_nsid nsd)) start q (buf_position (q_packet q))"
      "tr_status (q_tsig q) = TSIG_OK \<longrightarrow> ed_status (q_edns q) \<noteq> EDNS_NOT_PRESENT \<longrightarrow> ed_position (q_edns q) \<le> tr_position (q_tsig q)"
  shows "\<exists>r. query_prepare now nsd q = Some r \<and> (case r of Inl x \<Rightarrow> dealt_with (q_packet q) x
    | Inr q' \<Rightarrow> prepared nsd start q q' \<and> (\<exists>t p m rs. q' = q\<lparr>q_tsig := t, q_maxlen := m, q_packet := p, q_reserved_space := rs\<rparr>))"
proof -
  let ?x = "buf_position (q_packet q)" and ?pk = "q_packet q"
  let ?p = "?pk\<lparr>buf_limit := ?x\<rparr>"
  let ?q = "q\<lparr>q_packet := ?p\<rparr>"
  have w: "buffer_wf ?p" "?x \<le> buf_limit ?pk" using wf(1) by (auto simp: buffer_wf_unfold)
  have l: "buffer_set_limit ?pk ?x = Some ?p"
    using wf(1) w(2) by (auto simp: buffer_set_limit_def buffer_wf_unfold buffer_invariant_def)
  have c0: "cut ?x ?pk ?p" using w(1) by (simp add: cut_def)
  have q: "buffer_wf (q_packet ?q)" "QHEADERSZ \<le> buf_limit (q_packet ?q)" "tsig_located (buf_limit (q_packet ?q)) (q_tsig ?q)"
    using w(1) wf(2,3) a(1) by (auto simp: additional_parsed_def tsig_located_def)
  obtain rc t p n where t: "process_tsig now (n_tsig nsd) ?q = Some (rc, ?q\<lparr>q_tsig := t, q_packet := p\<rparr>)" "cut n (q_packet ?q) p"
    "rc \<in> {NSD_RC_OK, NSD_RC_NOTAUTH}" "QHEADERSZ \<le> n"
    "if rc = NSD_RC_OK \<and> tr_status t = TSIG_OK then n = tr_position (q_tsig ?q) else n \<le> buf_limit (q_packet ?q)"
    "rc = NSD_RC_OK \<longrightarrow> tr_status t \<noteq> TSIG_OK \<longrightarrow> p = q_packet ?q" "tr_status t = tr_status (q_tsig ?q)"
    "\<forall>H. rc = NSD_RC_OK \<longrightarrow> tr_status t = TSIG_OK \<longrightarrow> hmacs_incremental H (n_tsig nsd) \<longrightarrow> authentic H (n_tsig nsd) t p"
    using process_tsig_spec [OF q] .
  let ?q1 = "?q\<lparr>q_tsig := t, q_packet := p\<rparr>"
  have c1: "cut n ?pk p" using cut_trans [OF c0] t(2) by simp
  show ?thesis
  proof (cases "rc = NSD_RC_OK")
    case False
    have "header_only ?pk (q_packet ?q1)" using cut_header_only [OF c1 t(4)] by simp
    from query_error_dealt [OF this t(3), of nsd]
    obtain r where r: "with_nsd nsd (query_error ?q1 rc) = Some r" "dealt_with ?pk r" by blast
    then have "query_prepare now nsd q = Some (Inl r)" using False l t(1) by (simp add: query_prepare_def edit_packet_def put_packet_def)
    then show ?thesis using r(2) by simp
  next
    case True
    have n: "buf_limit p = n" using t(2) by (simp add: cut_def)
    have e: "ed_status (q_edns ?q1) \<noteq> EDNS_NOT_PRESENT \<Longrightarrow> QHEADERSZ \<le> ed_position (q_edns ?q1) \<and> ed_position (q_edns ?q1) \<le> buf_limit (q_packet ?q1)"
      using a wf(2) t(5,6,7) True n by (auto simp: additional_parsed_def split: if_splits)
    have w1: "buffer_wf (q_packet ?q1)" using t(2) by (simp add: cut_def)
    obtain rc2 m p2 n2 where d: "process_edns nsd ?q1 = Some (rc2, ?q1\<lparr>q_maxlen := m, q_packet := p2\<rparr>)" "cut n2 (q_packet ?q1) p2"
      "if ed_status (q_edns ?q1) = EDNS_OK then n2 = ed_position (q_edns ?q1) else p2 = q_packet ?q1"
      "rc2 = (if ed_status (q_edns ?q1) = EDNS_ERROR then NSD_RC_FORMAT else NSD_RC_OK)"
      "m = (if ed_status (q_edns ?q1) = EDNS_OK \<and> \<not> q_tcp ?q1 \<and> UDP_MAX_MESSAGE_LEN < ed_maxlen (q_edns ?q1)
        then min (ed_maxlen (q_edns ?q1)) (if is_in6 (q_addr ?q1) then n_ipv6_edns_size nsd else n_ipv4_edns_size nsd) else q_maxlen ?q1)"
      using process_edns_spec [OF w1 e] .
    let ?q2 = "?q1\<lparr>q_maxlen := m, q_packet := p2\<rparr>"
    have c2: "cut n2 ?pk p2" using cut_trans [OF c1] d(2) by simp
    have n2: "start \<le> n2" "n2 \<le> buf_limit ?pk"
    proof -
      have nn: "start \<le> n" "n \<le> ?x" using t(5,6,7) a(1) True n wf(3) by (auto simp: additional_parsed_def split: if_splits)
      have "buf_limit p2 = n2" using c2 by (simp add: cut_def)
      then show "start \<le> n2" "n2 \<le> buf_limit ?pk" using d(3) nn n w(2) a(1) by (auto simp: additional_parsed_def split: if_splits)
    qed
    have h2: "header_only ?pk (q_packet ?q2)" using cut_header_only [OF c2] n2(1) wf(2) by simp
    show ?thesis
    proof (cases "ed_status (q_edns q) = EDNS_ERROR")
      case ee: True
      from query_error_dealt [OF h2, of NSD_RC_OK nsd]
      obtain r where r: "with_nsd nsd (query_error ?q2 NSD_RC_OK) = Some r" "dealt_with ?pk r" by blast
      then have "query_prepare now nsd q = Some (Inl r)"
        using ee True l t(1) d(1,4) by (simp add: query_prepare_def edit_packet_def put_packet_def)
      then show ?thesis using r(2) by simp
    next
      case ok: False
      let ?d = "take 2 (buf_data p2) @ [(buf_data p2 ! 2 AND 1) OR 0x80, 0] @ drop 4 (buf_data p2)"
      let ?p3 = "\<lparr>buf_position = buf_limit p2, buf_limit = buf_capacity p2, buf_capacity = buf_capacity p2, buf_data = ?d, buf_fixed = buf_fixed p2\<rparr>"
      let ?q3 = "?q2\<lparr>q_packet := ?p3, q_reserved_space := edns_reserved_space (q_edns ?q2) + tsig_reserved_space (n_tsig nsd) (q_tsig ?q2)\<rparr>"
      have w2: "buffer_wf (q_packet ?q2)" "QHEADERSZ \<le> buf_limit (q_packet ?q2)" using h2 by (simp_all add: header_only_def)
      have r: "query_prepare_response (n_tsig nsd) ?q2 = Some ?q3" using query_prepare_response_spec [OF w2, where p = p2] by simp
      have "query_prepare now nsd q = Some (Inr ?q3)"
        using ok True l t(1) d(1,4) r by (simp add: query_prepare_def edit_packet_def put_packet_def)
      moreover have "prepared nsd start q ?q3"
      proof -
        have l2: "12 \<le> length (buf_data p2)" using w2 by (auto simp: buffer_wf_unfold QHEADERSZ_def)
        have "length ?d = length (buf_data p2)" using l2 by simp
        then have b: "buffer_wf ?p3" "take 2 ?d = take 2 (buf_data p2)" "drop QHEADERSZ ?d = drop QHEADERSZ (buf_data p2)"
          "?d ! 2 = (buf_data p2 ! 2 AND 1) OR 0x80" "?d ! 3 = 0"
          using w2 l2 by (simp_all add: buffer_wf_unfold QHEADERSZ_def nth_append min_def)
        have "buf_data p2 ! 2 = buf_data ?pk ! 2" using cut_nth [OF c2, of 2] by simp
        moreover have "buf_limit p2 = n2" "buf_capacity p2 = buf_capacity ?pk" using c2 by (simp_all add: cut_def)
        moreover have "take 2 (buf_data p2) = take 2 (buf_data ?pk)" "drop QHEADERSZ (buf_data p2) = drop QHEADERSZ (buf_data ?pk)"
          using h2 by (simp_all add: header_only_def)
        moreover have "edns_room (length (n_nsid nsd)) (q_edns q)" "tr_status t \<noteq> TSIG_ERROR" using a(1) t(7) by (simp_all add: additional_parsed_def)
        moreover have "\<forall>H. tr_status t = TSIG_OK \<longrightarrow> hmacs_incremental H (n_tsig nsd) \<longrightarrow> (\<exists>m n. cut n ?pk m \<and> authentic H (n_tsig nsd) t m)"
          using t(8) True c1 by blast
        moreover have "m = answer_maxlen nsd q" using d(5) by (simp add: answer_maxlen_def)
        ultimately show ?thesis using n2 ok b by (simp add: prepared_def Let_def answer_maxlen_def)
      qed
      ultimately show ?thesis by fastforce
    qed
  qed
qed

text \<open>A TSIG record that is followed by another record, in a query with a correct question.\<close>

definition tsig_misplaced :: "'c query \<Rightarrow> bool" where
  "tsig_misplaced q \<longleftrightarrow> (case process_query_section (q\<lparr>q_opcode := OPCODE_QUERY\<rparr>) of
     Some (True, q1) \<Rightarrow> (case check_sections q1 of Some (True, q2) \<Rightarrow> tsig_leads q2 | _ \<Rightarrow> False)
   | _ \<Rightarrow> False)"

text \<open>The question in the packet.\<close>

definition question_of :: "buffer \<Rightarrow> dname option \<Rightarrow> u16 \<Rightarrow> u16 \<Rightarrow> nat \<Rightarrow> bool" where
  "question_of p qname qtype qclass e \<longleftrightarrow> (\<exists>k ls. name_at False (take (buf_limit p) (buf_data p)) QHEADERSZ k ls e \<and> valid_labels ls \<and>
     qname = Some (dname_of (norm_labels True ls)) \<and> qtype = read_uint16 (mem_read e 2 (buf_data p)) \<and>
     qclass = read_uint16 (mem_read (e + 2) 2 (buf_data p)))"

definition accepted :: "'c nsd \<Rightarrow> 'c query \<Rightarrow> 'c query \<Rightarrow> bool" where
  "accepted nsd q q' \<longleftrightarrow> (\<exists>e. question_of (q_packet q) (q_qname q') (q_qtype q') (q_qclass q') e \<and> QHEADERSZ < e \<and> prepared nsd (e + 4) q q') \<and>
     QDCOUNT (q_packet q) = Some 1 \<and> q_opcode q' = OPCODE_QUERY \<and> q_tcp q' = q_tcp q \<and> q_addr q' = q_addr q"

definition parse_outcome :: "'c nsd \<Rightarrow> 'c query \<Rightarrow> ('c served + 'c query) option \<Rightarrow> bool" where
  "parse_outcome nsd q r \<longleftrightarrow> (\<exists>x. r = Some (Inl x) \<and> dealt_with (q_packet q) x) \<or> (\<exists>q'. r = Some (Inr q') \<and> accepted nsd q q')"

lemma parse_outcome_dealt: "\<exists>x. r = Some x \<and> dealt_with (q_packet q) x \<Longrightarrow> parse_outcome nsd q (map_option Inl r)"
  by (auto simp: parse_outcome_def)

lemma query_parse_spec:
  assumes r: "received q" and m: "\<not> tsig_misplaced q" and n: "OPCODE (q_packet q) \<noteq> Some OPCODE_NOTIFY"
  shows "parse_outcome nsd q (query_parse now nsd q)"
proof (cases "buf_limit (q_packet q) < QHEADERSZ")
  case True
  then show ?thesis by (simp add: query_parse_def parse_outcome_def dealt_with_def)
next
  case False
  let ?p = "q_packet q"
  have p: "packet_ok ?p" "QHEADERSZ < buf_capacity ?p" "QHEADERSZ \<le> buf_limit ?p" "buffer_wf ?p"
    using r False by (auto simp: received_def)
  obtain qr oc rc where h: "QR ?p = Some qr" "OPCODE ?p = Some oc" "RCODE ?p = Some rc"
    using p(3,4) by (simp add: QR_def RCODE_def OPCODE_def hdr_get_wf QHEADERSZ_def)
  have ho: "header_only ?p (q_packet (q\<lparr>q_opcode := oc\<rparr>))" using p(3,4) by (simp add: header_only_def)
  note [simp] = query_parse_def Let_def False h
  consider "qr \<noteq> 0" | "qr = 0" "oc \<noteq> OPCODE_QUERY" | "qr = 0" "oc = OPCODE_QUERY" "rc \<noteq> RCODE_OK" | "qr = 0" "oc = OPCODE_QUERY" "rc = RCODE_OK" by blast
  then show ?thesis
  proof cases
    case 1
    then show ?thesis by (simp add: parse_outcome_def dealt_with_def)
  next
    case 2
    then show ?thesis using n parse_outcome_dealt [OF notimpl_dealt [OF ho, of now nsd]] by simp
  next
    case 3
    then show ?thesis using parse_outcome_dealt [OF formerr_dealt [OF ho, of now nsd]] by (simp add: OPCODE_QUERY_def)
  next
    case qo: 4
    let ?q = "q\<lparr>q_opcode := OPCODE_QUERY\<rparr>"
    have no: "OPCODE_QUERY \<noteq> OPCODE_NOTIFY" by (simp add: OPCODE_QUERY_def OPCODE_NOTIFY_def)
    have qp: "q_packet ?q = ?p" by simp
    show ?thesis
    proof (cases rule: process_query_section_spec [OF p(1-3) qp])
      case 1
      have "header_only ?p (q_packet (?q\<lparr>q_packet := ?p\<lparr>buf_position := QHEADERSZ\<rparr>\<rparr>))"
        using header_only_position [OF p(4,3), of QHEADERSZ] p(3) by simp
      from parse_outcome_dealt [OF formerr_dealt [OF this, of now nsd]] show ?thesis using 1 qo no by simp
    next
      case (2 k ls e)
      let ?q1 = "?q\<lparr>q_packet := ?p\<lparr>buf_position := e + 4\<rparr>, q_qtype := read_uint16 (mem_read e 2 (buf_data ?p)),
        q_qclass := read_uint16 (mem_read (e + 2) 2 (buf_data ?p)), q_qname := Some (dname_of (norm_labels True ls))\<rparr>"
      have ok1: "packet_ok (q_packet ?q1)" "QHEADERSZ \<le> buf_limit (q_packet ?q1)" "QHEADERSZ \<le> buf_position (q_packet ?q1)"
        using p 2(3,4) by simp_all
      show ?thesis
      proof (cases rule: check_sections_spec [OF ok1])
        case c: (1 q')
        have "header_only ?p (q_packet q')" using header_only_trans [OF header_only_position [OF p(4,3) 2(4)]] c(2) by simp
        from parse_outcome_dealt [OF formerr_dealt [OF this, of now nsd]] show ?thesis using 2(5) c(1) qo no by simp
      next
        case c: (2 x)
        let ?q2 = "?q1\<lparr>q_packet := (q_packet ?q1)\<lparr>buf_position := x\<rparr>\<rparr>"
        have x: "e + 4 \<le> x" "x \<le> buf_limit ?p" using c(2,3) by simp_all
        have ok2: "packet_ok (q_packet ?q2)" "QHEADERSZ \<le> buf_limit (q_packet ?q2)" using p x by simp_all
        have l2: "\<not> tsig_leads ?q2" using m 2(5) c(1) by (simp add: tsig_misplaced_def)
        have t2: "tr_status (q_tsig ?q2) = TSIG_NOT_PRESENT" "tr_algorithm (q_tsig ?q2) = None" "tr_key (q_tsig ?q2) = None" "q_edns ?q2 = edns_init_record"
          using r by (simp_all add: received_def)
        obtain b t ed y where a: "parse_additional (length (n_nsid nsd)) ?q2 = Some (b, ?q2\<lparr>q_tsig := t, q_edns := ed, q_packet := (q_packet ?q2)\<lparr>buf_position := y\<rparr>\<rparr>)"
          "buf_position (q_packet ?q2) \<le> y" "y \<le> buf_limit (q_packet ?q2)"
          "b \<longrightarrow> additional_parsed (length (n_nsid nsd)) (buf_position (q_packet ?q2)) (?q2\<lparr>q_tsig := t, q_edns := ed\<rparr>) y \<and>
             (tr_status t = TSIG_OK \<longrightarrow> ed_status ed \<noteq> EDNS_NOT_PRESENT \<longrightarrow> ed_position ed \<le> tr_position t)"
          using parse_additional_spec [OF ok2 l2 t2] .
        let ?q3 = "?q2\<lparr>q_tsig := t, q_edns := ed, q_packet := (q_packet ?q2)\<lparr>buf_position := y\<rparr>\<rparr>"
        show ?thesis
        proof (cases b)
          case False
          have "header_only ?p (q_packet ?q3)" using header_only_position [OF p(4,3), of y] a(3) by simp
          from parse_outcome_dealt [OF formerr_dealt [OF this, of now nsd]] show ?thesis using 2(5) c(1) a(1) False qo no by simp
        next
          case True
          have e: "query_parse now nsd q = query_prepare now nsd ?q3" using 2(5) c(1) a(1) True qo no by simp
          have wf3: "buffer_wf (q_packet ?q3)" "QHEADERSZ \<le> x" "x \<le> buf_position (q_packet ?q3)"
            and a3: "additional_parsed (length (n_nsid nsd)) x ?q3 (buf_position (q_packet ?q3))"
              "tr_status (q_tsig ?q3) = TSIG_OK \<longrightarrow> ed_status (q_edns ?q3) \<noteq> EDNS_NOT_PRESENT \<longrightarrow> ed_position (q_edns ?q3) \<le> tr_position (q_tsig ?q3)"
            using p(4) a(2-4) True x(1) 2(3) by (simp_all add: additional_parsed_def)
          from query_prepare_spec [OF wf3 a3, of now]
          obtain r where r: "query_prepare now nsd ?q3 = Some r" "case r of Inl x \<Rightarrow> dealt_with (q_packet ?q3) x
            | Inr q' \<Rightarrow> prepared nsd x ?q3 q' \<and> (\<exists>t p m rs. q' = ?q3\<lparr>q_tsig := t, q_maxlen := m, q_packet := p, q_reserved_space := rs\<rparr>)" by blast
          have qq: "question_of ?p (q_qname ?q3) (q_qtype ?q3) (q_qclass ?q3) e" using 2(1,2) by (auto simp: question_of_def)
          have "QDCOUNT (q_packet ?q1) = QDCOUNT ?p" unfolding hdr_counts_wf(1) [OF ok1(1,2)] hdr_counts_wf(1) [OF p(1,3)] by simp
          then have qd: "QDCOUNT ?p = Some 1" using c(4) by (rule subst)
          show ?thesis
          proof (cases r)
            case (Inl o')
            then have "dealt_with ?p o'" using r(2) by (auto simp: dealt_with_def error_reply_def)
            then show ?thesis using e r(1) Inl by (simp add: parse_outcome_def del: query_parse_def)
          next
            case (Inr q')
            obtain t' p' m' rs' where q': "q' = ?q3\<lparr>q_tsig := t', q_maxlen := m', q_packet := p', q_reserved_space := rs'\<rparr>" using r(2) Inr by auto
            have "prepared nsd x ?q3 q'" using r(2) Inr by simp
            then have "prepared nsd (e + 4) q q'" by (rule prepared_from [OF _ x(1), where y = y]) simp_all
            moreover have "question_of ?p (q_qname q') (q_qtype q') (q_qclass q') e" using qq by (simp add: q')
            moreover have "q_opcode q' = OPCODE_QUERY" "q_tcp q' = q_tcp q" "q_addr q' = q_addr q" by (simp_all add: q')
            ultimately have "accepted nsd q q'" using qd 2(3) unfolding accepted_def by blast
            then show ?thesis using e r(1) Inr by (simp add: parse_outcome_def del: query_parse_def)
          qed
        qed
      qed
    qed
  qed
qed

subsection \<open>Notifies and zone transfers\<close>

lemma query_prepare_passed: "query_prepare now nsd q = Some (Inl (s, q', nsd')) \<Longrightarrow> nsd' = nsd"
  by (auto simp: query_prepare_def Option.bind_eq_Some_conv split: if_splits dest!: with_nsd_nsd)

text \<open>How \<open>query_parse\<close> can deal with a query.\<close>

definition query_dispatch :: "u64 \<Rightarrow> 'c nsd \<Rightarrow> 'c query \<Rightarrow> 'c served \<Rightarrow> bool" where
  "query_dispatch now nsd q x \<longleftrightarrow> (\<exists>q'. x = (QUERY_DISCARDED, q', nsd)) \<or> (\<exists>q'. query_notimpl now nsd q' = Some x) \<or>
     (\<exists>q'. query_formerr now nsd q' = Some x) \<or> (\<exists>q'. query_prepare now nsd q' = Some (Inl x)) \<or>
     (\<exists>q'. OPCODE (q_packet q) = Some OPCODE_NOTIFY \<and> process_query_section (q\<lparr>q_opcode := OPCODE_NOTIFY\<rparr>) = Some (True, q') \<and>
       answer_notify now nsd q' = Some x)"

lemma query_dispatchI:
  "query_notimpl now nsd q' = Some x \<Longrightarrow> query_dispatch now nsd q x"
  "query_formerr now nsd q' = Some x \<Longrightarrow> query_dispatch now nsd q x"
  "query_prepare now nsd q' = Some (Inl x) \<Longrightarrow> query_dispatch now nsd q x"
  "query_dispatch now nsd q (QUERY_DISCARDED, q', nsd)"
  by (auto simp: query_dispatch_def)

lemma query_parse_dispatch:
  assumes "query_parse now nsd q = Some (Inl x)"
  shows "query_dispatch now nsd q x"
proof (cases "buf_limit (q_packet q) < QHEADERSZ")
  case True
  then show ?thesis using assms query_dispatchI(4) [of now nsd q q] by (simp add: query_parse_def)
next
  case False
  note q = assms [unfolded query_parse_def, simplified False if_False Let_def]
  obtain qr where qr: "QR (q_packet q) = Some qr" using q by (cases "QR (q_packet q)") auto
  obtain oc where oc: "qr = 0 \<longrightarrow> OPCODE (q_packet q) = Some oc" using q qr by (cases "OPCODE (q_packet q)") (auto split: if_splits)
  let ?q = "q\<lparr>q_opcode := oc\<rparr>"
  consider "qr \<noteq> 0" | "qr = 0" "oc \<noteq> OPCODE_QUERY" "oc \<noteq> OPCODE_NOTIFY" | "qr = 0" "oc = OPCODE_QUERY \<or> oc = OPCODE_NOTIFY" by blast
  then show ?thesis
  proof cases
    case 1
    then show ?thesis using q qr query_dispatchI(4) [of now nsd q q] by simp
  next
    case 2
    then show ?thesis using q qr oc query_dispatchI(1) [of now nsd ?q] by auto
  next
    case 3
    let ?s = "RCODE (q_packet q) \<bind> (\<lambda>rcode. if rcode \<noteq> RCODE_OK then Some (False, ?q) else process_query_section ?q)"
    obtain ok q1 where q1: "?s = Some (ok, q1)" using q qr oc 3 by (cases "RCODE (q_packet q)") (auto simp: Option.bind_eq_Some_conv)
    then have f: "query_formerr now nsd q1 = Some x" if "\<not> ok" using q qr oc 3 that by (cases "RCODE (q_packet q)") auto
    have s1: "process_query_section ?q = Some (True, q1)" if ok using q1 that by (auto simp: Option.bind_eq_Some_conv split: if_splits)
    have n: "answer_notify now nsd q1 = Some x" if ok "oc = OPCODE_NOTIFY" using q qr oc 3 q1 that by (cases "RCODE (q_packet q)") auto
    have c: "check_sections q1 \<bind> (\<lambda>(ok, q). if \<not> ok then map_option Inl (query_formerr now nsd q)
        else parse_additional (length (n_nsid nsd)) q \<bind> (\<lambda>(ok, q). if \<not> ok then map_option Inl (query_formerr now nsd q) else query_prepare now nsd q)) = Some (Inl x)"
      if ok "oc \<noteq> OPCODE_NOTIFY" using q qr oc 3 q1 that by (cases "RCODE (q_packet q)") auto
    show ?thesis
    proof (cases "ok \<and> oc \<noteq> OPCODE_NOTIFY")
      case True
      then show ?thesis using c by (auto simp: Option.bind_eq_Some_conv split: if_splits intro: query_dispatchI)
    next
      case False
      then show ?thesis using f n s1 oc 3 by (auto simp: query_dispatch_def)
    qed
  qed
qed

lemma query_process_passed:
  assumes "query_process now nsd q = Some (s, q', nsd')" "n_passed nsd' \<noteq> n_passed nsd"
  shows "\<exists>q1 m. OPCODE (q_packet q) = Some OPCODE_NOTIFY \<and> process_query_section (q\<lparr>q_opcode := OPCODE_NOTIFY\<rparr>) = Some (True, q1) \<and>
    n_passed nsd' = n_passed nsd @ [m] \<and> notify_admitted now nsd q1 m"
proof -
  obtain r where r: "query_parse now nsd q = Some r" using assms(1) by (cases "query_parse now nsd q") (auto simp: query_process_def)
  then have "r = Inl (s, q', nsd')" using assms query_answer_passed by (cases r) (fastforce simp: query_process_def)+
  then have "query_dispatch now nsd q (s, q', nsd')" using r query_parse_dispatch by blast
  then show ?thesis using assms(2) query_formerr_passed query_notimpl_passed query_prepare_passed answer_notify_passed
    unfolding query_dispatch_def by (metis prod.inject)
qed

lemma with_nsd_state: "with_nsd nsd (query_error q rc) = Some (s, q', nsd') \<Longrightarrow> s \<noteq> QUERY_IN_AXFR"
  by (auto simp: with_nsd_def dest: query_error_state)

lemma query_formerr_state: "query_formerr now nsd q = Some (s, q', nsd') \<Longrightarrow> s \<noteq> QUERY_IN_AXFR"
  by (cases "query_ratelimit_err now nsd") (auto simp: query_formerr_def Option.bind_eq_Some_conv split: if_splits dest!: with_nsd_state)

lemma query_notimpl_state: "query_notimpl now nsd q = Some (s, q', nsd') \<Longrightarrow> s \<noteq> QUERY_IN_AXFR"
  by (cases "query_ratelimit_err now nsd") (auto simp: query_notimpl_def split: if_splits dest!: with_nsd_state)

lemma answer_notify_state: "answer_notify now nsd q = Some (s, q', nsd') \<Longrightarrow> s \<noteq> QUERY_IN_AXFR"
  by (auto simp: answer_notify_def Option.bind_eq_Some_conv Let_def split: if_splits option.splits dest!: with_nsd_state)

lemma query_prepare_state: "query_prepare now nsd q = Some (Inl (s, q', nsd')) \<Longrightarrow> s \<noteq> QUERY_IN_AXFR"
  by (auto simp: query_prepare_def Option.bind_eq_Some_conv split: if_splits dest!: with_nsd_state)

lemma query_parse_state: "query_parse now nsd q \<noteq> Some (Inl (QUERY_IN_AXFR, q', nsd'))"
  using query_parse_dispatch [of now nsd q "(QUERY_IN_AXFR, q', nsd')"]
  by (auto simp: query_dispatch_def dest: query_formerr_state query_notimpl_state query_prepare_state answer_notify_state)

lemma query_process_axfr:
  assumes "query_process now nsd q = Some (QUERY_IN_AXFR, q', nsd')"
  shows "\<exists>q1 qn zo a. query_parse now nsd q = Some (Inr q1) \<and> q_tcp q1 \<and> q_qtype q1 = TYPE_AXFR \<and> q_qname q1 = Some qn \<and>
    n_zone_options nsd qn = Some zo \<and> admitted_by (zo_provide_xfr zo) q1 a"
proof -
  obtain r where r: "query_parse now nsd q = Some r" using assms by (cases "query_parse now nsd q") (auto simp: query_process_def)
  then obtain q1 where q1: "query_parse now nsd q = Some (Inr q1)" "query_answer nsd q1 = Some (QUERY_IN_AXFR, q', nsd')"
    using assms query_parse_state [of now nsd q] by (cases r) (auto simp: query_process_def)
  have "\<exists>q2. answer_axfr_ixfr nsd q1 = Some (QUERY_IN_AXFR, q2)"
    using q1(2) by (auto simp: query_answer_def Option.bind_eq_Some_conv with_nsd_def answer_chaos_def split: if_splits dest: query_error_state)
  then have "\<exists>qn zo i w. q_tcp q1 \<and> q_qtype q1 = TYPE_AXFR \<and> q_qname q1 = Some qn \<and> n_zone_options nsd qn = Some zo \<and>
      acl_check_incoming (zo_provide_xfr zo) q1 = Some (i, w) \<and> i \<noteq> -1"
    by (auto simp: answer_axfr_ixfr_def Option.bind_eq_Some_conv split: if_splits option.splits)
  then show ?thesis using q1(1) acl_check_incoming_admits by metis
qed

lemma replicate_6: "replicate 6 x = [x, x, x, x, x, x]"
  by (simp add: numeral_nat)

text \<open>The reply to a notify has the question, and no other records.\<close>

lemma notify_reply_spec:
  assumes "buffer_wf (q_packet q)" "QHEADERSZ \<le> buf_limit (q_packet q)" "d = buf_data (q_packet q)"
  shows "notify_reply q = Some (q\<lparr>q_packet := (q_packet q)\<lparr>buf_limit := buf_capacity (q_packet q),
    buf_data := take 2 d @ [(d ! 2 OR 0x80) OR 4, d ! 3 AND NOT 0xf] @ mem_read 4 2 d @ replicate 6 0 @ drop QHEADERSZ d\<rparr>\<rparr>)"
proof -
  obtain pos lim cap e f where p: "q_packet q = \<lparr>buf_position = pos, buf_limit = lim, buf_capacity = cap, buf_data = e, buf_fixed = f\<rparr>"
    by (cases "q_packet q")
  have w: "pos \<le> lim" "lim \<le> cap" "length e = cap" "cap < 2 ^ 64" "QHEADERSZ \<le> length e" "QHEADERSZ \<le> lim"
    using assms by (auto simp: p buffer_wf_unfold)
  obtain h0 h1 h2 h3 h4 h5 h6 h7 h8 h9 h10 h11 r where d: "e = [h0, h1, h2, h3, h4, h5, h6, h7, h8, h9, h10, h11] @ r"
    using header_bytes [OF w(5)] .
  show ?thesis using w unfolding p assms(3)
    by (simp add: notify_reply_def p d buffer_clear_def buffer_invariant_def QR_SET_def AA_SET_def RCODE_SET_def hdr_update_wf
        buffer_wf_unfold ANCOUNT_SET_def NSCOUNT_SET_def ARCOUNT_SET_def buffer_write_u16_at_def buffer_write_at_wf
        mem_write_def mem_read_def write_uint16_def buffer_set_position_def QHEADERSZ_def RCODE_OK_def replicate_6)
qed

end
