(* ===== verification/Axfr_Spec.thy ===== *)
theory Axfr_Spec
  imports Query_Total
begin

text \<open>
  What a zone transfer sends: over all its messages, each record of the zone once, in the order of the names, between two copies
  of the SOA record.
\<close>

subsection \<open>The position in the zone\<close>

definition cursor :: "'c query \<Rightarrow> bool \<times> zone_id option \<times> domain_id option \<times> rrset_id option \<times> nat" where
  "cursor q = (q_axfr_is_done q, q_axfr_zone q, q_axfr_current_domain q, q_axfr_current_rrset q, q_axfr_current_rr q)"

lemma cursor_put [simp]:
  "cursor (q\<lparr>q_packet := p\<rparr>) = cursor q" "cursor (q\<lparr>q_compressed_dname_offsets := os\<rparr>) = cursor q"
  "cursor (q\<lparr>q_compressed_dnames := ds\<rparr>) = cursor q" "cursor (q\<lparr>q_reserved_space := n\<rparr>) = cursor q"
  "cursor (q\<lparr>q_edns := e\<rparr>) = cursor q" "cursor (q\<lparr>q_tsig_sign_it := b\<rparr>) = cursor q" "cursor (q\<lparr>q_tsig_prepare_it := b\<rparr>) = cursor q"
  "cursor (q\<lparr>q_tsig_update_it := b\<rparr>) = cursor q" "cursor (q\<lparr>q_maxlen := n\<rparr>) = cursor q"
  by (simp_all add: cursor_def)

named_theorems cursor_keeps

lemma put_packet_cursor [cursor_keeps]: "put_packet q r = Some q' \<Longrightarrow> cursor q' = cursor q"
  by (auto simp: put_packet_def)

lemma edit_packet_cursor [cursor_keeps]: "edit_packet f q = Some q' \<Longrightarrow> cursor q' = cursor q"
  by (auto simp: edit_packet_def put_packet_def)

lemma put_offset_cursor [cursor_keeps]: "query_put_dname_offset db q d off = Some q' \<Longrightarrow> cursor q' = cursor q"
  by (auto simp: query_put_dname_offset_def Option.bind_eq_Some_conv split: if_splits)

lemma clear_offsets_cursor [cursor_keeps]: "query_clear_dname_offsets db q n = Some q' \<Longrightarrow> cursor q' = cursor q"
  by (auto simp: query_clear_dname_offsets_def Option.bind_eq_Some_conv)

lemma clear_tables_cursor [cursor_keeps]: "query_clear_compression_tables db q = Some q' \<Longrightarrow> cursor q' = cursor q"
  by (auto simp: query_clear_compression_tables_def Option.bind_eq_Some_conv)

lemma add_compression_cursor [cursor_keeps]: "query_add_compression_domain db q d off = Some q' \<Longrightarrow> cursor q' = cursor q"
proof (induction "domain_labels db d" arbitrary: d q off rule: less_induct)
  case less
  note u = trans [OF query_add_compression_domain.simps [symmetric] less.prems]
  obtain po where po: "domain_parent db d = Some po" using u by (auto simp: Option.bind_eq_Some_conv)
  show ?case
  proof (cases po)
    case None
    then show ?thesis using u po by simp
  next
    case (Some p)
    then obtain q1 off' where q1: "query_put_dname_offset db q d off = Some q1" "query_add_compression_domain db q1 p off' = Some q'"
      using u po by (auto simp: Option.bind_eq_Some_conv)
    have "domain_labels db p < domain_labels db d" using po Some by (simp add: domain_parent_labels)
    then show ?thesis using less.hyps [OF _ q1(2)] put_offset_cursor [OF q1(1)] by simp
  qed
qed

lemma encode_dname_cursor [cursor_keeps]: "encode_dname db q d = Some q' \<Longrightarrow> cursor q' = cursor q"
proof (induction "domain_labels db d" arbitrary: d q rule: less_induct)
  case less
  note u = trans [OF encode_dname.simps [symmetric] less.prems]
  obtain po where po: "domain_parent db d = Some po" using u by (auto simp: Option.bind_eq_Some_conv)
  show ?case
  proof (cases po)
    case None
    then show ?thesis using u po by (auto dest: put_packet_cursor)
  next
    case (Some p)
    then obtain off where off: "query_get_dname_offset db q d = Some off"
      using u po by (auto simp: Option.bind_eq_Some_conv)
    show ?thesis
    proof (cases "off = 0")
      case True
      then obtain q1 r q2 where q: "query_put_dname_offset db q d (of_nat (buf_position (q_packet q))) = Some q1"
        "put_packet q1 r = Some q2" "encode_dname db q2 p = Some q'"
        using u po Some off by (auto simp: Option.bind_eq_Some_conv split: if_splits)
      have "domain_labels db p < domain_labels db d" using po Some by (simp add: domain_parent_labels)
      then show ?thesis using less.hyps [OF _ q(3)] put_offset_cursor [OF q(1)] put_packet_cursor [OF q(2)] by simp
    next
      case False
      then obtain r where "put_packet q r = Some q'"
        using u po Some off by (auto simp: Option.bind_eq_Some_conv split: if_splits)
      then show ?thesis by (rule put_packet_cursor)
    qed
  qed
qed

lemma encode_rdata_cursor [cursor_keeps]: "encode_rdata db q f a = Some q' \<Longrightarrow> cursor q' = cursor q"
  by (cases a) (auto simp: encode_rdata_def Option.bind_eq_Some_conv split: if_splits dest: put_packet_cursor encode_dname_cursor)

lemma encode_rdatas_cursor [cursor_keeps]: "encode_rdatas db q ty j as = Some q' \<Longrightarrow> cursor q' = cursor q"
proof (induction as arbitrary: q j)
  case (Cons a as)
  then obtain f q1 where "encode_rdata db q f a = Some q1" "encode_rdatas db q1 ty (j + 1) as = Some q'"
    by (auto simp: Option.bind_eq_Some_conv)
  then show ?case using Cons.IH encode_rdata_cursor by metis
qed simp

lemma packet_encode_rr_cursor [cursor_keeps]: "packet_encode_rr db q d r ttl = Some (b, q') \<Longrightarrow> cursor q' = cursor q"
  by (auto simp: packet_encode_rr_def Let_def Option.bind_eq_Some_conv split: if_splits dest!: cursor_keeps)

subsection \<open>The records of a message\<close>

text \<open>Records that were encoded one after the other; the position in the zone may be moved in between.\<close>

inductive encoded :: "namedb \<Rightarrow> (domain_id \<times> rr) list \<Rightarrow> 'c query \<Rightarrow> 'c query \<Rightarrow> bool" for db where
  enc_none: "encoded db [] q q"
| enc_moved: "encoded db rs q q' \<Longrightarrow>
    encoded db rs q (q'\<lparr>q_axfr_current_domain := d, q_axfr_current_rrset := s, q_axfr_current_rr := k\<rparr>)"
| enc_rr: "encoded db rs q q' \<Longrightarrow> packet_encode_rr db q' d r (rr_ttl r) = Some (True, q'') \<Longrightarrow> encoded db (rs @ [(d, r)]) q q''"
| enc_full: "encoded db rs q q' \<Longrightarrow> packet_encode_rr db q' d r (rr_ttl r) = Some (False, q'') \<Longrightarrow> encoded db rs q q''"

lemma encoded_trans: "encoded db rs' q' q'' \<Longrightarrow> encoded db rs q q' \<Longrightarrow> encoded db (rs @ rs') q q''"
proof (induction rule: encoded.induct)
  case (enc_rr rs' q1 q2 d r q3)
  then show ?case using encoded.enc_rr [of db "rs @ rs'" q q2 d r q3] by simp
qed (auto intro: encoded.intros)

lemma encoded_domain: "encoded db rs q q' \<Longrightarrow> encoded db rs q (q'\<lparr>q_axfr_current_domain := d\<rparr>)"
  using enc_moved [where q = q and q' = q' and d = d and s = "q_axfr_current_rrset q'" and k = "q_axfr_current_rr q'"] by simp

lemma encoded_rrset: "encoded db rs q q' \<Longrightarrow> encoded db rs q (q'\<lparr>q_axfr_current_rrset := s, q_axfr_current_rr := k\<rparr>)"
  using enc_moved [where q = q and q' = q' and d = "q_axfr_current_domain q'" and s = s and k = k] by simp

lemma encoded_rr: "encoded db rs q q' \<Longrightarrow> encoded db rs q (q'\<lparr>q_axfr_current_rr := k\<rparr>)"
  using enc_moved [where q = q and q' = q' and d = "q_axfr_current_domain q'" and s = "q_axfr_current_rrset q'" and k = k] by simp

lemma axfr_rrs_sent:
  assumes "axfr_rrs db d rs q n = Some (ok, n', q')"
  shows "\<exists>k \<le> length rs. encoded db (map (Pair d) (take k rs)) q q' \<and> n' = n + of_nat k \<and> (ok \<longleftrightarrow> k = length rs) \<and>
    cursor q' = cursor (q\<lparr>q_axfr_current_rr := q_axfr_current_rr q + k\<rparr>)"
  using assms
proof (induction rs arbitrary: q n)
  case Nil
  then show ?case by (auto intro: enc_none)
next
  case (Cons r rs)
  obtain added q1 where e: "packet_encode_rr db q d r (rr_ttl r) = Some (added, q1)"
    using Cons.prems by (auto simp: Option.bind_eq_Some_conv)
  note c = packet_encode_rr_cursor [OF e]
  show ?case
  proof (cases added)
    case False
    then have "ok = False" "n' = n" "q' = q1" using Cons.prems e by auto
    moreover have "encoded db [] q q1" using e False by (auto intro: enc_full enc_none)
    ultimately show ?thesis using c by (intro exI [of _ 0]) (auto simp: cursor_def)
  next
    case True
    let ?q = "q1\<lparr>q_axfr_current_rr := q_axfr_current_rr q1 + 1\<rparr>"
    have "axfr_rrs db d rs ?q (n + 1) = Some (ok, n', q')" using Cons.prems e True by simp
    from Cons.IH [OF this] obtain k where k: "k \<le> length rs" "encoded db (map (Pair d) (take k rs)) ?q q'" "n' = n + 1 + of_nat k"
      "ok \<longleftrightarrow> k = length rs" "cursor q' = cursor (?q\<lparr>q_axfr_current_rr := q_axfr_current_rr ?q + k\<rparr>)" by blast
    have "encoded db [(d, r)] q ?q" using encoded_rr [OF enc_rr [OF enc_none]] e True by fastforce
    then have "encoded db (map (Pair d) (take (Suc k) (r # rs))) q q'" using encoded_trans [OF k(2)] by fastforce
    then show ?thesis using k c by (intro exI [of _ "Suc k"]) (auto simp: cursor_def)
  qed
qed

text \<open>The records of the RRsets of a domain, without those of other zones and the SOA record.\<close>

definition rrset_to_send :: "namedb \<Rightarrow> zone_id \<Rightarrow> rrset_id option \<Rightarrow> rrset_id \<Rightarrow> rr list" where
  "rrset_to_send db z soa r = (case db_rrsets db r of None \<Rightarrow> []
     | Some rset \<Rightarrow> if Some r \<noteq> soa \<and> rs_zone rset = z then rs_rrs rset else [])"

definition records_of :: "namedb \<Rightarrow> zone_id \<Rightarrow> rrset_id option \<Rightarrow> domain_id \<Rightarrow> rrset_id list \<Rightarrow> (domain_id \<times> rr) list" where
  "records_of db z soa d rs = concat (map (\<lambda>r. map (Pair d) (rrset_to_send db z soa r)) rs)"

text \<open>The records from number \<open>k\<close> of the first RRset on.\<close>

definition records_from :: "namedb \<Rightarrow> zone_id \<Rightarrow> rrset_id option \<Rightarrow> domain_id \<Rightarrow> rrset_id list \<Rightarrow> nat \<Rightarrow> (domain_id \<times> rr) list" where
  "records_from db z soa d rs k = (case rs of [] \<Rightarrow> []
     | r # rs \<Rightarrow> map (Pair d) (drop k (rrset_to_send db z soa r)) @ records_of db z soa d rs)"

lemma records_from_0 [simp]: "records_from db z soa d rs 0 = records_of db z soa d rs"
  by (auto simp: records_from_def records_of_def split: list.splits)

lemma records_from_Cons: "records_from db z soa d (r # rs) k = map (Pair d) (drop k (rrset_to_send db z soa r)) @ records_of db z soa d rs"
  by (simp add: records_from_def)

lemma axfr_rrsets_sent:
  assumes "axfr_rrsets db z soa d rs q n = Some (ok, n', q')"
  shows "\<exists>sent rs' k. encoded db sent q q' \<and> n' = n + of_nat (length sent) \<and>
    records_from db z soa d rs (q_axfr_current_rr q) = sent @ records_from db z soa d rs' k \<and> (ok \<longleftrightarrow> rs' = []) \<and> suffix rs' rs \<and>
    (if ok then rs \<noteq> [] \<longrightarrow> cursor q' = cursor (q\<lparr>q_axfr_current_rrset := None, q_axfr_current_rr := 0\<rparr>)
     else cursor q' = cursor (q\<lparr>q_axfr_current_rrset := (if rs' = rs then q_axfr_current_rrset q else Some (hd rs')), q_axfr_current_rr := k\<rparr>)) \<and>
    (rs = [] \<longrightarrow> q' = q)"
  using assms
proof (induction rs arbitrary: q n)
  case Nil
  then show ?case by (auto simp: records_from_def intro!: exI [of _ "[]"] enc_none)
next
  case (Cons r rs)
  obtain rset where rset: "db_rrsets db r = Some rset" using Cons.prems by (auto simp: Option.bind_eq_Some_conv)
  let ?in = "Some r \<noteq> soa \<and> rs_zone rset = z" and ?k = "q_axfr_current_rr q"
  obtain ok1 n1 q1 where s: "(if ?in then axfr_rrs db d (drop ?k (rs_rrs rset)) q n else Some (True, n, q)) = Some (ok1, n1, q1)"
    and rest: "if \<not> ok1 then (ok, n', q') = (False, n1, q1) else axfr_rrsets db z soa d rs
            (q1\<lparr>q_axfr_current_rrset := (case rs of [] \<Rightarrow> None | n # _ \<Rightarrow> Some n), q_axfr_current_rr := 0\<rparr>) n1 = Some (ok, n', q')"
    using Cons.prems rset by (auto simp: Option.bind_eq_Some_conv split: if_splits)
  have to: "rrset_to_send db z soa r = (if ?in then rs_rrs rset else [])" by (simp add: rrset_to_send_def rset)
  obtain j where j: "j \<le> length (drop ?k (rrset_to_send db z soa r))" "encoded db (map (Pair d) (take j (drop ?k (rrset_to_send db z soa r)))) q q1"
    "n1 = n + of_nat j" "ok1 \<longleftrightarrow> j = length (drop ?k (rrset_to_send db z soa r))" "cursor q1 = cursor (q\<lparr>q_axfr_current_rr := ?k + j\<rparr>)"
  proof (cases ?in)
    case True
    then show thesis using that axfr_rrs_sent [of db d "drop ?k (rs_rrs rset)" q n ok1 n1 q1] s to by auto
  next
    case False
    then show thesis using that [of 0] s to enc_none [of db q] by auto
  qed
  let ?sent = "map (Pair d) (take j (drop ?k (rrset_to_send db z soa r)))"
  show ?case
  proof (cases ok1)
    case False
    have "drop ?k (rrset_to_send db z soa r) = take j (drop ?k (rrset_to_send db z soa r)) @ drop (?k + j) (rrset_to_send db z soa r)"
      by (metis add.commute append_take_drop_id drop_drop)
    then have "records_from db z soa d (r # rs) ?k = ?sent @ records_from db z soa d (r # rs) (?k + j)"
      unfolding records_from_def list.case by (metis append.assoc map_append)
    moreover have "length ?sent = j" using j(1) by simp
    ultimately show ?thesis using False rest j
      by (intro exI [of _ ?sent] exI [of _ "r # rs"] exI [of _ "?k + j"]) (auto simp: cursor_def)
  next
    case True
    let ?q = "q1\<lparr>q_axfr_current_rrset := (case rs of [] \<Rightarrow> None | n # _ \<Rightarrow> Some n), q_axfr_current_rr := 0\<rparr>"
    have "axfr_rrsets db z soa d rs ?q n1 = Some (ok, n', q')" using rest True by simp
    from Cons.IH [OF this] obtain sent rs' k where IH: "encoded db sent ?q q'" "n' = n1 + of_nat (length sent)"
      "records_from db z soa d rs 0 = sent @ records_from db z soa d rs' k" "ok \<longleftrightarrow> rs' = []" "suffix rs' rs"
      "if ok then rs \<noteq> [] \<longrightarrow> cursor q' = cursor (?q\<lparr>q_axfr_current_rrset := None, q_axfr_current_rr := 0\<rparr>)
       else cursor q' = cursor (?q\<lparr>q_axfr_current_rrset := (if rs' = rs then q_axfr_current_rrset ?q else Some (hd rs')), q_axfr_current_rr := k\<rparr>)"
      "rs = [] \<longrightarrow> q' = ?q" by auto
    have all: "?sent = map (Pair d) (drop ?k (rrset_to_send db z soa r))" "length ?sent = j" using j(1,4) True by auto
    have "encoded db (?sent @ sent) q q'" using encoded_trans [OF IH(1) encoded_rrset [OF j(2)]] .
    moreover have "records_from db z soa d (r # rs) ?k = (?sent @ sent) @ records_from db z soa d rs' k"
      using IH(3) all(1) by (simp add: records_from_Cons)
    moreover have "rs' \<noteq> r # rs" using suffix_length_le [OF IH(5)] by auto
    moreover have "rs' = rs \<Longrightarrow> rs' \<noteq> [] \<Longrightarrow> q_axfr_current_rrset ?q = Some (hd rs')" by (cases rs) auto
    moreover have "cursor q' = (if ok then cursor (q\<lparr>q_axfr_current_rrset := None, q_axfr_current_rr := 0\<rparr>)
        else cursor (q\<lparr>q_axfr_current_rrset := Some (hd rs'), q_axfr_current_rr := k\<rparr>))"
    proof (cases ok)
      case okT: True
      then have "cursor q' = cursor (?q\<lparr>q_axfr_current_rrset := None, q_axfr_current_rr := 0\<rparr>)" using IH(6,7) by (cases "rs = []") simp_all
      then show ?thesis using j(5) okT by (simp add: cursor_def)
    next
      case okF: False
      then have "cursor q' = cursor (?q\<lparr>q_axfr_current_rrset := Some (hd rs'), q_axfr_current_rr := k\<rparr>)"
        using IH(4,6) calculation(4) by (cases "rs' = rs") simp_all
      then show ?thesis using j(5) okF by (simp add: cursor_def)
    qed
    moreover have "n' = n + of_nat (length (?sent @ sent))" using IH(2) j(3) all(2) by simp
    moreover have "suffix rs' (r # rs)" using IH(5) by (rule suffix_ConsI)
    ultimately show ?thesis using IH(4) by (intro exI [of _ "?sent @ sent"] exI [of _ rs'] exI [of _ k]) simp
  qed
qed

subsection \<open>The domains of a zone\<close>

abbreviation table_list :: "namedb \<Rightarrow> (dname \<times> domain_id) list" where
  "table_list db \<equiv> inorder (rb_root (dt_names (db_table db)))"

abbreviation below :: "byte list list \<Rightarrow> dname \<times> domain_id \<Rightarrow> bool" where
  "below al e \<equiv> suffix al (labels_of (fst e))"

text \<open>The names from a domain on, and those of them that are in the zone without a gap.\<close>

definition entries_from :: "namedb \<Rightarrow> domain_id \<Rightarrow> (dname \<times> domain_id) list" where
  "entries_from db d = dropWhile (\<lambda>e. snd e \<noteq> d) (table_list db)"

lemma table_list_sorted: "db_ok db \<Longrightarrow> sorted_wrt (\<lambda>a b. rev (labels_of (fst a)) < rev (labels_of (fst b))) (table_list db)"
  using db_ok_tree [of db] by (auto simp: valid_rbtree_def ordered_def dname_rank_def sorted_wrt_map)

lemma table_distinct:
  assumes "db_ok db"
  shows "distinct (map snd (table_list db))"
proof -
  have "sorted_wrt (<) (map (\<lambda>x. dname_rank (fst x)) (table_list db))"
    using db_ok_tree [OF assms] by (simp add: valid_rbtree_def ordered_def)
  then have "distinct (table_list db)" by (simp add: strict_sorted_iff distinct_map)
  moreover have "inj_on snd (set (table_list db))"
    using assms by (auto simp: inj_on_def db_ok_def table_entries_def) (metis option.inject)
  ultimately show ?thesis by (simp add: distinct_map)
qed

lemma entries_from_split:
  assumes "db_ok db" "table_list db = xs @ (n, d) # ys"
  shows "entries_from db d = (n, d) # ys"
proof -
  have "\<forall>e \<in> set xs. snd e \<noteq> d" using table_distinct [OF assms(1)] by (auto simp: assms(2) image_iff)
  then show ?thesis by (simp add: entries_from_def assms(2) dropWhile_append2)
qed

lemma domain_next_entries:
  assumes "db_ok db" "table_list db = xs @ (n, d) # ys"
  shows "domain_next db d = Some (case ys of [] \<Rightarrow> None | e # _ \<Rightarrow> Some (snd e))"
proof -
  let ?root = "rb_root (dt_names (db_table db))"
  have e: "(n, d) \<in> table_entries db" using assms(2) by (simp add: table_entries_def)
  obtain ls where ls: "n = dname_of ls" "named db ls d" using entry_named [OF assms(1) e] .
  have o: "ordered wf_dname dname_rank fst (table_list db)" using db_ok_tree [OF assms(1)] by (simp add: valid_rbtree_def)
  have n: "wf_dname n" using o e by (auto simp: ordered_def table_entries_def)
  have m: "(n, d) \<in> set (table_list db)" using assms(2) by simp
  obtain c l x r fs where p: "search_place dname_cmp fst n ?root [] = Some (rbnode c l x r, fs)" "plug fs (rbnode c l x r) = ?root"
    "dname_rank (fst x) = dname_rank n"
    using dname_order.search_place_spec [OF n, of fst ?root "[]"] o m by (auto split: option.splits)
  have io: "table_list db = (ctx_before fs @ inorder l) @ x # inorder r @ ctx_after fs"
    using inorder_plug [of fs "rbnode c l x r"] p(2) by simp
  then have "x = (n, d)" using ordered_inject [OF o, of x "(n, d)"] p(3) m by simp
  then have ys: "ys = inorder r @ ctx_after fs" using entries_from_split [OF assms] entries_from_split [OF assms(1), of _ n d] io by simp
  have pl: "domain_place db d = Some (rbnode c l x r, fs)" using p(1) named_dname(1) [OF assms(1) ls(2)] ls(1) by (simp add: domain_place_def)
  from rbtree_next_spec [of "(rbnode c l x r, fs)"]
  consider "rbtree_next (rbnode c l x r, fs) = None" "ys = []"
    | q' where "rbtree_next (rbnode c l x r, fs) = Some q'" "remaining q' = ys" "fst q' \<noteq> RBTREE_NULL" using ys by auto
  then show ?thesis
  proof cases
    case 1
    then show ?thesis using pl by (simp add: domain_next_def place_domain_def)
  next
    case 2
    then obtain c' l' y r' fs' where "q' = (rbnode c' l' y r', fs')" by (cases q'; cases "fst q'") auto
    then show ?thesis using 2 pl by (auto simp: domain_next_def place_domain_def split: prod.splits)
  qed
qed

lemma filter_takeWhile: "sorted_wrt (\<lambda>a b. P b \<longrightarrow> P a) xs \<Longrightarrow> filter P xs = takeWhile P xs"
  by (induction xs) (auto simp: filter_empty_conv)

lemma zone_contiguous:
  assumes "db_ok db" "table_list db = xs @ (dname_of al, a) # ys" "valid_labels al"
  shows "filter (below al) (table_list db) = takeWhile (below al) ((dname_of al, a) # ys)"
proof -
  let ?R = "\<lambda>a b :: dname \<times> domain_id. rev (labels_of (fst a)) < rev (labels_of (fst b))"
  have s: "sorted_wrt ?R (xs @ (dname_of al, a) # ys)" using table_list_sorted [OF assms(1)] assms(2) by simp
  have "\<not> below al e" if "e \<in> set xs" for e
  proof
    assume "below al e"
    then have "rev al \<le> rev (labels_of (fst e))" by (intro prefix_le) (simp add: suffix_to_prefix)
    moreover have "rev (labels_of (fst e)) < rev al" using s that assms(3) by (auto simp: sorted_wrt_append)
    ultimately show False by simp
  qed
  moreover have "sorted_wrt (\<lambda>e f. below al f \<longrightarrow> below al e) ((dname_of al, a) # ys)"
  proof -
    have S: "sorted_wrt ?R ((dname_of al, a) # ys)" using s by (simp add: sorted_wrt_append)
    have B: "below al e" if R: "?R e f" and f: "below al f" and e: "e \<in> set ((dname_of al, a) # ys)" for e f
    proof -
      have "rev al \<le> rev (labels_of (fst e))" using e s assms(3) by (auto simp: sorted_wrt_append less_imp_le)
      moreover obtain r where "rev (labels_of (fst f)) = rev al @ r" using f by (auto simp: suffix_to_prefix prefix_def)
      ultimately have "prefix (rev al) (rev (labels_of (fst e)))" using lex_sandwich [of "rev al" "rev (labels_of (fst e))" r] R by simp
      then show ?thesis by (simp add: suffix_to_prefix)
    qed
    show ?thesis
    proof (rule sorted_wrt_mono_rel [OF _ S])
      fix e f assume "e \<in> set ((dname_of al, a) # ys)" "?R e f"
      then show "below al f \<longrightarrow> below al e" using B [of e f] by blast
    qed
  qed
  ultimately show ?thesis using filter_takeWhile [of "below al" "(dname_of al, a) # ys"] assms(2)
    by (metis (no_types, lifting) append_Nil filter_append filter_empty_conv)
qed

subsection \<open>What is still to be sent\<close>

definition domain_records :: "namedb \<Rightarrow> zone_id \<Rightarrow> rrset_id option \<Rightarrow> domain_id \<Rightarrow> (domain_id \<times> rr) list" where
  "domain_records db z soa d = (case db_domains db d of None \<Rightarrow> [] | Some dm \<Rightarrow> records_of db z soa d (dom_rrsets dm))"

definition zone_records :: "namedb \<Rightarrow> zone_id \<Rightarrow> rrset_id option \<Rightarrow> (dname \<times> domain_id) list \<Rightarrow> (domain_id \<times> rr) list" where
  "zone_records db z soa es = concat (map (domain_records db z soa \<circ> snd) es)"

definition here_records :: "namedb \<Rightarrow> zone_id \<Rightarrow> rrset_id option \<Rightarrow> domain_id \<Rightarrow> rrset_id option \<Rightarrow> nat \<Rightarrow> (domain_id \<times> rr) list" where
  "here_records db z soa d cr k = (case cr of None \<Rightarrow> domain_records db z soa d
     | Some r \<Rightarrow> (case db_domains db d of None \<Rightarrow> [] | Some dm \<Rightarrow> records_from db z soa d (dropWhile (\<lambda>x. x \<noteq> r) (dom_rrsets dm)) k))"

definition pending :: "namedb \<Rightarrow> zone_id \<Rightarrow> rrset_id option \<Rightarrow> byte list list \<Rightarrow> 'c query \<Rightarrow> (domain_id \<times> rr) list" where
  "pending db z soa al q = (case q_axfr_current_domain q of None \<Rightarrow> []
     | Some d \<Rightarrow> (case takeWhile (below al) (entries_from db d) of [] \<Rightarrow> []
        | _ # es \<Rightarrow> here_records db z soa d (q_axfr_current_rrset q) (q_axfr_current_rr q) @ zone_records db z soa es))"

lemma pending_cursor: "cursor q = cursor q' \<Longrightarrow> pending db z soa al q = pending db z soa al q'"
  by (auto simp: pending_def cursor_def split: option.splits list.splits)

text \<open>The RRsets before the first one of the zone are not sent.\<close>

lemma find_any_records:
  assumes "find_rrset_where db (\<lambda>rs. Some (rs_zone rs = z)) rs = Some ro"
  shows "records_of db z soa d rs = records_from db z soa d (case ro of None \<Rightarrow> [] | Some r \<Rightarrow> dropWhile (\<lambda>x. x \<noteq> r) rs) 0"
  using assms
proof (induction rs)
  case Nil
  then show ?case by (auto simp: records_of_def)
next
  case (Cons r rs)
  obtain rset where rset: "db_rrsets db r = Some rset" using Cons.prems by (auto simp: Option.bind_eq_Some_conv)
  show ?case
  proof (cases "rs_zone rset = z")
    case True
    then show ?thesis using Cons.prems rset by auto
  next
    case False
    then have f: "find_rrset_where db (\<lambda>rs. Some (rs_zone rs = z)) rs = Some ro" using Cons.prems rset by simp
    have "rrset_to_send db z soa r = []" using False rset by (simp add: rrset_to_send_def)
    then have e: "records_of db z soa d (r # rs) = records_of db z soa d rs" by (simp add: records_of_def)
    have "ro \<noteq> Some r"
    proof
      assume "ro = Some r"
      then have "\<exists>rset. db_rrsets db r = Some rset \<and> rs_zone rset = z" using f
        by (induction rs) (auto simp: Option.bind_eq_Some_conv split: if_splits)
      then show False using rset False by simp
    qed
    then show ?thesis using Cons.IH [OF f] e by (cases ro) auto
  qed
qed

definition rrset_lists_ok :: "namedb \<Rightarrow> bool" where
  "rrset_lists_ok db \<longleftrightarrow> (\<forall>d dm. db_domains db d = Some dm \<longrightarrow> distinct (dom_rrsets dm))"

lemma dropWhile_suffix:
  assumes "distinct xs" "suffix (y # ys) xs"
  shows "dropWhile (\<lambda>x. x \<noteq> y) xs = y # ys"
proof -
  obtain zs where zs: "xs = zs @ y # ys" using assms(2) by (auto simp: suffix_def)
  then have "\<forall>z \<in> set zs. z \<noteq> y" using assms(1) by auto
  then show ?thesis by (simp add: zs dropWhile_append2)
qed

text \<open>The position is at a domain of the table, and its RRset is one of the domain.\<close>

definition cursor_ok :: "namedb \<Rightarrow> 'c query \<Rightarrow> bool" where
  "cursor_ok db q \<longleftrightarrow> (case q_axfr_current_domain q of None \<Rightarrow> True
     | Some d \<Rightarrow> (\<exists>n. (n, d) \<in> set (table_list db)) \<and>
        (case q_axfr_current_rrset q of None \<Rightarrow> True | Some r \<Rightarrow> (\<exists>dm. db_domains db d = Some dm \<and> r \<in> set (dom_rrsets dm))))"

lemma cursor_ok_cursor: "cursor q = cursor q' \<Longrightarrow> cursor_ok db q = cursor_ok db q'"
  by (auto simp: cursor_ok_def cursor_def split: option.splits)

lemma dropWhile_found: "r \<in> set xs \<Longrightarrow> \<exists>ys. dropWhile (\<lambda>x. x \<noteq> r) xs = r # ys"
  by (induction xs) auto

lemma find_rrset_where_in: "find_rrset_where db P rs = Some (Some r) \<Longrightarrow> r \<in> set rs"
  by (induction rs) (auto simp: Option.bind_eq_Some_conv split: if_splits)

text \<open>The RRsets that are still to come at a domain.\<close>

lemma here_records_from:
  assumes d: "db_domains db d = Some dm" and cr: "\<And>r. q_axfr_current_rrset q = Some r \<Longrightarrow> r \<in> set (dom_rrsets dm)"
    and q1: "(case q_axfr_current_rrset q of Some _ \<Rightarrow> Some q
         | None \<Rightarrow> do { r \<leftarrow> domain_find_any_rrset db d z; Some (q\<lparr>q_axfr_current_rrset := r, q_axfr_current_rr := 0\<rparr>) }) = Some q1"
    and rs: "(case q_axfr_current_rrset q1 of None \<Rightarrow> Some [] | Some r \<Rightarrow> rrsets_from db d r) = Some rs"
  shows "here_records db z soa d (q_axfr_current_rrset q) (q_axfr_current_rr q) = records_from db z soa d rs (q_axfr_current_rr q1) \<and>
    suffix rs (dom_rrsets dm) \<and> encoded db [] q q1 \<and> q_axfr_current_domain q1 = q_axfr_current_domain q \<and>
    (if rs = [] then q_axfr_current_rrset q1 = None else q_axfr_current_rrset q1 = Some (hd rs)) \<and>
    q_axfr_is_done q1 = q_axfr_is_done q \<and> q_axfr_zone q1 = q_axfr_zone q"
proof (cases "q_axfr_current_rrset q")
  case None
  then obtain ro where ro: "find_rrset_where db (\<lambda>rs. Some (rs_zone rs = z)) (dom_rrsets dm) = Some ro"
    "q1 = q\<lparr>q_axfr_current_rrset := ro, q_axfr_current_rr := 0\<rparr>"
    using q1 d by (auto simp: domain_find_any_rrset_def Option.bind_eq_Some_conv)
  have r: "\<And>r. ro = Some r \<Longrightarrow> r \<in> set (dom_rrsets dm)" using ro(1) find_rrset_where_in by blast
  have rs': "rs = (case ro of None \<Rightarrow> [] | Some r \<Rightarrow> dropWhile (\<lambda>x. x \<noteq> r) (dom_rrsets dm))"
    using rs ro(2) d by (cases ro) (auto simp: rrsets_from_def)
  have "encoded db [] q q1" using encoded_rrset [OF enc_none] ro(2) by simp
  moreover have "rs = [] \<longleftrightarrow> ro = None" "rs \<noteq> [] \<longrightarrow> ro = Some (hd rs)"
    using rs' r dropWhile_found [of _ "dom_rrsets dm"] by (cases ro; fastforce)+
  moreover have "suffix rs (dom_rrsets dm)" using rs' by (cases ro) (auto simp: suffix_dropWhile)
  moreover have "here_records db z soa d None (q_axfr_current_rr q) = records_from db z soa d rs 0"
    using find_any_records [OF ro(1), of soa d] d unfolding rs' by (simp add: here_records_def domain_records_def)
  ultimately show ?thesis using None ro(2) by (cases "rs = []") simp_all
next
  case (Some r)
  then have q: "q1 = q" using q1 by simp
  have "rs = dropWhile (\<lambda>x. x \<noteq> r) (dom_rrsets dm)" using rs Some d q by (simp add: rrsets_from_def)
  moreover have "r \<in> set (dom_rrsets dm)" using cr Some .
  ultimately have "rs \<noteq> []" "hd rs = r" "suffix rs (dom_rrsets dm)"
    "records_from db z soa d rs (q_axfr_current_rr q1) = here_records db z soa d (q_axfr_current_rrset q) (q_axfr_current_rr q)"
    using Some d q dropWhile_found [of r "dom_rrsets dm"] by (auto simp: here_records_def suffix_dropWhile)
  then show ?thesis using Some q by (auto intro: enc_none)
qed

lemma pending_next:
  assumes "db_ok db" "table_list db = xs @ (n, d) # ys" "q_axfr_current_rrset q = None"
    "q_axfr_current_domain q = (case ys of [] \<Rightarrow> None | e # _ \<Rightarrow> Some (snd e))"
  shows "pending db z soa al q = zone_records db z soa (takeWhile (below al) ys)"
proof (cases ys)
  case Nil
  then show ?thesis using assms(4) by (simp add: pending_def zone_records_def)
next
  case (Cons e es)
  obtain n' d' where e: "e = (n', d')" by (cases e)
  have "entries_from db d' = (n', d') # es" using entries_from_split [OF assms(1), of "xs @ [(n, d)]" n' d' es] assms(2) Cons e by simp
  then show ?thesis using assms(3,4) Cons e by (auto simp: pending_def zone_records_def here_records_def)
qed

lemma axfr_domains_sent:
  assumes db: "db_ok db" "rrset_lists_ok db" "valid_labels al"
    and "axfr_domains fuel db z soa (dname_of al) q n = Some (ok, n', q')" "cursor_ok db q"
  shows "\<exists>sent. encoded db sent q q' \<and> n' = n + of_nat (length sent) \<and> pending db z soa al q = sent @ (if ok then [] else pending db z soa al q') \<and>
    (ok \<longrightarrow> pending db z soa al q' = []) \<and> cursor_ok db q' \<and> q_axfr_is_done q' = q_axfr_is_done q \<and> q_axfr_zone q' = q_axfr_zone q"
  using assms(4,5)
proof (induction fuel arbitrary: q n)
  case (Suc fuel)
  show ?case
  proof (cases "q_axfr_current_domain q")
    case None
    then show ?thesis using Suc.prems by (auto simp: pending_def intro!: exI [of _ "[]"] enc_none)
  next
    case (Some d)
    obtain nm where "(nm, d) \<in> set (table_list db)" using Suc.prems(2) Some by (auto simp: cursor_ok_def)
    then obtain xs ys where t: "table_list db = xs @ (nm, d) # ys" by (meson split_list)
    have ef: "entries_from db d = (nm, d) # ys" using entries_from_split [OF db(1) t] .
    have "(nm, d) \<in> table_entries db" using t by (simp add: table_entries_def)
    then obtain ls where ls: "nm = dname_of ls" "named db ls d" using entry_named [OF db(1)] by blast
    then have v: "valid_labels ls" "domain_dname db d = Some (dname_of ls)" using named_valid named_dname(1) [OF db(1)] by blast+
    obtain dm where dm: "db_domains db d = Some dm" using named_in_domains [OF db(1) ls(2)] by auto
    have sub: "dname_is_subdomain (dname_of ls) (dname_of al) = Some (suffix al ls)" using dname_is_subdomain_suffix [OF v(1) db(3)] .
    show ?thesis
    proof (cases "suffix al ls")
      case False
      then show ?thesis using Suc.prems Some v sub ef ls(1) by (auto simp: pending_def intro!: exI [of _ "[]"] enc_none)
    next
      case True
      let ?es = "takeWhile (below al) ys"
      obtain q1 rs ok1 n1 q2 where st: "(case q_axfr_current_rrset q of Some _ \<Rightarrow> Some q
         | None \<Rightarrow> do { r \<leftarrow> domain_find_any_rrset db d z; Some (q\<lparr>q_axfr_current_rrset := r, q_axfr_current_rr := 0\<rparr>) }) = Some q1"
        "(case q_axfr_current_rrset q1 of None \<Rightarrow> Some [] | Some r \<Rightarrow> rrsets_from db d r) = Some rs"
        "axfr_rrsets db z soa d rs q1 n = Some (ok1, n1, q2)"
        "if \<not> ok1 then (ok, n', q') = (False, n1, q2) else domain_next db d \<bind> (\<lambda>nx. axfr_domains fuel db z soa (dname_of al) (q2\<lparr>q_axfr_current_domain := nx\<rparr>) n1) = Some (ok, n', q')"
        using Suc.prems(1) Some v sub True by (auto simp: Option.bind_eq_Some_conv split: if_splits)
      have cr: "\<And>r. q_axfr_current_rrset q = Some r \<Longrightarrow> r \<in> set (dom_rrsets dm)" using Suc.prems(2) Some dm by (auto simp: cursor_ok_def)
      have h: "here_records db z soa d (q_axfr_current_rrset q) (q_axfr_current_rr q) = records_from db z soa d rs (q_axfr_current_rr q1)"
        "suffix rs (dom_rrsets dm)" "encoded db [] q q1" "q_axfr_current_domain q1 = Some d"
        "if rs = [] then q_axfr_current_rrset q1 = None else q_axfr_current_rrset q1 = Some (hd rs)"
        "q_axfr_is_done q1 = q_axfr_is_done q" "q_axfr_zone q1 = q_axfr_zone q"
        using here_records_from [OF dm cr st(1,2), of soa] Some by simp_all
      have p: "pending db z soa al q = records_from db z soa d rs (q_axfr_current_rr q1) @ zone_records db z soa ?es"
        using Some ef True ls(1) v(1) h(1) by (simp add: pending_def)
      obtain sent rs' k where r: "encoded db sent q1 q2" "n1 = n + of_nat (length sent)"
        "records_from db z soa d rs (q_axfr_current_rr q1) = sent @ records_from db z soa d rs' k" "ok1 \<longleftrightarrow> rs' = []" "suffix rs' rs"
        "if ok1 then rs \<noteq> [] \<longrightarrow> cursor q2 = cursor (q1\<lparr>q_axfr_current_rrset := None, q_axfr_current_rr := 0\<rparr>)
          else cursor q2 = cursor (q1\<lparr>q_axfr_current_rrset := (if rs' = rs then q_axfr_current_rrset q1 else Some (hd rs')), q_axfr_current_rr := k\<rparr>)"
        "rs = [] \<longrightarrow> q2 = q1"
        using axfr_rrsets_sent [OF st(3)] by blast
      have enc: "encoded db sent q q2" using encoded_trans [OF r(1) h(3)] by simp
      show ?thesis
      proof (cases ok1)
        case False
        then have q': "ok = False" "n' = n1" "q' = q2" using st(4) by simp_all
        obtain y ys' where rs': "rs' = y # ys'" using r(4) False by (cases rs') auto
        have suf: "suffix rs' (dom_rrsets dm)" using r(5) h(2) suffix_order.trans by blast
        then have dw: "dropWhile (\<lambda>x. x \<noteq> y) (dom_rrsets dm) = rs'" "y \<in> set (dom_rrsets dm)"
          using dropWhile_suffix [of "dom_rrsets dm" y ys'] db(2) dm rs' set_mono_suffix [OF suf] by (auto simp: rrset_lists_ok_def)
        have "rs \<noteq> []" using r(5) rs' by auto
        then have c: "q_axfr_current_domain q' = Some d" "q_axfr_current_rrset q' = Some y" "q_axfr_current_rr q' = k"
          "q_axfr_is_done q' = q_axfr_is_done q" "q_axfr_zone q' = q_axfr_zone q"
          using r(6) False h(4-7) rs' q' by (auto simp: cursor_def split: if_splits)
        have "pending db z soa al q' = records_from db z soa d rs' k @ zone_records db z soa ?es"
          using c ef True ls(1) v(1) dm dw(1) by (simp add: pending_def here_records_def)
        moreover have "cursor_ok db q'" using c t dm dw(2) by (auto simp: cursor_ok_def)
        ultimately show ?thesis using enc q' r(2,3) p c by (intro exI [of _ sent]) simp
      next
        case True
        have nx: "domain_next db d = Some (case ys of [] \<Rightarrow> None | e # _ \<Rightarrow> Some (snd e))" using domain_next_entries [OF db(1) t] .
        let ?q = "q2\<lparr>q_axfr_current_domain := (case ys of [] \<Rightarrow> None | e # _ \<Rightarrow> Some (snd e))\<rparr>"
        have ad: "axfr_domains fuel db z soa (dname_of al) ?q n1 = Some (ok, n', q')" using st(4) True nx by simp
        have c: "q_axfr_current_rrset q2 = None" "q_axfr_is_done q2 = q_axfr_is_done q" "q_axfr_zone q2 = q_axfr_zone q"
          using r(6,7) h(5,6,7) True by (cases "rs = []"; simp add: cursor_def)+
        have "cursor_ok db ?q" using c(1) t by (cases ys) (auto simp: cursor_ok_def)
        from Suc.IH [OF ad this] obtain sent' where IH: "encoded db sent' ?q q'" "n' = n1 + of_nat (length sent')"
          "pending db z soa al ?q = sent' @ (if ok then [] else pending db z soa al q')" "ok \<longrightarrow> pending db z soa al q' = []" "cursor_ok db q'"
          "q_axfr_is_done q' = q_axfr_is_done ?q" "q_axfr_zone q' = q_axfr_zone ?q" by blast
        have "pending db z soa al ?q = zone_records db z soa ?es" using pending_next [OF db(1) t, of ?q z soa al] c(1) by simp
        moreover have "rs' = []" using r(4) True by simp
        moreover have "encoded db (sent @ sent') q q'" using encoded_trans [OF IH(1) encoded_domain [OF enc]] .
        ultimately show ?thesis using IH(2-7) r(2,3) p c by (intro exI [of _ "sent @ sent'"]) (auto simp: records_from_def)
      qed
    qed
  qed
qed simp

subsection \<open>The messages\<close>

text \<open>A zone with an apex in the table and a SOA record.\<close>

definition zone_loaded :: "namedb \<Rightarrow> zone_id \<Rightarrow> zone \<Rightarrow> domain_id \<Rightarrow> byte list list \<Rightarrow> rrset_id \<Rightarrow> rr \<Rightarrow> bool" where
  "zone_loaded db z zn a al soa srr \<longleftrightarrow> db_zones db z = Some zn \<and> zone_apex zn = Some a \<and> named db al a \<and>
     zone_soa_rrset zn = Some soa \<and> (\<exists>rset. db_rrsets db soa = Some rset \<and> rs_rrs rset = [srr])"

definition todo :: "namedb \<Rightarrow> zone_id \<Rightarrow> domain_id \<Rightarrow> byte list list \<Rightarrow> rrset_id \<Rightarrow> rr \<Rightarrow> 'c query \<Rightarrow> (domain_id \<times> rr) list" where
  "todo db z a al soa srr q = (if q_axfr_is_done q then [] else pending db z (Some soa) al q @ [(a, srr)])"

text \<open>A message with records from the offset \<open>start\<close> on: they are encoded, and the header has their number.\<close>

definition sends :: "namedb \<Rightarrow> nat \<Rightarrow> (domain_id \<times> rr) list \<Rightarrow> 'c query \<Rightarrow> bool" where
  "sends db start sent q' \<longleftrightarrow> (\<exists>(q1 :: 'c query) q2 q3 q4. encoded db sent q1 q2 \<and> buf_position (q_packet q1) = start \<and> q_packet q3 = q_packet q2 \<and>
     axfr_header q3 (of_nat (length sent)) = Some q4 \<and> query_clear_compression_tables db q4 = Some q')"

lemma axfr_header_cursor [cursor_keeps]: "axfr_header q n = Some q' \<Longrightarrow> cursor q' = cursor q"
  by (auto simp: axfr_header_def Option.bind_eq_Some_conv dest!: edit_packet_cursor split: if_splits)

lemma prepare_response_cursor [cursor_keeps]: "query_prepare_response st q = Some q' \<Longrightarrow> cursor q' = cursor q"
  by (auto simp: query_prepare_response_def Option.bind_eq_Some_conv)

lemma todo_cursor: "cursor q = cursor q' \<Longrightarrow> todo db z a al soa srr q = todo db z a al soa srr q'"
  using pending_cursor [of q q'] by (auto simp: todo_def cursor_def)

lemma axfr_soa_sent:
  assumes "zone_loaded db z zn a al soa srr" "axfr_soa db zn q = Some (added, q')"
  shows "encoded db (if added then [(a, srr)] else []) q q' \<and> cursor q' = cursor q"
proof -
  have e: "packet_encode_rr db q a srr (rr_ttl srr) = Some (added, q')" using assms by (auto simp: axfr_soa_def zone_loaded_def)
  then show ?thesis using packet_encode_rr_cursor [OF e] enc_rr [OF enc_none [of db q]] enc_full [OF enc_none [of db q]] by (cases added) auto
qed

lemma axfr_fill_sent:
  assumes db: "db_ok db" "rrset_lists_ok db" and z: "zone_loaded db z zn a al soa srr"
    and f: "axfr_fill db z zn q n = Some (n', q')" and q: "cursor_ok db q" "\<not> q_axfr_is_done q"
  obtains sent q2 where "encoded db sent q q2" "q_packet q' = q_packet q2" "n' = n + of_nat (length sent)"
    "todo db z a al soa srr q = sent @ todo db z a al soa srr q'" "cursor_ok db q'" "q_axfr_zone q' = q_axfr_zone q"
proof -
  have v: "valid_labels al" "domain_dname db a = Some (dname_of al)" using z named_valid named_dname(1) [OF db(1)] by (auto simp: zone_loaded_def)
  obtain ok n1 q1 where d: "axfr_domains (rb_count (dt_names (db_table db)) + 1) db z (Some soa) (dname_of al) q n = Some (ok, n1, q1)"
    using f z v by (cases "axfr_domains (rb_count (dt_names (db_table db)) + 1) db z (Some soa) (dname_of al) q n")
      (auto simp: axfr_fill_def zone_loaded_def simp del: axfr_domains.simps)
  have rest: "if \<not> ok then (n', q') = (n1, q1) else axfr_soa db zn q1 \<bind> (\<lambda>(added, q).
        if added then Some (n1 + 1, q\<lparr>q_tsig_sign_it := True, q_axfr_is_done := True\<rparr>) else Some (n1, q)) = Some (n', q')"
    using f z v d by (auto simp: axfr_fill_def zone_loaded_def simp del: axfr_domains.simps split: if_splits)
  obtain sent where s: "encoded db sent q q1" "n1 = n + of_nat (length sent)"
    "pending db z (Some soa) al q = sent @ (if ok then [] else pending db z (Some soa) al q1)" "ok \<longrightarrow> pending db z (Some soa) al q1 = []"
    "cursor_ok db q1" "q_axfr_is_done q1 = q_axfr_is_done q" "q_axfr_zone q1 = q_axfr_zone q"
    using axfr_domains_sent [OF db v(1) d q(1)] by blast
  show thesis
  proof (cases ok)
    case False
    then show thesis using that [OF s(1)] rest s q(2) by (simp add: todo_def)
  next
    case True
    then obtain added q2 where q2: "axfr_soa db zn q1 = Some (added, q2)"
      "(n', q') = (if added then (n1 + 1, q2\<lparr>q_tsig_sign_it := True, q_axfr_is_done := True\<rparr>) else (n1, q2))"
      using rest by (auto simp: Option.bind_eq_Some_conv split: if_splits)
    note e = axfr_soa_sent [OF z q2(1)]
    have enc: "encoded db (sent @ (if added then [(a, srr)] else [])) q q2" using encoded_trans [OF conjunct1 [OF e] s(1)] .
    have c: "cursor q2 = cursor q1" "pending db z (Some soa) al q2 = []" "cursor_ok db q2"
      using e pending_cursor [of q2 q1] cursor_ok_cursor [of q2 q1 db] s(4,5) True by simp_all
    show thesis
    proof (cases added)
      case False
      then show thesis using that [OF enc] q2(2) c s True q(2) by (simp add: todo_def) (simp add: cursor_def)
    next
      case True
      have "cursor_ok db q'" using c(3) q2(2) True by (auto simp: cursor_ok_def split: option.splits)
      moreover have "q_axfr_zone q' = q_axfr_zone q" using c(1) q2(2) True s(7) by (simp add: cursor_def)
      ultimately show thesis using that [OF enc] q2(2) s(2,3) True \<open>ok\<close> q(2) by (simp add: todo_def)
    qed
  qed
qed

text \<open>The header and the tables do not touch the position.\<close>

lemma sends_finish:
  fixes q1 q' :: "'c query"
  assumes "encoded db sent q1 q2" "buf_position (q_packet q1) = start" "q_packet q3 = q_packet q2"
    "axfr_header q3 (of_nat (length sent)) \<bind> query_clear_compression_tables db = Some q'"
  shows "sends db start sent q' \<and> cursor q' = cursor q3"
proof -
  obtain q4 where q4: "axfr_header q3 (of_nat (length sent)) = Some q4" "query_clear_compression_tables db q4 = Some q'"
    using assms(4) by (auto simp: Option.bind_eq_Some_conv)
  have "cursor q' = cursor q3" using clear_tables_cursor [OF q4(2)] axfr_header_cursor [OF q4(1)] by simp
  then show ?thesis using assms(1-3) q4 by (auto simp: sends_def)
qed

lemma axfr_continue_start:
  assumes "axfr_continue st q = Some q'"
  shows "cursor q' = cursor q \<and> buf_position (q_packet q') = QHEADERSZ"
proof -
  obtain q1 q2 where q: "edit_packet (\<lambda>p. buffer_set_limit p QHEADERSZ) (q\<lparr>q_edns := (q_edns q)\<lparr>ed_status := EDNS_NOT_PRESENT\<rparr>\<rparr>) = Some q1"
    "edit_packet (\<lambda>p. QDCOUNT_SET p 0) q1 = Some q2" "query_prepare_response st q2 = Some q'"
    using assms by (auto simp: axfr_continue_def Let_def Option.bind_eq_Some_conv)
  have "buf_limit (q_packet q1) = QHEADERSZ \<and> QHEADERSZ \<le> buf_capacity (q_packet q1)"
    using q(1) by (auto simp: edit_packet_def put_packet_def buffer_set_limit_def Option.bind_eq_Some_conv Let_def split: if_splits)
  then have "buf_limit (q_packet q2) = QHEADERSZ \<and> QHEADERSZ \<le> buf_capacity (q_packet q2)"
    using q(2) by (auto simp: edit_packet_def put_packet_def QDCOUNT_SET_def buffer_write_u16_at_def buffer_write_at_def Option.bind_eq_Some_conv split: if_splits)
  then have "buf_position (q_packet q') = QHEADERSZ"
    using q(3) by (auto simp: query_prepare_response_def buffer_set_position_def buffer_set_limit_def FLAGS_SET_def buffer_write_u16_at_def
        buffer_write_at_def Option.bind_eq_Some_conv Let_def split: if_splits)
  then show ?thesis using q prepare_response_cursor [OF q(3)] edit_packet_cursor [OF q(2)] edit_packet_cursor [OF q(1)] by simp
qed

lemma query_axfr_more:
  assumes db: "db = n_db nsd" "db_ok db" "rrset_lists_ok db" and z: "zone_loaded db z zn a al soa srr"
    and r: "query_axfr nsd q = Some (QUERY_IN_AXFR, q')" and q: "q_axfr_zone q = Some z" "cursor_ok db q" "\<not> q_axfr_is_done q"
  shows "\<exists>sent. sends db QHEADERSZ sent q' \<and> todo db z a al soa srr q = sent @ todo db z a al soa srr q' \<and> cursor_ok db q' \<and> q_axfr_zone q' = Some z"
proof -
  let ?q = "q\<lparr>q_maxlen := min (q_maxlen q) AXFR_MAX_MESSAGE_LEN, q_tsig_prepare_it := q_tsig_sign_it q, q_tsig_update_it := True, q_tsig_sign_it := False\<rparr>"
  obtain q1 n2 q2 where s: "axfr_continue (n_tsig nsd) ?q = Some q1" "axfr_fill db z zn q1 0 = Some (n2, q2)"
    "axfr_header q2 n2 \<bind> query_clear_compression_tables db = Some q'"
    using r q z unfolding query_axfr_def Let_def db(1) [symmetric] by (auto simp: zone_loaded_def Option.bind_eq_Some_conv split: if_splits)
  have c: "cursor q1 = cursor q" "buf_position (q_packet q1) = QHEADERSZ" using axfr_continue_start [OF s(1)] by simp_all
  then have q1: "cursor_ok db q1" "\<not> q_axfr_is_done q1" "q_axfr_zone q1 = Some z" "todo db z a al soa srr q1 = todo db z a al soa srr q"
    using cursor_ok_cursor [OF c(1)] todo_cursor [OF c(1)] q by (auto simp: cursor_def)
  obtain sent q3 where f: "encoded db sent q1 q3" "q_packet q2 = q_packet q3" "n2 = 0 + of_nat (length sent)"
    "todo db z a al soa srr q1 = sent @ todo db z a al soa srr q2" "cursor_ok db q2" "q_axfr_zone q2 = q_axfr_zone q1"
    using axfr_fill_sent [OF db(2,3) z s(2) q1(1,2)] .
  have e: "sends db QHEADERSZ sent q' \<and> cursor q' = cursor q2" using sends_finish [OF f(1) c(2) f(2)] s(3) f(3) by simp
  then show ?thesis using f(4-6) q1(3,4) todo_cursor [of q' q2] cursor_ok_cursor [of q' q2 db] by (auto simp: cursor_def)
qed

definition zone_contents :: "namedb \<Rightarrow> zone_id \<Rightarrow> byte list list \<Rightarrow> rrset_id \<Rightarrow> (domain_id \<times> rr) list" where
  "zone_contents db z al soa = zone_records db z (Some soa) (filter (below al) (table_list db))"

definition zones_ok :: "namedb \<Rightarrow> bool" where
  "zones_ok db \<longleftrightarrow> (\<forall>z zn a. db_zones db z = Some zn \<longrightarrow> zone_apex zn = Some a \<longrightarrow> (\<exists>al. named db al a))"

lemma pending_start:
  assumes "db_ok db" "named db al a" "q_axfr_current_domain q = Some a" "q_axfr_current_rrset q = None"
  shows "pending db z (Some soa) al q = zone_contents db z al soa" "cursor_ok db q"
proof -
  have v: "valid_labels al" using assms(2) by (rule named_valid)
  obtain xs ys where t: "table_list db = xs @ (dname_of al, a) # ys"
    using assms(2) by (auto simp: named_def table_entries_def dest: split_list)
  show "cursor_ok db q" using assms(3,4) t by (auto simp: cursor_ok_def)
  show "pending db z (Some soa) al q = zone_contents db z al soa"
    using entries_from_split [OF assms(1) t] zone_contiguous [OF assms(1) t v] assms(3,4) v
    by (simp add: pending_def zone_contents_def here_records_def zone_records_def)
qed

lemma add_compression_packet: "query_add_compression_domain db q d off = Some q' \<Longrightarrow> q_packet q' = q_packet q"
proof (induction "domain_labels db d" arbitrary: d q off rule: less_induct)
  case less
  note u = trans [OF query_add_compression_domain.simps [symmetric] less.prems]
  obtain po where po: "domain_parent db d = Some po" using u by (auto simp: Option.bind_eq_Some_conv)
  show ?case
  proof (cases po)
    case None
    then show ?thesis using u po by simp
  next
    case (Some p)
    then obtain q1 off' where q1: "query_put_dname_offset db q d off = Some q1" "query_add_compression_domain db q1 p off' = Some q'"
      using u po by (auto simp: Option.bind_eq_Some_conv)
    have "domain_labels db p < domain_labels db d" using po Some by (simp add: domain_parent_labels)
    then show ?thesis using less.hyps [OF _ q1(2)] q1(1) by (auto simp: query_put_dname_offset_def Option.bind_eq_Some_conv split: if_splits)
  qed
qed

lemma axfr_start_cases:
  assumes "axfr_start db q = Some (Some z, q1)"
  shows "\<exists>zn a qa qb qn cm. db_zones db z = Some zn \<and> zone_apex zn = Some a \<and> zone_soa_rrset zn \<noteq> None \<and>
    q_qname q = Some qn \<and> namedb_lookup db qn = Some (True, cm, a) \<and> cursor qa = (q_axfr_is_done q, Some z, Some a, None, 0) \<and> q_packet qa = q_packet q \<and>
    query_add_compression_domain db qa a (of_nat QHEADERSZ) = Some qb \<and> axfr_soa db zn qb = Some (True, q1)"
proof -
  let ?qa = "\<lambda>a. q\<lparr>q_axfr_zone := Some z, q_axfr_current_domain := Some a, q_axfr_current_rrset := None, q_axfr_current_rr := 0,
                     q_tsig_sign_it := (if tr_status (q_tsig q) = TSIG_OK then True else q_tsig_sign_it q)\<rparr>"
  have "\<exists>zn a qb qn cm. db_zones db z = Some zn \<and> zone_apex zn = Some a \<and> zone_soa_rrset zn \<noteq> None \<and>
    q_qname q = Some qn \<and> namedb_lookup db qn = Some (True, cm, a) \<and> query_add_compression_domain db (?qa a) a (of_nat QHEADERSZ) = Some qb \<and> axfr_soa db zn qb = Some (True, q1)"
    using assms by (auto simp: axfr_start_def Let_def Option.bind_eq_Some_conv split: option.splits if_splits)
  then obtain zn a qb qn cm where "db_zones db z = Some zn" "zone_apex zn = Some a" "zone_soa_rrset zn \<noteq> None"
    "q_qname q = Some qn" "namedb_lookup db qn = Some (True, cm, a)" "query_add_compression_domain db (?qa a) a (of_nat QHEADERSZ) = Some qb" "axfr_soa db zn qb = Some (True, q1)" by blast
  then show ?thesis by (intro exI [of _ zn] exI [of _ a] exI [of _ "?qa a"] exI [of _ qb] exI [of _ qn] exI [of _ cm]) (simp add: cursor_def)
qed

lemma lookup_exact_named:
  assumes "db_ok db" "valid_labels ls" "namedb_lookup db (dname_of ls) = Some (True, cm, a)"
  shows "named db ls a"
  using domain_table_search_spec [OF assms(1,2)] assms(3) unfolding namedb_lookup_def by (metis option.inject prod.inject)

definition asks_for :: "'c query \<Rightarrow> byte list list \<Rightarrow> bool" where
  "asks_for q al \<longleftrightarrow> (\<forall>ls. valid_labels ls \<longrightarrow> q_qname q = Some (dname_of ls) \<longrightarrow> al = ls)"

lemma query_axfr_first:
  assumes db: "db = n_db nsd" "db_ok db" "rrset_lists_ok db" "zones_ok db"
    and r: "query_axfr nsd q = Some (QUERY_IN_AXFR, q')" and q: "q_axfr_zone q = None" "\<not> q_axfr_is_done q"
  shows "\<exists>z zn a al soa srr sent. zone_loaded db z zn a al soa srr \<and> asks_for q al \<and> sends db (buf_position (q_packet q)) sent q' \<and>
    (a, srr) # zone_contents db z al soa @ [(a, srr)] = sent @ todo db z a al soa srr q' \<and> cursor_ok db q' \<and> q_axfr_zone q' = Some z"
proof -
  let ?q = "q\<lparr>q_maxlen := min (q_maxlen q) AXFR_MAX_MESSAGE_LEN, q_tsig_prepare_it := q_tsig_sign_it q, q_tsig_update_it := True, q_tsig_sign_it := False\<rparr>"
  obtain z q1 zn n2 q2 where s: "axfr_start db ?q = Some (Some z, q1)" "db_zones db z = Some zn" "axfr_fill db z zn q1 1 = Some (n2, q2)"
    "axfr_header q2 n2 \<bind> query_clear_compression_tables db = Some q'"
    using r q unfolding query_axfr_def Let_def db(1) [symmetric] by (auto simp: Option.bind_eq_Some_conv split: option.splits if_splits)
  obtain a qa qb qn cm where st: "zone_apex zn = Some a" "zone_soa_rrset zn \<noteq> None" "cursor qa = (False, Some z, Some a, None, 0)" "q_packet qa = q_packet q"
    "query_add_compression_domain db qa a (of_nat QHEADERSZ) = Some qb" "axfr_soa db zn qb = Some (True, q1)"
    "q_qname q = Some qn" "namedb_lookup db qn = Some (True, cm, a)"
    using axfr_start_cases [OF s(1)] s(2) q by (auto simp: cursor_def)
  obtain al where al: "named db al a" using db(4) s(2) st(1) unfolding zones_ok_def by blast
  have n: "asks_for q al" using lookup_exact_named [OF db(2)] named_inject [OF db(2) al] st(7,8) unfolding asks_for_def by (metis option.inject)
  obtain soa rset where soa: "zone_soa_rrset zn = Some soa" "db_rrsets db soa = Some rset" "length (rs_rrs rset) = 1"
    using st(2,6) by (auto simp: axfr_soa_def Option.bind_eq_Some_conv split: if_splits)
  then obtain srr where "rs_rrs rset = [srr]" by (cases "rs_rrs rset") auto
  then have z: "zone_loaded db z zn a al soa srr" using s(2) st(1) al soa by (simp add: zone_loaded_def)
  have c: "cursor q1 = (False, Some z, Some a, None, 0)"
    using axfr_soa_sent [OF z st(6)] add_compression_cursor [OF st(5)] st(3) by simp
  have e1: "encoded db [(a, srr)] qb q1" using axfr_soa_sent [OF z st(6)] by simp
  have p: "buf_position (q_packet qb) = buf_position (q_packet q)" using add_compression_packet [OF st(5)] st(4) by simp
  have q1: "q_axfr_current_domain q1 = Some a" "q_axfr_current_rrset q1 = None" "\<not> q_axfr_is_done q1" "q_axfr_zone q1 = Some z"
    using c by (simp_all add: cursor_def)
  note ps = pending_start(1) [OF db(2) al q1(1,2), of z soa] pending_start(2) [OF db(2) al q1(1,2)]
  obtain sent q3 where f: "encoded db sent q1 q3" "q_packet q2 = q_packet q3" "n2 = 1 + of_nat (length sent)"
    "todo db z a al soa srr q1 = sent @ todo db z a al soa srr q2" "cursor_ok db q2" "q_axfr_zone q2 = q_axfr_zone q1"
    using axfr_fill_sent [OF db(2,3) z s(3) ps(2) q1(3)] .
  have enc: "encoded db ((a, srr) # sent) qb q3" using encoded_trans [OF f(1) e1] by simp
  have e: "sends db (buf_position (q_packet q)) ((a, srr) # sent) q' \<and> cursor q' = cursor q2" using sends_finish [OF enc p f(2)] s(4) f(3) by simp
  have "(a, srr) # zone_contents db z al soa @ [(a, srr)] = ((a, srr) # sent) @ todo db z a al soa srr q'"
    using f(4) ps(1) q1(3) todo_cursor [of q' q2] e by (simp add: todo_def)
  moreover have "cursor_ok db q'" "q_axfr_zone q' = Some z" using e f(5,6) q1(4) cursor_ok_cursor [of q' q2 db] by (auto simp: cursor_def)
  ultimately show ?thesis using z n e by blast
qed

text \<open>
  A transfer: the states after each message. Between two messages anything may happen to the packet and the
  TSIG record, but not to the position in the zone.
\<close>

inductive axfr_run :: "'c nsd \<Rightarrow> 'c query \<Rightarrow> 'c query list \<Rightarrow> bool" for nsd q where
  first: "q_axfr_zone q = None \<Longrightarrow> \<not> q_axfr_is_done q \<Longrightarrow> query_axfr nsd q = Some (QUERY_IN_AXFR, q') \<Longrightarrow> axfr_run nsd q [q']"
| more: "axfr_run nsd q qs \<Longrightarrow> cursor q1 = cursor (last qs) \<Longrightarrow> \<not> q_axfr_is_done q1 \<Longrightarrow>
    query_axfr nsd q1 = Some (QUERY_IN_AXFR, q') \<Longrightarrow> axfr_run nsd q (qs @ [q'])"

definition run_sends :: "namedb \<Rightarrow> 'c query \<Rightarrow> 'c query list \<Rightarrow> (domain_id \<times> rr) list list \<Rightarrow> bool" where
  "run_sends db q qs ss \<longleftrightarrow> list_all2 (\<lambda>q' s. \<exists>start. sends db start s q') qs ss"

lemma axfr_run_sends:
  assumes "axfr_run nsd q qs" and db: "db = n_db nsd" "db_ok db" "rrset_lists_ok db" "zones_ok db"
  shows "\<exists>z zn a al soa srr ss. zone_loaded db z zn a al soa srr \<and> asks_for q al \<and> run_sends db q qs ss \<and>
    (a, srr) # zone_contents db z al soa @ [(a, srr)] = concat ss @ todo db z a al soa srr (last qs) \<and>
    cursor_ok db (last qs) \<and> q_axfr_zone (last qs) = Some z"
  using assms(1)
proof induction
  case (first q')
  then show ?case using query_axfr_first [OF db first(3,1,2)] by (fastforce simp: run_sends_def)
next
  case (more qs q1 q')
  then obtain z zn a al soa srr ss where IH: "zone_loaded db z zn a al soa srr" "run_sends db q qs ss"
    "(a, srr) # zone_contents db z al soa @ [(a, srr)] = concat ss @ todo db z a al soa srr (last qs)"
    "cursor_ok db (last qs)" "q_axfr_zone (last qs) = Some z" "asks_for q al" by blast
  have q1: "q_axfr_zone q1 = Some z" "cursor_ok db q1" "todo db z a al soa srr q1 = todo db z a al soa srr (last qs)"
    using IH(4,5) more.hyps(2) todo_cursor [OF more.hyps(2)] cursor_ok_cursor [OF more.hyps(2)] by (auto simp: cursor_def)
  obtain sent where s: "sends db QHEADERSZ sent q'" "todo db z a al soa srr q1 = sent @ todo db z a al soa srr q'"
    "cursor_ok db q'" "q_axfr_zone q' = Some z"
    using query_axfr_more [OF db(1-3) IH(1) more.hyps(4) q1(1,2) more.hyps(3)] by blast
  have "run_sends db q (qs @ [q']) (ss @ [sent])" using IH(2) s(1) by (auto simp: run_sends_def intro!: list_all2_appendI)
  moreover have "(a, srr) # zone_contents db z al soa @ [(a, srr)] = concat (ss @ [sent]) @ todo db z a al soa srr q'"
    using IH(3) q1(3) s(2) by simp
  ultimately show ?case using IH(1,6) s(3,4) by (metis last_snoc)
qed

end
