(* ===== verification/Encode_Props.thy ===== *)
theory Encode_Props
  imports Encode_Answer
begin

text \<open>The properties of the encoder, with a small database and a query on which they are applied.\<close>

text \<open>C12: a name of the database that \<open>encode_dname\<close> writes, with compression, is read back from the
  packet as that name, and the reader stops where the encoder stopped, provided that the entries
  of the compression table stand for names in the packet.\<close>

theorem compressed_name_roundtrip:
  assumes "db_ok db" "numbered db nm (q_compressed_dname_offsets q)" "named db ls d"
    and "sound_table (take (buf_position (q_packet q)) (buf_data (q_packet q))) (q_compressed_dname_offsets q) nm {}"
    and "room_for q 256" "buf_limit (q_packet q) \<le> MAX_PACKET_SIZE"
  shows "\<exists>q'. encode_dname db q d = Some q' \<and>
    dname_make_from_packet ((q_packet q')\<lparr>buf_position := buf_position (q_packet q)\<rparr>) True norm =
      Some (Some (dname_of (norm_labels norm ls)), q_packet q')"
  using assms by (rule encoded_name_decodes)

definition plain_tsig :: "byte list tsig_record" where
  "plain_tsig = \<lparr>tr_status = TSIG_NOT_PRESENT, tr_position = 0, tr_response_count = 0, tr_updates_since_last_prepare = 0,
     tr_context = None, tr_algorithm = None, tr_key = None, tr_prior_mac_size = 0, tr_prior_mac_data = [],
     tr_key_name = None, tr_algorithm_name = None, tr_signed_time_high = 0, tr_signed_time_low = 0, tr_signed_time_fudge = 0,
     tr_mac_size = 0, tr_mac_data = None, tr_original_query_id = 0, tr_error_code = 0, tr_other_size = 0, tr_other_data = None\<rparr>"

definition sample_query :: "byte list query" where
  "sample_query = \<lparr>q_addr = sockaddr_in [127, 0, 0, 1] 53, q_maxlen = 512, q_reserved_space = 0, q_edns = edns_init_record,
     q_tsig = plain_tsig, q_tsig_prepare_it = True, q_tsig_update_it = True, q_tsig_sign_it = True, q_tcp = False,
     q_packet = (buffer_create (\<lambda>_. 0) 1024)\<lparr>buf_position := 12\<rparr>, q_qname = None, q_qtype = 1, q_qclass = 1, q_zone = None,
     q_delegation_domain = None, q_delegation_rrset = None, q_opcode = 0, q_cname_count = 0, q_compressed_dnames = [],
     q_compressed_dname_offsets = [0, 0, 0, 0], q_compressed_dname_offsets_size = 4, q_number_temporary_domains = 0,
     q_axfr_is_done = False, q_axfr_zone = None, q_axfr_current_domain = None, q_axfr_current_rrset = None,
     q_axfr_current_rr = 0, q_wildcard_domain = None\<rparr>"

lemma sample_query_room: "room_for sample_query 256" "buf_limit (q_packet sample_query) = 1024" "buffer_wf (q_packet sample_query)"
  "buf_position (q_packet sample_query) = 12" "q_compressed_dname_offsets sample_query = [0, 0, 0, 0]" "q_compressed_dnames sample_query = []"
  "buf_data (q_packet sample_query) = replicate 1024 0"
  by (simp_all add: sample_query_def room_for_def buffer_create_def buffer_wf_unfold map_replicate_const)

lemma empty_table_sound: "sound_table P [0, 0, 0, 0] nm X"
  by (auto simp: sound_table_def less_Suc_eq)

theorem compressed_name_roundtrip_witness:
  "\<exists>db q'. domain_table_create = Some db \<and> encode_dname db sample_query 0 = Some q' \<and>
     dname_make_from_packet ((q_packet q')\<lparr>buf_position := 12\<rparr>) True False = Some (Some (dname_of []), q_packet q')"
proof -
  obtain db where db: "domain_table_create = Some db" "db_inv db" "\<And>ls d. named db ls d \<longleftrightarrow> ls = [] \<and> d = 0"
    using domain_table_create_inv by blast
  have "domain_number db 0 = Some 1"
    using db(1) by (auto simp: domain_table_create_def domain_number_def bind_eq_Some_conv split: prod.splits)
  then have "numbered db (\<lambda>_. []) [0, 0, 0, 0]" by (simp add: numbered_def db(3))
  then show ?thesis
    using compressed_name_roundtrip [of db "\<lambda>_. []" sample_query "[]" 0 False] db sample_query_room empty_table_sound
    by (auto simp: db_inv_def MAX_PACKET_SIZE_def norm_labels_def)
qed


text \<open>A database with the name \<open>a\<close> and an address record.\<close>

definition sample_rr :: rr where
  "sample_rr = \<lparr>rr_owner = 1, rr_rdatas = [atom_data [192, 0, 2, 1]], rr_ttl = 60, rr_type = TYPE_A, rr_klass = 1\<rparr>"

definition sample_domain :: "byte list list \<Rightarrow> domain_id option \<Rightarrow> nat \<Rightarrow> domain" where
  "sample_domain ls p n = \<lparr>dom_dname = dname_of ls, dom_parent = p, dom_wildcard_child_closest_match = n - 1, dom_rrsets = [0],
     dom_number = n, dom_usage = 1, dom_is_existing = True, dom_is_apex = False, dom_temp = False\<rparr>"

definition sample_db :: namedb where
  "sample_db = \<lparr>db_domains = [0 \<mapsto> sample_domain [] None 1, 1 \<mapsto> sample_domain [[0x61]] (Some 0) 2],
     db_rrsets = [0 \<mapsto> \<lparr>rs_zone = 0, rs_rrs = [sample_rr]\<rparr>], db_zones = Map.empty,
     db_table = \<lparr>dt_names = rbtree_create, dt_root = 0, dt_numlist = []\<rparr>, db_zonetree = Map.empty, db_next = 2\<rparr>"

lemma sample_spelled: "rr_spelled sample_db (\<lambda>_. [[0x61]]) [0, 0, 0, 0] 1 sample_rr [[0x61]] [f_bytes [192, 0, 2, 1]]"
proof -
  have p: "domain_parent sample_db 0 = Some None" "domain_parent sample_db 1 = Some (Some 0)" "domain_number sample_db 1 = Some 2"
    "domain_dname sample_db 1 = Some (dname_of [[0x61]])"
    by (simp_all add: domain_parent_def domain_number_def domain_dname_def domain_labels_def sample_db_def sample_domain_def)
  have "spells sample_db (\<lambda>_. [[0x61]]) [0, 0, 0, 0] 1 [[0x61]]"
    by (rule sp_label [OF p(2,3) _ _ _ p(4), where rest = "[0]"]) (use sp_root [OF p(1)] in \<open>simp_all add: valid_label_def MAXLABELLEN_def\<close>)
  moreover have "rdata_atom_wireformat_type TYPE_A 0 = Some RDATA_WF_A" 
    by (simp add: rdata_atom_wireformat_type_def TYPE_A_def rrtype_descriptor_by_type_def rrtype_descriptors_def
        RRTYPE_DESCRIPTORS_LENGTH_def PSEUDO_TYPE_DLV_def named_descriptors_def descriptors_0_def desc_def mem_get_def)
  ultimately show ?thesis by (simp add: rr_spelled_def sample_rr_def field_of_def)
qed

lemma sample_encodable: "encodable sample_db 64 sample_query" "compression_ok nm sample_query"
  using sample_query_room empty_table_sound
  by (simp_all add: encodable_def compression_ok_def settled_def QHEADERSZ_def) (simp_all add: sample_query_def)



definition sample_entry :: answer_entry where
  "sample_entry = \<lparr>ae_section = ANSWER_SECTION, ae_domain = 1, ae_rrset = 0\<rparr>"

lemma sample_entry_ok: "entry_ok sample_db (\<lambda>_. [[0x61]]) 64 (\<lambda>_. [[0x61]]) (\<lambda>_ _. [f_bytes [192, 0, 2, 1]]) sample_query sample_entry"
proof -
  have "rrset_records sample_db sample_query 1 \<lparr>rs_zone = 0, rs_rrs = [sample_rr]\<rparr> ANSWER_SECTION robin = Some [(sample_rr, 60)]" for robin
    by (auto simp: rrset_records_def rrset_sigs_def rrset_rrtype_def sample_query_def edns_init_record_def sample_rr_def Let_def)
  moreover have "recs_ok sample_db (\<lambda>_. [[0x61]]) 64 [0, 0, 0, 0] 1 [[0x61]] (\<lambda>_. [f_bytes [192, 0, 2, 1]]) [(sample_rr, 60)]"
    using sample_spelled by (simp add: recs_ok_def rr_room_def wire_def)
  ultimately show ?thesis by (simp add: entry_ok_def sample_entry_def sample_db_def sample_query_room)
qed


text \<open>C18: \<open>answer_add_rrset\<close> keeps the list free of duplicates, never puts an RRset into a later section than the
  one it is in, and forgets no entry.\<close>

theorem answer_list:
  assumes "answer_ok db as" "domain_number db d = Some n" "ANSWER_SECTION \<le> s" "s < RR_SECTION_COUNT"
  shows "\<exists>added as'. answer_add_rrset db as s d r = Some (added, as') \<and> answer_ok db as' \<and>
    (\<forall>i < length as. i < length as' \<and> ae_domain (as' ! i) = ae_domain (as ! i) \<and> ae_rrset (as' ! i) = ae_rrset (as ! i) \<and>
       ae_section (as' ! i) \<le> ae_section (as ! i)) \<and>
    (length as < MAXRRSPP \<longrightarrow> (\<exists>a \<in> set as'. domain_number db (ae_domain a) = Some n \<and> ae_rrset a = r \<and> ae_section a \<le> s))"
proof (rule answer_add_rrset_spec [OF assms, of r])
  assume "answer_add_rrset db as s d r = Some (True, as @ [\<lparr>ae_section = s, ae_domain = d, ae_rrset = r\<rparr>])"
    "answer_ok db (as @ [\<lparr>ae_section = s, ae_domain = d, ae_rrset = r\<rparr>])"
  then show ?thesis using assms(2) by (intro exI conjI) (auto simp: nth_append)
next
  assume "answer_add_rrset db as s d r = Some (False, as)" "length as = MAXRRSPP"
  then show ?thesis using assms(1) by (intro exI conjI) auto
next
  fix i
  let ?a = "(as ! i)\<lparr>ae_section := s\<rparr>"
  assume a: "answer_add_rrset db as s d r = Some (True, as[i := ?a])" "i < length as" "s < ae_section (as ! i)"
    "domain_number db (ae_domain (as ! i)) = Some n" "ae_rrset (as ! i) = r" "answer_ok db (as[i := ?a])"
  have "\<exists>x \<in> set (as[i := ?a]). domain_number db (ae_domain x) = Some n \<and> ae_rrset x = r \<and> ae_section x \<le> s"
    by (rule bexI [of _ ?a]) (use a set_update_memI [OF a(2)] in auto)
  moreover have "\<forall>j < length as. j < length (as[i := ?a]) \<and> ae_domain (as[i := ?a] ! j) = ae_domain (as ! j) \<and>
      ae_rrset (as[i := ?a] ! j) = ae_rrset (as ! j) \<and> ae_section (as[i := ?a] ! j) \<le> ae_section (as ! j)"
    using a(2,3) by (auto simp: nth_list_update)
  ultimately show ?thesis using a(1,6) by blast
next
  fix i
  assume a: "answer_add_rrset db as s d r = Some (False, as)" "i < length as" "ae_section (as ! i) \<le> s"
    "domain_number db (ae_domain (as ! i)) = Some n" "ae_rrset (as ! i) = r"
  have "as ! i \<in> set as" using a(2) by simp
  then show ?thesis using a assms(1) by (intro exI [of _ False] exI [of _ as]) blast
qed

theorem answer_list_witness:
  "\<exists>added as'. answer_add_rrset sample_db [sample_entry] AUTHORITY_SECTION 1 0 = Some (added, as') \<and> answer_ok sample_db as'"
proof -
  have "domain_number sample_db 1 = Some 2" by (simp add: domain_number_def sample_db_def sample_domain_def)
  moreover from this have "answer_ok sample_db [sample_entry]"
    by (simp add: answer_ok_def sample_entry_def section_defs MAXRRSPP_def)
  ultimately show ?thesis using answer_list [of sample_db "[sample_entry]" 1 2 AUTHORITY_SECTION 0] by (auto simp: section_defs)
qed

end
