(* ===== verification/Policy_Props.thy ===== *)
theory Policy_Props
  imports Encode_Props Acl
begin

text \<open>The properties of rate limiting and of access control lists.\<close>


definition sample_rrl :: rrl_state where
  "sample_rrl = \<lparr>rrl_array = [zero_bucket], rrl_array_size = 1, rrl_ratelimit = 4, rrl_slip_ratio = 2, rrl_ipv4_prefixlen = 24,
     rrl_ipv6_prefixlen = 64, rrl_ipv6_mask = -1, rrl_whitelist_ratelimit = 40, rrl_maps = []\<rparr>"




text \<open>The signature that an entry asks for.\<close>

definition signed_for :: "acl_options \<Rightarrow> 'c query \<Rightarrow> bool" where
  "signed_for a q =
     (if acl_nokey a then tr_status (q_tsig q) = TSIG_NOT_PRESENT
      else tr_status (q_tsig q) = TSIG_OK \<and> tr_error_code (q_tsig q) = TSIG_ERROR_NOERROR \<and>
        (\<exists>ko k kn. acl_key_options a = Some ko \<and> ko_tsig_key ko = Some k \<and> tr_key_name (q_tsig q) = Some kn \<and>
           dname_compare kn (tk_name k) = Some 0))"

text \<open>C34: a query is admitted exactly when an entry of the list matches it and no matching entry is
  BLOCKED. The first matching entry is the reason; the address matches it, and the query is unsigned for a NOKEY entry and has a verified signature
  by the key of the entry otherwise.\<close>

theorem acl_decision:
  assumes "\<forall>a \<in> set acl. acl_matches a q \<noteq> None"
  shows "\<exists>i w. acl_check_incoming acl q = Some (i, w) \<and>
    (i \<noteq> -1 \<longleftrightarrow> (\<exists>a \<in> set acl. acl_matches a q = Some True) \<and> \<not> (\<exists>a \<in> set acl. acl_matches a q = Some True \<and> acl_blocked a)) \<and>
    (i \<noteq> -1 \<longrightarrow> (\<exists>k a. i = int k \<and> k < length acl \<and> w = Some a \<and> a = acl ! k \<and> (\<forall>j < k. acl_matches (acl ! j) q \<noteq> Some True) \<and>
       acl_addr_matches a q = Some True \<and>
       signed_for a q))"
proof (cases "\<exists>a \<in> set acl. acl_matches a q = Some True \<and> acl_blocked a")
  case True
  then obtain b where "find (\<lambda>a. acl_matches a q = Some True \<and> acl_blocked a) acl = Some b"
    by (metis (mono_tags, lifting) find_None_iff not_Some_eq)
  then show ?thesis using True acl_check_incoming_verdict [OF assms] by (auto simp: acl_verdict_def)
next
  case nb: False
  then have f: "find (\<lambda>a. acl_matches a q = Some True \<and> acl_blocked a) acl = None" by (auto simp: find_None_iff)
  show ?thesis
  proof (cases "find (\<lambda>(i, a). acl_matches a q = Some True) (List.enumerate 0 acl)")
    case None
    then have "\<forall>a \<in> set acl. acl_matches a q \<noteq> Some True" by (fastforce simp: find_None_iff in_set_conv_nth nth_enumerate_eq)
    then show ?thesis using None f acl_check_incoming_verdict [OF assms] by (auto simp: acl_verdict_def)
  next
    case (Some x)
    then obtain k where k: "k < length acl" "x = (k, acl ! k)" "acl_matches (acl ! k) q = Some True" "\<forall>j < k. acl_matches (acl ! j) q \<noteq> Some True"
      by (auto simp: find_Some_iff nth_enumerate_eq)
    then have m: "acl ! k \<in> set acl" "\<not> acl_blocked (acl ! k)" using nb nth_mem by blast+
    have a: "acl_addr_matches (acl ! k) q = Some True" "acl_key_matches (acl ! k) q = Some True"
      using k(3) by (auto simp: acl_matches_def Option.bind_eq_Some_conv split: if_splits)
    have c: "acl_check_incoming acl q = Some (int k, Some (acl ! k))"
      using acl_check_incoming_verdict [OF assms] Some f k(2) by (simp add: acl_verdict_def)
    have "signed_for (acl ! k) q" using acl_key_matches_keyed [OF a(2) m(2)] by (simp add: signed_for_def)
    then have g: "\<exists>k' a. int k = int k' \<and> k' < length acl \<and> Some (acl ! k) = Some a \<and> a = acl ! k' \<and>
        (\<forall>j < k'. acl_matches (acl ! j) q \<noteq> Some True) \<and> acl_addr_matches a q = Some True \<and> signed_for a q"
      using k(1,4) a(1) by blast
    have "(int k \<noteq> -1) = ((\<exists>a \<in> set acl. acl_matches a q = Some True) \<and> \<not> (\<exists>a \<in> set acl. acl_matches a q = Some True \<and> acl_blocked a))"
      using m(1) k(3) nb by auto
    then show ?thesis using c g by blast
  qed
qed

definition sample_acl :: acl_options where
  "sample_acl = \<lparr>acl_is_ipv6 = False, acl_port = 0, acl_addr = [127, 0, 0, 1] @ replicate 12 0, acl_mask = replicate 16 0,
     acl_rangetype = acl_range_single, acl_nokey = True, acl_blocked = False, acl_key_name = None, acl_key_options = None\<rparr>"

lemma sample_acl_matches: "acl_matches sample_acl sample_query = Some True"
  by (simp add: acl_matches_def acl_addr_matches_def acl_addr_matches_ipv4host_def acl_addr_matches_iphost_def acl_key_matches_def
      sample_acl_def sample_query_def plain_tsig_def Let_def)

theorem acl_decision_witness:
  "\<exists>w. acl_check_incoming [sample_acl] sample_query = Some (0, w) \<and>
    acl_check_incoming [sample_acl, sample_acl\<lparr>acl_blocked := True\<rparr>] sample_query \<noteq> Some (0, w)"
proof -
  have b: "acl_matches (sample_acl\<lparr>acl_blocked := True\<rparr>) sample_query = Some True"
    by (simp add: acl_matches_def acl_addr_matches_def acl_addr_matches_ipv4host_def acl_addr_matches_iphost_def acl_key_matches_def
        sample_acl_def sample_query_def plain_tsig_def Let_def)
  have f: "acl_blocked sample_acl = False" by (simp add: sample_acl_def)
  obtain i w where i: "acl_check_incoming [sample_acl] sample_query = Some (i, w)" "i = 0"
    using acl_decision [of "[sample_acl]" sample_query] sample_acl_matches f by auto
  obtain j v where j: "acl_check_incoming [sample_acl, sample_acl\<lparr>acl_blocked := True\<rparr>] sample_query = Some (j, v)" "j = -1"
    using acl_decision [of "[sample_acl, sample_acl\<lparr>acl_blocked := True\<rparr>]" sample_query] sample_acl_matches b by auto
  show ?thesis using i j by auto
qed

text \<open>C35: a subnet of \<open>n\<close> bits in the text of an entry matches exactly the addresses that agree with it in the first \<open>n\<close> bits.\<close>

theorem acl_subnet:
  assumes "sz \<in> {4, 16}" "sz \<le> length a" "sz \<le> length b" "n \<le> sz * 8"
  shows "\<exists>m. parse_acl_range_subnet (decimal n) (replicate 16 0) (int (sz * 8)) = Some (m, False) \<and>
    acl_addr_match_mask a b m sz = Some (\<forall>j < n. addr_bit a j = addr_bit b j)"
proof -
  obtain m where "parse_acl_range_subnet (decimal n) (replicate 16 0) (int (sz * 8)) = Some (m, False)"
    "fill_subnet (replicate 16 0) 0 n = Some m" using parse_subnet [of n "int (sz * 8)"] assms(1,4) by auto
  moreover have "sz mod 4 = 0" "sz \<le> 16" using assms(1) by auto
  ultimately show ?thesis using subnet_match [of sz a b n] assms(2-4) by auto
qed

theorem acl_subnet_witness:
  "\<exists>m. parse_acl_range_subnet (decimal 8) (replicate 16 0) 32 = Some (m, False) \<and>
    acl_addr_match_mask [10, 0, 0, 1] [10, 9, 9, 9] m 4 = Some True"
proof -
  have "addr_bit [10, 0, 0, 1] j = addr_bit [10, 9, 9, 9] j" if "j < 8" for j using that by (simp add: addr_bit_def)
  then show ?thesis using acl_subnet [of 4 "[10, 0, 0, 1]" "[10, 9, 9, 9]" 8] by auto
qed

end
