(* ===== verification/Query_Props.thy ===== *)
theory Query_Props
  imports Query_Total Policy_Props
begin

text \<open>The properties of query processing.\<close>

unbundle bit_operations_syntax

text \<open>A received packet with a header and the question for the SOA record of the root.\<close>

definition sample_packet :: "byte \<Rightarrow> u16 \<Rightarrow> buffer" where
  "sample_packet flags qtype = \<lparr>buf_position = 0, buf_limit = 17, buf_capacity = 160,
     buf_data = [0x12, 0x34, flags, 0, 0, 1, 0, 0, 0, 0, 0, 0, 0] @ write_uint16 qtype @ [0, 1] @ replicate 143 0, buf_fixed = False\<rparr>"

definition sample_asked :: "byte \<Rightarrow> u16 \<Rightarrow> byte list query" where
  "sample_asked flags qtype = sample_query\<lparr>q_packet := sample_packet flags qtype, q_tcp := True\<rparr>"

definition sample_nsd :: "namedb \<Rightarrow> byte list nsd" where
  "sample_nsd db = \<lparr>n_db = db, n_zone_options = (\<lambda>_. Some \<lparr>zo_allow_notify = [sample_acl], zo_request_xfr = [], zo_provide_xfr = [sample_acl]\<rparr>),
     n_this_child = True, n_identity = [], n_version = [], n_hide_version = False, n_nsid = [], n_edns_ipv4 = edns_init_data 512,
     n_edns_ipv6 = edns_init_data 512, n_ipv4_edns_size = 4096, n_ipv6_edns_size = 4096, n_minimal_responses = False, n_round_robin = None,
     n_err_limit_time = 0, n_err_limit_count = 0, n_tsig = tsig_init [], n_ipc_ok = True, n_passed = []\<rparr>"

lemma sample_packet_ok: "packet_ok (sample_packet flags qtype)"
  by (simp add: sample_packet_def packet_ok_def buffer_wf_unfold MAX_PACKET_SIZE_def)

lemma sample_received: "received (sample_asked flags qtype)"
  using sample_packet_ok by (simp add: received_def sample_asked_def) (simp add: sample_packet_def sample_query_def plain_tsig_def QHEADERSZ_def)


lemma sample_section:
  "process_query_section (sample_asked flags qtype\<lparr>q_opcode := oc\<rparr>) = Some (True, sample_asked flags qtype\<lparr>q_opcode := oc,
     q_packet := (sample_packet flags qtype)\<lparr>buf_position := 17\<rparr>, q_qtype := qtype, q_qclass := 1, q_qname := Some (dname_of [])\<rparr>)"
proof -
  let ?p = "(sample_packet flags qtype)\<lparr>buf_position := 12\<rparr>" and ?d = "buf_data (sample_packet flags qtype)"
  have wf: "buffer_wf (?p\<lparr>buf_position := 13\<rparr>)" "buffer_wf (?p\<lparr>buf_position := 15\<rparr>)"
    using sample_packet_ok [of flags qtype] by (simp_all add: packet_ok_def) (simp_all add: sample_packet_def)
  have d: "length ?d = 160" "?d ! 12 = 0" "mem_read 13 2 ?d = write_uint16 qtype" "mem_read 15 2 ?d = [0, 1]"
    by (simp_all add: sample_packet_def mem_read_def)
  have one: "read_uint16 [0, 1] = 1" by (simp add: read_uint16_def)
  have "read_qname_loop ?p 12 12 [] = Some (Some (12, []))" using d by (simp add: read_qname_loop.simps mem_get_def)
  then have "packet_read_query_section ?p = Some (Some ([0], qtype, 1), ?p\<lparr>buf_position := 17\<rparr>)"
    using d wf buffer_read_u16_wf [OF wf(1)] buffer_read_u16_wf [OF wf(2)]
    by (simp add: packet_read_query_section_def mem_get_def MAXDOMAINLEN_def buffer_set_position_def sample_packet_def one)
  moreover have "dname_make [0] True = Some (Some (dname_of []))"
    using dname_make_of_wire [of "[]" "[]" True] by (simp add: wire_def norm_labels_def valid_labels_def MAXDOMAINLEN_def)
  moreover have "buffer_set_position (sample_packet flags qtype) 12 = Some ?p" by (simp add: buffer_set_position_def sample_packet_def)
  ultimately show ?thesis by (simp add: process_query_section_def sample_asked_def QHEADERSZ_def)
qed

lemma sample_counts:
  "QDCOUNT (sample_packet flags qtype\<lparr>buf_position := i\<rparr>) = Some 1" "ANCOUNT (sample_packet flags qtype\<lparr>buf_position := i\<rparr>) = Some 0"
  "NSCOUNT (sample_packet flags qtype\<lparr>buf_position := i\<rparr>) = Some 0" "ARCOUNT (sample_packet flags qtype\<lparr>buf_position := i\<rparr>) = Some 0"
  if "i \<le> 17"
proof -
  have ok: "packet_ok (sample_packet flags qtype\<lparr>buf_position := i\<rparr>)" "QHEADERSZ \<le> buf_limit (sample_packet flags qtype\<lparr>buf_position := i\<rparr>)"
    using that by (simp_all add: sample_packet_def QHEADERSZ_def packet_ok_def buffer_wf_unfold MAX_PACKET_SIZE_def)
  show "QDCOUNT (sample_packet flags qtype\<lparr>buf_position := i\<rparr>) = Some 1" "ANCOUNT (sample_packet flags qtype\<lparr>buf_position := i\<rparr>) = Some 0"
    "NSCOUNT (sample_packet flags qtype\<lparr>buf_position := i\<rparr>) = Some 0" "ARCOUNT (sample_packet flags qtype\<lparr>buf_position := i\<rparr>) = Some 0"
    unfolding hdr_counts_wf [OF ok] by (simp_all add: sample_packet_def mem_read_def read_uint16_def)
qed

lemma sample_flags:
  "QR (sample_packet flags qtype) = Some (flags AND 0x80)" "OPCODE (sample_packet flags qtype) = Some (drop_bit 3 (flags AND 0x78))"
  "RCODE (sample_packet flags qtype) = Some RCODE_OK"
  using sample_packet_ok [of flags qtype]
  by (simp_all add: QR_def OPCODE_def RCODE_def hdr_get_wf packet_ok_def) (simp_all add: sample_packet_def hdr_get_wf buffer_wf_unfold RCODE_OK_def)

lemma sample_not_misplaced: "qtype \<noteq> TYPE_IXFR \<Longrightarrow> \<not> tsig_misplaced (sample_asked flags qtype)"
  by (simp add: tsig_misplaced_def sample_section check_sections_def sample_counts tsig_leads_def split: option.splits)





lemma sample_notify:
  "\<exists>q'. query_process 100 (sample_nsd sample_db) (sample_asked 0x20 TYPE_SOA) =
     Some (QUERY_PROCESSED, q', (sample_nsd sample_db)\<lparr>n_passed := [(take 17 (buf_data (sample_packet 0x20 TYPE_SOA)), 0, -1)]\<rparr>)"
proof -
  let ?p = "(sample_packet 0x20 TYPE_SOA)\<lparr>buf_position := 17\<rparr>"
  let ?q = "sample_asked 0x20 TYPE_SOA\<lparr>q_opcode := OPCODE_NOTIFY, q_packet := ?p, q_qtype := TYPE_SOA, q_qclass := 1, q_qname := Some (dname_of [])\<rparr>"
  have p: "QR (q_packet (sample_asked 0x20 TYPE_SOA)) = Some 0" "OPCODE (q_packet (sample_asked 0x20 TYPE_SOA)) = Some OPCODE_NOTIFY"
    "RCODE (q_packet (sample_asked 0x20 TYPE_SOA)) = Some RCODE_OK" "\<not> buf_limit (q_packet (sample_asked 0x20 TYPE_SOA)) < QHEADERSZ"
    by (simp_all add: sample_asked_def sample_flags OPCODE_NOTIFY_def) (simp add: sample_packet_def QHEADERSZ_def)
  have m: "acl_matches sample_acl ?q = Some True"
    by (simp add: acl_matches_def acl_addr_matches_def acl_addr_matches_ipv4host_def acl_addr_matches_iphost_def acl_key_matches_def
        sample_acl_def sample_asked_def sample_query_def plain_tsig_def Let_def)
  have t: "(q_tsig ?q)\<lparr>tr_status := TSIG_NOT_PRESENT\<rparr> = q_tsig ?q" "tr_status (q_tsig ?q) = TSIG_NOT_PRESENT"
    by (simp_all add: sample_asked_def sample_query_def plain_tsig_def)
  have f: "tsig_find_rr (q_tsig ?q) (q_packet ?q) = Some ((True, q_tsig ?q), q_packet ?q)"
    using sample_counts [of 17] t(1) by (simp add: tsig_find_rr_def Let_def)
  have a: "acl_check_incoming [sample_acl] ?q = Some (0, Some sample_acl)" "acl_check_incoming [] ?q = Some (-1, None)"
    using m by (simp_all add: acl_check_incoming_def) (simp add: sample_acl_def)
  have "buffer_wf ?p" by (simp add: sample_packet_def buffer_wf_unfold)
  then obtain q' where r: "notify_reply ?q = Some q'" using notify_reply_spec [of ?q] by (simp add: sample_packet_def QHEADERSZ_def)
  have "answer_notify 100 (sample_nsd sample_db) ?q = Some (QUERY_PROCESSED, q',
      (sample_nsd sample_db)\<lparr>n_passed := [(take 17 (buf_data (sample_packet 0x20 TYPE_SOA)), 0, -1)]\<rparr>)"
  proof -
    define qq where "qq = ?q"
    have "process_tsig 100 (n_tsig (sample_nsd sample_db)) qq = Some (NSD_RC_OK, qq)" using t(2) by (simp add: process_tsig_def qq_def)
    moreover have "q_qname qq = Some (dname_of [])" "buf_data (q_packet qq) = buf_data (sample_packet 0x20 TYPE_SOA)" by (simp_all add: qq_def)
    moreover have "buf_limit (q_packet qq) = 17" "\<not> MAX_PACKET_SIZE < 17" by (simp_all add: qq_def sample_packet_def MAX_PACKET_SIZE_def)
    moreover have "n_zone_options (sample_nsd sample_db) qn = Some \<lparr>zo_allow_notify = [sample_acl], zo_request_xfr = [], zo_provide_xfr = [sample_acl]\<rparr>"
      "n_this_child (sample_nsd sample_db)" "n_ipc_ok (sample_nsd sample_db)" "n_passed (sample_nsd sample_db) = []" for qn
      by (simp_all add: sample_nsd_def)
    ultimately show ?thesis using f a r unfolding qq_def [symmetric] by (simp add: answer_notify_def Let_def)
  qed
  then show ?thesis using p by (simp add: query_process_def query_parse_def Let_def sample_section)
qed


end
