(* ===== verification/Axfr_Props.thy ===== *)
theory Axfr_Props
  imports Axfr_Spec Query_Props
begin

text \<open>The properties of zone transfers.\<close>

lemma query_parse_accepts:
  assumes "query_parse now nsd q = Some (Inr q1)"
  shows "OPCODE (q_packet q) \<noteq> Some OPCODE_NOTIFY"
  using assms by (auto simp: query_parse_def Let_def OPCODE_NOTIFY_def OPCODE_QUERY_def Option.bind_eq_Some_conv split: if_splits)

text \<open>The root zone with an SOA and an address record, and a query for it.\<close>

definition zone_rr :: "u16 \<Rightarrow> rdata_atom list \<Rightarrow> rr" where
  "zone_rr ty fs = \<lparr>rr_owner = 0, rr_rdatas = fs, rr_ttl = 60, rr_type = ty, rr_klass = 1\<rparr>"

definition zone_db :: namedb where
  "zone_db = \<lparr>db_domains = [0 \<mapsto> (sample_domain [] None 1)\<lparr>dom_rrsets := [0, 1], dom_is_apex := True\<rparr>],
     db_rrsets = [0 \<mapsto> \<lparr>rs_zone = 0, rs_rrs = [zone_rr TYPE_SOA ([atom_domain 0, atom_domain 0] @ replicate 5 (atom_data [0, 0, 0, 1]))]\<rparr>,
                  1 \<mapsto> \<lparr>rs_zone = 0, rs_rrs = [zone_rr TYPE_A [atom_data [192, 0, 2, 1]]]\<rparr>],
     db_zones = [0 \<mapsto> \<lparr>zone_apex = Some 0, zone_soa_rrset = Some 0, zone_soa_nx_rrset = None, zone_ns_rrset = None, zone_is_secure_flag = False,
                       zone_is_ok = True, zone_has_request_xfr = False, zone_rrl_whitelist = 0\<rparr>],
     db_table = \<lparr>dt_names = \<lparr>rb_root = rbnode BLACK RBTREE_NULL (dname_of [], 0) RBTREE_NULL, rb_count = 1\<rparr>, dt_root = 0, dt_numlist = []\<rparr>,
     db_zonetree = Map.empty, db_next = 1\<rparr>"

definition zone_query :: "byte list query" where
  "zone_query = sample_query\<lparr>q_packet := \<lparr>buf_position = 17, buf_limit = 160, buf_capacity = 160, buf_data = replicate 160 0, buf_fixed = False\<rparr>,
     q_qname := Some (dname_of []), q_tcp := True, q_maxlen := 160\<rparr>"

lemma zone_db_named: "named zone_db ls d \<longleftrightarrow> ls = [] \<and> d = 0"
  by (auto simp: named_def table_entries_def zone_db_def valid_labels_def wire_def MAXDOMAINLEN_def)

lemma zone_db_ok: "db_ok zone_db" "rrset_lists_ok zone_db" "zones_ok zone_db"
proof -
  have "wf_dname (dname_of [])" unfolding wf_dname_def by (rule exI [of _ "[]"]) (simp add: valid_labels_def wire_def MAXDOMAINLEN_def)
  then have "valid_rbtree wf_dname dname_rank fst (dt_names (db_table zone_db))"
    by (simp add: valid_rbtree_def zone_db_def ordered_def rb_tree_def)
  then show "db_ok zone_db" unfolding db_ok_def by (auto simp: zone_db_named) (auto simp: zone_db_def table_entries_def sample_domain_def)
  show "rrset_lists_ok zone_db" by (simp add: rrset_lists_ok_def zone_db_def)
  show "zones_ok zone_db" by (simp add: zones_ok_def zone_db_named) (simp add: zone_db_def)
qed

lemma zone_query_answered:
  "map_option (\<lambda>(s, q). (s, q_axfr_is_done q, buf_position (q_packet q))) (query_axfr (sample_nsd zone_db) zone_query) = Some (QUERY_IN_AXFR, True, 98)"
  by code_simp



text \<open>C10: a query over which a zone is transferred came over TCP, has the type AXFR, asks for a zone that is
  configured, and an entry of the list of the zone for outgoing transfers admits it: the address is that of the entry, and when the entry has a key
  the message has the MAC of that key.\<close>

theorem axfr_admission:
  assumes "query_process now nsd q = Some (QUERY_IN_AXFR, q', nsd')" "received q" "\<not> tsig_misplaced q"
  shows "\<exists>q1 qn zo a. accepted nsd q q1 \<and> q_tcp q \<and> q_qtype q1 = TYPE_AXFR \<and> q_qname q1 = Some qn \<and>
    n_zone_options nsd qn = Some zo \<and> admitted_by (zo_provide_xfr zo) q1 a"
proof -
  obtain q1 qn zo a where *: "query_parse now nsd q = Some (Inr q1)" "q_tcp q1" "q_qtype q1 = TYPE_AXFR" "q_qname q1 = Some qn"
    "n_zone_options nsd qn = Some zo" "admitted_by (zo_provide_xfr zo) q1 a"
    using query_process_axfr [OF assms(1)] by blast
  have "OPCODE (q_packet q) \<noteq> Some OPCODE_NOTIFY" using *(1) by (rule query_parse_accepts)
  then have "accepted nsd q q1" using query_parse_spec [OF assms(2,3), of nsd now] *(1) by (auto simp: parse_outcome_def)
  moreover from this have "q_tcp q" using *(2) by (simp add: accepted_def)
  ultimately show ?thesis using *(3-) by blast
qed

lemma zone_sent:
  "map_option (\<lambda>(s, q, nsd). (s, q_axfr_is_done q)) (query_process 100 (sample_nsd zone_db) (sample_asked 0 TYPE_AXFR)) = Some (QUERY_IN_AXFR, True)"
  by code_simp

theorem axfr_admission_witness:
  "\<exists>q1 (zo :: zone_options) a. accepted (sample_nsd zone_db) (sample_asked 0 TYPE_AXFR) q1 \<and> q_qtype q1 = TYPE_AXFR \<and> admitted_by (zo_provide_xfr zo) q1 a"
proof -
  obtain q' nsd' where "query_process 100 (sample_nsd zone_db) (sample_asked 0 TYPE_AXFR) = Some (QUERY_IN_AXFR, q', nsd')"
    using zone_sent by (auto simp: map_option_case split: option.splits)
  moreover have "TYPE_AXFR \<noteq> TYPE_IXFR" by (simp add: TYPE_AXFR_def TYPE_IXFR_def)
  ultimately show ?thesis using axfr_admission [OF _ sample_received sample_not_misplaced, of 100 "sample_nsd zone_db" 0 TYPE_AXFR] by blast
qed

end
