(* ===== verification/Dname_Text.thy ===== *)
theory Dname_Text
  imports Dname
begin

text \<open>
  The text form of names (\<open>dname.c\<close>: \<open>dname_parse\<close>, \<open>dname_parse_wire\<close>, \<open>dname_to_string\<close>, \<open>wirelabel2str\<close>, \<open>wiredname2str\<close>), the comparison
  of uncompressed names in a packet (\<open>dname_equal_nocase\<close>), and \<open>hexdigit_to_int\<close> of \<open>util.c\<close>.

  A C string is a list of octets without the terminating one. The array that \<open>dname_parse_wire\<close> fills is an
  argument, with the contents it had before. The result of printing is the text; that it fits the static
  buffer with its terminator is checked with every character.
\<close>

unbundle bit_operations_syntax

subsection \<open>Parsing\<close>

definition c_isdigit :: "byte \<Rightarrow> bool" where
  "c_isdigit c \<longleftrightarrow> 0x30 \<le> c \<and> c \<le> 0x39"

definition c_isalnum :: "byte \<Rightarrow> bool" where
  "c_isalnum c \<longleftrightarrow> c_isdigit c \<or> 0x41 \<le> c \<and> c \<le> 0x5a \<or> 0x61 \<le> c \<and> c \<le> 0x7a"

definition hexdigit_to_int :: "byte \<Rightarrow> nat option" where
  "hexdigit_to_int c = (if 0x30 \<le> c \<and> c \<le> 0x39 then Some (unat c - 0x30)
     else if 0x61 \<le> c \<and> c \<le> 0x66 then Some (unat c - 0x61 + 10)
     else if 0x41 \<le> c \<and> c \<le> 0x46 then Some (unat c - 0x41 + 10) else None)"

definition mem_put :: "'a list \<Rightarrow> nat \<Rightarrow> 'a \<Rightarrow> 'a list option" where
  "mem_put xs i x = (if i < length xs then Some (xs[i := x]) else None)"

text \<open>
  After a backslash: the octet that is stored, if any, and the rest of the text.
\<close>

definition parse_escape :: "byte list \<Rightarrow> (byte option \<times> byte list) option" where
  "parse_escape s = (case s of
     [] \<Rightarrow> Some (None, [])
   | c # r \<Rightarrow>
       (case s of
          a # b # d # t \<Rightarrow>
            if c_isdigit a \<and> c_isdigit b \<and> c_isdigit d then do {
              x \<leftarrow> hexdigit_to_int a;
              y \<leftarrow> hexdigit_to_int b;
              z \<leftarrow> hexdigit_to_int d;
              let val = x * 100 + y * 10 + z;
              if val \<le> 255 then Some (Some (of_nat val), t) else Some (Some c, r) }
            else Some (Some c, r)
        | _ \<Rightarrow> Some (Some c, r)))"

lemma parse_escape_shorter [termination_simp]: "parse_escape s = Some (o1, r) \<Longrightarrow> length r < Suc (length s)"
  by (auto simp: parse_escape_def Option.bind_eq_Some_conv Let_def split: list.splits if_splits)

text \<open>The loop over the text: \<open>h\<close> is the index of the length octet of the label, \<open>p\<close> that of the next octet.\<close>

fun parse_wire_loop :: "byte list \<Rightarrow> byte list \<Rightarrow> nat \<Rightarrow> nat \<Rightarrow> (byte list \<times> nat \<times> nat) option option" where
  "parse_wire_loop [] dname h p = Some (Some (dname, h, p))"
| "parse_wire_loop (c # s) dname h p =
     (if p \<ge> MAXDOMAINLEN then Some None
      else if c = 0x2e then
        if p = h + 1 then Some None
        else if p - h - 1 > MAXLABELLEN then Some None
        else do {
          dname \<leftarrow> mem_put dname h (of_nat (p - h - 1));
          parse_wire_loop s dname p (p + 1) }
      else if c = 0x5c then do {
        (v, r) \<leftarrow> parse_escape s;
        dname \<leftarrow> (case v of None \<Rightarrow> Some dname | Some x \<Rightarrow> mem_put dname p x);
        parse_wire_loop r dname h (p + 1) }
      else do {
        dname \<leftarrow> mem_put dname p c;
        parse_wire_loop s dname h (p + 1) })"

text \<open>The result is the value returned, 0 for an error, and the array.\<close>

definition dname_parse_wire :: "byte list \<Rightarrow> byte list \<Rightarrow> (nat \<times> byte list) option" where
  "dname_parse_wire dname name =
     (if name = [0x2e] then do { dname \<leftarrow> mem_put dname 0 0; Some (1, dname) }
      else do {
        r \<leftarrow> parse_wire_loop name dname 0 1;
        case r of
          None \<Rightarrow> Some (0, dname)
        | Some (dname, h, p) \<Rightarrow>
            if p \<noteq> h + 1 \<and> p - h - 1 > MAXLABELLEN then Some (0, dname)
            else do {
              dname \<leftarrow> (if p \<noteq> h + 1 then mem_put dname h (of_nat (p - h - 1)) else Some dname);
              let h = (if p \<noteq> h + 1 then p else h);
              if h \<ge> MAXDOMAINLEN then Some (0, dname)
              else do {
                dname \<leftarrow> mem_put dname h 0;
                Some (p, dname) } } })"

text \<open>\<open>garbage\<close> is what is on the stack.\<close>

definition dname_parse :: "byte list \<Rightarrow> byte list \<Rightarrow> dname option option" where
  "dname_parse garbage name = do {
     (n, dname) \<leftarrow> dname_parse_wire garbage name;
     if n = 0 then Some None else dname_make dname True }"

subsection \<open>Printing\<close>

text \<open>\<open>snprintf\<close> with the format \<open>\%03u\<close>.\<close>

definition decimal_escape :: "byte \<Rightarrow> byte list" where
  "decimal_escape c = [0x5c, of_nat (0x30 + unat c div 100), of_nat (0x30 + unat c div 10 mod 10), of_nat (0x30 + unat c mod 10)]"

definition put_text :: "nat \<Rightarrow> byte list \<Rightarrow> byte list \<Rightarrow> byte list option" where
  "put_text cap dst t = do { assert_c (length dst + length t < cap); Some (dst @ t) }"

definition escape_char :: "bool \<Rightarrow> byte \<Rightarrow> byte list" where
  "escape_char plain_star ch =
     (if c_isalnum ch \<or> ch = 0x2d \<or> ch = 0x5f \<or> plain_star \<and> ch = 0x2a then [ch]
      else if ch = 0x2e \<or> ch = 0x5c then [0x5c, ch]
      else decimal_escape ch)"

text \<open>The loop over the octets of a label, of which \<open>n\<close> are left; \<open>src\<close> is the pointer into the name.\<close>

fun print_label :: "nat \<Rightarrow> bool \<Rightarrow> nat \<Rightarrow> byte list \<Rightarrow> byte list \<Rightarrow> (byte list \<times> byte list) option" where
  "print_label cap star 0 src dst = Some (src, dst)"
| "print_label cap star (Suc n) src dst = do {
     ch \<leftarrow> mem_get src 0;
     dst \<leftarrow> put_text cap dst (escape_char star ch);
     print_label cap star n (tl src) dst }"

fun print_labels :: "nat \<Rightarrow> nat \<Rightarrow> byte list \<Rightarrow> byte list \<Rightarrow> byte list option" where
  "print_labels cap 0 src dst = Some dst"
| "print_labels cap (Suc n) src dst = do {
     len \<leftarrow> label_length src;
     (src, dst) \<leftarrow> print_label cap False len (tl src) dst;
     dst \<leftarrow> put_text cap dst [0x2e];
     print_labels cap n src dst }"

text \<open>The text without the last octet: there is none when no label is printed.\<close>

definition dname_to_string :: "dname \<Rightarrow> dname option \<Rightarrow> byte list option" where
  "dname_to_string d origin =
     (if label_count d = 1 then Some [0x2e]
      else do {
        rel \<leftarrow> (case origin of None \<Rightarrow> Some None
          | Some o1 \<Rightarrow> do {
              sub \<leftarrow> dname_is_subdomain d o1;
              if sub then do { common \<leftarrow> dname_label_match_count d o1; Some (Some common) } else Some None });
        let labels_to_convert = (case rel of None \<Rightarrow> label_count d - 1 | Some common \<Rightarrow> label_count d - common);
        dst \<leftarrow> print_labels (MAXDOMAINLEN * 5) labels_to_convert (dname_name d) [];
        case rel of
          None \<Rightarrow> Some dst
        | Some _ \<Rightarrow> do { assert_c (dst \<noteq> []); Some (butlast dst) } })"

definition wirelabel2str :: "byte list \<Rightarrow> byte list option" where
  "wirelabel2str label = do {
     lablen \<leftarrow> mem_get label 0;
     (_, dst) \<leftarrow> print_label (MAXDOMAINLEN * 5 + 3) False (unat lablen) (tl label) [];
     Some dst }"

lemma print_label_src: "print_label cap star n src dst = Some (src', dst') \<Longrightarrow> src' = drop n src \<and> n \<le> length src"
proof (induction n arbitrary: src dst)
  case (Suc n)
  then obtain c r d where "src = c # r" "print_label cap star n r d = Some (src', dst')"
    by (cases src) (auto simp: mem_get_def Option.bind_eq_Some_conv)
  then show ?case using Suc.IH by fastforce
qed simp

function wiredname_loop :: "byte \<Rightarrow> byte list \<Rightarrow> byte list \<Rightarrow> byte list option" where
  "wiredname_loop lablen src dst =
     (if lablen = 0 then Some dst
      else do {
        (src, dst) \<leftarrow> print_label (MAXDOMAINLEN * 5 + 3) True (unat lablen) src dst;
        lablen \<leftarrow> mem_get src 0;
        dst \<leftarrow> put_text (MAXDOMAINLEN * 5 + 3) dst [0x2e];
        wiredname_loop lablen (tl src) dst })"
  by pat_completeness auto
termination
  by (relation "measure (\<lambda>(_, src, _). length src)") (auto dest!: print_label_src simp: mem_get_def split: if_splits)

declare wiredname_loop.simps [simp del]

definition wiredname2str :: "byte list \<Rightarrow> byte list option" where
  "wiredname2str name = do {
     c \<leftarrow> mem_get name 0;
     if c = 0 then Some [0x2e] else wiredname_loop c (tl name) [] }"

subsection \<open>Comparing names in a packet\<close>

fun nocase_loop :: "nat \<Rightarrow> byte list \<Rightarrow> byte list \<Rightarrow> bool option" where
  "nocase_loop 0 a b = Some True"
| "nocase_loop (Suc n) a b = do {
     x \<leftarrow> mem_get a 0;
     y \<leftarrow> mem_get b 0;
     if DNAME_NORMALIZE x \<noteq> DNAME_NORMALIZE y then Some False else nocase_loop n (tl a) (tl b) }"

function dname_equal_nocase :: "byte list \<Rightarrow> byte list \<Rightarrow> nat \<Rightarrow> bool option" where
  "dname_equal_nocase a b len =
     (if len = 0 then Some True
      else do {
        x \<leftarrow> mem_get a 0;
        y \<leftarrow> mem_get b 0;
        if x \<noteq> y then Some False
        else if x AND 0xc0 \<noteq> 0 \<or> len - 1 < unat x then do {
          c \<leftarrow> memcmp (tl a) (tl b) (len - 1);
          Some (c = 0) }
        else do {
          same \<leftarrow> nocase_loop (unat x) (tl a) (tl b);
          if \<not> same then Some False
          else dname_equal_nocase (drop (unat x) (tl a)) (drop (unat x) (tl b)) (len - 1 - unat x) } })"
  by pat_completeness auto
termination
  by (relation "measure (\<lambda>(_, _, len). len)") auto

declare dname_equal_nocase.simps [simp del]

subsection \<open>Text and labels\<close>

definition label_text :: "bool \<Rightarrow> byte list \<Rightarrow> byte list" where
  "label_text star l = concat (map (escape_char star) l)"

definition name_text :: "bool \<Rightarrow> byte list list \<Rightarrow> byte list" where
  "name_text star ls = concat (map (\<lambda>l. label_text star l @ [0x2e]) ls)"

lemma label_text_simps [simp]: "label_text star [] = []" "label_text star (c # l) = escape_char star c @ label_text star l"
  by (simp_all add: label_text_def)

lemma name_text_simps [simp]: "name_text star [] = []" "name_text star (l # ls) = label_text star l @ 0x2e # name_text star ls"
  by (simp_all add: name_text_def)

lemma length_escape: "length (escape_char star c) \<le> 4"
  by (simp add: escape_char_def decimal_escape_def)

lemma length_label_text: "length (label_text star l) \<le> 4 * length l"
proof (induction l)
  case (Cons c l)
  then show ?case using length_escape [of star c] by simp
qed simp

lemma length_name_text: "length (name_text star ls) \<le> 4 * (length (wire ls) - 1)"
proof (induction ls)
  case (Cons l ls)
  moreover obtain k where "length (wire ls) = Suc k" by (cases "wire ls") simp_all
  ultimately show ?case using length_label_text [of star l] by simp
qed simp

lemma print_label_text:
  assumes "length dst + length (label_text star l) < cap"
  shows "print_label cap star (length l) (l @ r) dst = Some (r, dst @ label_text star l)"
  using assms by (induction l arbitrary: dst) (simp_all add: put_text_def)

lemma print_labels_text:
  assumes "\<forall>l \<in> set ls. valid_label l" "length dst + length (name_text False ls) < cap"
  shows "print_labels cap (length ls) (wire (ls @ ms)) dst = Some (dst @ name_text False ls)"
  using assms
proof (induction ls arbitrary: dst)
  case (Cons l ls)
  have "print_label cap False (length l) (l @ wire (ls @ ms)) dst = Some (wire (ls @ ms), dst @ label_text False l)"
    using Cons.prems by (intro print_label_text) simp
  then show ?case using Cons valid_label_byte(3) [of l] by (simp add: put_text_def)
qed simp

lemma common_prefix_length: "bs = [] \<Longrightarrow> length (longest_common_prefix (xs @ as) (xs @ bs)) = length xs"
  by (induction xs) simp_all

text \<open>A name is printed relative to an origin with the labels that are not those of the origin.\<close>

lemma dname_to_string_absolute:
  assumes "valid_labels ls"
  shows "dname_to_string (dname_of ls) None = Some (if ls = [] then [0x2e] else name_text False ls)"
proof -
  have "length (name_text False ls) < MAXDOMAINLEN * 5"
    using length_name_text [of False ls] assms unfolding valid_labels_def MAXDOMAINLEN_def by linarith
  then show ?thesis using print_labels_text [of ls "[]" "MAXDOMAINLEN * 5" "[]"] assms
    by (simp add: dname_to_string_def valid_labels_def)
qed

lemma dname_to_string_relative:
  assumes "valid_labels (ls @ os)" "ls \<noteq> []"
  shows "dname_to_string (dname_of (ls @ os)) (Some (dname_of os)) = Some (butlast (name_text False ls))"
proof -
  have vo: "valid_labels os" using valid_labels_drop [OF assms(1), of "length ls"] by simp
  have "length (name_text False ls) \<le> 4 * (length (wire ls) - 1)" by (rule length_name_text)
  also have "\<dots> < MAXDOMAINLEN * 5" using assms(1) length_wire_append [of ls os] unfolding valid_labels_def MAXDOMAINLEN_def by linarith
  finally have "print_labels (MAXDOMAINLEN * 5) (length ls) (wire (ls @ os)) [] = Some (name_text False ls)"
    using print_labels_text [of ls "[]" "MAXDOMAINLEN * 5" os] assms by (simp add: valid_labels_def)
  moreover have "name_text False ls \<noteq> []" using assms(2) by (cases ls) simp_all
  moreover have "length (longest_common_prefix (rev os @ rev ls) (rev os)) = length os"
    using common_prefix_length [of "[]" "rev os" "rev ls"] by simp
  ultimately show ?thesis using assms(2) dname_is_subdomain_suffix [OF assms(1) vo] dname_label_match_count_lcp [OF assms(1) vo]
    by (simp add: dname_to_string_def Let_def suffix_def)
qed

text \<open>With the name itself as origin, the octet before the buffer is written.\<close>

lemma dname_to_string_same:
  assumes "valid_labels ls" "ls \<noteq> []"
  shows "dname_to_string (dname_of ls) (Some (dname_of ls)) = None"
  using assms dname_is_subdomain_suffix [of ls ls] dname_label_match_count_lcp [of ls ls] common_prefix_length [of "[]" "rev ls" "[]"]
  by (simp add: dname_to_string_def Let_def)

lemma wiredname_loop_text:
  assumes "\<forall>l \<in> set ls. valid_label l" "length dst + length (name_text True ls) < MAXDOMAINLEN * 5 + 3"
  shows "wiredname_loop (hd (wire ls)) (tl (wire ls) @ r) dst = Some (dst @ name_text True ls)"
  using assms
proof (induction ls arbitrary: dst)
  case (Cons l ls)
  have p: "print_label (MAXDOMAINLEN * 5 + 3) True (length l) (l @ wire ls @ r) dst = Some (wire ls @ r, dst @ label_text True l)"
    using Cons.prems by (intro print_label_text) simp
  show ?case using Cons p by (subst wiredname_loop.simps) (simp add: put_text_def hd_conv_nth nth_append)
qed (simp add: wiredname_loop.simps)

lemma wiredname2str_text:
  assumes "valid_labels ls"
  shows "wiredname2str (wire ls @ r) = Some (if ls = [] then [0x2e] else name_text True ls)"
proof (cases ls)
  case (Cons l ms)
  have "length (name_text True ls) < MAXDOMAINLEN * 5 + 3"
    using length_name_text [of True ls] assms unfolding valid_labels_def MAXDOMAINLEN_def by linarith
  then show ?thesis using wiredname_loop_text [of ls "[]" r] assms Cons by (simp add: wiredname2str_def valid_labels_def)
qed (simp add: wiredname2str_def)

lemma wirelabel2str_text:
  assumes "valid_label l"
  shows "wirelabel2str (of_nat (length l) # l @ r) = Some (label_text False l)"
  using assms print_label_text [of "[]" False l "MAXDOMAINLEN * 5 + 3" r] length_label_text [of False l]
  by (simp add: wirelabel2str_def valid_label_def MAXDOMAINLEN_def MAXLABELLEN_def)

subsection \<open>Parsing is safe and inverts printing\<close>

lemma mem_put_wf [simp]: "i < length xs \<Longrightarrow> mem_put xs i x = Some (xs[i := x])"
  by (simp add: mem_put_def)

lemma digit_value: "c_isdigit c \<Longrightarrow> hexdigit_to_int c = Some (unat c - 48)"
  by (simp add: c_isdigit_def hexdigit_to_int_def)

lemma parse_escape_total: "\<exists>v r. parse_escape s = Some (v, r)"
  by (auto simp: parse_escape_def digit_value Let_def split: list.splits)

lemma parse_wire_loop_total:
  assumes "length dname = MAXDOMAINLEN" "h < p" "h < MAXDOMAINLEN"
  shows "parse_wire_loop s dname h p = Some None \<or>
    (\<exists>d h' p'. parse_wire_loop s dname h p = Some (Some (d, h', p')) \<and> length d = MAXDOMAINLEN \<and> h' < p' \<and> h' < MAXDOMAINLEN)"
  using assms
proof (induction s dname h p rule: parse_wire_loop.induct)
  case (2 c s dname h p)
  obtain v r where e: "parse_escape s = Some (v, r)" using parse_escape_total by blast
  consider "p \<ge> MAXDOMAINLEN" | "p < MAXDOMAINLEN" "c = 0x2e" | "p < MAXDOMAINLEN" "c \<noteq> 0x2e" "c = 0x5c" | "p < MAXDOMAINLEN" "c \<noteq> 0x2e" "c \<noteq> 0x5c" by linarith
  then show ?case
  proof cases
    case 2
    then show ?thesis using "2.IH"(1) "2.prems" by (simp add: not_le)
  next
    case 3
    have "(case v of None \<Rightarrow> Some dname | Some x \<Rightarrow> mem_put dname p x) = Some (case v of None \<Rightarrow> dname | Some x \<Rightarrow> dname[p := x])"
      using 3 "2.prems" by (cases v) simp_all
    then show ?thesis using "2.IH"(2) [OF _ 3(2,3) e refl] 3 e "2.prems" by (cases v) (simp_all add: not_le)
  next
    case 4
    then show ?thesis using "2.IH"(3) "2.prems" by (simp add: not_le)
  qed simp
qed simp

text \<open>Any text is parsed without a write outside the array.\<close>

lemma dname_parse_wire_total:
  assumes "length dname = MAXDOMAINLEN"
  shows "\<exists>n d. dname_parse_wire dname name = Some (n, d) \<and> length d = MAXDOMAINLEN"
  using parse_wire_loop_total [OF assms, of 0 1 name] assms
  by (auto simp: dname_parse_wire_def Let_def MAXDOMAINLEN_def)

text \<open>A backslash at the end takes the octet that was in the array.\<close>

lemma dname_parse_wire_backslash:
  assumes "length dname = MAXDOMAINLEN"
  shows "dname_parse_wire dname [0x5c] = Some (2, dname[0 := 1, 2 := 0])"
proof -
  have "parse_wire_loop [0x5c] dname 0 1 = Some (Some (dname, 0, 2))" by (simp add: parse_escape_def MAXDOMAINLEN_def)
  then show ?thesis using assms by (simp add: dname_parse_wire_def MAXDOMAINLEN_def MAXLABELLEN_def)
qed

lemma digit_byte:
  assumes "n < 10"
  shows "unat (of_nat (0x30 + n) :: byte) = 48 + n" "c_isdigit (of_nat (0x30 + n))"
proof -
  show u: "unat (of_nat (0x30 + n) :: byte) = 48 + n" using assms unat_byte_of_nat [of "48 + n"] by simp
  show "c_isdigit (of_nat (0x30 + n))" unfolding c_isdigit_def word_le_nat_alt u using assms by simp
qed

lemma three_digits: "n div 100 * 100 + n div 10 mod 10 * 10 + n mod 10 = n" for n :: nat
proof -
  have "n div 100 = n div 10 div 10" by (simp add: div_mult2_eq [symmetric])
  then show ?thesis using div_mult_mod_eq [of n 10] div_mult_mod_eq [of "n div 10" 10] by linarith
qed

lemma parse_escape_decimal: "parse_escape (tl (decimal_escape c) @ s) = Some (Some c, s)"
proof -
  let ?a = "unat c div 100" and ?b = "unat c div 10 mod 10" and ?d = "unat c mod 10"
  have "?a < 10" using byte_le_255 [of c] by linarith
  then have v: "c_isdigit (of_nat (0x30 + ?a))" "c_isdigit (of_nat (0x30 + ?b))" "c_isdigit (of_nat (0x30 + ?d))"
    "hexdigit_to_int (of_nat (0x30 + ?a)) = Some ?a" "hexdigit_to_int (of_nat (0x30 + ?b)) = Some ?b" "hexdigit_to_int (of_nat (0x30 + ?d)) = Some ?d"
    using digit_byte by (simp_all del: of_nat_add add: digit_value)
  have "?a * 100 + ?b * 10 + ?d = unat c" by (rule three_digits)
  then show ?thesis using v byte_le_255 [of c] by (simp add: parse_escape_def decimal_escape_def Let_def del: of_nat_add)
qed

lemma parse_char:
  assumes "p < MAXDOMAINLEN" "length dname = MAXDOMAINLEN"
  shows "parse_wire_loop (escape_char False c @ s) dname h p = parse_wire_loop s (dname[p := c]) h (p + 1)"
proof -
  consider "c_isalnum c \<or> c = 0x2d \<or> c = 0x5f" | "c = 0x2e \<or> c = 0x5c" | "\<not> (c_isalnum c \<or> c = 0x2d \<or> c = 0x5f)" "c \<noteq> 0x2e" "c \<noteq> 0x5c" by blast
  then show ?thesis
  proof cases
    case 1
    then have "c \<noteq> 0x2e \<and> c \<noteq> 0x5c" by (auto simp: c_isalnum_def c_isdigit_def)
    then show ?thesis using 1 assms by (simp add: escape_char_def)
  next
    case 2
    then have n: "\<not> c_isalnum c" "c \<noteq> 0x2d" "c \<noteq> 0x5f" "\<not> c_isdigit c" by (auto simp: c_isalnum_def c_isdigit_def)
    then have "parse_escape (c # s) = Some (Some c, s)" by (simp add: parse_escape_def split: list.splits)
    then show ?thesis using 2 n assms by (auto simp: escape_char_def)
  next
    case 3
    have "escape_char False c @ s = 0x5c # tl (decimal_escape c) @ s" using 3 by (simp add: escape_char_def decimal_escape_def)
    then show ?thesis using assms by (simp add: parse_escape_decimal)
  qed
qed

lemma mem_write_Cons: "p < length xs \<Longrightarrow> mem_write p (c # l) xs = mem_write (Suc p) l (xs[p := c])"
  by (simp add: mem_write_def take_Suc_conv_app_nth)

lemma parse_label:
  assumes "p + length l \<le> MAXDOMAINLEN" "length dname = MAXDOMAINLEN"
  shows "parse_wire_loop (label_text False l @ s) dname h p = parse_wire_loop s (mem_write p l dname) h (p + length l)"
  using assms by (induction l arbitrary: p dname) (simp_all add: parse_char mem_write_Cons)

lemma parse_labels:
  assumes "\<forall>l \<in> set ls. valid_label l" "h + length (wire ls) \<le> MAXDOMAINLEN" "length dname = MAXDOMAINLEN"
  shows "parse_wire_loop (name_text False ls) dname h (Suc h) =
    Some (Some (mem_write h (butlast (wire ls)) dname, h + length (wire ls) - 1, Suc (h + length (wire ls) - 1)))"
  using assms
proof (induction ls arbitrary: h dname)
  case (Cons l ls)
  let ?d = "(mem_write (Suc h) l dname)[h := of_nat (length l)]"
  have v: "valid_label l" "l \<noteq> []" "length l \<le> MAXLABELLEN" using Cons.prems by (auto simp: valid_label_def)
  obtain k where k: "length (wire ls) = Suc k" by (cases "wire ls") simp_all
  have b: "Suc (h + length l) < MAXDOMAINLEN" using Cons.prems(2) k by simp
  have "parse_wire_loop (name_text False (l # ls)) dname h (Suc h) = parse_wire_loop (name_text False ls) ?d (Suc h + length l) (Suc (Suc h + length l))"
    using Cons.prems(3) v b parse_label [of "Suc h" l dname "0x2e # name_text False ls" h] by simp
  also have "?d = mem_write h (of_nat (length l) # l) dname"
    using Cons.prems(3) b by (simp add: mem_write_def take_Suc_conv_app_nth list_update_append)
  finally show ?case using Cons.IH [of "Suc h + length l" "mem_write h (of_nat (length l) # l) dname"] Cons.prems v k
      mem_write_append [of h "of_nat (length l) # l" "butlast (wire ls)" dname]
    by (simp add: butlast_append)
qed simp

lemma dname_parse_wire_text:
  assumes "valid_labels ls" "length dname = MAXDOMAINLEN"
  shows "dname_parse_wire dname (if ls = [] then [0x2e] else name_text False ls) = Some (length (wire ls), mem_write 0 (wire ls) dname)"
proof (cases "ls = []")
  case True
  then show ?thesis using assms by (cases dname) (simp_all add: dname_parse_wire_def MAXDOMAINLEN_def mem_write_def)
next
  case False
  let ?n = "length (wire ls) - 1"
  have n: "length (wire ls) = Suc ?n" "?n < MAXDOMAINLEN" using assms length_wire_pos [of ls] unfolding valid_labels_def by linarith+
  have r: "name_text False ls \<noteq> [0x2e]"
  proof -
    obtain l ms where "ls = l # ms" "valid_label l" using False assms(1) by (cases ls) (auto simp: valid_labels_def)
    then show ?thesis by (cases l) (auto simp: valid_label_def escape_char_def decimal_escape_def)
  qed
  have "parse_wire_loop (name_text False ls) dname 0 1 = Some (Some (mem_write 0 (butlast (wire ls)) dname, ?n, Suc ?n))"
    using parse_labels [of ls 0 dname] assms by (simp add: valid_labels_def)
  moreover have "(mem_write 0 (butlast (wire ls)) dname)[?n := 0] = mem_write 0 (wire ls) dname"
  proof -
    have "wire ls = butlast (wire ls) @ [0]" by (simp add: wire_def)
    then have "mem_write 0 (wire ls) dname = mem_write ?n [0] (mem_write 0 (butlast (wire ls)) dname)"
      using mem_write_append [of 0 "butlast (wire ls)" "[0]" dname] n assms(2) by simp
    then show ?thesis using n assms(2) by (simp add: mem_write_Cons)
  qed
  ultimately show ?thesis using False r n assms(2) by (simp add: dname_parse_wire_def)
qed

text \<open>Parsing the text of a name gives the name, in lower case.\<close>

lemma dname_parse_text:
  assumes "valid_labels ls" "length garbage = MAXDOMAINLEN"
  shows "\<exists>t. dname_to_string (dname_of ls) None = Some t \<and> dname_parse garbage t = Some (Some (dname_of (norm_labels True ls)))"
proof -
  have "mem_write 0 (wire ls) garbage = wire ls @ drop (length (wire ls)) garbage" by (simp add: mem_write_def)
  then show ?thesis using dname_to_string_absolute [OF assms(1)] dname_parse_wire_text [OF assms] dname_make_of_wire [OF assms(1)]
    by (simp add: dname_parse_def)
qed

subsection \<open>Comparing names without case\<close>

lemma nocase_loop_map:
  assumes "length l = length k"
  shows "nocase_loop (length l) (l @ r) (k @ t) = Some (map DNAME_NORMALIZE l = map DNAME_NORMALIZE k)"
  using assms by (induction l k rule: list_induct2) auto

lemma dname_equal_nocase_labels:
  assumes "\<forall>l \<in> set as. valid_label l" "\<forall>l \<in> set bs. valid_label l" "length (wire as) = length (wire bs)"
  shows "dname_equal_nocase (wire as @ r) (wire bs @ t) (length (wire as)) = Some (norm_labels True as = norm_labels True bs)"
  using assms
proof (induction as arbitrary: bs)
  case Nil
  then show ?case by (cases bs) (simp_all add: dname_equal_nocase.simps norm_labels_def nocase_loop_map)
next
  case (Cons a as)
  obtain b cs where bs: "bs = b # cs" using Cons.prems by (cases bs) simp_all
  have v: "valid_label a" "valid_label b" "length a < 64" using Cons.prems bs valid_label_byte(3) [of a] by simp_all
  have z: "(of_nat (length a) :: byte) AND 0xc0 = 0" using v by (simp add: and_c0_zero)
  show ?case
  proof (cases "length a = length b")
    case True
    then show ?thesis using Cons v z bs nocase_loop_map [OF True, of "wire as @ r" "wire cs @ t"]
      by (subst dname_equal_nocase.simps) (simp add: norm_labels_def)
  next
    case False
    then have "(of_nat (length a) :: byte) \<noteq> of_nat (length b)" using v by (metis valid_label_byte(1))
    moreover have "map DNAME_NORMALIZE a \<noteq> map DNAME_NORMALIZE b" using False by (metis length_map)
    ultimately show ?thesis using bs by (subst dname_equal_nocase.simps) (simp add: norm_labels_def)
  qed
qed

end
