(* ===== verification/Util.thy ===== *)
theory Util
  imports Dname_Text "HOL-Library.Signed_Division"
begin

text \<open>
  The utilities of \<open>util.c\<close> that compute: arithmetic on times, serial numbers, the conversions of numbers, hexadecimal and
  base 32 text, the calendar, and the checksum of the database files. A C string is a list of octets without the
  terminating one; a pointer that is advanced over a string is the rest of it.
\<close>

unbundle bit_operations_syntax

subsection \<open>Times\<close>

record timespec =
  tv_sec :: int
  tv_nsec :: int

definition NANOSECONDS_PER_SECOND :: int where "NANOSECONDS_PER_SECOND = 1000000000"

definition timespec_compare :: "timespec \<Rightarrow> timespec \<Rightarrow> int" where
  "timespec_compare left right =
     (if tv_sec left < tv_sec right then -1
      else if tv_sec left > tv_sec right then 1
      else if tv_nsec left < tv_nsec right then -1
      else if tv_nsec left > tv_nsec right then 1
      else 0)"

definition timespec_add :: "timespec \<Rightarrow> timespec \<Rightarrow> timespec" where
  "timespec_add left right =
     (let s = tv_sec left + tv_sec right; n = tv_nsec left + tv_nsec right in
      if n \<ge> NANOSECONDS_PER_SECOND then \<lparr>tv_sec = s + 1, tv_nsec = n - NANOSECONDS_PER_SECOND\<rparr>
      else \<lparr>tv_sec = s, tv_nsec = n\<rparr>)"

definition timespec_subtract :: "timespec \<Rightarrow> timespec \<Rightarrow> timespec" where
  "timespec_subtract left right =
     (let s = tv_sec left - tv_sec right; n = tv_nsec left - tv_nsec right in
      if n < 0 then \<lparr>tv_sec = s - 1, tv_nsec = n + NANOSECONDS_PER_SECOND\<rparr>
      else \<lparr>tv_sec = s, tv_nsec = n\<rparr>)"

text \<open>The result is -1, 0 or 1.\<close>

definition compare_serial :: "u32 \<Rightarrow> u32 \<Rightarrow> int" where
  "compare_serial a b =
     (let cutoff = push_bit (32 - 1) 1 in
      if a = b then 0
      else if a < b \<and> b - a < cutoff \<or> a > b \<and> a - b > cutoff then -1
      else 1)"

subsection \<open>Numbers\<close>

text \<open>The value, and the rest of the text from \<open>endptr\<close> on.\<close>

fun strtoserial_loop :: "byte list \<Rightarrow> u32 \<Rightarrow> u32 \<times> byte list" where
  "strtoserial_loop [] i = (i, [])"
| "strtoserial_loop (c # s) i =
     (if c_isdigit c then
        if (i * 10) div 10 \<noteq> i then (i, c # s)
        else strtoserial_loop s (i * 10 + (ucast c - 0x30))
      else strtoserial_loop s i)"

definition strtoserial :: "byte list \<Rightarrow> u32 \<times> byte list" where
  "strtoserial nptr = strtoserial_loop nptr 0"

definition MSB_32 :: u32 where "MSB_32 = 0x80000000"
definition DEFAULT_TTL :: u32 where "DEFAULT_TTL = 3600"

definition ttl_value :: "u32 \<Rightarrow> u32" where
  "ttl_value seconds = (if seconds AND MSB_32 \<noteq> 0 then DEFAULT_TTL else seconds)"

fun strtottl_loop :: "byte list \<Rightarrow> u32 \<Rightarrow> u32 \<Rightarrow> u32 \<times> byte list" where
  "strtottl_loop [] i seconds = (ttl_value (seconds + i), [])"
| "strtottl_loop (c # s) i seconds =
     (if c = 0x20 \<or> c = 0x09 then strtottl_loop s i seconds
      else if c = 0x73 \<or> c = 0x53 then strtottl_loop s 0 (seconds + i)
      else if c = 0x6d \<or> c = 0x4d then strtottl_loop s 0 (seconds + i * 60)
      else if c = 0x68 \<or> c = 0x48 then strtottl_loop s 0 (seconds + i * 60 * 60)
      else if c = 0x64 \<or> c = 0x44 then strtottl_loop s 0 (seconds + i * 60 * 60 * 24)
      else if c = 0x77 \<or> c = 0x57 then strtottl_loop s 0 (seconds + i * 60 * 60 * 24 * 7)
      else if c_isdigit c then strtottl_loop s (i * 10 + (ucast c - 0x30)) seconds
      else (ttl_value (seconds + i), c # s))"

definition strtottl :: "byte list \<Rightarrow> u32 \<times> byte list" where
  "strtottl nptr = strtottl_loop nptr 0 0"

subsection \<open>Hexadecimal and base 32\<close>

definition hexdigits :: "byte list" where
  "hexdigits = [0x30, 0x31, 0x32, 0x33, 0x34, 0x35, 0x36, 0x37, 0x38, 0x39, 0x61, 0x62, 0x63, 0x64, 0x65, 0x66]"

text \<open>\<^term>\<open>None\<close> inside is the result -1.\<close>

definition hex_ntop :: "byte list \<Rightarrow> nat \<Rightarrow> byte list option option" where
  "hex_ntop src targsize =
     (if targsize < length src * 2 + 1 then Some None
      else do {
        t \<leftarrow> those (concat (map (\<lambda>c. [mem_get hexdigits (unat (drop_bit 4 c)), mem_get hexdigits (unat (c AND 0xf))]) src));
        Some (Some t) })"

definition c_isxdigit :: "byte \<Rightarrow> bool" where
  "c_isxdigit c \<longleftrightarrow> c_isdigit c \<or> 0x61 \<le> c \<and> c \<le> 0x66 \<or> 0x41 \<le> c \<and> c \<le> 0x46"

fun hex_pton_loop :: "byte list \<Rightarrow> byte list \<Rightarrow> byte list option option" where
  "hex_pton_loop [] t = Some (Some t)"
| "hex_pton_loop [a] t = Some None"
| "hex_pton_loop (a # b # src) t =
     (if \<not> c_isxdigit a \<or> \<not> c_isxdigit b then Some None
      else do {
        x \<leftarrow> hexdigit_to_int a;
        y \<leftarrow> hexdigit_to_int b;
        hex_pton_loop src (t @ [of_nat (x * 16 + y)]) })"

definition hex_pton :: "byte list \<Rightarrow> nat \<Rightarrow> byte list option option" where
  "hex_pton src targsize =
     (if length src mod 2 \<noteq> 0 \<or> length src div 2 > targsize then Some None else hex_pton_loop src [])"

definition b32 :: "byte list" where
  "b32 = [0x30, 0x31, 0x32, 0x33, 0x34, 0x35, 0x36, 0x37, 0x38, 0x39, 0x61, 0x62, 0x63, 0x64, 0x65, 0x66,
     0x67, 0x68, 0x69, 0x6a, 0x6b, 0x6c, 0x6d, 0x6e, 0x6f, 0x70, 0x71, 0x72, 0x73, 0x74, 0x75, 0x76]"

text \<open>The digits of one round: two, four, five or seven for less than five octets.\<close>

fun b32_round :: "byte list \<Rightarrow> byte list" where
  "b32_round [] = []"
| "b32_round [x] = [drop_bit 3 x, push_bit 2 (x AND 7)]"
| "b32_round [x, y] = [drop_bit 3 x, push_bit 2 (x AND 7) + drop_bit 6 y, drop_bit 1 y AND 0x1f, push_bit 4 (y AND 1)]"
| "b32_round [x, y, z] = [drop_bit 3 x, push_bit 2 (x AND 7) + drop_bit 6 y, drop_bit 1 y AND 0x1f, push_bit 4 (y AND 1) + drop_bit 4 z,
     push_bit 1 (z AND 0xf)]"
| "b32_round [x, y, z, v] = [drop_bit 3 x, push_bit 2 (x AND 7) + drop_bit 6 y, drop_bit 1 y AND 0x1f, push_bit 4 (y AND 1) + drop_bit 4 z,
     push_bit 1 (z AND 0xf) + drop_bit 7 v, drop_bit 2 v AND 0x1f, push_bit 3 (v AND 3)]"
| "b32_round (x # y # z # v # w # _) = [drop_bit 3 x, push_bit 2 (x AND 7) + drop_bit 6 y, drop_bit 1 y AND 0x1f, push_bit 4 (y AND 1) + drop_bit 4 z,
     push_bit 1 (z AND 0xf) + drop_bit 7 v, drop_bit 2 v AND 0x1f, push_bit 3 (v AND 3) + drop_bit 5 w, w AND 0x1f]"

definition b32_chars :: "byte list \<Rightarrow> byte list option" where
  "b32_chars src = those (map (\<lambda>d. mem_get b32 (unat d)) (b32_round src))"

function b32_ntop :: "byte list \<Rightarrow> nat \<Rightarrow> byte list option option" where
  "b32_ntop src targsize =
     (if src = [] then if targsize < 1 then Some None else Some (Some [])
      else do {
        buf \<leftarrow> b32_chars src;
        if length src < 5 then if targsize < length buf + 1 then Some None else Some (Some buf)
        else if targsize < 8 then Some None
        else do {
          r \<leftarrow> b32_ntop (drop 5 src) (targsize - 8);
          Some (case r of None \<Rightarrow> None | Some t \<Rightarrow> Some (buf @ t)) } })"
  by pat_completeness auto
termination by (relation "measure (length \<circ> fst)") auto

declare b32_ntop.simps [simp del]

definition c_isspace :: "byte \<Rightarrow> bool" where
  "c_isspace c \<longleftrightarrow> c = 0x20 \<or> 0x09 \<le> c \<and> c \<le> 0x0d"

definition b32_digit :: "byte \<Rightarrow> byte option" where
  "b32_digit ch =
     (if 0x30 \<le> ch \<and> ch \<le> 0x39 then Some (ch - 0x30)
      else if 0x41 \<le> ch \<and> ch \<le> 0x56 then Some (ch - 0x41 + 10)
      else if 0x61 \<le> ch \<and> ch \<le> 0x76 then Some (ch - 0x61 + 10)
      else None)"

definition mem_or :: "byte list \<Rightarrow> nat \<Rightarrow> byte \<Rightarrow> byte list option" where
  "mem_or xs i v = do { x \<leftarrow> mem_get xs i; mem_put xs i (x OR v) }"

text \<open>The result is the number of octets, -1 for an error, and the target.\<close>

fun b32_pton_loop :: "byte list \<Rightarrow> byte list \<Rightarrow> nat \<Rightarrow> (int \<times> byte list) option" where
  "b32_pton_loop [] target p = Some (int ((p + 7) div 8), target)"
| "b32_pton_loop (ch # src) target p =
     (if p + 5 \<ge> length target * 8 then Some (-1, target)
      else if c_isspace ch then b32_pton_loop src target p
      else (case b32_digit ch of
        None \<Rightarrow> Some (-1, target)
      | Some d \<Rightarrow> do {
          let b = 7 - p mod 8;
          let n = p div 8;
          target \<leftarrow> (if b \<ge> 4 then mem_or target n (push_bit (b - 4) d)
                     else do {
                       target \<leftarrow> mem_or target n (drop_bit (4 - b) d);
                       mem_or target (n + 1) (push_bit (b + 4) d) });
          b32_pton_loop src target (p + 5) }))"

definition b32_pton :: "byte list \<Rightarrow> nat \<Rightarrow> (int \<times> byte list) option" where
  "b32_pton src tsize = b32_pton_loop src (replicate tsize 0) 0"

definition strip_string :: "byte list \<Rightarrow> byte list" where
  "strip_string str =
     (let start = dropWhile c_isspace str in
      if start = [] then [] else rev (dropWhile c_isspace (rev start)))"

subsection \<open>The calendar\<close>

record tm =
  tm_sec :: int
  tm_min :: int
  tm_hour :: int
  tm_mday :: int
  tm_mon :: nat
  tm_year :: int

definition mdays :: "int list" where "mdays = [31, 28, 31, 30, 31, 30, 31, 31, 30, 31, 30, 31]"

definition is_leap_year :: "int \<Rightarrow> bool" where
  "is_leap_year year \<longleftrightarrow> year smod 4 = 0 \<and> (year smod 100 \<noteq> 0 \<or> year smod 400 = 0)"

definition leap_days :: "int \<Rightarrow> int \<Rightarrow> int" where
  "leap_days y1 y2 = (let y1 = y1 - 1; y2 = y2 - 1 in
     (y2 sdiv 4 - y1 sdiv 4) - (y2 sdiv 100 - y1 sdiv 100) + (y2 sdiv 400 - y1 sdiv 400))"

fun month_days :: "nat \<Rightarrow> int option" where
  "month_days 0 = Some 0"
| "month_days (Suc i) = do { d \<leftarrow> month_days i; m \<leftarrow> mem_get mdays i; Some (d + m) }"

definition mktime_from_utc :: "tm \<Rightarrow> int option" where
  "mktime_from_utc t = do {
     let year = 1900 + tm_year t;
     let days = 365 * (year - 1970) + leap_days 1970 year;
     md \<leftarrow> month_days (tm_mon t);
     let days = days + md;
     let days = (if tm_mon t > 1 \<and> is_leap_year year then days + 1 else days);
     let days = days + (tm_mday t - 1);
     let hours = days * 24 + tm_hour t;
     let minutes = hours * 60 + tm_min t;
     Some (minutes * 60 + tm_sec t) }"

subsection \<open>The checksum\<close>

definition crctab :: "u32 list" where
  "crctab = [
     0x0, 0x04c11db7, 0x09823b6e, 0x0d4326d9, 0x130476dc, 0x17c56b6b, 0x1a864db2, 0x1e475005,
     0x2608edb8, 0x22c9f00f, 0x2f8ad6d6, 0x2b4bcb61, 0x350c9b64, 0x31cd86d3, 0x3c8ea00a, 0x384fbdbd,
     0x4c11db70, 0x48d0c6c7, 0x4593e01e, 0x4152fda9, 0x5f15adac, 0x5bd4b01b, 0x569796c2, 0x52568b75,
     0x6a1936c8, 0x6ed82b7f, 0x639b0da6, 0x675a1011, 0x791d4014, 0x7ddc5da3, 0x709f7b7a, 0x745e66cd,
     0x9823b6e0, 0x9ce2ab57, 0x91a18d8e, 0x95609039, 0x8b27c03c, 0x8fe6dd8b, 0x82a5fb52, 0x8664e6e5,
     0xbe2b5b58, 0xbaea46ef, 0xb7a96036, 0xb3687d81, 0xad2f2d84, 0xa9ee3033, 0xa4ad16ea, 0xa06c0b5d,
     0xd4326d90, 0xd0f37027, 0xddb056fe, 0xd9714b49, 0xc7361b4c, 0xc3f706fb, 0xceb42022, 0xca753d95,
     0xf23a8028, 0xf6fb9d9f, 0xfbb8bb46, 0xff79a6f1, 0xe13ef6f4, 0xe5ffeb43, 0xe8bccd9a, 0xec7dd02d,
     0x34867077, 0x30476dc0, 0x3d044b19, 0x39c556ae, 0x278206ab, 0x23431b1c, 0x2e003dc5, 0x2ac12072,
     0x128e9dcf, 0x164f8078, 0x1b0ca6a1, 0x1fcdbb16, 0x018aeb13, 0x054bf6a4, 0x0808d07d, 0x0cc9cdca,
     0x7897ab07, 0x7c56b6b0, 0x71159069, 0x75d48dde, 0x6b93dddb, 0x6f52c06c, 0x6211e6b5, 0x66d0fb02,
     0x5e9f46bf, 0x5a5e5b08, 0x571d7dd1, 0x53dc6066, 0x4d9b3063, 0x495a2dd4, 0x44190b0d, 0x40d816ba,
     0xaca5c697, 0xa864db20, 0xa527fdf9, 0xa1e6e04e, 0xbfa1b04b, 0xbb60adfc, 0xb6238b25, 0xb2e29692,
     0x8aad2b2f, 0x8e6c3698, 0x832f1041, 0x87ee0df6, 0x99a95df3, 0x9d684044, 0x902b669d, 0x94ea7b2a,
     0xe0b41de7, 0xe4750050, 0xe9362689, 0xedf73b3e, 0xf3b06b3b, 0xf771768c, 0xfa325055, 0xfef34de2,
     0xc6bcf05f, 0xc27dede8, 0xcf3ecb31, 0xcbffd686, 0xd5b88683, 0xd1799b34, 0xdc3abded, 0xd8fba05a,
     0x690ce0ee, 0x6dcdfd59, 0x608edb80, 0x644fc637, 0x7a089632, 0x7ec98b85, 0x738aad5c, 0x774bb0eb,
     0x4f040d56, 0x4bc510e1, 0x46863638, 0x42472b8f, 0x5c007b8a, 0x58c1663d, 0x558240e4, 0x51435d53,
     0x251d3b9e, 0x21dc2629, 0x2c9f00f0, 0x285e1d47, 0x36194d42, 0x32d850f5, 0x3f9b762c, 0x3b5a6b9b,
     0x0315d626, 0x07d4cb91, 0x0a97ed48, 0x0e56f0ff, 0x1011a0fa, 0x14d0bd4d, 0x19939b94, 0x1d528623,
     0xf12f560e, 0xf5ee4bb9, 0xf8ad6d60, 0xfc6c70d7, 0xe22b20d2, 0xe6ea3d65, 0xeba91bbc, 0xef68060b,
     0xd727bbb6, 0xd3e6a601, 0xdea580d8, 0xda649d6f, 0xc423cd6a, 0xc0e2d0dd, 0xcda1f604, 0xc960ebb3,
     0xbd3e8d7e, 0xb9ff90c9, 0xb4bcb610, 0xb07daba7, 0xae3afba2, 0xaafbe615, 0xa7b8c0cc, 0xa379dd7b,
     0x9b3660c6, 0x9ff77d71, 0x92b45ba8, 0x9675461f, 0x8832161a, 0x8cf30bad, 0x81b02d74, 0x857130c3,
     0x5d8a9099, 0x594b8d2e, 0x5408abf7, 0x50c9b640, 0x4e8ee645, 0x4a4ffbf2, 0x470cdd2b, 0x43cdc09c,
     0x7b827d21, 0x7f436096, 0x7200464f, 0x76c15bf8, 0x68860bfd, 0x6c47164a, 0x61043093, 0x65c52d24,
     0x119b4be9, 0x155a565e, 0x18197087, 0x1cd86d30, 0x029f3d35, 0x065e2082, 0x0b1d065b, 0x0fdc1bec,
     0x3793a651, 0x3352bbe6, 0x3e119d3f, 0x3ad08088, 0x2497d08d, 0x2056cd3a, 0x2d15ebe3, 0x29d4f654,
     0xc5a92679, 0xc1683bce, 0xcc2b1d17, 0xc8ea00a0, 0xd6ad50a5, 0xd26c4d12, 0xdf2f6bcb, 0xdbee767c,
     0xe3a1cbc1, 0xe760d676, 0xea23f0af, 0xeee2ed18, 0xf0a5bd1d, 0xf464a0aa, 0xf9278673, 0xfde69bc4,
     0x89b8fd09, 0x8d79e0be, 0x803ac667, 0x84fbdbd0, 0x9abc8bd5, 0x9e7d9662, 0x933eb0bb, 0x97ffad0c,
     0xafb010b1, 0xab710d06, 0xa6322bdf, 0xa2f33668, 0xbcb4666d, 0xb8757bda, 0xb5365d03, 0xb1f740b4]"

fun compute_crc :: "u32 \<Rightarrow> byte list \<Rightarrow> u32 option" where
  "compute_crc crc [] = Some crc"
| "compute_crc crc (c # data) = do {
     t \<leftarrow> mem_get crctab (unat (drop_bit 24 crc XOR ucast c));
     compute_crc (push_bit 8 crc XOR t) data }"

section \<open>What they compute\<close>

subsection \<open>Times and serial numbers\<close>

definition normal_time :: "timespec \<Rightarrow> bool" where
  "normal_time t \<longleftrightarrow> 0 \<le> tv_nsec t \<and> tv_nsec t < NANOSECONDS_PER_SECOND"

definition nanoseconds :: "timespec \<Rightarrow> int" where
  "nanoseconds t = tv_sec t * NANOSECONDS_PER_SECOND + tv_nsec t"

lemma timespec_arithmetic:
  assumes "normal_time a" "normal_time b"
  shows "normal_time (timespec_add a b)" "nanoseconds (timespec_add a b) = nanoseconds a + nanoseconds b"
    "normal_time (timespec_subtract a b)" "nanoseconds (timespec_subtract a b) = nanoseconds a - nanoseconds b"
    "timespec_compare a b = sgn (nanoseconds a - nanoseconds b)"
proof -
  show "normal_time (timespec_add a b)" "nanoseconds (timespec_add a b) = nanoseconds a + nanoseconds b"
    "normal_time (timespec_subtract a b)" "nanoseconds (timespec_subtract a b) = nanoseconds a - nanoseconds b"
    using assms by (auto simp: normal_time_def nanoseconds_def timespec_add_def timespec_subtract_def NANOSECONDS_PER_SECOND_def Let_def)
  have "tv_sec a < tv_sec b \<Longrightarrow> nanoseconds a < nanoseconds b" "tv_sec b < tv_sec a \<Longrightarrow> nanoseconds b < nanoseconds a"
    using assms unfolding normal_time_def nanoseconds_def NANOSECONDS_PER_SECOND_def by linarith+
  then show "timespec_compare a b = sgn (nanoseconds a - nanoseconds b)"
    by (cases "tv_sec a" "tv_sec b" rule: linorder_cases) (auto simp: timespec_compare_def nanoseconds_def)
qed

text \<open>A serial number is greater than another when it is reached from it by adding less than half of the range.\<close>

lemma unat_serial_add: "unat (a + b :: u32) = (if unat a + unat b < 2 ^ 32 then unat a + unat b else unat a + unat b - 2 ^ 32)"
  using unat_u32_less [of a] unat_u32_less [of b] by (simp add: unat_word_ariths mod_if)

lemma compare_serial_add:
  assumes "0 < d" "d < 0x80000000"
  shows "compare_serial (a + d) a = 1" "compare_serial a (a + d) = -1"
proof -
  have d: "0 < unat d" "unat d < 2147483648" using assms by (simp_all add: word_less_nat_alt)
  have c: "(push_bit (32 - 1) 1 :: u32) = 0x80000000" by simp
  have ne: "a + d \<noteq> a" "unat (a + d) \<noteq> unat a" using assms(1) by (auto simp: word_unat_eq_iff [symmetric])
  have lt: "a < a + d \<longleftrightarrow> unat a + unat d < 4294967296" using d unat_u32_less [of a] by (auto simp: word_less_nat_alt unat_serial_add)
  have m: "unat (a - (a + d)) = 4294967296 - unat d"
    using unat_serial_add [of "- d" d] d unat_u32_less [of "- d"] by (simp split: if_splits)
  show "compare_serial (a + d) a = 1" "compare_serial a (a + d) = -1"
    using d ne lt m unfolding compare_serial_def c Let_def by (auto simp: word_less_nat_alt not_less)
qed

subsection \<open>Numbers\<close>

lemma ttl_value_range: "ttl_value n AND MSB_32 = 0"
  by (simp add: ttl_value_def DEFAULT_TTL_def MSB_32_def)

lemma strtottl_range: "fst (strtottl s) AND MSB_32 = 0"
proof -
  have "fst (strtottl_loop s i n) AND MSB_32 = 0" for i n
    by (induction s i n rule: strtottl_loop.induct) (simp_all add: ttl_value_range)
  then show ?thesis by (simp add: strtottl_def)
qed

fun decimal_value :: "nat \<Rightarrow> byte list \<Rightarrow> nat" where
  "decimal_value n [] = n"
| "decimal_value n (c # s) = decimal_value (n * 10 + (unat c - 0x30)) s"

lemma decimal_value_ge: "n \<le> decimal_value n s"
proof (induction s arbitrary: n)
  case (Cons c s)
  have "n \<le> n * 10 + (unat c - 0x30)" by simp
  then show ?case using Cons [of "n * 10 + (unat c - 0x30)"] by simp
qed simp

lemma unat_ucast_u32: "unat (ucast (c :: byte) :: u32) = unat c"
  using unat_byte_less [of c] by (simp add: unsigned_ucast_eq take_bit_nat_eq_self)

lemma serial_step:
  assumes "c_isdigit c" "unat i * 10 + (unat c - 0x30) < 2 ^ 32"
  shows "(i * 10) div 10 = (i :: u32)" "unat (i * 10 + (ucast c - 0x30) :: u32) = unat i * 10 + (unat c - 0x30)"
proof -
  have "unat (i * 10 :: u32) = unat i * 10" using assms(2) by (simp add: unat_word_ariths)
  moreover have "unat (ucast c - 0x30 :: u32) = unat c - 0x30"
    using assms(1) by (subst unat_sub) (simp_all add: c_isdigit_def word_le_nat_alt unat_ucast_u32)
  ultimately show "(i * 10) div 10 = i" "unat (i * 10 + (ucast c - 0x30) :: u32) = unat i * 10 + (unat c - 0x30)"
    using assms(2) by (simp_all add: word_unat_eq_iff unat_div unat_serial_add)
qed

text \<open>A number below \<open>2\<^sup>32\<close> is read; the check for larger numbers does not see that of the last digit.\<close>

lemma strtoserial_digits:
  assumes "\<forall>c \<in> set s. c_isdigit c" "decimal_value (unat i) s < 2 ^ 32"
  shows "strtoserial_loop s i = (of_nat (decimal_value (unat i) s), [])"
  using assms
proof (induction s arbitrary: i)
  case (Cons c s)
  have "unat i * 10 + (unat c - 0x30) < 2 ^ 32" using Cons.prems(2) decimal_value_ge [of "unat i * 10 + (unat c - 0x30)" s] by simp
  from serial_step [OF _ this] Cons show ?case by simp
qed simp

lemma strtoserial_overflow: "strtoserial [0x34, 0x32, 0x39, 0x34, 0x39, 0x36, 0x37, 0x32, 0x39, 0x36] = (0, [])"
  by code_simp

subsection \<open>Hexadecimal and base 32\<close>

lemma those_Some [simp]: "those (map Some xs) = Some xs"
  by (induction xs) simp_all

lemma nibble_char:
  assumes "n < 16"
  shows "mem_get hexdigits n = Some (hexdigits ! n)" "c_isxdigit (hexdigits ! n)" "hexdigit_to_int (hexdigits ! n) = Some n"
proof -
  have "\<forall>n \<in> set [0..<16]. mem_get hexdigits n = Some (hexdigits ! n) \<and> c_isxdigit (hexdigits ! n) \<and> hexdigit_to_int (hexdigits ! n) = Some n"
    by code_simp
  then show "mem_get hexdigits n = Some (hexdigits ! n)" "c_isxdigit (hexdigits ! n)" "hexdigit_to_int (hexdigits ! n) = Some n"
    using assms by auto
qed

lemma nibbles: "unat (drop_bit 4 c) < 16" "unat (c AND 0xf) < 16" "of_nat (unat (drop_bit 4 c) * 16 + unat (c AND 0xf)) = (c :: byte)"
proof -
  have h: "unat (drop_bit 4 c) = unat c div 16" by (simp add: drop_bit_eq_div unat_div)
  have "c AND 0xf = take_bit 4 c" by (simp add: take_bit_eq_mask mask_eq_exp_minus_1)
  then have l: "unat (c AND 0xf) = unat c mod 16" by (simp add: take_bit_eq_mod unat_mod)
  show "unat (drop_bit 4 c) < 16" "unat (c AND 0xf) < 16" unfolding h l using unat_byte_less [of c] by linarith+
  show "of_nat (unat (drop_bit 4 c) * 16 + unat (c AND 0xf)) = c" unfolding h l div_mult_mod_eq by simp
qed

lemma hex_pton_ntop:
  assumes "length src * 2 < targsize" "length src \<le> n"
  shows "\<exists>t. hex_ntop src targsize = Some (Some t) \<and> length t = 2 * length src \<and> hex_pton t n = Some (Some src)"
proof -
  let ?f = "\<lambda>c :: byte. [hexdigits ! unat (drop_bit 4 c), hexdigits ! unat (c AND 0xf)]"
  have m: "concat (map (\<lambda>c. [mem_get hexdigits (unat (drop_bit 4 c)), mem_get hexdigits (unat (c AND 0xf))]) src) = map Some (concat (map ?f src))"
    by (induction src) (simp_all add: nibble_char nibbles)
  have l: "length (concat (map ?f src)) = 2 * length src" by (induction src) simp_all
  have "hex_pton_loop (concat (map ?f src)) t = Some (Some (t @ src))" for t
    by (induction src arbitrary: t) (simp_all add: nibble_char nibbles del: of_nat_add of_nat_mult)
  then show ?thesis using assms m l by (simp add: hex_ntop_def hex_pton_def)
qed

lemma b32_char:
  assumes "d < (32 :: byte)"
  shows "mem_get b32 (unat d) = Some (b32 ! unat d)" "\<not> c_isspace (b32 ! unat d)" "b32_digit (b32 ! unat d) = Some d"
proof -
  have "\<forall>n \<in> set [0..<32]. mem_get b32 n = Some (b32 ! n) \<and> \<not> c_isspace (b32 ! n) \<and> b32_digit (b32 ! n) = Some (of_nat n)"
    by code_simp
  moreover have "unat d < 32" using assms by (simp add: word_less_nat_alt)
  ultimately show "mem_get b32 (unat d) = Some (b32 ! unat d)" "\<not> c_isspace (b32 ! unat d)" "b32_digit (b32 ! unat d) = Some d"
    by auto
qed

definition digits_text :: "byte list \<Rightarrow> byte list" where
  "digits_text ds = map (\<lambda>d. b32 ! unat d) ds"

text \<open>One digit: five bits from bit \<open>p\<close> on.\<close>

lemma b32_pton_digit:
  assumes "d < 32" "p + 5 < length t * 8"
  shows "b32_pton_loop (digits_text (d # ds)) t p =
    b32_pton_loop (digits_text ds) (if p mod 8 \<le> 3 then t[p div 8 := t ! (p div 8) OR push_bit (3 - p mod 8) d]
      else t[p div 8 := t ! (p div 8) OR drop_bit (p mod 8 - 3) d, p div 8 + 1 := t ! (p div 8 + 1) OR push_bit (11 - p mod 8) d]) (p + 5)"
proof -
  have "p div 8 < length t" "p mod 8 > 3 \<Longrightarrow> p div 8 + 1 < length t" using assms(2) div_mult_mod_eq [of p 8] by linarith+
  moreover have "7 - p mod 8 - 4 = 3 - p mod 8" "p mod 8 > 3 \<Longrightarrow> 4 - (7 - p mod 8) = p mod 8 - 3" "7 - p mod 8 + 4 = 11 - p mod 8"
    "4 \<le> 7 - p mod 8 \<longleftrightarrow> p mod 8 \<le> 3" by linarith+
  ultimately show ?thesis using assms b32_char [OF assms(1)] by (simp add: digits_text_def mem_or_def not_le Let_def)
qed

lemma octet_high_bits [simp]: "\<not> bit (x :: byte) 8" "\<not> bit x 9" "\<not> bit x 10" "\<not> bit x 11" "\<not> bit x 12" "\<not> bit x 13" "\<not> bit x 14" "\<not> bit x 15"
  using bit_imp_le_length [of x] by fastforce+

lemma b32_sums:
  "push_bit 2 (x AND 7) + drop_bit 6 y = push_bit 2 (x AND 7) OR drop_bit 6 y" "push_bit 4 (y AND 1) + drop_bit 4 z = push_bit 4 (y AND 1) OR drop_bit 4 z"
  "push_bit 1 (z AND 0xf) + drop_bit 7 v = push_bit 1 (z AND 0xf) OR drop_bit 7 v" "push_bit 3 (v AND 3) + drop_bit 5 w = push_bit 3 (v AND 3) OR drop_bit 5 w"
  for x y z v w :: byte
  by (rule disjunctive_add_eq_or; rule byte_eqI; simp add: bit_simps)+

lemmas b32_round_or = b32_round.simps [unfolded b32_sums]

lemma octet_less_32:
  assumes "\<not> bit (x :: byte) 5" "\<not> bit x 6" "\<not> bit x 7"
  shows "x < 32"
proof -
  have "x = take_bit 5 x" using assms by (intro byte_eqI) (simp_all add: bit_simps)
  also have "\<dots> < 32" by (simp add: word_less_nat_alt unsigned_take_bit_eq take_bit_eq_mod unat_mod)
  finally show ?thesis .
qed

lemma b32_round_digits: "\<forall>d \<in> set (b32_round src). d < 32"
  by (induction src rule: b32_round.induct) (unfold b32_round_or, auto intro!: octet_less_32 simp: bit_simps)

text \<open>The octets put together again.\<close>

lemma b32_octets:
  "push_bit 3 (drop_bit 3 x) OR drop_bit 2 (push_bit 2 (x AND 7)) = x"
  "push_bit 3 (drop_bit 3 x) OR drop_bit 2 (push_bit 2 (x AND 7) OR drop_bit 6 y) = x"
  "(push_bit 6 (push_bit 2 (x AND 7) OR drop_bit 6 y) OR push_bit 1 (drop_bit 1 y AND 0x1f)) OR drop_bit 4 (push_bit 4 (y AND 1)) = y"
  "(push_bit 6 (push_bit 2 (x AND 7) OR drop_bit 6 y) OR push_bit 1 (drop_bit 1 y AND 0x1f)) OR drop_bit 4 (push_bit 4 (y AND 1) OR drop_bit 4 z) = y"
  "push_bit 4 (push_bit 4 (y AND 1) OR drop_bit 4 z) OR drop_bit 1 (push_bit 1 (z AND 0xf)) = z"
  "push_bit 4 (push_bit 4 (y AND 1) OR drop_bit 4 z) OR drop_bit 1 (push_bit 1 (z AND 0xf) OR drop_bit 7 v) = z"
  "(push_bit 7 (push_bit 1 (z AND 0xf) OR drop_bit 7 v) OR push_bit 2 (drop_bit 2 v AND 0x1f)) OR drop_bit 3 (push_bit 3 (v AND 3)) = v"
  "(push_bit 7 (push_bit 1 (z AND 0xf) OR drop_bit 7 v) OR push_bit 2 (drop_bit 2 v AND 0x1f)) OR drop_bit 3 (push_bit 3 (v AND 3) OR drop_bit 5 w) = v"
  "push_bit 5 (push_bit 3 (v AND 3) OR drop_bit 5 w) OR (w AND 0x1f) = w"
  "push_bit 6 (push_bit 2 (x AND 7)) = 0" "push_bit 4 (push_bit 4 (y AND 1)) = 0" "push_bit 7 (push_bit 1 (z AND 0xf)) = 0"
  "push_bit 5 (push_bit 3 (v AND 3)) = 0"
  for x y z v w :: byte
  by (rule byte_eqI; simp add: bit_simps bit_double_iff mult.commute [of _ "2 :: byte"] numeral_2_eq_2 [symmetric] numeral_3_eq_3 [symmetric])+

lemma b32_pton_round:
  assumes "p = 8 * length as"
  shows "d0 < 32 \<Longrightarrow> d1 < 32 \<Longrightarrow> b32_pton_loop (digits_text (d0 # d1 # ds)) (as @ 0 # 0 # bs) p =
      b32_pton_loop (digits_text ds) (as @ (push_bit 3 d0 OR drop_bit 2 d1) # push_bit 6 d1 # bs) (p + 10)"
    "d2 < 32 \<Longrightarrow> d3 < 32 \<Longrightarrow> b32_pton_loop (digits_text (d2 # d3 # ds)) (as @ x # y # 0 # bs) (p + 10) =
      b32_pton_loop (digits_text ds) (as @ x # ((y OR push_bit 1 d2) OR drop_bit 4 d3) # push_bit 4 d3 # bs) (p + 20)"
    "d4 < 32 \<Longrightarrow> b32_pton_loop (digits_text (d4 # ds)) (as @ x # y # z # 0 # bs) (p + 20) =
      b32_pton_loop (digits_text ds) (as @ x # y # (z OR drop_bit 1 d4) # push_bit 7 d4 # bs) (p + 25)"
    "d5 < 32 \<Longrightarrow> d6 < 32 \<Longrightarrow> b32_pton_loop (digits_text (d5 # d6 # ds)) (as @ x # y # z # v # 0 # bs) (p + 25) =
      b32_pton_loop (digits_text ds) (as @ x # y # z # ((v OR push_bit 2 d5) OR drop_bit 3 d6) # push_bit 5 d6 # bs) (p + 35)"
    "d7 < 32 \<Longrightarrow> 0 < length bs \<Longrightarrow> b32_pton_loop (digits_text (d7 # ds)) (as @ x # y # z # v # w # bs) (p + 35) =
      b32_pton_loop (digits_text ds) (as @ x # y # z # v # (w OR d7) # bs) (p + 40)"
  by (simp_all add: assms b32_pton_digit list_update_append nth_append add.commute [of "8 * length as"])

text \<open>The four ways in which the last round can end, and a full round.\<close>

lemma b32_pton_rounds:
  assumes "p = 8 * length as"
  shows "b32_pton_loop (digits_text (b32_round [x] @ ds)) (as @ 0 # 0 # bs) p = b32_pton_loop (digits_text ds) (as @ x # 0 # bs) (p + 10)"
    "b32_pton_loop (digits_text (b32_round [x, y] @ ds)) (as @ 0 # 0 # 0 # bs) p = b32_pton_loop (digits_text ds) (as @ x # y # 0 # bs) (p + 20)"
    "b32_pton_loop (digits_text (b32_round [x, y, z] @ ds)) (as @ 0 # 0 # 0 # 0 # bs) p = b32_pton_loop (digits_text ds) (as @ x # y # z # 0 # bs) (p + 25)"
    "b32_pton_loop (digits_text (b32_round [x, y, z, v] @ ds)) (as @ 0 # 0 # 0 # 0 # 0 # bs) p =
      b32_pton_loop (digits_text ds) (as @ x # y # z # v # 0 # bs) (p + 35)"
    "0 < length bs \<Longrightarrow> b32_pton_loop (digits_text (b32_round (x # y # z # v # w # r) @ ds)) (as @ 0 # 0 # 0 # 0 # 0 # bs) p =
      b32_pton_loop (digits_text ds) (as @ x # y # z # v # w # bs) (p + 40)"
proof -
  have l: "\<forall>d \<in> set (b32_round [x]). d < 32" "\<forall>d \<in> set (b32_round [x, y]). d < 32" "\<forall>d \<in> set (b32_round [x, y, z]). d < 32"
    "\<forall>d \<in> set (b32_round [x, y, z, v]). d < 32" "\<forall>d \<in> set (b32_round (x # y # z # v # w # r)). d < 32" by (rule b32_round_digits)+
  note e = append_Cons append_Nil list.set ball_simps b32_pton_round [OF assms] b32_octets or.left_neutral if_True
  show "b32_pton_loop (digits_text (b32_round [x] @ ds)) (as @ 0 # 0 # bs) p = b32_pton_loop (digits_text ds) (as @ x # 0 # bs) (p + 10)"
    using l(1) unfolding b32_round_or by (simp only: e)
  show "b32_pton_loop (digits_text (b32_round [x, y] @ ds)) (as @ 0 # 0 # 0 # bs) p = b32_pton_loop (digits_text ds) (as @ x # y # 0 # bs) (p + 20)"
    using l(2) unfolding b32_round_or by (simp only: e)
  show "b32_pton_loop (digits_text (b32_round [x, y, z] @ ds)) (as @ 0 # 0 # 0 # 0 # bs) p = b32_pton_loop (digits_text ds) (as @ x # y # z # 0 # bs) (p + 25)"
    using l(3) unfolding b32_round_or by (simp only: e)
  show "b32_pton_loop (digits_text (b32_round [x, y, z, v] @ ds)) (as @ 0 # 0 # 0 # 0 # 0 # bs) p =
      b32_pton_loop (digits_text ds) (as @ x # y # z # v # 0 # bs) (p + 35)"
    using l(4) unfolding b32_round_or by (simp only: e)
  show "b32_pton_loop (digits_text (b32_round (x # y # z # v # w # r) @ ds)) (as @ 0 # 0 # 0 # 0 # 0 # bs) p =
      b32_pton_loop (digits_text ds) (as @ x # y # z # v # w # bs) (p + 40)" if "0 < length bs"
    using l(5) that unfolding b32_round_or by (simp only: e)
qed

lemma b32_chars_text: "b32_chars src = Some (digits_text (b32_round src))"
proof -
  have "map (\<lambda>d. mem_get b32 (unat d)) ds = map Some (digits_text ds)" if "\<forall>d \<in> set ds. d < 32" for ds
    using that by (induction ds) (simp_all add: digits_text_def b32_char(1))
  then show ?thesis by (simp add: b32_chars_def b32_round_digits)
qed

lemma digits_text_append [simp]: "digits_text (xs @ ys) = digits_text xs @ digits_text ys"
  by (simp add: digits_text_def)

lemma five_or_less:
  obtains "src = []" | x where "src = [x]" | x y where "src = [x, y]" | x y z where "src = [x, y, z]" | x y z v where "src = [x, y, z, v]"
    | x y z v w r where "src = x # y # z # v # w # r"
  by (metis list.exhaust)

text \<open>The text without the size of the target.\<close>

function b32_digits :: "byte list \<Rightarrow> byte list" where
  "b32_digits src = b32_round src @ (if length src < 5 then [] else b32_digits (drop 5 src))"
  by pat_completeness auto
termination by (relation "measure length") auto

declare b32_digits.simps [simp del]

lemma length_b32_round: "length (b32_round src) \<le> 8" "length src < 5 \<Longrightarrow> length (b32_round src) \<le> 7" "5 \<le> length src \<Longrightarrow> length (b32_round src) = 8"
  by (induction src rule: b32_round.induct) simp_all

lemma b32_ntop_digits:
  assumes "8 * ((length src + 4) div 5) < targsize"
  shows "b32_ntop src targsize = Some (Some (digits_text (b32_digits src)))"
  using assms
proof (induction src arbitrary: targsize rule: b32_digits.induct)
  case (1 src)
  show ?case
  proof (cases "length src < 5")
    case True
    have "(length src + 4) div 5 = 1" if "src \<noteq> []"
    proof -
      have "0 < length src" using that by simp
      then show ?thesis using True by linarith
    qed
    then have "src = [] \<and> 0 < targsize \<or> src \<noteq> [] \<and> 8 < targsize" using 1(2) by (cases "src = []") simp_all
    then show ?thesis using True length_b32_round(2) [OF True]
      by (subst b32_ntop.simps, subst b32_digits.simps) (auto simp: b32_chars_text digits_text_def)
  next
    case False
    then have ne: "src \<noteq> []" by (cases src) simp_all
    have "(length src + 4) div 5 = Suc ((length src - 5 + 4) div 5)" using False ne by (simp add: div_if [of "length src + 4"])
    then have "8 * ((length (drop 5 src) + 4) div 5) < targsize - 8" "8 \<le> targsize" using 1(2) by simp_all
    then show ?thesis using False ne 1(1) by (subst b32_ntop.simps, subst b32_digits.simps) (auto simp: b32_chars_text)
  qed
qed

lemma b32_pton_digits:
  assumes "length src < m"
  shows "b32_pton_loop (digits_text (b32_digits src)) (as @ replicate m 0) (8 * length as) =
    Some (int (length as + length src + (if length src mod 5 = 0 then 0 else 1)), as @ src @ replicate (m - length src) 0)"
  using assms
proof (induction src arbitrary: as m rule: b32_digits.induct)
  case (1 src)
  obtain k where k: "m = length src + Suc k" using 1(2) by (metis less_iff_Suc_add add_Suc_right)
  note r = b32_pton_rounds(1,2,3,4) [OF refl, where ds = "[]", simplified append_Nil2]
  consider "src = []" | x where "src = [x]" | x y where "src = [x, y]" | x y z where "src = [x, y, z]" | x y z v where "src = [x, y, z, v]"
    | x y z v w rs where "src = x # y # z # v # w # rs" by (rule five_or_less)
  then show ?case
  proof cases
    case 6
    have "b32_digits src = b32_round src @ b32_digits rs" by (subst b32_digits.simps) (simp add: 6)
    then have "b32_pton_loop (digits_text (b32_digits src)) (as @ replicate m 0) (8 * length as) =
      b32_pton_loop (digits_text (b32_digits rs)) ((as @ [x, y, z, v, w]) @ replicate (length rs + Suc k) 0) (8 * length (as @ [x, y, z, v, w]))"
      using b32_pton_rounds(5) [OF refl, of "replicate (length rs + Suc k) 0" x y z v w rs "b32_digits rs" as] 6 k by (simp del: b32_round.simps add: add.commute [of 40])
    then show ?thesis using 1(1) [of "length rs + Suc k" "as @ [x, y, z, v, w]"] 6 k by simp
  qed (use k in \<open>simp_all add: b32_digits.simps r digits_text_def [of "[]"] del: b32_round.simps(2-) digits_text_append\<close>)
qed

lemma b32_pton_ntop:
  assumes "8 * ((length src + 4) div 5) < targsize" "length src < tsize"
  shows "\<exists>t. b32_ntop src targsize = Some (Some t) \<and> b32_pton t tsize =
    Some (int (length src + (if length src mod 5 = 0 then 0 else 1)), src @ replicate (tsize - length src) 0)"
  using b32_ntop_digits [OF assms(1)] b32_pton_digits [OF assms(2), of "[]"] by (simp add: b32_pton_def)

subsection \<open>The calendar\<close>

definition year_days :: "int \<Rightarrow> int" where
  "year_days y = (if is_leap_year y then 366 else 365)"

text \<open>The days of the first \<open>n\<close> years from 1970 on, and of the first \<open>m\<close> months of a year.\<close>

fun days_of_years :: "nat \<Rightarrow> int" where
  "days_of_years 0 = 0"
| "days_of_years (Suc n) = days_of_years n + year_days (1970 + int n)"

definition days_in_month :: "int \<Rightarrow> nat \<Rightarrow> int" where
  "days_in_month year i = (if i = 1 \<and> is_leap_year year then 29 else mdays ! i)"

fun days_of_months :: "int \<Rightarrow> nat \<Rightarrow> int" where
  "days_of_months year 0 = 0"
| "days_of_months year (Suc m) = days_of_months year m + days_in_month year m"

lemma sdiv_pos: "0 \<le> a \<Longrightarrow> 0 < b \<Longrightarrow> a sdiv b = a div b" "0 \<le> a \<Longrightarrow> 0 < b \<Longrightarrow> a smod b = a mod b" for a b :: int
  by (cases "a = 0"; simp add: signed_divide_int_def signed_modulo_int_def minus_div_mult_eq_mod)+

lemma leap_count:
  assumes "c \<longrightarrow> b" "b \<longrightarrow> a"
  shows "(if a then 1 else 0) - (if b then 1 else 0) + (if c then 1 else (0 :: int)) = (if a \<and> (\<not> b \<or> c) then 1 else 0)"
  using assms by (cases a; cases b; cases c) simp_all

lemma leap_days_step:
  assumes "0 < y"
  shows "leap_days 1970 (y + 1) = leap_days 1970 y + (if is_leap_year y then 1 else 0)"
proof -
  obtain n where n: "y = int (Suc n)" using assms gr0_implies_Suc zero_less_imp_eq_int by metis
  have d: "y div int k - (y - 1) div int k = (if y mod int k = 0 then 1 else 0)" for k
    unfolding n by (simp add: div_Suc del: of_nat_Suc flip: zdiv_int zmod_int) (simp add: zdiv_int)
  have m: "y mod 400 = 0 \<Longrightarrow> y mod 100 = 0" "y mod 100 = 0 \<Longrightarrow> y mod 4 = 0" by presburger+
  have "leap_days 1970 (y + 1) - leap_days 1970 y = (y div 4 - (y - 1) div 4) - (y div 100 - (y - 1) div 100) + (y div 400 - (y - 1) div 400)"
    using assms by (simp add: leap_days_def Let_def sdiv_pos)
  also have "\<dots> = (if is_leap_year y then 1 else 0)"
  proof -
    have l: "is_leap_year y \<longleftrightarrow> y mod 4 = 0 \<and> (y mod 100 \<noteq> 0 \<or> y mod 400 = 0)" using assms by (simp add: is_leap_year_def sdiv_pos)
    have e: "y div 4 - (y - 1) div 4 = (if y mod 4 = 0 then 1 else 0)" "y div 100 - (y - 1) div 100 = (if y mod 100 = 0 then 1 else 0)"
      "y div 400 - (y - 1) div 400 = (if y mod 400 = 0 then 1 else 0)" using d [of 4] d [of 100] d [of 400] by (simp_all only: of_nat_numeral)
    show ?thesis unfolding e l using m by (intro leap_count) blast+
  qed
  finally show ?thesis by linarith
qed

lemma leap_days_years: "365 * int n + leap_days 1970 (1970 + int n) = days_of_years n"
proof (induction n)
  case (Suc n)
  then show ?case using leap_days_step [of "1970 + int n"] by (simp add: year_days_def algebra_simps)
qed (simp add: leap_days_def)

lemma month_days_leap:
  assumes "m \<le> 12"
  shows "\<exists>d. month_days m = Some d \<and> (if m > 1 \<and> is_leap_year year then d + 1 else d) = days_of_months year m"
proof -
  have "m \<in> set [0..<13]" using assms by simp
  then have "m \<in> {0, 1, 2, 3, 4, 5, 6, 7, 8, 9, 10, 11, 12}" by (simp add: upt_rec numeral_eq_Suc del: upt_Suc)
  then show ?thesis by (elim insertE emptyE) (simp_all add: mdays_def days_in_month_def mem_get_def eval_nat_numeral)
qed

text \<open>The seconds from the start of 1970, as the calendar counts them.\<close>

lemma mktime_from_utc_calendar:
  assumes "tm_mon t \<le> 12" "tm_year t = 70 + int n"
  shows "mktime_from_utc t = Some (((days_of_years n + days_of_months (1970 + int n) (tm_mon t) + tm_mday t - 1) * 24 + tm_hour t) * 3600 +
    tm_min t * 60 + tm_sec t)"
proof -
  obtain d where "month_days (tm_mon t) = Some d"
    "(if tm_mon t > 1 \<and> is_leap_year (1970 + int n) then d + 1 else d) = days_of_months (1970 + int n) (tm_mon t)"
    using month_days_leap [OF assms(1)] by blast
  then show ?thesis using leap_days_years [of n] assms(2) by (simp add: mktime_from_utc_def Let_def algebra_simps split: if_splits)
qed

subsection \<open>The checksum\<close>

text \<open>The remainder of the division by the polynomial, one bit at a time.\<close>

definition crc_bit :: "u32 \<Rightarrow> u32" where
  "crc_bit c = (if bit c 31 then push_bit 1 c XOR 0x04c11db7 else push_bit 1 c)"

definition crc_octet :: "u32 \<Rightarrow> byte \<Rightarrow> u32" where
  "crc_octet crc c = (crc_bit ^^ 8) (crc XOR push_bit 24 (ucast c))"

lemma crc_bit_xor: "crc_bit (a XOR b) = crc_bit a XOR crc_bit b"
proof -
  have p: "push_bit 1 (a XOR b) = push_bit 1 a XOR push_bit 1 b" by (rule push_bit_xor)
  have c: "(x XOR k) XOR (y XOR k) = x XOR y" "(x XOR y) XOR k = (x XOR k) XOR y" "(x XOR y) XOR k = x XOR (y XOR k)" for x y k :: u32
    by (rule bit_word_eqI; simp add: bit_simps; blast)+
  consider "bit a 31" "bit b 31" | "bit a 31" "\<not> bit b 31" | "\<not> bit a 31" "bit b 31" | "\<not> bit a 31" "\<not> bit b 31" by blast
  then show ?thesis
  proof cases
    case 1
    then show ?thesis unfolding crc_bit_def p bit_xor_iff using c(1) by (simp only: if_True if_False simp_thms)
  next
    case 2
    then show ?thesis unfolding crc_bit_def p bit_xor_iff using c(2) by (simp only: if_True if_False simp_thms)
  next
    case 3
    then show ?thesis unfolding crc_bit_def p bit_xor_iff using c(3) by (simp only: if_True if_False simp_thms)
  qed (simp only: crc_bit_def p bit_xor_iff if_False simp_thms)
qed

lemma crc_bits_xor: "(crc_bit ^^ n) (a XOR b) = (crc_bit ^^ n) a XOR (crc_bit ^^ n) b"
  by (induction n) (simp_all add: crc_bit_xor)

text \<open>Each entry of the first half of the table gives two of the whole.\<close>

lemma crctab_pairs: "crctab = concat (map (\<lambda>t. [crc_bit t, crc_bit t XOR 0x04c11db7]) (take 128 crctab))"
  by code_simp

definition crc_entry :: "nat \<Rightarrow> u32" where
  "crc_entry i = (crc_bit ^^ 8) (push_bit 24 (of_nat i))"

lemma crc_entry_double:
  assumes "i < 128"
  shows "crc_entry (2 * i) = crc_bit (crc_entry i)" "crc_entry (2 * i + 1) = crc_bit (crc_entry i) XOR 0x04c11db7"
proof -
  have "\<not> bit (push_bit 24 (of_nat i) :: u32) 31"
    using assms by (simp add: bit_simps bit_nat_def) 
  then have "crc_bit (push_bit 24 (of_nat i)) = push_bit 24 (of_nat (2 * i))"
    by (simp add: crc_bit_def push_bit_eq_mult mult.commute)
  then show e: "crc_entry (2 * i) = crc_bit (crc_entry i)" by (metis crc_entry_def funpow_swap1)
  have "(of_nat (2 * i + 1) :: u32) = of_nat (2 * i) XOR 1" by (simp add: xor_one_eq)
  then have "push_bit 24 (of_nat (2 * i + 1) :: u32) = push_bit 24 (of_nat (2 * i)) XOR push_bit 24 1" by (simp only: push_bit_xor)
  moreover have "(crc_bit ^^ 8) (push_bit 24 1) = 0x04c11db7" by code_simp
  ultimately show "crc_entry (2 * i + 1) = crc_bit (crc_entry i) XOR 0x04c11db7" using e by (simp only: crc_entry_def crc_bits_xor)
qed

lemma concat_pairs_nth: "i < length xs \<Longrightarrow> concat (map (\<lambda>t. [f t, g t]) xs) ! (2 * i) = f (xs ! i) \<and> concat (map (\<lambda>t. [f t, g t]) xs) ! (2 * i + 1) = g (xs ! i)"
proof (induction xs arbitrary: i)
  case (Cons x xs)
  then show ?case by (cases i) simp_all
qed simp

lemma crctab_entries: "i < 256 \<Longrightarrow> crctab ! i = crc_entry i"
proof (induction i rule: less_induct)
  case (less i)
  have l: "length (take 128 crctab) = 128" by (simp add: crctab_def)
  show ?case
  proof (cases "i = 0")
    case True
    have "crctab ! 0 = crc_entry 0" by code_simp
    then show ?thesis using True by simp
  next
    case False
    let ?k = "i div 2"
    have k: "?k < 128" "?k < i" using less.prems False by auto
    have IH: "crctab ! ?k = crc_entry ?k" using less.IH [OF k(2)] k(1) by simp
    have "crctab ! (2 * ?k) = crc_bit (crctab ! ?k)" "crctab ! (2 * ?k + 1) = crc_bit (crctab ! ?k) XOR 0x04c11db7"
      using concat_pairs_nth [of ?k "take 128 crctab" crc_bit "\<lambda>t. crc_bit t XOR 0x04c11db7"] k(1) l by (simp_all flip: crctab_pairs)
    then show ?thesis using crc_entry_double [OF k(1)] IH by (cases "even i") (auto elim!: evenE oddE)
  qed
qed

lemma crc_bits_low:
  assumes "k \<le> 8"
  shows "(crc_bit ^^ k) (take_bit 24 x) = push_bit k (take_bit 24 x)"
  using assms
proof (induction k)
  case (Suc k)
  have "\<not> 31 - k < 24" using Suc.prems by simp
  then have "\<not> bit (push_bit k (take_bit 24 x)) 31" by (auto simp: bit_push_bit_iff bit_take_bit_iff)
  then show ?case using Suc by (simp add: crc_bit_def push_bit_Suc [symmetric] del: push_bit_Suc)
qed simp

lemma unat_numeral_256: "unat (256 :: u32) = 2 ^ 8"
  by simp

lemma crc_split:
  fixes crc :: u32
  shows "crc XOR push_bit 24 (ucast (c :: byte)) = push_bit 24 (drop_bit 24 crc XOR ucast c) XOR take_bit 24 crc"
    "push_bit 8 (take_bit 24 crc) = push_bit 8 crc" "drop_bit 24 crc XOR ucast c < (256 :: u32)"
proof -
  show "crc XOR push_bit 24 (ucast c) = push_bit 24 (drop_bit 24 crc XOR ucast c) XOR take_bit 24 crc"
    "push_bit 8 (take_bit 24 crc) = push_bit 8 crc"
    by (rule bit_word_eqI; auto simp: bit_simps)+
  have "take_bit 8 (drop_bit 24 crc XOR ucast c) = drop_bit 24 crc XOR (ucast c :: u32)"
    by (rule bit_word_eqI) (auto simp: bit_simps dest: bit_imp_le_length)
  then show "drop_bit 24 crc XOR ucast c < (256 :: u32)"
    using take_bit_nat_less_exp [of 8 "unat (drop_bit 24 crc XOR (ucast c :: u32))"]
    by (metis (no_types, lifting) word_less_nat_alt unsigned_take_bit_eq unat_numeral_256)
qed

text \<open>The table gives the remainder.\<close>

lemma compute_crc_remainder: "compute_crc crc data = Some (foldl crc_octet crc data)"
proof (induction data arbitrary: crc)
  case (Cons c data)
  let ?i = "drop_bit 24 crc XOR ucast c :: u32"
  have i: "unat ?i < 256" using crc_split(3) [of crc c] by (simp add: word_less_nat_alt)
  have "length crctab = 256" by (simp add: crctab_def)
  then have "mem_get crctab (unat ?i) = Some (crc_entry (unat ?i))" using i crctab_entries by simp
  moreover have "crc_octet crc c = push_bit 8 crc XOR crc_entry (unat ?i)"
    unfolding crc_octet_def crc_split(1) crc_bits_xor crc_entry_def crc_bits_low [OF order_refl] crc_split(2) by (simp add: xor.commute)
  ultimately show ?case using Cons by simp
qed simp

end
