(* ===== verification/Region.thy ===== *)
theory Region
  imports Nsd_Prelude "HOL-Library.Multiset"
begin

text \<open>
  Region based memory allocation (\<open>region-allocator.h\<close>, \<open>region-allocator.c\<close>), on a 64-bit host.

  Addresses are natural numbers, and 0 is the null pointer. The memory is the list of blocks that the allocator of the program has given out,
  each with its address and size. That allocator is a parameter: given the blocks in use and a size it returns an address, or nothing.
  The linked lists of recycled blocks and of large objects, whose links are inside the blocks, are lists of addresses. The contents of blocks are not modelled.
  Sizes are natural numbers below \<open>2\<^sup>64\<close>, and sums of sizes that clients give wrap around; the statistics are 64-bit words.
\<close>

subsection \<open>Memory\<close>

type_synonym addr = nat
type_synonym block = "addr \<times> nat"
type_synonym allocator = "block list \<Rightarrow> nat \<Rightarrow> addr option"

definition mem_alloc :: "allocator \<Rightarrow> nat \<Rightarrow> block list \<Rightarrow> addr option \<times> block list" where
  "mem_alloc al n h = (case al h n of None \<Rightarrow> (None, h) | Some a \<Rightarrow> (Some a, (a, n) # h))"

text \<open>Freeing an address that is not the start of a block is an error; freeing the null pointer does nothing.\<close>

definition mem_free :: "addr \<Rightarrow> block list \<Rightarrow> block list option" where
  "mem_free a h = (if a = 0 then Some h
     else (case find (\<lambda>b. fst b = a) h of None \<Rightarrow> None | Some b \<Rightarrow> Some (remove1 b h)))"

fun mem_free_all :: "addr list \<Rightarrow> block list \<Rightarrow> block list option" where
  "mem_free_all [] h = Some h"
| "mem_free_all (a # as) h = do { h \<leftarrow> mem_free a h; mem_free_all as h }"

subsection \<open>The region\<close>

definition SIZE_BITS :: nat where "SIZE_BITS = 64"
definition ALIGNMENT :: nat where "ALIGNMENT = 8"
definition DEFAULT_CHUNK_SIZE :: nat where "DEFAULT_CHUNK_SIZE = 4096"
definition DEFAULT_LARGE_OBJECT_SIZE :: nat where "DEFAULT_LARGE_OBJECT_SIZE = DEFAULT_CHUNK_SIZE div 8"
definition DEFAULT_INITIAL_CLEANUP_SIZE :: nat where "DEFAULT_INITIAL_CLEANUP_SIZE = 16"
definition sizeof_region :: nat where "sizeof_region = 144"
definition sizeof_cleanup :: nat where "sizeof_cleanup = 16"
definition sizeof_large_elem :: nat where "sizeof_large_elem = 16"
definition sizeof_recycle_ptr :: nat where "sizeof_recycle_ptr = 8"

definition REGION_ALIGN_UP :: "nat \<Rightarrow> nat" where
  "REGION_ALIGN_UP x = (x + ALIGNMENT - 1) mod 2 ^ SIZE_BITS div ALIGNMENT * ALIGNMENT"

definition REGION_NO_OVERFLOW :: nat where "REGION_NO_OVERFLOW = 2 ^ (SIZE_BITS div 2)"

text \<open>The function of a cleanup is the deallocator of the region, or another one.\<close>

datatype cleanup_action = deallocator | other_action nat

record region =
  reg_addr :: addr
  reg_total_allocated :: u64
  reg_small_objects :: u64
  reg_large_objects :: u64
  reg_chunk_count :: u64
  reg_unused_space :: u64
  reg_allocated :: nat
  reg_initial_data :: addr
  reg_data :: addr
  reg_maximum_cleanup_count :: nat
  reg_cleanup_array :: addr
  reg_cleanups :: "(cleanup_action \<times> addr) list"
  reg_large_list :: "addr list"
  reg_chunk_size :: nat
  reg_large_object_size :: nat
  reg_recycle_array :: addr
  reg_recycle_bin :: "(nat \<Rightarrow> addr list) option"
  reg_recycle_size :: u64

definition alloc_region_base :: "allocator \<Rightarrow> nat \<Rightarrow> block list \<Rightarrow> (region option \<times> block list) option" where
  "alloc_region_base al initial_cleanup_count h =
     (case mem_alloc al sizeof_region h of
        (None, h) \<Rightarrow> Some (None, h)
      | (Some r, h) \<Rightarrow> do {
          assert_c (initial_cleanup_count > 0);
          case mem_alloc al (initial_cleanup_count * sizeof_cleanup) h of
            (None, h) \<Rightarrow> do { h \<leftarrow> mem_free r h; Some (None, h) }
          | (Some c, h) \<Rightarrow> Some (Some \<lparr>reg_addr = r, reg_total_allocated = 0, reg_small_objects = 0, reg_large_objects = 0,
               reg_chunk_count = 1, reg_unused_space = 0, reg_allocated = 0, reg_initial_data = 0, reg_data = 0,
               reg_maximum_cleanup_count = initial_cleanup_count, reg_cleanup_array = c, reg_cleanups = [], reg_large_list = [],
               reg_chunk_size = DEFAULT_CHUNK_SIZE, reg_large_object_size = DEFAULT_LARGE_OBJECT_SIZE, reg_recycle_array = 0,
               reg_recycle_bin = None, reg_recycle_size = 0\<rparr>, h) })"

text \<open>The first chunk; when there is no memory for it everything is given back.\<close>

definition alloc_first_chunk :: "allocator \<Rightarrow> region \<Rightarrow> block list \<Rightarrow> (region option \<times> block list) option" where
  "alloc_first_chunk al r h =
     (case mem_alloc al (reg_chunk_size r) h of
        (None, h) \<Rightarrow> do {
          h \<leftarrow> mem_free (reg_cleanup_array r) h;
          h \<leftarrow> mem_free (reg_addr r) h;
          Some (None, h) }
      | (Some d, h) \<Rightarrow> Some (Some (r\<lparr>reg_data := d, reg_initial_data := d\<rparr>), h))"

definition region_create :: "allocator \<Rightarrow> block list \<Rightarrow> (region option \<times> block list) option" where
  "region_create al h = do {
     (result, h) \<leftarrow> alloc_region_base al DEFAULT_INITIAL_CLEANUP_SIZE h;
     case result of None \<Rightarrow> Some (None, h) | Some r \<Rightarrow> alloc_first_chunk al r h }"

subsection \<open>Cleanups\<close>

text \<open>The result is 0 when there is no memory for a larger array.\<close>

definition region_add_cleanup :: "allocator \<Rightarrow> cleanup_action \<Rightarrow> addr \<Rightarrow> region \<Rightarrow> block list \<Rightarrow> (nat \<times> region \<times> block list) option" where
  "region_add_cleanup al action data r h = do {
     (ok, r, h) \<leftarrow>
       (if length (reg_cleanups r) \<ge> reg_maximum_cleanup_count r then
          case mem_alloc al (2 * reg_maximum_cleanup_count r * sizeof_cleanup) h of
            (None, h) \<Rightarrow> Some (False, r, h)
          | (Some c, h) \<Rightarrow> do {
              h \<leftarrow> mem_free (reg_cleanup_array r) h;
              Some (True, r\<lparr>reg_cleanup_array := c, reg_maximum_cleanup_count := reg_maximum_cleanup_count r * 2\<rparr>, h) }
        else Some (True, r, h));
     if \<not> ok then Some (0, r, h)
     else do {
       let r = r\<lparr>reg_cleanups := reg_cleanups r @ [(action, data)]\<rparr>;
       Some (length (reg_cleanups r), r, h) } }"

text \<open>The last cleanup takes the place of the one that is removed.\<close>

fun take_out :: "'a \<Rightarrow> 'a list \<Rightarrow> 'a list" where
  "take_out x [] = []"
| "take_out x (y # ys) = (if x = y then (if ys = [] then [] else last ys # butlast ys) else y # take_out x ys)"

definition region_remove_cleanup :: "cleanup_action \<Rightarrow> addr \<Rightarrow> region \<Rightarrow> region" where
  "region_remove_cleanup action data r = r\<lparr>reg_cleanups := take_out (action, data) (reg_cleanups r)\<rparr>"

subsection \<open>Allocation\<close>

definition object_size :: "nat \<Rightarrow> nat" where
  "object_size s = (if s = 0 then 1 else s)"

definition add_recycled :: "nat \<Rightarrow> addr \<Rightarrow> nat \<Rightarrow> region \<Rightarrow> region" where
  "add_recycled aligned_size block s r = (case reg_recycle_bin r of None \<Rightarrow> r
     | Some bin \<Rightarrow> r\<lparr>reg_recycle_bin := Some (bin(aligned_size := block # bin aligned_size)),
         reg_recycle_size := reg_recycle_size r + of_nat aligned_size,
         reg_unused_space := reg_unused_space r - of_nat (aligned_size - s)\<rparr>)"

definition region_recycle :: "addr \<Rightarrow> nat \<Rightarrow> region \<Rightarrow> block list \<Rightarrow> (region \<times> block list) option" where
  "region_recycle block s r h =
     (if block = 0 \<or> reg_recycle_bin r = None then Some (r, h)
      else do {
        let s = object_size s;
        let aligned_size = REGION_ALIGN_UP s;
        if aligned_size < reg_large_object_size r then do {
          assert_c (aligned_size \<ge> sizeof_recycle_ptr);
          Some (add_recycled aligned_size block s r, h) }
        else do {
          let l = block - sizeof_large_elem;
          assert_c (l \<in> set (reg_large_list r));
          h \<leftarrow> mem_free l h;
          Some (r\<lparr>reg_total_allocated := reg_total_allocated r - of_nat s, reg_large_objects := reg_large_objects r - 1,
                  reg_large_list := remove1 l (reg_large_list r)\<rparr>, h) } })"

definition alloc_large :: "allocator \<Rightarrow> nat \<Rightarrow> region \<Rightarrow> block list \<Rightarrow> addr option \<times> region \<times> block list" where
  "alloc_large al s r h =
     (case mem_alloc al ((s + sizeof_large_elem) mod 2 ^ SIZE_BITS) h of
        (None, h) \<Rightarrow> (None, r, h)
      | (Some l, h) \<Rightarrow> (Some (l + sizeof_large_elem),
          r\<lparr>reg_large_list := l # reg_large_list r, reg_total_allocated := reg_total_allocated r + of_nat s,
            reg_large_objects := reg_large_objects r + 1\<rparr>, h))"

text \<open>What is left of a chunk is recycled.\<close>

definition waste :: "region \<Rightarrow> block list \<Rightarrow> (region \<times> block list) option" where
  "waste r h = (let wasted = (reg_chunk_size r - reg_allocated r) div ALIGNMENT * ALIGNMENT in
     if wasted \<ge> ALIGNMENT then do {
       let r = r\<lparr>reg_total_allocated := reg_total_allocated r + of_nat wasted, reg_small_objects := reg_small_objects r + 1\<rparr>;
       (r, h) \<leftarrow> region_recycle (reg_data r + reg_allocated r) wasted r h;
       Some (r\<lparr>reg_allocated := reg_allocated r + wasted\<rparr>, h) }
     else Some (r, h))"

definition next_chunk :: "allocator \<Rightarrow> region \<Rightarrow> block list \<Rightarrow> (bool \<times> region \<times> block list) option" where
  "next_chunk al r h =
     (case mem_alloc al (reg_chunk_size r) h of
        (None, h) \<Rightarrow> Some (False, r, h)
      | (Some chunk, h) \<Rightarrow> do {
          (r, h) \<leftarrow> waste r h;
          let unused = of_nat (reg_chunk_size r - reg_allocated r);
          let r = r\<lparr>reg_chunk_count := reg_chunk_count r + 1, reg_unused_space := reg_unused_space r + unused\<rparr>;
          (n, r, h) \<leftarrow> region_add_cleanup al deallocator chunk r h;
          if n = 0 then do {
            h \<leftarrow> mem_free chunk h;
            Some (False, r\<lparr>reg_chunk_count := reg_chunk_count r - 1, reg_unused_space := reg_unused_space r - unused\<rparr>, h) }
          else Some (True, r\<lparr>reg_allocated := 0, reg_data := chunk\<rparr>, h) })"

definition alloc_small :: "allocator \<Rightarrow> nat \<Rightarrow> nat \<Rightarrow> region \<Rightarrow> block list \<Rightarrow> (addr option \<times> region \<times> block list) option" where
  "alloc_small al s aligned_size r h = do {
     (ok, r, h) \<leftarrow> (if reg_allocated r + aligned_size > reg_chunk_size r then next_chunk al r h else Some (True, r, h));
     if \<not> ok then Some (None, r, h)
     else Some (Some (reg_data r + reg_allocated r),
       r\<lparr>reg_allocated := reg_allocated r + aligned_size, reg_total_allocated := reg_total_allocated r + of_nat aligned_size,
         reg_unused_space := reg_unused_space r + of_nat (aligned_size - s), reg_small_objects := reg_small_objects r + 1\<rparr>, h) }"

definition region_alloc :: "allocator \<Rightarrow> nat \<Rightarrow> region \<Rightarrow> block list \<Rightarrow> (addr option \<times> region \<times> block list) option" where
  "region_alloc al s r h = do {
     let s = object_size s;
     let aligned_size = REGION_ALIGN_UP s;
     if aligned_size \<ge> reg_large_object_size r then Some (alloc_large al s r h)
     else (case reg_recycle_bin r of
       Some bin \<Rightarrow> (case bin aligned_size of
           b # bs \<Rightarrow> Some (Some b, r\<lparr>reg_recycle_bin := Some (bin(aligned_size := bs)),
             reg_recycle_size := reg_recycle_size r - of_nat aligned_size,
             reg_unused_space := reg_unused_space r + of_nat (aligned_size - s)\<rparr>, h)
         | [] \<Rightarrow> alloc_small al s aligned_size r h)
     | None \<Rightarrow> alloc_small al s aligned_size r h) }"

text \<open>An overflow of the product ends the program.\<close>

definition region_alloc_array :: "allocator \<Rightarrow> nat \<Rightarrow> nat \<Rightarrow> region \<Rightarrow> block list \<Rightarrow> (addr option \<times> region \<times> block list) option" where
  "region_alloc_array al num s r h = do {
     assert_c (\<not> ((num \<ge> REGION_NO_OVERFLOW \<or> s \<ge> REGION_NO_OVERFLOW) \<and> num > 0 \<and> (2 ^ SIZE_BITS - 1) div num < s));
     region_alloc al (num * s mod 2 ^ SIZE_BITS) r h }"

subsection \<open>Giving everything back\<close>

text \<open>The cleanups in reverse order; the calls of other functions are kept.\<close>

fun run_cleanups :: "(cleanup_action \<times> addr) list \<Rightarrow> block list \<Rightarrow> (nat \<times> addr) list \<Rightarrow> ((nat \<times> addr) list \<times> block list) option" where
  "run_cleanups [] h log = Some (log, h)"
| "run_cleanups ((deallocator, d) # cs) h log = do { h \<leftarrow> mem_free d h; run_cleanups cs h log }"
| "run_cleanups ((other_action n, d) # cs) h log = run_cleanups cs h (log @ [(n, d)])"

definition region_free_all :: "region \<Rightarrow> block list \<Rightarrow> ((nat \<times> addr) list \<times> region \<times> block list) option" where
  "region_free_all r h = do {
     (log, h) \<leftarrow> run_cleanups (rev (reg_cleanups r)) h [];
     let r = (if reg_recycle_bin r = None then r else r\<lparr>reg_recycle_bin := Some (\<lambda>_. []), reg_recycle_size := 0\<rparr>);
     h \<leftarrow> mem_free_all (reg_large_list r) h;
     Some (log, r\<lparr>reg_large_list := [], reg_data := reg_initial_data r, reg_cleanups := [], reg_allocated := 0,
       reg_total_allocated := 0, reg_small_objects := 0, reg_large_objects := 0, reg_chunk_count := 1, reg_unused_space := 0\<rparr>, h) }"

definition region_destroy :: "region \<Rightarrow> block list \<Rightarrow> ((nat \<times> addr) list \<times> block list) option" where
  "region_destroy r h = do {
     (log, r, h) \<leftarrow> region_free_all r h;
     h \<leftarrow> mem_free (reg_cleanup_array r) h;
     h \<leftarrow> mem_free (reg_initial_data r) h;
     h \<leftarrow> (if reg_recycle_bin r = None then Some h else mem_free (reg_recycle_array r) h);
     h \<leftarrow> mem_free_all (reg_large_list r) h;
     h \<leftarrow> mem_free (reg_addr r) h;
     Some (log, h) }"

definition region_create_custom :: "allocator \<Rightarrow> nat \<Rightarrow> nat \<Rightarrow> nat \<Rightarrow> bool \<Rightarrow> block list \<Rightarrow> (region option \<times> block list) option" where
  "region_create_custom al chunk_size large_object_size initial_cleanup_size recycle h = do {
     (result, h) \<leftarrow> alloc_region_base al initial_cleanup_size h;
     case result of
       None \<Rightarrow> Some (None, h)
     | Some r \<Rightarrow> do {
         assert_c (large_object_size \<le> chunk_size);
         let r = r\<lparr>reg_chunk_size := chunk_size, reg_large_object_size := large_object_size\<rparr>;
         (result, h) \<leftarrow> (if chunk_size > 0 then alloc_first_chunk al r h else Some (Some r, h));
         case result of
           None \<Rightarrow> Some (None, h)
         | Some r \<Rightarrow>
             if \<not> recycle then Some (Some r, h)
             else (case mem_alloc al (sizeof_recycle_ptr * large_object_size) h of
               (None, h) \<Rightarrow> do { (log, h) \<leftarrow> region_destroy r h; Some (None, h) }
             | (Some b, h) \<Rightarrow> Some (Some (r\<lparr>reg_recycle_array := b, reg_recycle_bin := Some (\<lambda>_. [])\<rparr>), h)) } }"

end
