(* ===== verification/Region_Spec.thy ===== *)
theory Region_Spec
  imports Region
begin

text \<open>
  What the memory regions of \<open>Region\<close> promise. \<open>region_inv\<close> is the invariant: the memory is made of the blocks of the region, the blocks of large
  objects and those of others, and the blocks of clients, the recycle bin and the rest of the current chunk share the chunks without an overlap.
  Overlap is counted: \<open>cover x bs\<close> is the number of blocks that an address is in. \<open>region_run\<close> has the uses of a region, and every use keeps the invariant.
\<close>

section \<open>The blocks of a region do not overlap\<close>

subsection \<open>Blocks\<close>

text \<open>The number of blocks that an address is in.\<close>

definition hit :: "nat \<Rightarrow> block \<Rightarrow> nat" where
  "hit x b = (if fst b \<le> x \<and> x < fst b + snd b then 1 else 0)"

definition cover :: "nat \<Rightarrow> block list \<Rightarrow> nat" where
  "cover x bs = sum_list (map (hit x) bs)"

lemma cover_simps [simp]:
  "cover x [] = 0" "cover x (b # bs) = hit x b + cover x bs" "cover x (as @ bs) = cover x as + cover x bs"
  by (simp_all add: cover_def)

lemma cover_sum: "cover x bs = sum_mset (image_mset (hit x) (mset bs))"
  by (simp add: cover_def sum_mset_sum_list flip: mset_map)

lemma cover_mset: "mset as = mset bs \<Longrightarrow> cover x as = cover x bs"
  by (simp add: cover_sum)

lemma cover_sub: "mset as \<subseteq># mset bs \<Longrightarrow> cover x as \<le> cover x bs"
  by (auto simp: cover_sum mset_subset_eq_exists_conv)

lemma cover_remove1: "b \<in> set bs \<Longrightarrow> cover x bs = hit x b + cover x (remove1 b bs)"
  using cover_mset [of bs "b # remove1 b bs" x] by simp

definition apart :: "block \<Rightarrow> block \<Rightarrow> bool" where
  "apart b c \<longleftrightarrow> (\<forall>x. \<not> (fst b \<le> x \<and> x < fst b + snd b \<and> fst c \<le> x \<and> x < fst c + snd c))"

lemma cover_member: "b \<in> set bs \<Longrightarrow> hit x b \<le> cover x bs"
  using cover_remove1 [of b bs x] by simp

lemma cover_apart:
  assumes "\<forall>x. cover x bs \<le> 1" "i < j" "j < length bs"
  shows "apart (bs ! i) (bs ! j)"
proof -
  have bs: "bs = take j bs @ drop j bs" by simp
  have "hit x (bs ! i) + hit x (bs ! j) \<le> 1" for x
  proof -
    have "hit x (bs ! i) \<le> cover x (take j bs)" using assms(2,3) by (intro cover_member) (auto simp: in_set_conv_nth)
    moreover have "hit x (bs ! j) \<le> cover x (drop j bs)" using assms(3) by (intro cover_member) (simp add: Cons_nth_drop_Suc [symmetric])
    moreover have "cover x (take j bs) + cover x (drop j bs) \<le> 1" using assms(1) bs by (metis cover_simps(3))
    ultimately show ?thesis by linarith
  qed
  then show ?thesis by (fastforce simp: apart_def hit_def split: if_splits)
qed

subsection \<open>The allocator\<close>

text \<open>What the allocator of the program promises: a block apart from those in use, on a boundary of 16 octets.\<close>

definition allocator_ok :: "allocator \<Rightarrow> bool" where
  "allocator_ok al \<longleftrightarrow> (\<forall>h n a. al h n = Some a \<longrightarrow> a \<noteq> 0 \<and> 16 dvd a \<and> a \<notin> fst ` set h \<and> (\<forall>b \<in> set h. apart (a, n) b))"

definition heap_ok :: "block list \<Rightarrow> bool" where
  "heap_ok h \<longleftrightarrow> distinct (map fst h) \<and> 0 \<notin> fst ` set h \<and> (\<forall>x. cover x h \<le> 1)"

lemma cover_none: "(\<forall>b \<in> set h. apart (a, n) b) \<Longrightarrow> a \<le> x \<Longrightarrow> x < a + n \<Longrightarrow> cover x h = 0"
  by (induction h) (auto simp: apart_def hit_def)

lemma mem_alloc_ok:
  assumes "allocator_ok al" "heap_ok h" "mem_alloc al n h = (Some a, h')"
  shows "h' = (a, n) # h" "heap_ok h'" "a \<noteq> 0" "16 dvd a"
proof -
  have a: "al h n = Some a" "h' = (a, n) # h" using assms(3) by (auto simp: mem_alloc_def split: option.splits)
  then have "a \<noteq> 0 \<and> 16 dvd a \<and> a \<notin> fst ` set h \<and> (\<forall>b \<in> set h. apart (a, n) b)" using assms(1) by (simp add: allocator_ok_def)
  then show "h' = (a, n) # h" "heap_ok h'" "a \<noteq> 0" "16 dvd a" using a(2) assms(2) cover_none [of h a n] by (auto simp: heap_ok_def hit_def)
qed

lemma mem_alloc_fail: "mem_alloc al n h = (None, h') \<Longrightarrow> h' = h"
  by (auto simp: mem_alloc_def split: option.splits)

lemma mem_free_block:
  assumes "heap_ok h" "(a, n) \<in> set h"
  shows "mem_free a h = Some (remove1 (a, n) h)" "heap_ok (remove1 (a, n) h)"
proof -
  have "find (\<lambda>b. fst b = a) h = Some (a, n)" using assms
    by (auto simp: heap_ok_def find_Some_iff distinct_conv_nth in_set_conv_nth) (metis fst_conv length_map nth_map less_trans nat_neq_iff)
  moreover have "a \<noteq> 0" using assms by (force simp: heap_ok_def)
  ultimately show "mem_free a h = Some (remove1 (a, n) h)" by (simp add: mem_free_def)
  have "cover x (remove1 (a, n) h) \<le> cover x h" for x using cover_remove1 [OF assms(2), of x] by simp
  then have "\<forall>x. cover x (remove1 (a, n) h) \<le> 1" using assms(1) order_trans unfolding heap_ok_def by blast
  moreover have "distinct (map fst (remove1 (a, n) h))"
    using assms(1) unfolding heap_ok_def distinct_map by (auto simp: inj_on_def distinct_remove1 dest: notin_set_remove1)
  moreover have "0 \<notin> fst ` set (remove1 (a, n) h)" using assms(1) set_remove1_subset [of "(a, n)" h] by (auto simp: heap_ok_def)
  ultimately show "heap_ok (remove1 (a, n) h)" by (simp add: heap_ok_def)
qed

lemma mem_free_in:
  assumes "heap_ok h" "mset h = add_mset (a, n) M"
  shows "\<exists>h'. mem_free a h = Some h' \<and> heap_ok h' \<and> mset h' = M"
proof -
  have "(a, n) \<in> set h" using assms(2) by (metis set_mset_mset union_single_eq_member add_mset_add_single union_commute)
  then show ?thesis using mem_free_block [OF assms(1)] assms(2) by (intro exI [of _ "remove1 (a, n) h"]) simp
qed

lemma mem_free_all_in:
  assumes "heap_ok h" "mset h = mset bs + M"
  shows "\<exists>h'. mem_free_all (map fst bs) h = Some h' \<and> heap_ok h' \<and> mset h' = M"
  using assms
proof (induction bs arbitrary: h)
  case (Cons b bs)
  obtain a n where b: "b = (a, n)" by fastforce
  obtain h1 where "mem_free a h = Some h1" "heap_ok h1" "mset h1 = mset bs + M"
    using mem_free_in [OF Cons.prems(1), of a n "mset bs + M"] Cons.prems(2) b by auto
  then show ?case using Cons.IH [of h1] b by simp
qed simp

subsection \<open>The invariant\<close>

text \<open>The chunks that a region has from the allocator, and the blocks that it keeps for itself.\<close>

definition chunks :: "region \<Rightarrow> block list" where
  "chunks r = (if reg_chunk_size r > 0 then [(reg_initial_data r, reg_chunk_size r)] else []) @
     map (\<lambda>c. (snd c, reg_chunk_size r)) (filter (\<lambda>c. fst c = deallocator) (reg_cleanups r))"

definition own_blocks :: "region \<Rightarrow> block list" where
  "own_blocks r = [(reg_addr r, sizeof_region), (reg_cleanup_array r, reg_maximum_cleanup_count r * sizeof_cleanup)] @
     (if reg_recycle_bin r = None then [] else [(reg_recycle_array r, sizeof_recycle_ptr * reg_large_object_size r)])"

definition holds :: "region \<Rightarrow> block list \<Rightarrow> block list \<Rightarrow> bool" where
  "holds r h others \<longleftrightarrow> heap_ok h \<and> mset h = mset (own_blocks r @ chunks r @ others)"

text \<open>The memory that belongs to a block of a client.\<close>

definition small :: "region \<Rightarrow> block \<Rightarrow> bool" where
  "small r b \<longleftrightarrow> REGION_ALIGN_UP (object_size (snd b)) < reg_large_object_size r"

definition extent :: "region \<Rightarrow> block \<Rightarrow> block" where
  "extent r b = (if small r b then (fst b, REGION_ALIGN_UP (object_size (snd b)))
     else (fst b - sizeof_large_elem, object_size (snd b) + sizeof_large_elem))"

definition bin_cover :: "nat \<Rightarrow> region \<Rightarrow> nat" where
  "bin_cover x r = (case reg_recycle_bin r of None \<Rightarrow> 0
     | Some bin \<Rightarrow> (\<Sum>n<reg_large_object_size r. cover x (map (\<lambda>a. (a, n)) (bin n))))"

definition free_tail :: "region \<Rightarrow> block" where
  "free_tail r = (reg_data r + reg_allocated r, reg_chunk_size r - reg_allocated r)"

text \<open>
  What clients have of the chunks, what is in the recycle bin, and what is left of the current chunk is all apart, and inside the chunks.
\<close>

definition parts_ok :: "region \<Rightarrow> block list \<Rightarrow> bool" where
  "parts_ok r smalls \<longleftrightarrow> (\<forall>x. cover x (map (extent r) smalls) + bin_cover x r + hit x (free_tail r) \<le> cover x (chunks r)) \<and>
     reg_allocated r \<le> reg_chunk_size r \<and> ALIGNMENT dvd reg_allocated r \<and> ALIGNMENT dvd reg_data r \<and>
     (reg_chunk_size r > 0 \<longrightarrow> reg_data r \<noteq> 0) \<and> (\<forall>c \<in> set (chunks r). ALIGNMENT dvd fst c \<and> fst c \<noteq> 0) \<and>
     (\<forall>bin n a. reg_recycle_bin r = Some bin \<longrightarrow> a \<in> set (bin n) \<longrightarrow> a \<noteq> 0 \<and> ALIGNMENT dvd a)"

definition sizes_ok :: "region \<Rightarrow> bool" where
  "sizes_ok r \<longleftrightarrow> reg_large_object_size r \<le> reg_chunk_size r \<and> reg_chunk_size r < 2 ^ 63 \<and> 0 < reg_maximum_cleanup_count r \<and>
     (reg_chunk_size r = 0 \<longrightarrow> reg_initial_data r = 0)"

definition larges_ok :: "region \<Rightarrow> block list \<Rightarrow> block list \<Rightarrow> bool" where
  "larges_ok r larges live \<longleftrightarrow> map fst larges = reg_large_list r \<and> mset (map (extent r) (filter (\<lambda>b. \<not> small r b) live)) \<subseteq># mset larges"

definition region_inv :: "region \<Rightarrow> block list \<Rightarrow> block list \<Rightarrow> block list \<Rightarrow> bool" where
  "region_inv r h live others \<longleftrightarrow> sizes_ok r \<and> parts_ok r (filter (small r) live) \<and> (\<forall>b \<in> set live. fst b \<noteq> 0 \<and> ALIGNMENT dvd fst b \<and> snd b < 2 ^ 63) \<and>
     (\<exists>larges. larges_ok r larges live \<and> holds r h (larges @ others))"

subsection \<open>Sizes\<close>

lemma align_up: 
  assumes "s < 2 ^ 63"
  shows "REGION_ALIGN_UP (object_size s) = (object_size s + 7) div 8 * 8" "s \<le> REGION_ALIGN_UP (object_size s)" "8 \<le> REGION_ALIGN_UP (object_size s)"
    "ALIGNMENT dvd REGION_ALIGN_UP (object_size s)" "object_size s \<le> 2 ^ 63"
proof -
  have o: "1 \<le> object_size s" "s \<le> object_size s" "object_size s \<le> 2 ^ 63" using assms by (auto simp: object_size_def)
  have "(object_size s + 7) mod 2 ^ 64 = object_size s + 7" using o(3) by simp
  then show e: "REGION_ALIGN_UP (object_size s) = (object_size s + 7) div 8 * 8" by (simp add: REGION_ALIGN_UP_def ALIGNMENT_def SIZE_BITS_def)
  have "object_size s + 7 - (object_size s + 7) mod 8 = (object_size s + 7) div 8 * 8" by (simp add: minus_mod_eq_div_mult)
  moreover have "(object_size s + 7) mod 8 < 8" by simp
  ultimately have "object_size s \<le> (object_size s + 7) div 8 * 8" by linarith
  then show "s \<le> REGION_ALIGN_UP (object_size s)" using o(2) e by simp
  have "1 \<le> (object_size s + 7) div 8" using o(1) by linarith
  then show "8 \<le> REGION_ALIGN_UP (object_size s)" using e by simp
  show "ALIGNMENT dvd REGION_ALIGN_UP (object_size s)" by (simp add: REGION_ALIGN_UP_def)
  show "object_size s \<le> 2 ^ 63" by fact
qed

lemma extent_of: "small r b \<Longrightarrow> extent r b = (fst b, REGION_ALIGN_UP (object_size (snd b)))"
  "\<not> small r b \<Longrightarrow> extent r b = (fst b - sizeof_large_elem, object_size (snd b) + sizeof_large_elem)"
  by (simp_all add: extent_def)

lemma hit_split: "m \<le> n \<Longrightarrow> hit x (a, n) = hit x (a, m) + hit x (a + m, n - m)"
  by (auto simp: hit_def)

subsection \<open>The operations keep the invariant\<close>

lemma holds_heap: "holds r h E \<Longrightarrow> heap_ok h"
  by (simp add: holds_def)

lemma chunks_add: "chunks (r\<lparr>reg_cleanups := reg_cleanups r @ [(act, d)], reg_cleanup_array := c, reg_maximum_cleanup_count := m\<rparr>) =
    (if act = deallocator then chunks r @ [(d, reg_chunk_size r)] else chunks r)"
  by (simp add: chunks_def)

lemma region_add_cleanup_spec:
  assumes al: "allocator_ok al" and h: "holds r h E" and s: "sizes_ok r"
  obtains "region_add_cleanup al act d r h = Some (0, r, h)"
  | n c m h' where "region_add_cleanup al act d r h = Some (Suc n, r\<lparr>reg_cleanups := reg_cleanups r @ [(act, d)], reg_cleanup_array := c, reg_maximum_cleanup_count := m\<rparr>, h')"
    "0 < m" "heap_ok h'"
    "mset h' = mset (own_blocks (r\<lparr>reg_cleanups := reg_cleanups r @ [(act, d)], reg_cleanup_array := c, reg_maximum_cleanup_count := m\<rparr>) @ chunks r @ E)"
proof (cases "length (reg_cleanups r) \<ge> reg_maximum_cleanup_count r")
  case False
  moreover have "r\<lparr>reg_cleanups := reg_cleanups r @ [(act, d)], reg_cleanup_array := reg_cleanup_array r, reg_maximum_cleanup_count := reg_maximum_cleanup_count r\<rparr> =
      r\<lparr>reg_cleanups := reg_cleanups r @ [(act, d)]\<rparr>" by simp
  ultimately show thesis
    using that(2) [where n = "length (reg_cleanups r)" and c = "reg_cleanup_array r" and m = "reg_maximum_cleanup_count r" and h' = h] h s
    by (simp add: region_add_cleanup_def Let_def holds_def sizes_ok_def own_blocks_def)
next
  case True
  let ?m = "2 * reg_maximum_cleanup_count r"
  obtain co h1 where a: "mem_alloc al (?m * sizeof_cleanup) h = (co, h1)" by fastforce
  show thesis
  proof (cases co)
    case None
    then show thesis using that(1) True a mem_alloc_fail [of al "?m * sizeof_cleanup" h h1] by (simp add: region_add_cleanup_def)
  next
    case (Some c)
    have h1: "h1 = (c, ?m * sizeof_cleanup) # h" "heap_ok h1" using mem_alloc_ok [OF al holds_heap [OF h], of "?m * sizeof_cleanup" c h1] a Some by simp_all
    let ?M = "add_mset (c, ?m * sizeof_cleanup) (add_mset (reg_addr r, sizeof_region)
        (mset (if reg_recycle_bin r = None then [] else [(reg_recycle_array r, sizeof_recycle_ptr * reg_large_object_size r)]) + mset (chunks r @ E)))"
    have "mset h1 = add_mset (reg_cleanup_array r, reg_maximum_cleanup_count r * sizeof_cleanup) ?M"
      using h h1(1) by (simp add: holds_def own_blocks_def add_mset_commute)
    from mem_free_in [OF h1(2) this] obtain h2 where h2: "mem_free (reg_cleanup_array r) h1 = Some h2" "heap_ok h2" "mset h2 = ?M" by blast
    have m: "mset h2 = mset (own_blocks (r\<lparr>reg_cleanups := reg_cleanups r @ [(act, d)], reg_cleanup_array := c, reg_maximum_cleanup_count := ?m\<rparr>) @ chunks r @ E)"
      using h2(3) by (simp add: own_blocks_def add_mset_commute)
    have e: "region_add_cleanup al act d r h = Some (Suc (length (reg_cleanups r)),
        r\<lparr>reg_cleanups := reg_cleanups r @ [(act, d)], reg_cleanup_array := c, reg_maximum_cleanup_count := ?m\<rparr>, h2)"
      using True a Some h2(1) by (simp add: region_add_cleanup_def Let_def mult.commute [of _ 2])
    show thesis by (rule that(2) [OF e _ h2(2) m]) (use s in \<open>simp add: sizes_ok_def\<close>)
  qed
qed

lemma bin_cover_update:
  assumes "n < reg_large_object_size r" "reg_recycle_bin r = Some bin"
  shows "bin_cover x (r\<lparr>reg_recycle_bin := Some (bin(n := as))\<rparr>) + cover x (map (\<lambda>a. (a, n)) (bin n)) = bin_cover x r + cover x (map (\<lambda>a. (a, n)) as)"
proof -
  let ?f = "\<lambda>b k. cover x (map (\<lambda>a. (a, k)) (b k))" and ?L = "{..<reg_large_object_size r}"
  have n: "n \<in> ?L" using assms(1) by simp
  have "(\<Sum>k\<in>?L. ?f (bin(n := as)) k) = cover x (map (\<lambda>a. (a, n)) as) + (\<Sum>k\<in>?L - {n}. ?f bin k)"
    by (subst sum.remove [OF _ n]) (auto intro: sum.cong)
  moreover have "(\<Sum>k\<in>?L. ?f bin k) = ?f bin n + (\<Sum>k\<in>?L - {n}. ?f bin k)" by (rule sum.remove [OF _ n]) simp
  ultimately show ?thesis using assms(2) by (simp add: bin_cover_def)
qed

definition settings :: "region \<Rightarrow> nat \<times> nat \<times> addr list" where
  "settings r = (reg_large_object_size r, reg_chunk_size r, reg_large_list r)"

lemma bin_cover_cong: "reg_recycle_bin r' = reg_recycle_bin r \<Longrightarrow> reg_large_object_size r' = reg_large_object_size r \<Longrightarrow> bin_cover x r' = bin_cover x r"
  by (cases "reg_recycle_bin r") (simp_all add: bin_cover_def)

text \<open>The statistics play no part.\<close>

lemma own_blocks_update [simp]:
  "own_blocks (r\<lparr>reg_total_allocated := u\<rparr>) = own_blocks r"
  "own_blocks (r\<lparr>reg_small_objects := u\<rparr>) = own_blocks r"
  "own_blocks (r\<lparr>reg_large_objects := u\<rparr>) = own_blocks r"
  "own_blocks (r\<lparr>reg_chunk_count := u\<rparr>) = own_blocks r"
  "own_blocks (r\<lparr>reg_unused_space := u\<rparr>) = own_blocks r"
  "own_blocks (r\<lparr>reg_recycle_size := u\<rparr>) = own_blocks r"
  "own_blocks (r\<lparr>reg_allocated := n\<rparr>) = own_blocks r"
  "own_blocks (r\<lparr>reg_data := n\<rparr>) = own_blocks r"
  "own_blocks (r\<lparr>reg_large_list := ls\<rparr>) = own_blocks r"
  by (simp_all add: own_blocks_def)

lemma chunks_update [simp]:
  "chunks (r\<lparr>reg_total_allocated := u\<rparr>) = chunks r"
  "chunks (r\<lparr>reg_small_objects := u\<rparr>) = chunks r"
  "chunks (r\<lparr>reg_large_objects := u\<rparr>) = chunks r"
  "chunks (r\<lparr>reg_chunk_count := u\<rparr>) = chunks r"
  "chunks (r\<lparr>reg_unused_space := u\<rparr>) = chunks r"
  "chunks (r\<lparr>reg_recycle_size := u\<rparr>) = chunks r"
  "chunks (r\<lparr>reg_allocated := n\<rparr>) = chunks r"
  "chunks (r\<lparr>reg_data := n\<rparr>) = chunks r"
  "chunks (r\<lparr>reg_large_list := ls\<rparr>) = chunks r"
  "chunks (r\<lparr>reg_recycle_bin := bs\<rparr>) = chunks r"
  "chunks (r\<lparr>reg_cleanup_array := n\<rparr>) = chunks r"
  "chunks (r\<lparr>reg_maximum_cleanup_count := n\<rparr>) = chunks r"
  by (simp_all add: chunks_def)

lemma settings_update [simp]:
  "settings (r\<lparr>reg_total_allocated := u\<rparr>) = settings r"
  "settings (r\<lparr>reg_small_objects := u\<rparr>) = settings r"
  "settings (r\<lparr>reg_large_objects := u\<rparr>) = settings r"
  "settings (r\<lparr>reg_chunk_count := u\<rparr>) = settings r"
  "settings (r\<lparr>reg_unused_space := u\<rparr>) = settings r"
  "settings (r\<lparr>reg_recycle_size := u\<rparr>) = settings r"
  "settings (r\<lparr>reg_allocated := n\<rparr>) = settings r"
  "settings (r\<lparr>reg_data := n\<rparr>) = settings r"
  "settings (r\<lparr>reg_recycle_bin := bs\<rparr>) = settings r"
  "settings (r\<lparr>reg_cleanups := cs\<rparr>) = settings r"
  "settings (r\<lparr>reg_cleanup_array := n\<rparr>) = settings r"
  "settings (r\<lparr>reg_maximum_cleanup_count := n\<rparr>) = settings r"
  by (simp_all add: settings_def)

lemma free_tail_update [simp]:
  "free_tail (r\<lparr>reg_total_allocated := u\<rparr>) = free_tail r"
  "free_tail (r\<lparr>reg_small_objects := u\<rparr>) = free_tail r"
  "free_tail (r\<lparr>reg_large_objects := u\<rparr>) = free_tail r"
  "free_tail (r\<lparr>reg_chunk_count := u\<rparr>) = free_tail r"
  "free_tail (r\<lparr>reg_unused_space := u\<rparr>) = free_tail r"
  "free_tail (r\<lparr>reg_recycle_size := u\<rparr>) = free_tail r"
  "free_tail (r\<lparr>reg_recycle_bin := bs\<rparr>) = free_tail r"
  "free_tail (r\<lparr>reg_large_list := ls\<rparr>) = free_tail r"
  "free_tail (r\<lparr>reg_cleanups := cs\<rparr>) = free_tail r"
  "free_tail (r\<lparr>reg_cleanup_array := n\<rparr>) = free_tail r"
  "free_tail (r\<lparr>reg_maximum_cleanup_count := n\<rparr>) = free_tail r"
  by (simp_all add: free_tail_def)

lemma extent_update [simp]:
  "extent (r\<lparr>reg_total_allocated := u\<rparr>) = extent r"
  "extent (r\<lparr>reg_small_objects := u\<rparr>) = extent r"
  "extent (r\<lparr>reg_large_objects := u\<rparr>) = extent r"
  "extent (r\<lparr>reg_chunk_count := u\<rparr>) = extent r"
  "extent (r\<lparr>reg_unused_space := u\<rparr>) = extent r"
  "extent (r\<lparr>reg_recycle_size := u\<rparr>) = extent r"
  "extent (r\<lparr>reg_allocated := n\<rparr>) = extent r"
  "extent (r\<lparr>reg_data := n\<rparr>) = extent r"
  "extent (r\<lparr>reg_recycle_bin := bs\<rparr>) = extent r"
  "extent (r\<lparr>reg_large_list := ls\<rparr>) = extent r"
  "extent (r\<lparr>reg_cleanups := cs\<rparr>) = extent r"
  "extent (r\<lparr>reg_cleanup_array := n\<rparr>) = extent r"
  "extent (r\<lparr>reg_maximum_cleanup_count := n\<rparr>) = extent r"
  by (simp_all add: extent_def small_def fun_eq_iff)

lemma small_update [simp]:
  "small (r\<lparr>reg_total_allocated := u\<rparr>) = small r"
  "small (r\<lparr>reg_small_objects := u\<rparr>) = small r"
  "small (r\<lparr>reg_large_objects := u\<rparr>) = small r"
  "small (r\<lparr>reg_chunk_count := u\<rparr>) = small r"
  "small (r\<lparr>reg_unused_space := u\<rparr>) = small r"
  "small (r\<lparr>reg_recycle_size := u\<rparr>) = small r"
  "small (r\<lparr>reg_allocated := n\<rparr>) = small r"
  "small (r\<lparr>reg_data := n\<rparr>) = small r"
  "small (r\<lparr>reg_recycle_bin := bs\<rparr>) = small r"
  "small (r\<lparr>reg_large_list := ls\<rparr>) = small r"
  "small (r\<lparr>reg_cleanups := cs\<rparr>) = small r"
  "small (r\<lparr>reg_cleanup_array := n\<rparr>) = small r"
  "small (r\<lparr>reg_maximum_cleanup_count := n\<rparr>) = small r"
  by (simp_all add: small_def fun_eq_iff)

lemma sizes_ok_update [simp]:
  "sizes_ok (r\<lparr>reg_total_allocated := u\<rparr>) = sizes_ok r"
  "sizes_ok (r\<lparr>reg_small_objects := u\<rparr>) = sizes_ok r"
  "sizes_ok (r\<lparr>reg_large_objects := u\<rparr>) = sizes_ok r"
  "sizes_ok (r\<lparr>reg_chunk_count := u\<rparr>) = sizes_ok r"
  "sizes_ok (r\<lparr>reg_unused_space := u\<rparr>) = sizes_ok r"
  "sizes_ok (r\<lparr>reg_recycle_size := u\<rparr>) = sizes_ok r"
  "sizes_ok (r\<lparr>reg_allocated := n\<rparr>) = sizes_ok r"
  "sizes_ok (r\<lparr>reg_data := n\<rparr>) = sizes_ok r"
  "sizes_ok (r\<lparr>reg_recycle_bin := bs\<rparr>) = sizes_ok r"
  "sizes_ok (r\<lparr>reg_large_list := ls\<rparr>) = sizes_ok r"
  "sizes_ok (r\<lparr>reg_cleanups := cs\<rparr>) = sizes_ok r"
  "sizes_ok (r\<lparr>reg_cleanup_array := n\<rparr>) = sizes_ok r"
  by (simp_all add: sizes_ok_def)

lemma bin_cover_stats [simp]:
  "bin_cover x (r\<lparr>reg_total_allocated := u\<rparr>) = bin_cover x r"
  "bin_cover x (r\<lparr>reg_small_objects := u\<rparr>) = bin_cover x r"
  "bin_cover x (r\<lparr>reg_large_objects := u\<rparr>) = bin_cover x r"
  "bin_cover x (r\<lparr>reg_chunk_count := u\<rparr>) = bin_cover x r"
  "bin_cover x (r\<lparr>reg_unused_space := u\<rparr>) = bin_cover x r"
  "bin_cover x (r\<lparr>reg_recycle_size := u\<rparr>) = bin_cover x r"
  "bin_cover x (r\<lparr>reg_allocated := n\<rparr>) = bin_cover x r"
  "bin_cover x (r\<lparr>reg_data := n\<rparr>) = bin_cover x r"
  "bin_cover x (r\<lparr>reg_large_list := ls\<rparr>) = bin_cover x r"
  "bin_cover x (r\<lparr>reg_cleanups := cs\<rparr>) = bin_cover x r"
  "bin_cover x (r\<lparr>reg_cleanup_array := n\<rparr>) = bin_cover x r"
  "bin_cover x (r\<lparr>reg_maximum_cleanup_count := n\<rparr>) = bin_cover x r"
  by (rule bin_cover_cong; simp)+


lemma parts_ok_cong:
  assumes "reg_recycle_bin r' = reg_recycle_bin r" "reg_large_object_size r' = reg_large_object_size r" "reg_data r' = reg_data r"
    "reg_allocated r' = reg_allocated r" "reg_chunk_size r' = reg_chunk_size r" "mset (chunks r') = mset (chunks r)"
  shows "parts_ok r' smalls = parts_ok r smalls"
proof -
  have "cover x (chunks r') = cover x (chunks r)" for x using assms(6) by (rule cover_mset)
  moreover have "set (chunks r') = set (chunks r)" using assms(6) by (rule mset_eq_setD)
  moreover have "extent r' = extent r" using assms(2) by (auto simp: extent_def small_def fun_eq_iff)
  moreover have "bin_cover x r' = bin_cover x r" for x using assms(1,2) by (rule bin_cover_cong)
  ultimately show ?thesis using assms(1,3-5) by (simp add: parts_ok_def free_tail_def)
qed

lemma parts_ok_stats [simp]:
  "parts_ok (r\<lparr>reg_total_allocated := u\<rparr>) smalls = parts_ok r smalls"
  "parts_ok (r\<lparr>reg_small_objects := u\<rparr>) smalls = parts_ok r smalls"
  "parts_ok (r\<lparr>reg_large_objects := u\<rparr>) smalls = parts_ok r smalls"
  "parts_ok (r\<lparr>reg_chunk_count := u\<rparr>) smalls = parts_ok r smalls"
  "parts_ok (r\<lparr>reg_unused_space := u\<rparr>) smalls = parts_ok r smalls"
  "parts_ok (r\<lparr>reg_recycle_size := u\<rparr>) smalls = parts_ok r smalls"
  "parts_ok (r\<lparr>reg_large_list := ls\<rparr>) smalls = parts_ok r smalls"
  "parts_ok (r\<lparr>reg_cleanup_array := n\<rparr>) smalls = parts_ok r smalls"
  "parts_ok (r\<lparr>reg_maximum_cleanup_count := n\<rparr>) smalls = parts_ok r smalls"
  by (rule parts_ok_cong; simp)+

lemma parts_ok_mono:
  assumes "parts_ok r smalls" "mset smalls' \<subseteq># mset smalls"
  shows "parts_ok r smalls'"
proof -
  have "cover x (map (extent r) smalls') \<le> cover x (map (extent r) smalls)" for x
    using assms(2) by (intro cover_sub) (simp add: image_mset_subseteq_mono)
  then have "cover x (map (extent r) smalls') + bin_cover x r + hit x (free_tail r) \<le> cover x (chunks r)" for x
    using assms(1) unfolding parts_ok_def by (meson add_le_mono1 order_trans)
  then show ?thesis using assms(1) unfolding parts_ok_def by blast
qed

text \<open>A block goes into the recycle bin.\<close>

lemma add_recycled_parts:
  assumes "parts_ok r (b # smalls) \<or> parts_ok r smalls \<and> (\<forall>x. cover x (map (extent r) smalls) + bin_cover x r + hit x (free_tail r) + hit x (extent r b) \<le> cover x (chunks r))"
    "small r b" "fst b \<noteq> 0" "ALIGNMENT dvd fst b"
  shows "parts_ok (add_recycled (REGION_ALIGN_UP (object_size (snd b))) (fst b) s r) smalls"
proof (cases "reg_recycle_bin r")
  case None
  then show ?thesis using assms(1) parts_ok_mono [of r "b # smalls" smalls] by (auto simp: add_recycled_def)
next
  case (Some bin)
  let ?n = "REGION_ALIGN_UP (object_size (snd b))"
  let ?r = "r\<lparr>reg_recycle_bin := Some (bin(?n := fst b # bin ?n))\<rparr>"
  have n: "?n < reg_large_object_size r" using assms(2) by (simp add: small_def)
  have e: "extent r b = (fst b, ?n)" using assms(2) by (rule extent_of)
  have c: "bin_cover x ?r = bin_cover x r + hit x (extent r b)" for x
    using bin_cover_update [OF n Some, of x "fst b # bin ?n"] e by simp
  have "parts_ok ?r smalls"
  proof -
    have "cover x (map (extent r) smalls) + bin_cover x r + hit x (free_tail r) + hit x (extent r b) \<le> cover x (chunks r)" for x
      using assms(1) by (auto simp: parts_ok_def algebra_simps)
    moreover have "extent ?r = extent r" "chunks ?r = chunks r" "free_tail ?r = free_tail r"
      by (auto simp: extent_def small_def fun_eq_iff chunks_def free_tail_def)
    ultimately have "cover x (map (extent ?r) smalls) + bin_cover x ?r + hit x (free_tail ?r) \<le> cover x (chunks ?r)" for x
      using c [of x] by (simp add: add.commute add.left_commute)
    then show ?thesis using assms Some by (auto simp: parts_ok_def chunks_def)
  qed
  then show ?thesis using Some by (subst parts_ok_cong [of _ ?r]) (simp_all add: add_recycled_def chunks_def)
qed

definition same_blocks :: "region \<Rightarrow> region \<Rightarrow> bool" where
  "same_blocks r' r \<longleftrightarrow> own_blocks r' = own_blocks r \<and> chunks r' = chunks r \<and> settings r' = settings r \<and>
     reg_maximum_cleanup_count r' = reg_maximum_cleanup_count r \<and> reg_initial_data r' = reg_initial_data r"

lemma same_blocks_holds: "same_blocks r' r \<Longrightarrow> holds r' h E = holds r h E" "same_blocks r' r \<Longrightarrow> sizes_ok r' = sizes_ok r"
  by (simp_all add: same_blocks_def holds_def sizes_ok_def settings_def)

lemma settings_extent: "settings r' = settings r \<Longrightarrow> extent r' = extent r \<and> small r' = small r"
  by (auto simp: settings_def extent_def small_def fun_eq_iff)

lemma region_recycle_small:
  assumes "a \<noteq> 0" "reg_recycle_bin r = Some bin" "small r (a, n)" "n < 2 ^ 63"
  shows "region_recycle a n r h = Some (add_recycled (REGION_ALIGN_UP (object_size n)) a (object_size n) r, h)"
  using assms align_up(3) [OF assms(4)] by (simp add: region_recycle_def Let_def small_def sizeof_recycle_ptr_def)

lemma waste_spec:
  assumes s: "sizes_ok r" and p: "parts_ok r smalls" and l: "reg_chunk_size r - reg_allocated r < reg_large_object_size r"
  shows "\<exists>r'. waste r h = Some (r', h) \<and> same_blocks r' r \<and> parts_ok r' smalls"
proof -
  let ?w = "(reg_chunk_size r - reg_allocated r) div ALIGNMENT * ALIGNMENT"
  let ?a = "reg_data r + reg_allocated r"
  have w: "?w \<le> reg_chunk_size r - reg_allocated r" by simp
  show ?thesis
  proof (cases "?w \<ge> ALIGNMENT")
    case False
    then show ?thesis using p by (simp add: waste_def same_blocks_def)
  next
    case True
    have w63: "?w < 2 ^ 63" using w s unfolding sizes_ok_def by linarith
    have w0: "object_size ?w = ?w" using True by (simp add: object_size_def ALIGNMENT_def)
    have wa: "REGION_ALIGN_UP (object_size ?w) = ?w" using align_up(1) [OF w63] w0 by (simp add: ALIGNMENT_def)
    have c: "reg_chunk_size r > 0" using True by (simp add: ALIGNMENT_def) 
    have a: "?a \<noteq> 0" "ALIGNMENT dvd ?a" using p c by (auto simp: parts_ok_def)
    let ?r0 = "r\<lparr>reg_total_allocated := reg_total_allocated r + of_nat ?w, reg_small_objects := reg_small_objects r + 1\<rparr>"
    let ?r1 = "?r0\<lparr>reg_allocated := reg_allocated r + ?w\<rparr>"
    have sm: "small ?r1 (?a, ?w)" using wa le_less_trans [OF w l] by (simp add: small_def)
    have x1: "extent ?r1 (?a, ?w) = (?a, ?w)" using sm wa by (simp add: extent_def)
    have b: "own_blocks ?r1 = own_blocks r" "chunks ?r1 = chunks r" "settings ?r1 = settings r"
      by (simp_all add: own_blocks_def chunks_def settings_def)
    have bb: "bin_cover x ?r1 = bin_cover x r" for x by (rule bin_cover_cong) simp_all
    have t: "hit x (free_tail r) = hit x (?a, ?w) + hit x (free_tail ?r1)" for x
      using hit_split [OF w, of x ?a] by (simp add: free_tail_def add.assoc)
    have e: "extent ?r1 = extent r" using settings_extent [OF b(3)] by simp
    have cov: "cover x (map (extent ?r1) smalls) + bin_cover x ?r1 + hit x (free_tail ?r1) + hit x (extent ?r1 (?a, ?w)) \<le> cover x (chunks ?r1)" for x
    proof -
      have "cover x (map (extent r) smalls) + bin_cover x r + hit x (free_tail r) \<le> cover x (chunks r)" using p by (simp add: parts_ok_def)
      then show ?thesis unfolding e bb b(2) x1 [unfolded e] t [of x] by linarith
    qed
    have pr: "reg_allocated r \<le> reg_chunk_size r" "ALIGNMENT dvd reg_allocated r" using p by (simp_all add: parts_ok_def)
    have wle: "reg_allocated r + ?w \<le> reg_chunk_size r" "ALIGNMENT dvd reg_allocated r + ?w" using w pr by (linarith, simp)
    have p1: "parts_ok ?r1 smalls" unfolding parts_ok_def
      using p wle add_leD1 [OF cov] b by (simp add: parts_ok_def)
    show ?thesis
    proof (cases "reg_recycle_bin r")
      case None
      then have "waste r h = Some (?r1, h)" using True by (simp add: waste_def region_recycle_def Let_def)
      then show ?thesis using p1 b by (simp add: same_blocks_def)
    next
      case (Some bin)
      let ?r2 = "add_recycled ?w ?a ?w ?r1"
      have "region_recycle ?a ?w ?r0 h = Some (add_recycled ?w ?a ?w ?r0, h)"
        using region_recycle_small [OF a(1) _ _ w63, of ?r0 bin h] Some sm unfolding w0 wa [unfolded w0] by simp
      moreover have "(add_recycled ?w ?a ?w ?r0)\<lparr>reg_allocated := reg_allocated r + ?w\<rparr> = ?r2" using Some by (simp add: add_recycled_def)
      ultimately have "waste r h = Some (?r2, h)" using True Some by (simp add: waste_def Let_def add_recycled_def)
      moreover have "parts_ok ?r2 smalls" using add_recycled_parts [of ?r1 "(?a, ?w)" smalls ?w] p1 cov sm a wa by simp
      moreover have "same_blocks ?r2 r" using b Some by (simp add: same_blocks_def add_recycled_def own_blocks_def chunks_def settings_def)
      ultimately show ?thesis by blast
    qed
  qed
qed

lemma parts_new_chunk:
  assumes "parts_ok r smalls" "reg_chunk_size r > 0" "c \<noteq> 0" "ALIGNMENT dvd c" "chunks r' = chunks r @ [(c, reg_chunk_size r)]"
    "reg_recycle_bin r' = reg_recycle_bin r" "settings r' = settings r" "reg_data r' = c" "reg_allocated r' = 0"
  shows "parts_ok r' smalls"
proof -
  have s: "reg_large_object_size r' = reg_large_object_size r" "reg_chunk_size r' = reg_chunk_size r" "extent r' = extent r"
    using assms(7) settings_extent [OF assms(7)] by (simp_all add: settings_def)
  have "cover x (map (extent r) smalls) + bin_cover x r + hit x (free_tail r) \<le> cover x (chunks r)" for x
    using assms(1) by (simp add: parts_ok_def)
  then have "cover x (map (extent r') smalls) + bin_cover x r' + hit x (free_tail r') \<le> cover x (chunks r')" for x
    using s assms(5,8,9) bin_cover_cong [OF assms(6) s(1), of x] add_leD1 by (fastforce simp: free_tail_def)
  then show ?thesis using assms s by (auto simp: parts_ok_def)
qed

lemma next_chunk_spec:
  assumes al: "allocator_ok al" and h: "holds r h E" and s: "sizes_ok r" and p: "parts_ok r smalls"
    and l: "reg_chunk_size r - reg_allocated r < reg_large_object_size r"
  shows "\<exists>ok r' h'. next_chunk al r h = Some (ok, r', h') \<and> holds r' h' E \<and> sizes_ok r' \<and> parts_ok r' smalls \<and> settings r' = settings r \<and>
    (ok \<longrightarrow> reg_allocated r' = 0)"
proof -
  obtain co h1 where a: "mem_alloc al (reg_chunk_size r) h = (co, h1)" by fastforce
  have cs: "reg_chunk_size r > 0" using l s by (simp add: sizes_ok_def)
  show ?thesis
  proof (cases co)
    case None
    then show ?thesis using a mem_alloc_fail [of al "reg_chunk_size r" h h1] h s p by (auto simp: next_chunk_def)
  next
    case (Some c)
    let ?b = "(c, reg_chunk_size r)"
    have h1: "h1 = ?b # h" "heap_ok h1" "c \<noteq> 0" "16 dvd c" using mem_alloc_ok [OF al holds_heap [OF h], of "reg_chunk_size r" c h1] a Some by simp_all
    have c8: "ALIGNMENT dvd c" using h1(4) by (simp add: ALIGNMENT_def) presburger
    obtain r1 where r1: "waste r h1 = Some (r1, h1)" "same_blocks r1 r" "parts_ok r1 smalls" using waste_spec [OF s p l] by blast
    let ?u = "of_nat (reg_chunk_size r1 - reg_allocated r1) :: u64"
    define r2 where "r2 = r1\<lparr>reg_chunk_count := reg_chunk_count r1 + 1, reg_unused_space := reg_unused_space r1 + ?u\<rparr>"
    have r2: "same_blocks r2 r" "parts_ok r2 smalls" "reg_chunk_size r2 = reg_chunk_size r"
      using r1(2,3) by (simp_all add: r2_def same_blocks_def) (simp add: settings_def)
    have hr2: "holds r2 h1 (?b # E)" using r2(1) h h1(1,2) by (simp add: holds_def same_blocks_def)
    have s2: "sizes_ok r2" using same_blocks_holds(2) [OF r2(1)] s by simp
    from region_add_cleanup_spec [OF al hr2 s2, of deallocator c] show ?thesis
    proof cases
      case 1
      obtain h2 where h2: "mem_free c h1 = Some h2" "heap_ok h2" "mset h2 = mset h"
        using mem_free_in [OF h1(2), of c "reg_chunk_size r" "mset h"] h1(1) by auto
      let ?r3 = "r2\<lparr>reg_chunk_count := reg_chunk_count r2 - 1, reg_unused_space := reg_unused_space r2 - ?u\<rparr>"
      have "next_chunk al r h = Some (False, ?r3, h2)" using a Some r1(1) 1 h2(1) by (simp add: next_chunk_def Let_def r2_def)
      moreover have "same_blocks ?r3 r" using r2(1) by (simp add: same_blocks_def)
      moreover have "parts_ok ?r3 smalls" using r2(2) by simp
      moreover have "holds ?r3 h2 E" using h h2(2,3) r2(1) by (simp add: holds_def same_blocks_def)
      moreover have "sizes_ok ?r3" "settings ?r3 = settings r" using s2 r2(1) by (simp_all add: same_blocks_def)
      ultimately show ?thesis by blast
    next
      case (2 n ca m h2)
      let ?r3 = "r2\<lparr>reg_cleanups := reg_cleanups r2 @ [(deallocator, c)], reg_cleanup_array := ca, reg_maximum_cleanup_count := m\<rparr>"
      let ?r4 = "?r3\<lparr>reg_allocated := 0, reg_data := c\<rparr>"
      have n: "next_chunk al r h = Some (True, ?r4, h2)" using a Some r1(1) 2(1) by (simp add: next_chunk_def Let_def r2_def)
      have ch: "chunks ?r4 = chunks r2 @ [?b]" using r2(3) by (simp add: chunks_def)
      have "own_blocks ?r4 = own_blocks ?r3" by (simp add: own_blocks_def)
      then have "holds ?r4 h2 E" using 2(3,4) ch by (simp add: holds_def)
      moreover have "settings ?r4 = settings r" using r2(1) by (simp add: same_blocks_def settings_def)
      moreover have "sizes_ok ?r4" using s2 2(2) by (simp add: sizes_ok_def)
      moreover have "parts_ok ?r4 smalls" using parts_new_chunk [OF r2(2) _ h1(3) c8, of ?r4] ch r2(3) cs by (simp add: settings_def)
      ultimately show ?thesis using n by auto
    qed
  qed
qed

lemma alloc_small_spec:
  assumes al: "allocator_ok al" and h: "holds r h E" and s: "sizes_ok r" and p: "parts_ok r smalls"
    and n: "n = REGION_ALIGN_UP (object_size k)" "n < reg_large_object_size r" "k < 2 ^ 63"
  shows "\<exists>res r' h'. alloc_small al (object_size k) n r h = Some (res, r', h') \<and> holds r' h' E \<and> sizes_ok r' \<and> settings r' = settings r \<and>
    (case res of None \<Rightarrow> parts_ok r' smalls | Some a \<Rightarrow> a \<noteq> 0 \<and> ALIGNMENT dvd a \<and> parts_ok r' ((a, k) # smalls))"
proof -
  obtain ok r1 h1 where r1: "(if reg_allocated r + n > reg_chunk_size r then next_chunk al r h else Some (True, r, h)) = Some (ok, r1, h1)"
    "holds r1 h1 E" "sizes_ok r1" "parts_ok r1 smalls" "settings r1 = settings r" "ok \<Longrightarrow> reg_allocated r1 + n \<le> reg_chunk_size r1"
  proof (cases "reg_allocated r + n > reg_chunk_size r")
    case True
    then have "reg_chunk_size r - reg_allocated r < reg_large_object_size r" using n(2) p by (simp add: parts_ok_def)
    from next_chunk_spec [OF al h s p this] obtain ok r1 h1 where x: "next_chunk al r h = Some (ok, r1, h1)" "holds r1 h1 E" "sizes_ok r1"
      "parts_ok r1 smalls" "settings r1 = settings r" "ok \<longrightarrow> reg_allocated r1 = 0" by blast
    have "n \<le> reg_chunk_size r1" using n(2) s x(5) by (simp add: sizes_ok_def settings_def)
    then show thesis using that [of ok r1 h1] x True by simp
  next
    case False
    then show thesis using that [of True r h] h s p by simp
  qed
  show ?thesis
  proof (cases ok)
    case False
    then show ?thesis using r1 by (simp add: alloc_small_def)
  next
    case True
    let ?a = "reg_data r1 + reg_allocated r1"
    let ?r2 = "r1\<lparr>reg_allocated := reg_allocated r1 + n\<rparr>"
    have le: "reg_allocated r1 + n \<le> reg_chunk_size r1" using r1(6) True .
    have sm: "small r1 (?a, k)" using n(1,2) r1(5) by (simp add: small_def settings_def)
    have e: "extent r1 (?a, k) = (?a, n)" using sm n(1) by (simp add: extent_def)
    have cs: "reg_chunk_size r1 > 0" using le align_up(3) [OF n(3)] n(1) by simp
    have t: "hit x (free_tail r1) = hit x (?a, n) + hit x (free_tail ?r2)" for x
      using hit_split [of n "reg_chunk_size r1 - reg_allocated r1" x ?a] le by (simp add: free_tail_def add.assoc)
    have pr: "cover x (map (extent r1) smalls) + bin_cover x r1 + hit x (free_tail r1) \<le> cover x (chunks r1)" for x
      using r1(4) by (simp add: parts_ok_def)
    have "cover x (map (extent ?r2) ((?a, k) # smalls)) + bin_cover x ?r2 + hit x (free_tail ?r2) \<le> cover x (chunks ?r2)" for x
      using pr [of x] t [of x] e by simp
    then have "parts_ok ?r2 ((?a, k) # smalls)" using r1(4) le align_up(4) [OF n(3)] n(1) unfolding parts_ok_def by simp
    moreover have "?a \<noteq> 0" "ALIGNMENT dvd ?a" using r1(4) cs by (auto simp: parts_ok_def)
    moreover have "holds ?r2 h1 E" using r1(2) by (simp add: holds_def)
    ultimately show ?thesis using r1 True by (simp add: alloc_small_def holds_def)
  qed
qed

lemma alloc_large_spec:
  assumes al: "allocator_ok al" and h: "holds r h E" and k: "k < 2 ^ 63" "\<not> small r (a, k)"
  shows "\<exists>r' h'. alloc_large al (object_size k) r h = (None, r, h) \<or> (\<exists>l. alloc_large al (object_size k) r h = (Some (l + sizeof_large_elem), r', h') \<and>
    holds r' h' ((l, object_size k + sizeof_large_elem) # E) \<and> l \<noteq> 0 \<and> ALIGNMENT dvd l + sizeof_large_elem \<and>
    reg_large_list r' = l # reg_large_list r \<and> sizes_ok r' = sizes_ok r \<and> (\<forall>smalls. parts_ok r' smalls = parts_ok r smalls) \<and>
    extent r' = extent r \<and> small r' = small r)"
proof -
  let ?n = "(object_size k + sizeof_large_elem) mod 2 ^ SIZE_BITS"
  have n: "?n = object_size k + sizeof_large_elem" using align_up(5) [OF k(1)] by (simp add: sizeof_large_elem_def SIZE_BITS_def)
  obtain lo h1 where a: "mem_alloc al ?n h = (lo, h1)" by fastforce
  show ?thesis
  proof (cases lo)
    case None
    then show ?thesis using a mem_alloc_fail [of al ?n h h1] by (simp add: alloc_large_def)
  next
    case (Some l)
    have h1: "h1 = (l, ?n) # h" "heap_ok h1" "l \<noteq> 0" "16 dvd l" using mem_alloc_ok [OF al holds_heap [OF h], of ?n l h1] a Some by simp_all
    let ?r = "r\<lparr>reg_large_list := l # reg_large_list r, reg_total_allocated := reg_total_allocated r + of_nat (object_size k),
            reg_large_objects := reg_large_objects r + 1\<rparr>"
    have "ALIGNMENT dvd l + sizeof_large_elem" using h1(4) by (simp add: ALIGNMENT_def sizeof_large_elem_def) presburger
    moreover have "holds ?r h1 ((l, object_size k + sizeof_large_elem) # E)" using h h1(1,2) n by (simp add: holds_def)
    ultimately show ?thesis using a Some h1(3) by (intro exI [of _ ?r] exI [of _ h1]) (simp add: alloc_large_def)
  qed
qed

lemma region_invI:
  assumes "sizes_ok r" "parts_ok r (filter (small r) live)" "\<forall>b \<in> set live. fst b \<noteq> 0 \<and> ALIGNMENT dvd fst b \<and> snd b < 2 ^ 63"
    "larges_ok r larges live" "holds r h (larges @ others)"
  shows "region_inv r h live others"
  using assms by (auto simp: region_inv_def)

text \<open>A block from the recycle bin.\<close>

lemma bin_take_parts:
  assumes p: "parts_ok r smalls" and b: "reg_recycle_bin r = Some bin" "bin n = a # bs" and n: "n = REGION_ALIGN_UP (object_size k)" "n < reg_large_object_size r"
  shows "parts_ok (r\<lparr>reg_recycle_bin := Some (bin(n := bs))\<rparr>) ((a, k) # smalls)" "a \<noteq> 0" "ALIGNMENT dvd a"
proof -
  let ?r = "r\<lparr>reg_recycle_bin := Some (bin(n := bs))\<rparr>"
  have e: "extent r (a, k) = (a, n)" using n by (simp add: extent_def small_def)
  have c: "bin_cover x ?r + hit x (a, n) = bin_cover x r" for x using bin_cover_update [OF n(2) b(1), of x bs] b(2) by simp
  have pr: "cover x (map (extent r) smalls) + bin_cover x r + hit x (free_tail r) \<le> cover x (chunks r)" for x
    using p by (simp add: parts_ok_def)
  have cov: "cover x (map (extent ?r) ((a, k) # smalls)) + bin_cover x ?r + hit x (free_tail ?r) \<le> cover x (chunks ?r)" for x
    using pr [of x] c [of x] e by simp
  have all: "\<forall>m c. c \<in> set (bin m) \<longrightarrow> c \<noteq> 0 \<and> ALIGNMENT dvd c" using p b(1) unfolding parts_ok_def by blast
  have m: "set (bin n) = insert a (set bs)" using b(2) by simp
  then show "a \<noteq> 0" "ALIGNMENT dvd a" using all by blast+
  have "\<forall>m c. c \<in> set ((bin(n := bs)) m) \<longrightarrow> c \<noteq> 0 \<and> ALIGNMENT dvd c" using all m by (metis fun_upd_apply insertI2)
  then show "parts_ok ?r ((a, k) # smalls)" using p cov unfolding parts_ok_def by simp
qed

lemma region_alloc_spec:
  assumes al: "allocator_ok al" and i: "region_inv r h live others" and k: "k < 2 ^ 63"
  shows "\<exists>res r' h'. region_alloc al k r h = Some (res, r', h') \<and>
    (case res of None \<Rightarrow> region_inv r' h' live others | Some a \<Rightarrow> region_inv r' h' ((a, k) # live) others)"
proof -
  obtain larges where s: "sizes_ok r" and p: "parts_ok r (filter (small r) live)" and lv: "\<forall>b \<in> set live. fst b \<noteq> 0 \<and> ALIGNMENT dvd fst b \<and> snd b < 2 ^ 63"
    and la: "larges_ok r larges live" and h: "holds r h (larges @ others)" using i by (auto simp: region_inv_def)
  let ?n = "REGION_ALIGN_UP (object_size k)"
  show ?thesis
  proof (cases "?n < reg_large_object_size r")
    case False
    then have ns: "\<not> small r (a, k)" for a by (simp add: small_def)
    have ra: "region_alloc al k r h = Some (alloc_large al (object_size k) r h)" using False by (simp add: region_alloc_def Let_def)
    from alloc_large_spec [OF al h k ns] show ?thesis
    proof (elim exE disjE conjE)
      assume "alloc_large al (object_size k) r h = (None, r, h)"
      then show ?thesis using ra i by simp
    next
      fix r' h' l
      assume l: "alloc_large al (object_size k) r h = (Some (l + sizeof_large_elem), r', h')" "holds r' h' ((l, object_size k + sizeof_large_elem) # larges @ others)"
        "l \<noteq> 0" "ALIGNMENT dvd l + sizeof_large_elem" "reg_large_list r' = l # reg_large_list r" "sizes_ok r' = sizes_ok r"
        "\<forall>smalls. parts_ok r' smalls = parts_ok r smalls" "extent r' = extent r" "small r' = small r"
      have "larges_ok r' ((l, object_size k + sizeof_large_elem) # larges) ((l + sizeof_large_elem, k) # live)"
        using la l(5,8,9) ns extent_of(2) [OF ns] by (simp add: larges_ok_def)
      then have "region_inv r' h' ((l + sizeof_large_elem, k) # live) others"
        using l s p lv k ns by (intro region_invI [where larges = "(l, object_size k + sizeof_large_elem) # larges"]) simp_all
      then show ?thesis using ra l(1) by simp
    qed
  next
    case True
    then have sm: "small r (a, k)" for a by (simp add: small_def)
    have small_case: ?thesis if ra: "region_alloc al k r h = alloc_small al (object_size k) ?n r h"
    proof -
      obtain res r' h' where x: "alloc_small al (object_size k) ?n r h = Some (res, r', h')" "holds r' h' (larges @ others)" "sizes_ok r'" "settings r' = settings r"
        "case res of None \<Rightarrow> parts_ok r' (filter (small r) live) | Some a \<Rightarrow> a \<noteq> 0 \<and> ALIGNMENT dvd a \<and> parts_ok r' ((a, k) # filter (small r) live)"
        using alloc_small_spec [OF al h s p refl True k] by blast
      have e: "extent r' = extent r" "small r' = small r" "reg_large_list r' = reg_large_list r" using settings_extent [OF x(4)] x(4) by (simp_all add: settings_def)
      have "larges_ok r' larges live" "\<And>a. larges_ok r' larges ((a, k) # live)" using la e sm by (simp_all add: larges_ok_def)
      then have "case res of None \<Rightarrow> region_inv r' h' live others | Some a \<Rightarrow> region_inv r' h' ((a, k) # live) others"
        using x(2,3,5) e sm lv k by (cases res; simp; intro region_invI; simp)
      then show ?thesis using ra x(1) by simp
    qed
    show ?thesis
    proof (cases "reg_recycle_bin r")
      case None
      then show ?thesis using small_case True by (simp add: region_alloc_def Let_def)
    next
      case (Some bin)
      show ?thesis
      proof (cases "bin ?n")
        case Nil
        then show ?thesis using small_case True Some by (simp add: region_alloc_def Let_def)
      next
        case (Cons a bs)
        let ?r = "r\<lparr>reg_recycle_bin := Some (bin(?n := bs))\<rparr>"
        let ?r' = "?r\<lparr>reg_recycle_size := reg_recycle_size r - of_nat ?n, reg_unused_space := reg_unused_space r + of_nat (?n - object_size k)\<rparr>"
        have ra: "region_alloc al k r h = Some (Some a, ?r', h)" using Some Cons True by (simp add: region_alloc_def Let_def)
        note b = bin_take_parts [OF p Some Cons refl True]
        have "larges_ok ?r' larges ((a, k) # live)" using la sm by (simp add: larges_ok_def)
        moreover have "holds ?r' h (larges @ others)" using h Some by (simp add: holds_def own_blocks_def)
        ultimately have "region_inv ?r' h ((a, k) # live) others" using s b lv k sm by (intro region_invI) simp_all
        then show ?thesis using ra by simp
      qed
    qed
  qed
qed

lemma filter_remove1: "mset (filter P (remove1 b xs)) = mset (filter P xs) - (if P b \<and> b \<in> set xs then {#b#} else {#})"
  by (induction xs) auto

lemma region_recycle_spec:
  assumes i: "region_inv r h live others" and b: "(a, k) \<in> set live"
  shows "\<exists>r' h'. region_recycle a k r h = Some (r', h') \<and> region_inv r' h' (remove1 (a, k) live) others"
proof -
  obtain larges where s: "sizes_ok r" and p: "parts_ok r (filter (small r) live)" and lv: "\<forall>b \<in> set live. fst b \<noteq> 0 \<and> ALIGNMENT dvd fst b \<and> snd b < 2 ^ 63"
    and la: "larges_ok r larges live" and h: "holds r h (larges @ others)" using i by (auto simp: region_inv_def)
  have a: "a \<noteq> 0" "ALIGNMENT dvd a" "k < 2 ^ 63" using lv b by auto
  have lv': "\<forall>b \<in> set (remove1 (a, k) live). fst b \<noteq> 0 \<and> ALIGNMENT dvd fst b \<and> snd b < 2 ^ 63" using lv by (meson notin_set_remove1)
  let ?live = "remove1 (a, k) live"
  have sub: "mset (filter P ?live) \<subseteq># mset (filter P live)" for P unfolding filter_remove1 by simp
  have la': "larges_ok r larges ?live" using la sub [of "\<lambda>b. \<not> small r b"] image_mset_subseteq_mono subset_mset.order_trans
    unfolding larges_ok_def mset_map by blast
  show ?thesis
  proof (cases "reg_recycle_bin r")
    case None
    then have "region_recycle a k r h = Some (r, h)" by (simp add: region_recycle_def)
    moreover have "region_inv r h ?live others" using s parts_ok_mono [OF p sub] lv' la' h by (intro region_invI) simp_all
    ultimately show ?thesis by blast
  next
    case (Some bin)
    show ?thesis
    proof (cases "small r (a, k)")
      case True
      let ?r = "add_recycled (REGION_ALIGN_UP (object_size k)) a (object_size k) r"
      have "parts_ok r ((a, k) # filter (small r) ?live)" using True b by (intro parts_ok_mono [OF p]) (simp add: filter_remove1)
      then have "parts_ok ?r (filter (small r) ?live)" using add_recycled_parts [of r "(a, k)" "filter (small r) ?live" "object_size k"] True a by simp
      moreover have "small ?r = small r" "extent ?r = extent r" "settings ?r = settings r" "sizes_ok ?r = sizes_ok r" using Some by (simp_all add: add_recycled_def)
      moreover have "holds ?r h (larges @ others)" using h Some by (simp add: holds_def add_recycled_def own_blocks_def)
      moreover have "larges_ok ?r larges ?live" using la' Some by (simp add: larges_ok_def add_recycled_def)
      ultimately have "region_inv ?r h ?live others" using s lv' by (intro region_invI) simp_all
      then show ?thesis using region_recycle_small [OF a(1) Some True a(3)] by blast
    next
      case False
      let ?l = "a - sizeof_large_elem" and ?n = "object_size k + sizeof_large_elem"
      have e: "extent r (a, k) = (?l, ?n)" using False by (simp add: extent_def)
      have m: "mset (map (extent r) (filter (\<lambda>b. \<not> small r b) live)) = add_mset (?l, ?n) (mset (map (extent r) (filter (\<lambda>b. \<not> small r b) ?live)))"
      proof -
        have "mset (filter (\<lambda>b. \<not> small r b) live) = add_mset (a, k) (mset (filter (\<lambda>b. \<not> small r b) ?live))" using b False by (simp add: filter_remove1)
        then show ?thesis unfolding mset_map by (simp only: image_mset_add_mset e)
      qed
      then have in_l: "(?l, ?n) \<in> set larges" using la unfolding larges_ok_def by (metis insert_subset_eq_iff set_mset_mset)
      have mh: "mset h = add_mset (?l, ?n) (mset (own_blocks r @ chunks r @ remove1 (?l, ?n) larges @ others))"
        using h in_l by (simp add: holds_def)
      obtain h' where h': "mem_free ?l h = Some h'" "heap_ok h'" "mset h' = mset (own_blocks r @ chunks r @ remove1 (?l, ?n) larges @ others)"
        using mem_free_in [OF holds_heap [OF h] mh] by blast
      let ?r = "r\<lparr>reg_total_allocated := reg_total_allocated r - of_nat (object_size k), reg_large_objects := reg_large_objects r - 1,
                  reg_large_list := remove1 ?l (reg_large_list r)\<rparr>"
      have d: "distinct (map fst larges)"
      proof -
        have "mset (map fst h) = mset (map fst (own_blocks r @ chunks r @ larges @ others))" using h by (simp add: holds_def mset_map [symmetric] del: mset_map) (simp add: image_mset_union)
        then have "distinct (map fst (own_blocks r @ chunks r @ larges @ others))" using holds_heap [OF h] unfolding heap_ok_def by (metis mset_eq_imp_distinct_iff)
        then show ?thesis by simp
      qed
      have "map fst (remove1 (?l, ?n) larges) = remove1 ?l (map fst larges)" using in_l d
        by (induction larges) (auto simp: image_iff)
      then have lo: "larges_ok ?r (remove1 (?l, ?n) larges) ?live" using la m in_l by (simp add: larges_ok_def insert_subset_eq_iff)
      have "?l \<in> set (reg_large_list r)" using la in_l unfolding larges_ok_def by (metis fst_conv image_eqI list.set_map)
      then have "region_recycle a k r h = Some (?r, h')" using a(1) Some False h'(1) by (simp add: region_recycle_def Let_def small_def)
      moreover have "region_inv ?r h' ?live others" using s parts_ok_mono [OF p sub] lv' lo h'(2,3) 
        by (intro region_invI [where larges = "remove1 (?l, ?n) larges"]) (simp_all add: holds_def)
      ultimately show ?thesis by blast
    qed
  qed
qed

lemma run_cleanups_spec:
  assumes "heap_ok h" "mset h = mset (map (\<lambda>c. (snd c, n)) (filter (\<lambda>c. fst c = deallocator) cs)) + M"
  shows "\<exists>log' h'. run_cleanups cs h log = Some (log', h') \<and> heap_ok h' \<and> mset h' = M"
  using assms
proof (induction cs arbitrary: h log)
  case (Cons c cs)
  obtain act d where c: "c = (act, d)" by fastforce
  show ?case
  proof (cases act)
    case deallocator
    then obtain h1 where "mem_free d h = Some h1" "heap_ok h1" "mset h1 = mset (map (\<lambda>c. (snd c, n)) (filter (\<lambda>c. fst c = deallocator) cs)) + M"
      using mem_free_in [OF Cons.prems(1), of d n "mset (map (\<lambda>c. (snd c, n)) (filter (\<lambda>c. fst c = deallocator) cs)) + M"] Cons.prems(2) c by auto
    then show ?thesis using Cons.IH [of h1 log] c deallocator by simp
  next
    case (other_action k)
    then show ?thesis using Cons c by simp
  qed
qed simp

lemma region_free_all_spec:
  assumes i: "region_inv r h live others"
  shows "\<exists>log r' h'. region_free_all r h = Some (log, r', h') \<and> region_inv r' h' [] others \<and> reg_cleanups r' = [] \<and> reg_large_list r' = []"
proof -
  obtain larges where s: "sizes_ok r" and p: "parts_ok r (filter (small r) live)" and la: "larges_ok r larges live"
    and h: "holds r h (larges @ others)" using i by (auto simp: region_inv_def)
  let ?first = "if reg_chunk_size r > 0 then [(reg_initial_data r, reg_chunk_size r)] else []"
  let ?M = "mset larges + mset (own_blocks r @ ?first @ others)"
  have "mset h = mset (map (\<lambda>c. (snd c, reg_chunk_size r)) (filter (\<lambda>c. fst c = deallocator) (rev (reg_cleanups r)))) + ?M"
    using h by (simp add: holds_def chunks_def rev_filter [symmetric] rev_map [symmetric])
  from run_cleanups_spec [OF holds_heap [OF h] this] obtain log h1 where h1: "run_cleanups (rev (reg_cleanups r)) h [] = Some (log, h1)" "heap_ok h1" "mset h1 = ?M" by blast
  obtain h2 where h2: "mem_free_all (map fst larges) h1 = Some h2" "heap_ok h2" "mset h2 = mset (own_blocks r @ ?first @ others)"
    using mem_free_all_in [OF h1(2,3)] by blast
  let ?r0 = "if reg_recycle_bin r = None then r else r\<lparr>reg_recycle_bin := Some (\<lambda>_. []), reg_recycle_size := 0\<rparr>"
  let ?r = "?r0\<lparr>reg_large_list := [], reg_data := reg_initial_data r, reg_cleanups := [], reg_allocated := 0,
       reg_total_allocated := 0, reg_small_objects := 0, reg_large_objects := 0, reg_chunk_count := 1, reg_unused_space := 0\<rparr>"
  have f: "reg_chunk_size ?r = reg_chunk_size r" "reg_initial_data ?r = reg_initial_data r" "reg_data ?r = reg_initial_data r" "reg_allocated ?r = 0"
    "reg_large_list ?r = []" "reg_cleanups ?r = []" "sizes_ok ?r = sizes_ok r" "own_blocks ?r = own_blocks r" "chunks ?r = ?first"
    "reg_recycle_bin ?r = map_option (\<lambda>_ _. []) (reg_recycle_bin r)"
    by (cases "reg_recycle_bin r"; simp add: own_blocks_def chunks_def sizes_ok_def)+
  have "region_free_all r h = Some (log, ?r, h2)"
    using h1(1) h2(1) la by (cases "reg_recycle_bin r") (simp_all add: region_free_all_def Let_def larges_ok_def)
  moreover have "holds ?r h2 ([] @ others)" using h2(2,3) f(8,9) by (simp add: holds_def)
  moreover have "parts_ok ?r []"
  proof -
    have "bin_cover x ?r = 0" for x unfolding bin_cover_def f(10) by (cases "reg_recycle_bin r") simp_all
    moreover have "hit x (free_tail ?r) \<le> cover x (chunks ?r)" for x unfolding free_tail_def f by (simp add: hit_def)
    moreover have "\<forall>c \<in> set (chunks ?r). ALIGNMENT dvd fst c \<and> fst c \<noteq> 0" "reg_chunk_size r > 0 \<longrightarrow> reg_initial_data r \<noteq> 0"
      "ALIGNMENT dvd reg_initial_data r"
      using p s unfolding f(9) by (auto simp: parts_ok_def chunks_def sizes_ok_def split: if_splits)
    moreover have "\<forall>bin n a. reg_recycle_bin ?r = Some bin \<longrightarrow> a \<in> set (bin n) \<longrightarrow> a \<noteq> 0 \<and> ALIGNMENT dvd a" unfolding f(10) by auto
    ultimately show ?thesis unfolding parts_ok_def f(1,3,4) by simp
  qed
  moreover have "larges_ok ?r [] []" using f(5) by (simp add: larges_ok_def)
  moreover have "sizes_ok ?r" using s f(7) by simp
  ultimately show ?thesis using f(5,6) by (intro exI [of _ log] exI [of _ ?r] exI [of _ h2]) (auto intro!: region_invI [where larges = "[]"])
qed

lemma region_inv_cong:
  assumes "region_inv r h live others" "mset (chunks r') = mset (chunks r)" "mset h' = mset (own_blocks r' @ chunks r @ larges @ others)" "heap_ok h'"
    "larges_ok r larges live" "settings r' = settings r" "reg_recycle_bin r' = reg_recycle_bin r" "reg_data r' = reg_data r" "reg_allocated r' = reg_allocated r"
    "0 < reg_maximum_cleanup_count r'" "reg_initial_data r' = reg_initial_data r"
  shows "region_inv r' h' live others"
proof -
  have e: "extent r' = extent r" "small r' = small r" using settings_extent [OF assms(6)] by simp_all
  have p: "parts_ok r' smalls = parts_ok r smalls" for smalls
    using assms(2,6-9) by (intro parts_ok_cong) (simp_all add: settings_def)
  have "sizes_ok r'" "larges_ok r' larges live" using assms(1,5,6,10,11) e by (simp_all add: region_inv_def sizes_ok_def larges_ok_def settings_def)
  moreover have "holds r' h' (larges @ others)" using assms(2-4) by (simp add: holds_def)
  ultimately show ?thesis using assms(1) e p by (intro region_invI) (simp_all add: region_inv_def)
qed

lemma region_add_cleanup_inv:
  assumes "allocator_ok al" "region_inv r h live others"
  shows "\<exists>n r' h'. region_add_cleanup al (other_action k) d r h = Some (n, r', h') \<and> region_inv r' h' live others"
proof -
  obtain larges where la: "larges_ok r larges live" and h: "holds r h (larges @ others)" and s: "sizes_ok r" using assms(2) by (auto simp: region_inv_def)
  from region_add_cleanup_spec [OF assms(1) h s, of "other_action k" d] show ?thesis
  proof cases
    case 1
    then show ?thesis using assms(2) by blast
  next
    case (2 n c m h')
    let ?r = "r\<lparr>reg_cleanups := reg_cleanups r @ [(other_action k, d)], reg_cleanup_array := c, reg_maximum_cleanup_count := m\<rparr>"
    have "region_inv ?r h' live others" using 2(2-4) la chunks_add [where act = "other_action k" and r = r]
      by (intro region_inv_cong [OF assms(2), where larges = larges]) simp_all
    then show ?thesis using 2(1) by blast
  qed
qed

lemma take_out_mset: "\<not> P x \<Longrightarrow> mset (filter P (take_out x xs)) = mset (filter P xs)"
proof (induction xs)
  case (Cons y ys)
  show ?case
  proof (cases "x = y \<and> ys \<noteq> []")
    case True
    then have "mset (last ys # butlast ys) = mset ys" by (metis append_butlast_last_id mset_append mset.simps add_mset_add_single)
    then have "mset (filter P (last ys # butlast ys)) = mset (filter P ys)" by (metis mset_filter)
    then show ?thesis using True Cons.prems by simp
  next
    case False
    then show ?thesis using Cons by auto
  qed
qed simp

lemma region_remove_cleanup_inv:
  assumes "region_inv r h live others"
  shows "region_inv (region_remove_cleanup (other_action k) d r) h live others"
proof -
  obtain larges where la: "larges_ok r larges live" and h: "holds r h (larges @ others)" and s: "sizes_ok r" using assms by (auto simp: region_inv_def)
  let ?r = "region_remove_cleanup (other_action k) d r"
  have "mset (filter (\<lambda>c. fst c = deallocator) (take_out (other_action k, d) (reg_cleanups r))) = mset (filter (\<lambda>c. fst c = deallocator) (reg_cleanups r))"
    by (rule take_out_mset) simp
  then have "mset (chunks ?r) = mset (chunks r)" by (simp add: chunks_def region_remove_cleanup_def)
  moreover have "own_blocks ?r = own_blocks r" by (simp add: own_blocks_def region_remove_cleanup_def)
  ultimately show ?thesis using h la s
    by (intro region_inv_cong [OF assms, where larges = larges]) (simp_all add: holds_def sizes_ok_def, simp_all add: region_remove_cleanup_def)
qed

lemma foreign_alloc_inv:
  assumes "allocator_ok al" "region_inv r h live others" "mem_alloc al n h = (Some a, h')"
  shows "region_inv r h' live ((a, n) # others)"
proof -
  obtain larges where la: "larges_ok r larges live" and h: "holds r h (larges @ others)" using assms(2) by (auto simp: region_inv_def)
  have "holds r h' (larges @ (a, n) # others)" using h mem_alloc_ok(1,2) [OF assms(1) holds_heap [OF h] assms(3)] by (simp add: holds_def)
  then show ?thesis using assms(2) la by (auto simp: region_inv_def)
qed

lemma foreign_free_inv:
  assumes "region_inv r h live others" "(a, n) \<in> set others"
  shows "\<exists>h'. mem_free a h = Some h' \<and> region_inv r h' live (remove1 (a, n) others)"
proof -
  obtain larges where la: "larges_ok r larges live" and h: "holds r h (larges @ others)" using assms(1) by (auto simp: region_inv_def)
  have "mset h = add_mset (a, n) (mset (own_blocks r @ chunks r @ larges @ remove1 (a, n) others))" using h assms(2) by (simp add: holds_def)
  from mem_free_in [OF holds_heap [OF h] this] show ?thesis using assms(1) la by (auto simp: region_inv_def holds_def)
qed

lemma region_destroy_spec:
  assumes "region_inv r h live others"
  shows "\<exists>log h'. region_destroy r h = Some (log, h') \<and> mset h' = mset others"
proof -
  obtain log r1 h1 where r1: "region_free_all r h = Some (log, r1, h1)" "region_inv r1 h1 [] others" "reg_cleanups r1 = []" "reg_large_list r1 = []"
    using region_free_all_spec [OF assms] by blast
  obtain larges where la: "larges_ok r1 larges []" and h: "holds r1 h1 (larges @ others)" and s: "sizes_ok r1" using r1(2) by (auto simp: region_inv_def)
  have l: "larges = []" using la r1(4) by (simp add: larges_ok_def)
  let ?first = "if reg_chunk_size r1 > 0 then [(reg_initial_data r1, reg_chunk_size r1)] else []"
  let ?bin = "if reg_recycle_bin r1 = None then [] else [(reg_recycle_array r1, sizeof_recycle_ptr * reg_large_object_size r1)]"
  have m: "mset h1 = add_mset (reg_cleanup_array r1, reg_maximum_cleanup_count r1 * sizeof_cleanup) (mset (?first @ ?bin @ (reg_addr r1, sizeof_region) # others))"
    using h l r1(3) by (simp add: holds_def own_blocks_def chunks_def add_mset_commute union_commute)
  obtain h2 where h2: "mem_free (reg_cleanup_array r1) h1 = Some h2" "heap_ok h2" "mset h2 = mset (?first @ ?bin @ (reg_addr r1, sizeof_region) # others)"
    using mem_free_in [OF holds_heap [OF h] m] by blast
  obtain h3 where h3: "mem_free (reg_initial_data r1) h2 = Some h3" "heap_ok h3" "mset h3 = mset (?bin @ (reg_addr r1, sizeof_region) # others)"
  proof (cases "reg_chunk_size r1 > 0")
    case True
    then show thesis using that mem_free_in [OF h2(2), of "reg_initial_data r1" "reg_chunk_size r1" "mset (?bin @ (reg_addr r1, sizeof_region) # others)"] h2(3) by auto
  next
    case False
    then have "mem_free (reg_initial_data r1) h2 = Some h2" using s by (simp add: sizes_ok_def mem_free_def)
    then show thesis using that h2 False by simp
  qed
  obtain h4 where h4: "(if reg_recycle_bin r1 = None then Some h3 else mem_free (reg_recycle_array r1) h3) = Some h4" "heap_ok h4"
    "mset h4 = add_mset (reg_addr r1, sizeof_region) (mset others)"
  proof (cases "reg_recycle_bin r1 = None")
    case True
    then show thesis using that h3 by simp
  next
    case False
    then show thesis using that mem_free_in [OF h3(2), of "reg_recycle_array r1" "sizeof_recycle_ptr * reg_large_object_size r1"
        "add_mset (reg_addr r1, sizeof_region) (mset others)"] h3(3) by auto
  qed
  obtain h5 where "mem_free (reg_addr r1) h4 = Some h5" "mset h5 = mset others" using mem_free_in [OF h4(2,3)] by blast
  then show ?thesis using r1(1,4) h2(1) h3(1) h4(1) by (simp add: region_destroy_def)
qed

subsection \<open>New regions\<close>

lemma alloc_region_base_spec:
  assumes "allocator_ok al" "heap_ok h" "alloc_region_base al n h = Some (Some r, h')"
  shows "heap_ok h'" "mset h' = mset ((reg_addr r, sizeof_region) # (reg_cleanup_array r, n * sizeof_cleanup) # h)" "0 < n"
    "r = \<lparr>reg_addr = reg_addr r, reg_total_allocated = 0, reg_small_objects = 0, reg_large_objects = 0,
               reg_chunk_count = 1, reg_unused_space = 0, reg_allocated = 0, reg_initial_data = 0, reg_data = 0,
               reg_maximum_cleanup_count = n, reg_cleanup_array = reg_cleanup_array r, reg_cleanups = [], reg_large_list = [],
               reg_chunk_size = DEFAULT_CHUNK_SIZE, reg_large_object_size = DEFAULT_LARGE_OBJECT_SIZE, reg_recycle_array = 0,
               reg_recycle_bin = None, reg_recycle_size = 0\<rparr>"
proof -
  obtain a h1 c where a: "mem_alloc al sizeof_region h = (Some a, h1)" "mem_alloc al (n * sizeof_cleanup) h1 = (Some c, h')" "0 < n" and
    r: "r = \<lparr>reg_addr = a, reg_total_allocated = 0, reg_small_objects = 0, reg_large_objects = 0,
               reg_chunk_count = 1, reg_unused_space = 0, reg_allocated = 0, reg_initial_data = 0, reg_data = 0,
               reg_maximum_cleanup_count = n, reg_cleanup_array = c, reg_cleanups = [], reg_large_list = [],
               reg_chunk_size = DEFAULT_CHUNK_SIZE, reg_large_object_size = DEFAULT_LARGE_OBJECT_SIZE, reg_recycle_array = 0,
               reg_recycle_bin = None, reg_recycle_size = 0\<rparr>"
    using assms(3) by (auto simp: alloc_region_base_def Option.bind_eq_Some_conv split: prod.splits option.splits if_splits)
  note h1 = mem_alloc_ok [OF assms(1,2) a(1)] and h' = mem_alloc_ok [OF assms(1) _ a(2)]
  show "heap_ok h'" "mset h' = mset ((reg_addr r, sizeof_region) # (reg_cleanup_array r, n * sizeof_cleanup) # h)" "0 < n"
    using h1 h' a(3) r by (simp_all add: add_mset_commute)
  show "r = \<lparr>reg_addr = reg_addr r, reg_total_allocated = 0, reg_small_objects = 0, reg_large_objects = 0,
               reg_chunk_count = 1, reg_unused_space = 0, reg_allocated = 0, reg_initial_data = 0, reg_data = 0,
               reg_maximum_cleanup_count = n, reg_cleanup_array = reg_cleanup_array r, reg_cleanups = [], reg_large_list = [],
               reg_chunk_size = DEFAULT_CHUNK_SIZE, reg_large_object_size = DEFAULT_LARGE_OBJECT_SIZE, reg_recycle_array = 0,
               reg_recycle_bin = None, reg_recycle_size = 0\<rparr>" using r by simp
qed

text \<open>A region with nothing in use.\<close>

lemma empty_region_inv:
  assumes "sizes_ok r" "heap_ok h" "mset h = mset (own_blocks r @ chunks r @ others)" "reg_allocated r = 0" "reg_data r = reg_initial_data r"
    "reg_cleanups r = []" "reg_large_list r = []" "ALIGNMENT dvd reg_data r" "\<forall>bin n. reg_recycle_bin r = Some bin \<longrightarrow> bin n = []"
  shows "region_inv r h [] others"
proof -
  have c: "chunks r = (if reg_chunk_size r > 0 then [(reg_initial_data r, reg_chunk_size r)] else [])" using assms(6) by (simp add: chunks_def)
  have n: "fst b \<noteq> 0" if "b \<in> set (chunks r)" for b
  proof -
    have "b \<in> set h" using that mset_eq_setD [OF assms(3)] by simp
    then show ?thesis using assms(2) by (force simp: heap_ok_def)
  qed
  have "bin_cover x r = 0" for x using assms(9) by (cases "reg_recycle_bin r") (simp_all add: bin_cover_def)
  moreover have "hit x (free_tail r) \<le> cover x (chunks r)" for x using assms(4,5) c by (simp add: free_tail_def hit_def)
  moreover have "reg_chunk_size r > 0 \<Longrightarrow> reg_data r \<noteq> 0" using n c assms(5) by fastforce
  ultimately have "parts_ok r []" using assms(4,5,8,9) n c by (auto simp: parts_ok_def)
  then show ?thesis using assms by (intro region_invI [where larges = "[]"]) (simp_all add: larges_ok_def holds_def)
qed

lemma region_create_custom_spec:
  assumes al: "allocator_ok al" and h: "heap_ok h" and c: "region_create_custom al cs lo n recycle h = Some (Some r, h')" and cs: "cs < 2 ^ 63"
  shows "region_inv r h' [] h"
proof -
  obtain r0 h0 where r0: "alloc_region_base al n h = Some (Some r0, h0)" using c by (auto simp: region_create_custom_def Option.bind_eq_Some_conv split: option.splits)
  note b = alloc_region_base_spec [OF al h r0]
  let ?r = "r0\<lparr>reg_chunk_size := cs, reg_large_object_size := lo\<rparr>"
  have lo: "lo \<le> cs" using c r0 by (cases "lo \<le> cs") (simp_all add: region_create_custom_def)
  define X where "X = (if cs > 0 then alloc_first_chunk al ?r h0 else Some (Some ?r, h0))"
  let ?rest = "\<lambda>result h. case result of
           None \<Rightarrow> Some (None, h)
         | Some r \<Rightarrow>
             if \<not> recycle then Some (Some r, h)
             else (case mem_alloc al (sizeof_recycle_ptr * lo) h of
               (None, h) \<Rightarrow> do { (log, h) \<leftarrow> region_destroy r h; Some (None, h) }
             | (Some b, h) \<Rightarrow> Some (Some (r\<lparr>reg_recycle_array := b, reg_recycle_bin := Some (\<lambda>_. [])\<rparr>), h))"
  have X: "X \<bind> (\<lambda>(result, h). ?rest result h) = Some (Some r, h')"
    using c r0 lo unfolding X_def by (simp add: region_create_custom_def Let_def)
  then obtain res h1 where res: "X = Some (res, h1)" "?rest res h1 = Some (Some r, h')" by (auto simp: Option.bind_eq_Some_conv)
  then obtain r1 where r1: "X = Some (Some r1, h1)" "?rest (Some r1) h1 = Some (Some r, h')" by (cases res) simp_all
  have fin: "if \<not> recycle then r = r1 \<and> h' = h1 else (\<exists>ba. mem_alloc al (sizeof_recycle_ptr * lo) h1 = (Some ba, h') \<and>
      r = r1\<lparr>reg_recycle_array := ba, reg_recycle_bin := Some (\<lambda>_. [])\<rparr>)"
    using r1(2) by (auto simp: Option.bind_eq_Some_conv split: if_splits prod.splits option.splits)
  have f: "reg_recycle_bin r0 = None" "reg_cleanups r0 = []" "reg_large_list r0 = []" "reg_allocated r0 = 0" "reg_data r0 = 0" "reg_initial_data r0 = 0"
    "reg_maximum_cleanup_count r0 = n" using b(4) by (metis region.simps)+
  have r1': "\<exists>d. r1 = ?r\<lparr>reg_data := d, reg_initial_data := d\<rparr> \<and> heap_ok h1 \<and> ALIGNMENT dvd d \<and> (cs = 0 \<longrightarrow> d = 0) \<and>
     mset h1 = mset (own_blocks r1 @ chunks r1 @ h)"
  proof (cases "cs > 0")
    case True
    then obtain d where d: "mem_alloc al cs h0 = (Some d, h1)" "r1 = ?r\<lparr>reg_data := d, reg_initial_data := d\<rparr>"
      using r1(1) unfolding X_def by (auto simp: alloc_first_chunk_def Option.bind_eq_Some_conv split: prod.splits option.splits)
    note m = mem_alloc_ok [OF al b(1) d(1)]
    have "ALIGNMENT dvd d" using m(4) by (simp add: ALIGNMENT_def) presburger
    then show ?thesis using d(2) m(1,2) b(2) f True by (auto simp: own_blocks_def chunks_def)
  next
    case False
    then have "r1 = ?r" "h1 = h0" using r1(1) unfolding X_def by simp_all
    moreover have "?r\<lparr>reg_data := 0, reg_initial_data := 0\<rparr> = ?r" using f(5,6) by simp
    ultimately show ?thesis using b(1,2) f False by (intro exI [of _ 0]) (simp add: own_blocks_def chunks_def)
  qed
  then obtain d where d: "r1 = ?r\<lparr>reg_data := d, reg_initial_data := d\<rparr>" "heap_ok h1" "ALIGNMENT dvd d" "cs = 0 \<longrightarrow> d = 0"
    "mset h1 = mset (own_blocks r1 @ chunks r1 @ h)" by blast
  have s1: "sizes_ok r1" using d(1,4) lo cs b(3) f by (simp add: sizes_ok_def)
  show ?thesis
  proof (cases recycle)
    case False
    then have "r = r1" "h' = h1" using fin by simp_all
    then show ?thesis using d f s1 by (intro empty_region_inv) simp_all
  next
    case True
    then obtain ba where ba: "mem_alloc al (sizeof_recycle_ptr * lo) h1 = (Some ba, h')" "r = r1\<lparr>reg_recycle_array := ba, reg_recycle_bin := Some (\<lambda>_. [])\<rparr>"
      using fin by auto
    note m = mem_alloc_ok [OF al d(2) ba(1)]
    have "mset h' = mset (own_blocks r @ chunks r @ h)" using m(1) d(5) ba(2) d(1) f by (simp add: own_blocks_def chunks_def add_mset_commute)
    moreover have "sizes_ok r" using s1 ba(2) by (simp add: sizes_ok_def)
    ultimately show ?thesis using m(2) ba(2) d f by (intro empty_region_inv) simp_all
  qed
qed

lemma region_create_custom_default: "region_create al h = region_create_custom al DEFAULT_CHUNK_SIZE DEFAULT_LARGE_OBJECT_SIZE DEFAULT_INITIAL_CLEANUP_SIZE False h"
proof -
  have base: "r\<lparr>reg_chunk_size := DEFAULT_CHUNK_SIZE, reg_large_object_size := DEFAULT_LARGE_OBJECT_SIZE\<rparr> = r"
    if "alloc_region_base al DEFAULT_INITIAL_CLEANUP_SIZE h = Some (Some r, h')" for r h'
    using that by (auto simp: alloc_region_base_def Option.bind_eq_Some_conv split: prod.splits option.splits if_splits)
  have id: "x \<bind> (\<lambda>(res, h). case res of None \<Rightarrow> Some (None, h) | Some r \<Rightarrow> if \<not> False then Some (Some r, h) else f r h) = x"
    for x :: "(region option \<times> block list) option" and f
    by (cases x) (auto split: option.splits)
  have d: "DEFAULT_LARGE_OBJECT_SIZE \<le> DEFAULT_CHUNK_SIZE" "0 < DEFAULT_CHUNK_SIZE"
    by (simp_all add: DEFAULT_CHUNK_SIZE_def DEFAULT_LARGE_OBJECT_SIZE_def)
  show ?thesis
  proof (cases "alloc_region_base al DEFAULT_INITIAL_CLEANUP_SIZE h")
    case (Some p)
    obtain res h' where p: "p = (res, h')" by fastforce
    show ?thesis using Some base [of _ h'] d unfolding p
      by (cases res) (simp_all add: region_create_def region_create_custom_def id)
  qed (simp add: region_create_def region_create_custom_def)
qed

subsection \<open>What clients see\<close>

text \<open>
  The uses of a region: the blocks that clients have, and those that the rest of the program has from the same allocator. A client gives a block back with the size with
  which it got it, and sizes are below \<open>2\<^sup>63\<close>.
\<close>

inductive region_run :: "allocator \<Rightarrow> region \<Rightarrow> block list \<Rightarrow> block list \<Rightarrow> block list \<Rightarrow> bool" for al where
  create: "heap_ok h \<Longrightarrow> cs < 2 ^ 63 \<Longrightarrow> region_create_custom al cs lo n recycle h = Some (Some r, h') \<Longrightarrow> region_run al r h' [] h"
| alloc: "region_run al r h live others \<Longrightarrow> k < 2 ^ 63 \<Longrightarrow> region_alloc al k r h = Some (Some a, r', h') \<Longrightarrow> region_run al r' h' ((a, k) # live) others"
| alloc_fails: "region_run al r h live others \<Longrightarrow> k < 2 ^ 63 \<Longrightarrow> region_alloc al k r h = Some (None, r', h') \<Longrightarrow> region_run al r' h' live others"
| recycle: "region_run al r h live others \<Longrightarrow> (a, k) \<in> set live \<Longrightarrow> region_recycle a k r h = Some (r', h') \<Longrightarrow>
    region_run al r' h' (remove1 (a, k) live) others"
| add_cleanup: "region_run al r h live others \<Longrightarrow> region_add_cleanup al (other_action k) d r h = Some (n, r', h') \<Longrightarrow> region_run al r' h' live others"
| remove_cleanup: "region_run al r h live others \<Longrightarrow> region_run al (region_remove_cleanup (other_action k) d r) h live others"
| free_all: "region_run al r h live others \<Longrightarrow> region_free_all r h = Some (log, r', h') \<Longrightarrow> region_run al r' h' [] others"
| others_alloc: "region_run al r h live others \<Longrightarrow> mem_alloc al n h = (Some a, h') \<Longrightarrow> region_run al r h' live ((a, n) # others)"
| others_free: "region_run al r h live others \<Longrightarrow> (a, n) \<in> set others \<Longrightarrow> mem_free a h = Some h' \<Longrightarrow> region_run al r h' live (remove1 (a, n) others)"

lemma region_run_inv:
  assumes "region_run al r h live others" "allocator_ok al"
  shows "region_inv r h live others"
  using assms(1)
proof induction
  case create
  then show ?case using region_create_custom_spec [OF assms(2)] by blast
next
  case (alloc r h live others k a r' h')
  then show ?case using region_alloc_spec [OF assms(2) alloc.IH alloc.hyps(2)] by auto
next
  case (alloc_fails r h live others k r' h')
  then show ?case using region_alloc_spec [OF assms(2) alloc_fails.IH alloc_fails.hyps(2)] by auto
next
  case (recycle r h live others a k r' h')
  then show ?case using region_recycle_spec [OF recycle.IH recycle.hyps(2)] by auto
next
  case (add_cleanup r h live others k d n r' h')
  then show ?case using region_add_cleanup_inv [OF assms(2) add_cleanup.IH, of k d] by auto
next
  case (free_all r h live others log r' h')
  then show ?case using region_free_all_spec [OF free_all.IH] by auto
next
  case (others_alloc r h live others n a h')
  then show ?case using foreign_alloc_inv [OF assms(2)] by blast
next
  case (others_free r h live others a n h')
  then show ?case using foreign_free_inv [OF others_free.IH others_free.hyps(2)] by auto
qed (rule region_remove_cleanup_inv)

text \<open>The blocks of clients, with the blocks of the others.\<close>

lemma extent_covers:
  assumes "b \<in> set live" "region_inv r h live others"
  shows "hit x b \<le> hit x (extent r b)"
proof -
  have "snd b < 2 ^ 63" using assms by (auto simp: region_inv_def)
  note a = align_up(2) [OF this]
  have o: "snd b \<le> object_size (snd b)" by (simp add: object_size_def)
  show ?thesis using a o by (auto simp: hit_def extent_def)
qed

lemma live_cover:
  assumes "region_inv r h live others"
  shows "cover x (live @ others) \<le> cover x h" "heap_ok h"
proof -
  obtain larges where p: "parts_ok r (filter (small r) live)" and la: "larges_ok r larges live" and h: "holds r h (larges @ others)"
    using assms by (auto simp: region_inv_def)
  show "heap_ok h" using h by (rule holds_heap)
  have "\<forall>b \<in> set bs. b \<in> set live \<Longrightarrow> cover x bs \<le> cover x (map (extent r) bs)" for bs
    using extent_covers [OF _ assms, of _ x] by (induction bs) (simp_all add: add_le_mono)
  then have "cover x live \<le> cover x (map (extent r) live)" by simp
  also have "\<dots> = cover x (map (extent r) (filter (small r) live)) + cover x (map (extent r) (filter (\<lambda>b. \<not> small r b) live))"
    by (induction live) simp_all
  also have "\<dots> \<le> cover x (chunks r) + cover x larges"
  proof (rule add_mono)
    show "cover x (map (extent r) (filter (small r) live)) \<le> cover x (chunks r)" using p unfolding parts_ok_def by (metis add_leD1)
    show "cover x (map (extent r) (filter (\<lambda>b. \<not> small r b) live)) \<le> cover x larges" using la by (intro cover_sub) (simp add: larges_ok_def)
  qed
  finally have "cover x (live @ others) \<le> cover x (own_blocks r @ chunks r @ larges @ others)" by simp
  also have "\<dots> = cover x h" using h by (intro cover_mset) (simp add: holds_def)
  finally show "cover x (live @ others) \<le> cover x h" .
qed

text \<open>The functions that are called when a region is destroyed, in the order of the calls.\<close>

definition cleanup_calls :: "(cleanup_action \<times> addr) list \<Rightarrow> (nat \<times> addr) list" where
  "cleanup_calls cs = List.map_filter (\<lambda>(act, d). case act of deallocator \<Rightarrow> None | other_action n \<Rightarrow> Some (n, d)) (rev cs)"

lemma run_cleanups_log:
  "run_cleanups cs h log = Some (log', h') \<Longrightarrow>
     log' = log @ List.map_filter (\<lambda>(act, d). case act of deallocator \<Rightarrow> None | other_action n \<Rightarrow> Some (n, d)) cs"
  by (induction cs h log rule: run_cleanups.induct) (auto simp: Option.bind_eq_Some_conv List.map_filter_simps)

lemma region_destroy_log: "region_destroy r h = Some (log, h') \<Longrightarrow> log = cleanup_calls (reg_cleanups r)"
  by (auto simp: region_destroy_def region_free_all_def cleanup_calls_def Option.bind_eq_Some_conv Let_def dest!: run_cleanups_log)

text \<open>The blocks of clients are inside the memory that the program has.\<close>

lemma live_inside:
  assumes "region_inv r h live others" "b \<in> set live" "fst b \<le> x" "x < fst b + snd b"
  shows "\<exists>c \<in> set h. fst c \<le> x \<and> x < fst c + snd c"
proof -
  have "hit x b = 1" using assms(3,4) by (simp add: hit_def)
  then have "1 \<le> cover x (live @ others)" using cover_member [of b "live @ others" x] assms(2) by simp
  also have "\<dots> \<le> cover x h" by (rule live_cover [OF assms(1)])
  finally have "cover x h \<noteq> 0" by simp
  then show ?thesis by (auto simp: cover_def hit_def split: if_splits)
qed

lemma live_apart:
  assumes "region_inv r h live others" "i < j" "j < length (live @ others)"
  shows "apart ((live @ others) ! i) ((live @ others) ! j)"
proof (rule cover_apart [OF _ assms(2,3)], intro allI)
  fix x
  have "cover x (live @ others) \<le> cover x h" by (rule live_cover [OF assms(1)])
  also have "\<dots> \<le> 1" using live_cover(2) [OF assms(1)] by (simp add: heap_ok_def)
  finally show "cover x (live @ others) \<le> 1" .
qed

text \<open>An allocator that keeps its promise: it goes up to the next address behind everything in use.\<close>

definition bump_allocator :: allocator where
  "bump_allocator h n = Some (16 * (1 + (\<Sum>(a, k)\<leftarrow>h. a + k)))"

lemma bump_allocator_ok: "allocator_ok bump_allocator"
proof -
  have le: "a + k \<le> (\<Sum>(a, k)\<leftarrow>h. a + k)" if "(a, k) \<in> set h" for a k and h :: "block list"
    using that by (induction h) auto
  show ?thesis by (auto simp: allocator_ok_def bump_allocator_def apart_def dest!: le)
qed

lemmas region_eval = region_create_custom_def alloc_region_base_def alloc_first_chunk_def mem_alloc_def bump_allocator_def
  sizeof_region_def sizeof_cleanup_def sizeof_recycle_ptr_def sizeof_large_elem_def region_alloc_def object_size_def REGION_ALIGN_UP_def ALIGNMENT_def SIZE_BITS_def
  alloc_large_def alloc_small_def DEFAULT_CHUNK_SIZE_def DEFAULT_LARGE_OBJECT_SIZE_def

lemma bump_run: "\<exists>r h. region_run bump_allocator r h [(12751392, 50), (44048, 20)] []"
proof -
  have "\<exists>r0 h0 r1 h1 r2 h2. region_create_custom bump_allocator 64 32 1 True [] = Some (Some r0, h0) \<and>
    region_alloc bump_allocator 20 r0 h0 = Some (Some 44048, r1, h1) \<and> region_alloc bump_allocator 50 r1 h1 = Some (Some 12751392, r2, h2)"
    by (simp add: region_eval)
  then obtain r0 h0 r1 h1 r2 h2 where r: "region_create_custom bump_allocator 64 32 1 True [] = Some (Some r0, h0)"
    "region_alloc bump_allocator 20 r0 h0 = Some (Some 44048, r1, h1)" "region_alloc bump_allocator 50 r1 h1 = Some (Some 12751392, r2, h2)" by blast
  have "region_run bump_allocator r0 h0 [] []" by (rule region_run.create [OF _ _ r(1)]) (simp_all add: heap_ok_def)
  from region_run.alloc [OF region_run.alloc [OF this _ r(2)] _ r(3)] show ?thesis by auto
qed

text \<open>The bound on sizes is needed: near the end of the range the rounding wraps around, and no memory is set apart for the block.\<close>

lemma region_alloc_wraps:
  assumes "2 ^ 64 - 8 < s" "s < 2 ^ 64" "reg_recycle_bin r = None" "0 < reg_large_object_size r" "reg_allocated r \<le> reg_chunk_size r"
  shows "\<exists>r'. region_alloc al s r h = Some (Some (reg_data r + reg_allocated r), r', h) \<and> reg_allocated r' = reg_allocated r"
proof -
  have "(s + 8 - 1) mod 2 ^ 64 = s + 7 - 2 ^ 64" using assms(1,2) by (simp add: mod_if)
  then have "REGION_ALIGN_UP s = 0" using assms(1,2) by (simp add: REGION_ALIGN_UP_def ALIGNMENT_def SIZE_BITS_def)
  moreover have "object_size s = s" using assms(1) by (simp add: object_size_def)
  ultimately show ?thesis using assms by (simp add: region_alloc_def alloc_small_def)
qed

end
