(* ===== verification/Spec2Isabelle.thy ===== *)
theory Spec2Isabelle
  imports Axfr_Props Util Region_Spec
begin

text \<open>
  A verification development for NSD, an authoritative name server for the DNS. The sources are the C files under \<open>src/\<close>.

  \<^bold>\<open>The program.\<close> A server process receives a packet, \<open>query_process\<close> (\<open>query.c\<close>) parses it and dispatches on the opcode, the class
  and the type, and the answer is written into the same buffer. An answer is looked up in the name database (\<open>namedb.c\<close>), which is
  a tree of names (\<open>rbtree.c\<close>), collected as a list of RRsets (\<open>answer.c\<close>) and encoded with name compression (\<open>packet.c\<close>). A zone transfer
  (\<open>axfr.c\<close>) goes over the database in as many messages as it needs. Before that the packet is checked: EDNS (\<open>edns.c\<close>), TSIG (\<open>tsig.c\<close>),
  access control lists (\<open>options.c\<close>); after it the rate of the answers is limited (\<open>rrl.c\<close>), and \<open>query_add_optional\<close> appends the OPT and TSIG records.

  \<^bold>\<open>The theories\<close>, in the order in which they build on each other:
  \<^item> \<open>Nsd_Prelude\<close>: the machine types, byte arrays (\<open>mem_read\<close>, \<open>mem_write\<close>, \<open>mem_get\<close>), \<open>assert_c\<close>, and the shared lemmas.
  \<^item> \<open>Buffer\<close>: \<open>buffer.h\<close>, \<open>buffer.c\<close>. A record with position, limit, capacity and data; the invariant of \<open>buffer_invariant\<close> holds in
    every reachable buffer.
  \<^item> \<open>Dname\<close>, \<open>Dname_Wire\<close>: \<open>dname.h\<close>, \<open>dname.c\<close>. A name is a record with the octets and the label offsets as in the C structure;
    \<open>dname_of\<close> gives that structure for a list of labels, and the operations are shown to be those on lists of labels. Decoding from a packet is
    compared with the relation \<open>name_at\<close>, which says where which name is encoded.
  \<^item> \<open>Packet_Parse\<close>: the header of \<open>packet.h\<close> and the reading half of \<open>packet.c\<close>. The locale \<open>packet_reader\<close> has the
    contract of all parsers: they go forward, stay inside the packet and change nothing but the position. \<open>Dns_Types\<close>: \<open>dns.h\<close>, \<open>dns.c\<close>. \<open>Edns\<close>: \<open>edns.c\<close>.
  \<^item> \<open>Rbtree\<close>: \<open>rbtree.c\<close>. A position in the tree is a subtree with its context, where C has a node with parent pointers; the order is a
    parameter with laws, in the locale \<open>key_order\<close>, which is interpreted with the order of names.
  \<^item> \<open>Tsig\<close>: \<open>tsig.c\<close>. The HMAC functions of the cryptographic library are fields of the algorithm record; \<open>hmacs_incremental\<close> states that they
    compute one function of the concatenation of what they are given.
  \<^item> \<open>Namedb\<close>: \<open>namedb.c\<close>. Domains, RRsets and zones are in maps from identifiers, which stand for addresses. \<open>db_inv\<close> is the invariant.
  \<^item> \<open>Encode\<close>, \<open>Encode_Answer\<close>, \<open>Encode_Props\<close>: the query structure, the compression tables, and the encoders of \<open>packet.c\<close> and \<open>answer.c\<close>.
    \<open>grown\<close> relates the states before and after an encoder: the octets that were added have a meaning that is kept by whatever is appended.
  \<^item> \<open>Rrl\<close>, \<open>Acl\<close>, \<open>Policy_Props\<close>: \<open>rrl.c\<close> with \<open>lookup3.c\<close>, and the access control lists of \<open>options.c\<close>.
  \<^item> \<open>Query_Answer\<close>: the construction of an answer in \<open>query.c\<close>, from the lookup to the sections. \<open>Axfr\<close>: \<open>axfr.c\<close>.
  \<^item> \<open>Query\<close>: \<open>query_process\<close> and \<open>query_add_optional\<close>. \<open>Query_Spec\<close> and \<open>Query_Total\<close> show that parsing is total and what it accepts;
    \<open>Query_Props\<close> has the properties.
  \<^item> \<open>Axfr_Spec\<close>, \<open>Axfr_Props\<close>: what a zone transfer sends over all its messages.
  \<^item> \<open>Dname_Text\<close>: the text form of names. \<open>Util\<close>: the parts of \<open>util.c\<close> that compute.
  \<^item> \<open>Region\<close>, \<open>Region_Spec\<close>: \<open>region-allocator.c\<close>. The allocator of the program is a parameter; \<open>allocator_ok\<close> says that it gives out blocks apart from those in
    use. \<open>region_run\<close> has the uses of a region, and the blocks of clients never overlap and are never outside allocated memory.

  \<^bold>\<open>Conventions.\<close> A function that may fail an assertion, abort, or access memory outside its bounds has an option type, and \<^term>\<open>None\<close> is that outcome;
  theorems that a function returns \<^term>\<open>Some\<close> therefore also show that it does none of these. An error that C signals in the return value is a
  value of the result. State is passed explicitly. Integers have their width where they can wrap (\<open>u16\<close>, \<open>u32\<close>, \<open>u64\<close>); sizes and offsets
  that are bounded by a buffer are natural numbers. Loops are structural recursion or have a termination proof; where a bound is an argument
  (\<open>axfr_domains\<close>: the number of names in the table; the chain of CNAMEs in \<open>Query_Answer\<close>: the bound in the code) a theorem shows that it is enough, or the code has it.

  \<^bold>\<open>Configuration.\<close> Assertions are enabled; \<open>--disable-radix-tree\<close> and \<open>--disable-nsec3\<close>; minimal responses, rate limiting, IPv6 on Linux; a
  little-endian host. Statistics and logging are left out, and the query path does not model where in memory its data is.

  \<^bold>\<open>Not modelled.\<close> The processes, sockets and events (\<open>server.c\<close>, \<open>nsd.c\<close>, \<open>ipc.c\<close>, \<open>netio.c\<close>, \<open>mini_event.c\<close>) and the remote control
  (\<open>remote.c\<close>, \<open>nsd-control.c\<close>) are system calls with little logic of their own. The zone compiler (\<open>zonec.c\<close>, \<open>zparser.y\<close>), the configuration
  parser and the zone list of \<open>options.c\<close>, the on-disk database (\<open>udb.c\<close>, \<open>udbradtree.c\<close>, \<open>udbzone.c\<close>, \<open>dbaccess.c\<close>), the transfer files (\<open>difffile.c\<close>), the radix
  tree (\<open>radtree.c\<close>, not in this configuration) and NSEC3 (\<open>nsec3.c\<close>, likewise) are left for later.
\<close>

section \<open>Buffers and names\<close>



text \<open>C1: decoding a name from a packet ends without a failed assertion or an access outside the
  packet, for every packet (also one with pointer loops). It succeeds exactly when a name of
  at most 255 octets is encoded at the position, it returns that name and leaves the position just behind
  the encoding.\<close>

theorem dname_decoding:
  assumes "buffer_wf b" "buf_limit b \<le> MAX_PACKET_SIZE"
  shows "\<exists>r q. dname_make_from_packet b ap norm = Some (r, b\<lparr>buf_position := q\<rparr>) \<and> q \<le> buf_limit b \<and>
    (\<forall>d. r = Some d \<longleftrightarrow> (\<exists>k ls. name_at ap (take (buf_limit b) (buf_data b)) (buf_position b) k ls q \<and>
       length (wire ls) \<le> MAXDOMAINLEN \<and> d = dname_of (norm_labels norm ls)))"
proof (rule dname_make_from_packet_cases [OF assms, of ap norm])
  fix k ls e
  assume na: "name_at ap (take (buf_limit b) (buf_data b)) (buf_position b) k ls e" "valid_labels ls"
    and r: "e \<le> buf_limit b"
      "dname_make_from_packet b ap norm = Some (Some (dname_of (norm_labels norm ls)), b\<lparr>buf_position := e\<rparr>)"
  have "Some (dname_of (norm_labels norm ls)) = Some d \<longleftrightarrow>
      (\<exists>k ls. name_at ap (take (buf_limit b) (buf_data b)) (buf_position b) k ls e \<and>
       length (wire ls) \<le> MAXDOMAINLEN \<and> d = dname_of (norm_labels norm ls))" (is "?l d \<longleftrightarrow> ?r d") for d
  proof
    assume "?l d"
    then show "?r d" using na by (auto simp: valid_labels_def)
  next
    assume "?r d"
    then obtain k' ls' where n': "name_at ap (take (buf_limit b) (buf_data b)) (buf_position b) k' ls' e"
      "d = dname_of (norm_labels norm ls')" by blast
    then show "?l d" using name_at_det [OF na(1) n'(1)] by simp
  qed
  then show ?thesis using r by blast
qed blast

definition loop_packet :: buffer where
  "loop_packet = buffer_create_from [0xc0, 0, 1, 0x41, 0xc0, 6, 0] 7"

theorem dname_decoding_witness:
  "\<exists>q. dname_make_from_packet loop_packet True True = Some (None, loop_packet\<lparr>buf_position := q\<rparr>)"
proof -
  have loop: "name_at True p pos k ls e \<Longrightarrow> p = [0xc0, 0, 1, 0x41, 0xc0, 6, 0] \<Longrightarrow> pos = 0 \<Longrightarrow> False" for p pos k ls e
    by (induction rule: name_at.induct) (auto simp: pointer_target_def)
  have "\<not> name_at True (take (buf_limit loop_packet) (buf_data loop_packet)) (buf_position loop_packet) k ls e" for k ls e
    using loop [OF _ refl refl] by (auto simp: loop_packet_def buffer_create_from_def)
  moreover have "buffer_wf loop_packet" "buf_limit loop_packet \<le> MAX_PACKET_SIZE"
    by (simp_all add: loop_packet_def buffer_create_from_def buffer_wf_unfold MAX_PACKET_SIZE_def)
  ultimately show ?thesis using dname_decoding [of loop_packet True True] by (metis not_Some_eq)
qed

text \<open>C24: \<open>dname_compare\<close> orders names by their labels from the root down, each label as a
  string of octets: the canonical order of DNSSEC.\<close>

theorem dname_order_canonical:
  assumes "valid_labels a" "valid_labels b"
  shows "\<exists>c. dname_compare (dname_of a) (dname_of b) = Some c \<and> sgn c = ocmp (rev a) (rev b)"
  using assms by (rule dname_compare_ocmp)

theorem dname_order_canonical_witness:
  "\<exists>c. dname_compare (dname_of [[0x61], [0x62]]) (dname_of [[0x62]]) = Some c \<and> sgn c = 1"
  using dname_order_canonical [of "[[0x61], [0x62]]" "[[0x62]]"]
  by (simp add: valid_labels_def valid_label_def wire_def MAXLABELLEN_def MAXDOMAINLEN_def ocmp_def)

text \<open>C25: \<open>dname_is_subdomain\<close> decides whether one name ends with the other, and
  \<open>dname_label_match_count\<close> counts the labels that they share from the root, the root included.\<close>

theorem dname_relations:
  assumes "valid_labels a" "valid_labels b"
  shows "dname_is_subdomain (dname_of a) (dname_of b) = Some (suffix b a) \<and>
    dname_label_match_count (dname_of a) (dname_of b) = Some (1 + length (longest_common_prefix (rev a) (rev b)))"
  using dname_is_subdomain_suffix [OF assms] dname_label_match_count_lcp [OF assms] by blast

theorem dname_relations_witness:
  "dname_is_subdomain (dname_of [[0x61], [0x62]]) (dname_of [[0x62]]) = Some True"
  using dname_relations [of "[[0x61], [0x62]]" "[[0x62]]"]
  by (simp add: valid_labels_def valid_label_def wire_def MAXLABELLEN_def MAXDOMAINLEN_def suffix_def)

text \<open>C26: \<open>dname_replace\<close>, the substitution of a DNAME record, exchanges the ending \<open>src\<close> of a name
  for \<open>dest\<close>, and fails exactly when the result is longer than 255 octets.\<close>

theorem dname_replacement:
  assumes "valid_labels (x @ src)" "valid_labels src" "valid_labels dest"
  shows "dname_replace (dname_of (x @ src)) (dname_of src) (dname_of dest) =
    (if length (wire (x @ dest)) \<le> MAXDOMAINLEN then Some (Some (dname_of (x @ dest))) else Some None)"
  using assms by (rule dname_replace_labels)

theorem dname_replacement_witness:
  "dname_replace (dname_of ([[0x61]] @ [[0x62]])) (dname_of [[0x62]]) (dname_of [[0x63], [0x64]]) =
     Some (Some (dname_of [[0x61], [0x63], [0x64]]))"
  using dname_replacement [of "[[0x61]]" "[[0x62]]" "[[0x63], [0x64]]"]
  by (simp add: valid_labels_def valid_label_def wire_def MAXLABELLEN_def MAXDOMAINLEN_def)

text \<open>C31: the text form of an RR type is read back as that type, for all 65536 types.\<close>

theorem rrtype_text: "rrtype_from_string (rrtype_to_string t) = t"
  by (rule rrtype_string_roundtrip)

section \<open>Text and checksums\<close>

text \<open>C36: the text of a name, which has no more than 1275 octets with its terminator, is parsed as that name in lower case, whatever is in
  the array that the parser fills.\<close>

theorem dname_text_roundtrip:
  assumes "valid_labels ls" "length garbage = MAXDOMAINLEN"
  shows "\<exists>t. dname_to_string (dname_of ls) None = Some t \<and> dname_parse garbage t = Some (Some (dname_of (norm_labels True ls)))"
  using assms by (rule dname_parse_text)

theorem dname_text_roundtrip_witness:
  "\<exists>t. dname_to_string (dname_of [[0x41, 0x2e], [0]]) None = Some t \<and>
     dname_parse (replicate 255 7) t = Some (Some (dname_of [[0x61, 0x2e], [0]]))"
  using dname_text_roundtrip [of "[[0x41, 0x2e], [0]]" "replicate 255 7"]
  by (simp add: valid_labels_def valid_label_def MAXLABELLEN_def MAXDOMAINLEN_def norm_labels_def DNAME_NORMALIZE_def)

text \<open>C39: two uncompressed names of the same length in a packet compare as equal exactly when their labels are the same up to case.\<close>

theorem dname_nocase:
  assumes "valid_labels as" "valid_labels bs" "length (wire as) = length (wire bs)"
  shows "dname_equal_nocase (wire as @ r) (wire bs @ t) (length (wire as)) = Some (norm_labels True as = norm_labels True bs)"
  using assms dname_equal_nocase_labels by (simp add: valid_labels_def)

theorem dname_nocase_witness:
  "dname_equal_nocase (wire [[0x41]] @ [7]) (wire [[0x61]] @ [8]) 3 = Some True"
  using dname_nocase [of "[[0x41]]" "[[0x61]]" "[7]" "[8]"]
  by (simp add: valid_labels_def valid_label_def MAXLABELLEN_def MAXDOMAINLEN_def norm_labels_def DNAME_NORMALIZE_def numeral_3_eq_3)

text \<open>C38: the base 32 text of any octets is read back as these octets, when the target has room for one octet more; the number of octets that is
  returned is one too many unless it is a multiple of five.\<close>

theorem base32_roundtrip:
  assumes "8 * ((length src + 4) div 5) < targsize" "length src < tsize"
  shows "\<exists>t. b32_ntop src targsize = Some (Some t) \<and> b32_pton t tsize =
    Some (int (length src + (if length src mod 5 = 0 then 0 else 1)), src @ replicate (tsize - length src) 0)"
  using assms by (rule b32_pton_ntop)

theorem base32_roundtrip_witness:
  "\<exists>t. b32_ntop [0xff, 0] 9 = Some (Some t) \<and> b32_pton t 3 = Some (3, [0xff, 0, 0])"
  using base32_roundtrip [of "[0xff, 0]" 9 3] by simp

text \<open>C37: the checksum that is computed with the table is the remainder of the division by the polynomial, bit by bit.\<close>

theorem checksum_remainder: "compute_crc crc data = Some (foldl crc_octet crc data)"
  by (rule compute_crc_remainder)

section \<open>Reading packets\<close>

definition question_packet :: buffer where
  "question_packet = (buffer_create_from
     [0, 1, 0, 0, 0, 1, 0, 0, 0, 0, 0, 0,  1, 0x41, 0,  0, 6, 0, 1] 19)\<lparr>buf_position := 12\<rparr>"

lemma question_packet_wf: "buffer_wf question_packet" "buf_limit question_packet = 19" "buf_position question_packet = 12"
  "length (buf_data question_packet) = 19" "packet_ok question_packet"
  by (simp_all add: question_packet_def buffer_create_from_def buffer_wf_unfold packet_ok_def MAX_PACKET_SIZE_def)

text \<open>C15: the question section is accepted exactly when it is an uncompressed name of at most 255
  octets followed by a type and a class inside the packet, and then these are returned; otherwise the position
  is unchanged. No assertion fails.\<close>

theorem question_section:
  assumes "buffer_wf b" "buf_position b < length (buf_data b)"
  shows "packet_read_query_section b = Some r \<longleftrightarrow>
    (if \<exists>k ls e. name_at False (take (buf_limit b) (buf_data b)) (buf_position b) k ls e \<and>
          length (wire ls) \<le> MAXDOMAINLEN \<and> e + 4 \<le> buf_limit b
     then \<exists>k ls e. name_at False (take (buf_limit b) (buf_data b)) (buf_position b) k ls e \<and>
          r = (Some (wire ls, read_uint16 (mem_read e 2 (buf_data b)),
                     read_uint16 (mem_read (e + 2) 2 (buf_data b))), b\<lparr>buf_position := e + 4\<rparr>)
     else r = (None, b))"
  using assms by (rule packet_read_query_section_spec)

theorem question_section_witness:
  "packet_read_query_section question_packet =
     Some (Some ([1, 0x41, 0], 6, 1), question_packet\<lparr>buf_position := 19\<rparr>)"
proof -
  have na: "name_at False (take 19 (buf_data question_packet)) 12 1 [[0x41]] 15"
    using name_at_bytes [of 12 "[[0x41]]" "take 19 (buf_data question_packet)" False]
    by (simp add: question_packet_def buffer_create_from_def valid_label_def MAXLABELLEN_def wire_def bytes_at_def mem_read_def)
  have "length (wire [[0x41 :: byte]]) = 3" by (simp add: wire_def)
  then have ex: "\<exists>k ls e. name_at False (take 19 (buf_data question_packet)) 12 k ls e \<and>
      length (wire ls) \<le> MAXDOMAINLEN \<and> e + 4 \<le> 19"
    using na by (intro exI [of _ 1] exI [of _ "[[0x41]]"] exI [of _ 15]) (simp add: MAXDOMAINLEN_def)
  have "\<exists>k ls e. name_at False (take 19 (buf_data question_packet)) 12 k ls e \<and>
      (Some ([1, 0x41, 0], 6, 1), question_packet\<lparr>buf_position := 19\<rparr>) =
        (Some (wire ls, read_uint16 (mem_read e 2 (buf_data question_packet)),
           read_uint16 (mem_read (e + 2) 2 (buf_data question_packet))), question_packet\<lparr>buf_position := e + 4\<rparr>)"
    by (rule exI, rule exI, rule exI, rule conjI, rule na)
      (simp add: wire_def question_packet_def buffer_create_from_def mem_read_def read_uint16_def)
  then show ?thesis
    using question_section [of question_packet] ex by (simp add: question_packet_wf)
qed

text \<open>C20: \<open>packet_skip_dname\<close> leaves the position where the full decoder leaves it,
  for every name that can be decoded.\<close>

theorem skipping_agrees:
  assumes "name_at ap (take (buf_limit b) (buf_data b)) (buf_position b) k ls e" "buffer_wf b"
  shows "packet_skip_dname b = Some (True, b\<lparr>buf_position := e\<rparr>)"
  using packet_skip_dname_name_at [OF assms(1) refl refl assms(2)] .

lemma question_packet_name:
  "name_at False (take (buf_limit question_packet) (buf_data question_packet)) (buf_position question_packet) 1 [[0x41]] 15"
  using name_at_bytes [of 12 "[[0x41]]" "take 19 (buf_data question_packet)" False]
  by (simp add: question_packet_def buffer_create_from_def valid_label_def MAXLABELLEN_def wire_def bytes_at_def mem_read_def)

theorem skipping_agrees_witness:
  "packet_skip_dname question_packet = Some (True, question_packet\<lparr>buf_position := 15\<rparr>)"
  using skipping_agrees [OF question_packet_name question_packet_wf(1)] .

definition sample_tsig :: "byte list tsig_record" where
  "sample_tsig = \<lparr>tr_status = TSIG_OK, tr_position = 0, tr_response_count = 0, tr_updates_since_last_prepare = 0,
     tr_context = None, tr_algorithm = None, tr_key = None, tr_prior_mac_size = 0, tr_prior_mac_data = [],
     tr_key_name = Some (dname_of [[0x6b]]), tr_algorithm_name = Some (dname_of [[0x6d]]),
     tr_signed_time_high = 0, tr_signed_time_low = 7, tr_signed_time_fudge = 300, tr_mac_size = 2,
     tr_mac_data = Some [5, 6], tr_original_query_id = 9, tr_error_code = 0, tr_other_size = 0, tr_other_data = Some []\<rparr>"

text \<open>C21: looking for the serial of a notify and for the TSIG record ends for every packet with a
  header, without a failed assertion, and leaves the packet and its position as they were.\<close>

theorem searches_restore:
  assumes "packet_ok b" "QHEADERSZ \<le> buf_limit b"
  shows "(\<exists>serial. packet_find_notify_serial b = Some (serial, b)) \<and> (\<exists>r. tsig_find_rr tsig b = Some (r, b))"
  using packet_find_notify_serial_restores [OF assms] tsig_find_rr_restores [OF assms] by blast

theorem searches_restore_witness:
  "\<exists>serial. packet_find_notify_serial question_packet = Some (serial, question_packet)"
  using searches_restore [of question_packet sample_tsig] question_packet_wf by (simp add: QHEADERSZ_def)

text \<open>C23: parsing the options of an OPT record ends inside the record. The space that it reserves
  for options of the answer is at most that of one NSID option for every four octets of options.\<close>

theorem edns_options:
  assumes "buffer_wf b" "buf_position b + n \<le> buf_limit b"
  shows "\<exists>ok e' q. edns_option_loop nsid_len n b e = Some ((ok, e'), b\<lparr>buf_position := q\<rparr>) \<and>
      q \<le> buf_position b + n \<and> (ok \<longrightarrow> q = buf_position b + n) \<and>
      ed_opt_reserved_space e' \<le> ed_opt_reserved_space e + n div 4 * (OPT_HDR + nsid_len) \<and>
      ed_status e' = ed_status e \<and> ed_position e' = ed_position e"
  using edns_option_loop_wf [OF assms, of nsid_len e] by blast

theorem edns_options_witness:
  "\<exists>ok e' q. edns_option_loop 4 7 question_packet edns_init_record = Some ((ok, e'), question_packet\<lparr>buf_position := q\<rparr>) \<and>
     ed_opt_reserved_space e' \<le> 8"
  using edns_options [of question_packet 7 4 edns_init_record] question_packet_wf
  by (fastforce simp: edns_init_record_def OPT_HDR_def)

section \<open>TSIG\<close>

text \<open>C14: the TSIG record that \<open>tsig_append_rr\<close> writes is read back by \<open>tsig_parse_rr\<close> with every
  field as it was, when the names are in lower case and the other data has at most 16 octets.\<close>

theorem tsig_record_roundtrip:
  assumes "packet_ok b" "tsig_sendable t kl al mac od"
    and "buf_position b + length (tsig_rr_bytes t (wire kl) (wire al) mac od) \<le> buf_limit b"
    and "norm_labels True kl = kl" "norm_labels True al = al" "length od \<le> 16"
  shows "\<exists>b'. tsig_append_rr t b = Some b' \<and>
    tsig_parse_rr t0 (b'\<lparr>buf_position := buf_position b\<rparr>) = Some ((True, t0\<lparr>tr_status := TSIG_OK, tr_position := buf_position b,
      tr_key_name := tr_key_name t, tr_algorithm_name := tr_algorithm_name t,
      tr_signed_time_high := tr_signed_time_high t, tr_signed_time_low := tr_signed_time_low t,
      tr_signed_time_fudge := tr_signed_time_fudge t, tr_mac_size := tr_mac_size t, tr_mac_data := tr_mac_data t,
      tr_original_query_id := tr_original_query_id t, tr_error_code := tr_error_code t,
      tr_other_size := tr_other_size t, tr_other_data := tr_other_data t\<rparr>), b')"
proof -
  let ?bs = "tsig_rr_bytes t (wire kl) (wire al) mac od"
  let ?b' = "written b ?bs"
  have wf: "buffer_wf b" "buf_limit b \<le> MAX_PACKET_SIZE" using assms(1) by (simp_all add: packet_ok_def)
  have app: "tsig_append_rr t b = Some ?b'" using tsig_append_rr_spec [OF wf(1) assms(2,3)] .
  have ok: "packet_ok (?b'\<lparr>buf_position := buf_position b\<rparr>)"
    using wf assms(3) written_wf [OF wf(1) assms(3)] by (simp add: packet_ok_def)
  have at: "bytes_at (buf_position b) ?bs (buf_data ?b')" using bytes_at_written [OF wf(1) assms(3)] .
  have pos: "?b'\<lparr>buf_position := buf_position b + length ?bs\<rparr> = ?b'" by (simp add: written_def)
  show ?thesis
    using tsig_parse_rr_bytes [OF ok assms(2) _ _ assms(4-6), of t0] assms(2,3) at app pos
    by (simp add: tsig_sendable_def)
qed

definition empty_packet :: buffer where "empty_packet = buffer_create (\<lambda>_. 0) 64"

lemma empty_packet_ok: "packet_ok empty_packet" "buf_limit empty_packet = 64" "buf_position empty_packet = 0" "buffer_wf empty_packet"
  by (simp_all add: empty_packet_def buffer_create_def packet_ok_def buffer_wf_unfold MAX_PACKET_SIZE_def)

lemma sample_tsig_sendable: "tsig_sendable sample_tsig [[0x6b]] [[0x6d]] [5, 6] []"
  by (simp add: tsig_sendable_def sample_tsig_def valid_labels_def valid_label_def wire_def MAXLABELLEN_def MAXDOMAINLEN_def)

theorem tsig_record_roundtrip_witness:
  "\<exists>b'. tsig_append_rr sample_tsig empty_packet = Some b' \<and> (\<exists>t. tsig_parse_rr sample_tsig (b'\<lparr>buf_position := 0\<rparr>) = Some ((True, t), b'))"
  using tsig_record_roundtrip [OF empty_packet_ok(1) sample_tsig_sendable, of sample_tsig] empty_packet_ok
  by (simp add: length_tsig_rr_bytes norm_labels_def DNAME_NORMALIZE_def wire_def) blast

text \<open>C19: the space that \<open>tsig_reserved_space\<close> sets aside is enough for the record that is appended,
  when the MAC is no longer than the longest digest of the registered algorithms.\<close>

theorem tsig_space:
  assumes "buffer_wf b" "tsig_sendable t kl al mac od" "tr_status t \<noteq> TSIG_NOT_PRESENT"
    and "length mac \<le> ts_max_algo_digest_size st"
    and "buf_position b + tsig_reserved_space st t \<le> buf_limit b"
  shows "\<exists>b'. tsig_append_rr t b = Some b' \<and> buf_position b' \<le> buf_position b + tsig_reserved_space st t"
proof -
  have "length (tsig_rr_bytes t (wire kl) (wire al) mac od) \<le> tsig_reserved_space st t"
    using assms(2,3,4) by (simp add: length_tsig_rr_bytes tsig_reserved_space_def tsig_sendable_def dname_of_def)
  then show ?thesis using tsig_append_rr_spec [OF assms(1,2)] assms(5) by simp
qed

theorem tsig_space_witness:
  "\<exists>b'. tsig_append_rr sample_tsig empty_packet = Some b'"
  using tsig_space [OF empty_packet_ok(4) sample_tsig_sendable,
      of "\<lparr>ts_key_table = rbtree_create, ts_algorithm_table = [], ts_max_algo_digest_size = 20\<rparr>"] empty_packet_ok
  by (simp add: tsig_reserved_space_def sample_tsig_def dname_of_def wire_def) blast


definition sample_algorithm :: "byte list tsig_algorithm" where
  "sample_algorithm = \<lparr>ta_short_name = ''m'', ta_wireformat_name = dname_of [[0x6d]], ta_maximum_digest_size = 20,
     hmac_init_context = tk_data, hmac_update = (@), hmac_final = take 2\<rparr>"

lemma sample_algorithm_hmac: "hmac_incremental sample_algorithm (\<lambda>k d. take 2 (k @ d))"
proof -
  have "foldl (@) a ds = a @ concat ds" for a :: "byte list" and ds by (induction ds arbitrary: a) auto
  then show ?thesis by (simp add: hmac_incremental_def sample_algorithm_def)
qed


section \<open>The red-black tree\<close>

text \<open>C3: insertion into a valid red-black tree of names never fails an assertion, keeps the colour, order
  and count invariants, adds exactly the new element, and changes nothing when the name is there.\<close>

theorem tree_insert:
  fixes key :: "'a \<Rightarrow> dname"
  assumes "valid_rbtree wf_dname dname_rank key t" "wf_dname (key d)"
  shows "\<exists>t'. rbtree_insert dname_cmp key d t =
      Some (\<forall>x \<in> set (inorder (rb_root t)). dname_rank (key x) \<noteq> dname_rank (key d), t') \<and>
    valid_rbtree wf_dname dname_rank key t' \<and>
    (if \<exists>x \<in> set (inorder (rb_root t)). dname_rank (key x) = dname_rank (key d) then t' = t
     else \<exists>xs ys. inorder (rb_root t) = xs @ ys \<and> inorder (rb_root t') = xs @ d # ys)"
  using assms by (rule dname_order.rbtree_insert_spec)

lemma empty_tree_valid: "valid_rbtree wf_dname dname_rank key rbtree_create"
  by (simp add: valid_rbtree_def rbtree_create_def rb_tree_def ordered_def)

lemma sample_name_wf: "wf_dname (dname_of [[0x61]])"
proof -
  have "valid_labels [[0x61]]" by (simp add: valid_labels_def valid_label_def wire_def MAXLABELLEN_def MAXDOMAINLEN_def)
  then show ?thesis by (auto simp: wf_dname_def)
qed

theorem tree_insert_witness:
  "\<exists>t'. rbtree_insert dname_cmp id (dname_of [[0x61]]) rbtree_create = Some (True, t') \<and> inorder (rb_root t') = [dname_of [[0x61]]]"
  using tree_insert [OF empty_tree_valid, of id "dname_of [[0x61]]"] sample_name_wf
  by (auto simp: rbtree_create_def)

text \<open>C4: deletion from a valid red-black tree of names removes exactly the element with the name, keeps the
  invariants and returns the element, if there is one.\<close>

theorem tree_delete:
  fixes key :: "'a \<Rightarrow> dname"
  assumes "valid_rbtree wf_dname dname_rank key t" "wf_dname k"
  shows "\<exists>t'. rbtree_delete dname_cmp key k t = Some (rbtree_search dname_cmp key t k, t') \<and>
    valid_rbtree wf_dname dname_rank key t' \<and>
    inorder (rb_root t') = filter (\<lambda>x. dname_rank (key x) \<noteq> dname_rank k) (inorder (rb_root t)) \<and>
    (\<forall>x. rbtree_search dname_cmp key t k = Some x \<longleftrightarrow> x \<in> set (inorder (rb_root t)) \<and> dname_rank (key x) = dname_rank k)"
  using dname_order.rbtree_delete_spec [OF assms] dname_order.rbtree_search_spec [OF assms] by blast

theorem tree_delete_witness:
  "\<exists>t'. rbtree_delete dname_cmp id (dname_of [[0x61]]) (rbtree_create :: dname rbtree) = Some (None, t')"
  using tree_delete [OF empty_tree_valid sample_name_wf, of id] by (force simp: rbtree_create_def rbtree_search_def)

text \<open>C27: the walk with \<open>rbtree_first\<close> and \<open>rbtree_next\<close> visits each element of a valid tree once, in
  order, and the height of the tree is at most twice the logarithm of its size.\<close>

theorem tree_walk:
  assumes "valid_rbtree wf_dname dname_rank key t"
  shows "walk (rb_count t) (rbtree_first t) = Some (inorder (rb_root t)) \<and>
    2 ^ (rb_height (rb_root t) div 2) \<le> rb_count t + 1"
proof -
  have t: "rb_tree (rb_root t)" "rb_count t = length (inorder (rb_root t))"
    using assms by (simp_all add: valid_rbtree_def)
  then have "rb_height (rb_root t) \<le> 2 * bheight (rb_root t)"
    using rb_height_bheight [of "rb_root t"] by (simp add: rb_tree_def)
  then have "(2::nat) ^ (rb_height (rb_root t) div 2) \<le> 2 ^ bheight (rb_root t)"
    by (intro power_increasing) simp_all
  also have "\<dots> \<le> rb_count t + 1" using bheight_size [of "rb_root t"] t by (simp add: rb_tree_def)
  finally show ?thesis using walk_first [OF t(2)] by blast
qed

theorem tree_walk_witness:
  "walk 0 (rbtree_first (rbtree_create :: dname rbtree)) = Some []"
  using tree_walk [OF empty_tree_valid [of "id :: dname \<Rightarrow> dname"]] by (simp add: rbtree_create_def)

section \<open>The name database\<close>

text \<open>C2: looking a name up finds it exactly when it is in the table; the closest encloser is the
  longest ancestor of the name, itself included, that is in the table. No assertion fails.\<close>

theorem lookup_closest_encloser:
  assumes "db_ok db" "valid_labels ls"
  shows "\<exists>exact m ce cl. namedb_lookup db (dname_of ls) = Some (exact, m, ce) \<and>
    exact = (\<exists>d. named db ls d) \<and> named db cl ce \<and> suffix cl ls \<and>
    (\<forall>s d. named db s d \<longrightarrow> suffix s ls \<longrightarrow> suffix s cl)"
  unfolding namedb_lookup_def by (rule domain_table_search_spec [OF assms]) blast

theorem lookup_closest_encloser_witness:
  "\<exists>db m. domain_table_create = Some db \<and> namedb_lookup db (dname_of []) = Some (True, m, m)"
proof -
  obtain db where db: "domain_table_create = Some db" "db_inv db" "\<And>ls d. named db ls d \<longleftrightarrow> ls = [] \<and> d = 0"
    using domain_table_create_inv by blast
  have "db_ok db" using db(2) by (simp add: db_inv_def)
  from lookup_closest_encloser [OF this, of "[]"] obtain e m ce where
    "namedb_lookup db (dname_of []) = Some (e, m, ce)" "e" unfolding db(3) by auto
  then show ?thesis using db(1) by (auto simp: namedb_lookup_def domain_table_search_def bind_eq_Some_conv split: prod.splits if_splits)
qed

text \<open>C5: inserting a name into the domain table keeps the invariant of the database, adds
  the name and its missing ancestors and nothing else, and keeps every domain.\<close>

theorem table_insert:
  assumes "db_inv db" "valid_labels ls"
  shows "\<exists>r db'. domain_table_insert db (dname_of ls) = Some (r, db') \<and> db_inv db' \<and> named db' ls r \<and>
    (\<forall>s. (\<exists>d. named db' s d) \<longleftrightarrow> (\<exists>d. named db s d) \<or> suffix s ls) \<and>
    (\<forall>s d. named db s d \<longrightarrow> named db' s d)"
  using assms by (rule domain_table_insert_spec)

theorem table_insert_witness:
  "\<exists>db r db'. domain_table_create = Some db \<and> domain_table_insert db (dname_of [[0x61]]) = Some (r, db') \<and> named db' [[0x61]] r"
proof -
  obtain db where db: "domain_table_create = Some db" "db_inv db" using domain_table_create_inv by blast
  have "valid_labels [[0x61]]" by (simp add: valid_labels_def valid_label_def wire_def MAXLABELLEN_def MAXDOMAINLEN_def)
  from table_insert [OF db(2) this] db(1) show ?thesis by blast
qed



text \<open>C17: adding an RRset puts it at the end of the list of the domain, makes exactly the domain and its
  ancestors exist, and keeps the database invariant and all names.\<close>

theorem add_rrset_existing:
  assumes "db_inv db" "named db ls d" "existing_closed db ls" "db_domains db d = Some dm"
  shows "\<exists>db' dm'. domain_add_rrset db d r = Some db' \<and> db_inv db' \<and>
    (\<forall>s c. named db' s c \<longleftrightarrow> named db s c) \<and>
    (\<forall>s c. named db s c \<longrightarrow> (existing db' c \<longleftrightarrow> existing db c \<or> suffix s ls)) \<and>
    db_domains db' d = Some dm' \<and> dom_rrsets dm' = dom_rrsets dm @ [r]"
  using assms by (rule domain_add_rrset_spec)

theorem add_rrset_existing_witness:
  "\<exists>db db'. domain_table_create = Some db \<and> domain_add_rrset db 0 5 = Some db' \<and> existing db' 0"
proof -
  obtain db where db: "domain_table_create = Some db" "db_inv db" "\<And>ls d. named db ls d \<longleftrightarrow> ls = [] \<and> d = 0"
    using domain_table_create_inv by blast
  have n: "named db [] 0" using db(3) by simp
  have "db_ok db" using db(2) by (simp add: db_inv_def)
  then obtain dm where "db_domains db 0 = Some dm" using named_in_domains [OF _ n] by blast
  moreover have "existing_closed db []" by (simp add: existing_closed_def)
  ultimately show ?thesis using add_rrset_existing [OF db(2) n] db(1) n by blast
qed

section \<open>Memory regions\<close>

text \<open>C28: whatever a program does with a region, when the allocator gives out blocks that are apart from those in use: the blocks that clients
  have are aligned, not null, inside allocated memory, and apart from each other and from every block that others have; and no operation frees
  memory that is not allocated or fails an assertion.\<close>

theorem region_safety:
  assumes "allocator_ok al" "region_run al r h live others"
  shows "(\<forall>b \<in> set live. fst b \<noteq> 0 \<and> ALIGNMENT dvd fst b \<and>
       (\<forall>x. fst b \<le> x \<and> x < fst b + snd b \<longrightarrow> (\<exists>c \<in> set h. fst c \<le> x \<and> x < fst c + snd c))) \<and>
    (\<forall>i j. i < j \<longrightarrow> j < length (live @ others) \<longrightarrow> apart ((live @ others) ! i) ((live @ others) ! j)) \<and>
    (\<forall>k < 2 ^ 63. region_alloc al k r h \<noteq> None) \<and>
    (\<forall>(a, k) \<in> set live. region_recycle a k r h \<noteq> None) \<and>
    (\<forall>k d. region_add_cleanup al (other_action k) d r h \<noteq> None) \<and>
    region_free_all r h \<noteq> None"
proof -
  have i: "region_inv r h live others" using assms by (intro region_run_inv)
  show ?thesis
  proof (intro conjI allI ballI impI)
    show "apart ((live @ others) ! i) ((live @ others) ! j)" if "i < j" "j < length (live @ others)" for i j
      using i that by (rule live_apart)
    show "\<exists>c \<in> set h. fst c \<le> x \<and> x < fst c + snd c" if "b \<in> set live" "fst b \<le> x \<and> x < fst b + snd b" for b x
      using live_inside [OF i that(1)] that(2) by blast
    show "region_alloc al k r h \<noteq> None" if "k < 2 ^ 63" for k using region_alloc_spec [OF assms(1) i that] by auto
    show "case b of (a, k) \<Rightarrow> region_recycle a k r h \<noteq> None" if "b \<in> set live" for b
      using region_recycle_spec [OF i] that by (cases b) fastforce
    show "region_add_cleanup al (other_action k) d r h \<noteq> None" for k d using region_add_cleanup_inv [OF assms(1) i, of k d] by auto
    show "region_free_all r h \<noteq> None" using region_free_all_spec [OF i] by auto
  qed (use i in \<open>auto simp: region_inv_def\<close>)
qed


theorem region_safety_witness:
  "\<exists>r h. region_run bump_allocator r h [(12751392, 50), (44048, 20)] [] \<and> apart (12751392, 50) (44048, 20) \<and> region_recycle 44048 20 r h \<noteq> None"
proof -
  obtain r h where run: "region_run bump_allocator r h [(12751392, 50), (44048, 20)] []" using bump_run by blast
  note s = region_safety [OF bump_allocator_ok run]
  have "apart (12751392, 50) (44048, 20)" using spec [OF spec [OF conjunct1 [OF conjunct2 [OF s]], of 0], of 1] by simp
  moreover have "region_recycle 44048 20 r h \<noteq> None" using s by auto
  ultimately show ?thesis using run by blast
qed


end
